(* ===== verification/Prelude.thy ===== *)
theory Prelude
  imports Main "HOL-Library.Word"
begin

text \<open>
  Shared vocabulary of the development. A \<open>std::string\<close>, a \<open>std::string_view\<close> and a
  buffer \<open>[p, end)\<close> of \<open>unsigned char\<close> are lists of 8-bit words; wire integers keep
  their width (\<open>u16\<close>, \<open>u32\<close>, \<open>u64\<close>), so shifts truncate and sums wrap as they do in
  the code; positions and lengths of buffers held in memory are natural numbers. The
  theory also holds the searches of \<open>std::string_view\<close> (\<open>find\<close>, \<open>rfind\<close>) as total
  functions into \<open>option\<close>, with \<open>None\<close> for \<open>npos\<close>, and the lemmas the components
  share: splitting at a separator, trimming, and big-endian integers.
\<close>

unbundle bit_operations_syntax

type_synonym byte = "8 word"
type_synonym bytes = "8 word list"
type_synonym u16 = "16 word"
type_synonym u32 = "32 word"
type_synonym u64 = "64 word"

abbreviation ch :: "char \<Rightarrow> byte" where
  "ch c \<equiv> of_char c"

text \<open>The bytes the parsers compare with, by name.\<close>

abbreviation (input) c_slash :: byte where "c_slash \<equiv> 0x2f"
abbreviation (input) c_bslash :: byte where "c_bslash \<equiv> 0x5c"
abbreviation (input) c_dot :: byte where "c_dot \<equiv> 0x2e"
abbreviation (input) c_qmark :: byte where "c_qmark \<equiv> 0x3f"
abbreviation (input) c_hash :: byte where "c_hash \<equiv> 0x23"
abbreviation (input) c_percent :: byte where "c_percent \<equiv> 0x25"
abbreviation (input) c_colon :: byte where "c_colon \<equiv> 0x3a"
abbreviation (input) c_semi :: byte where "c_semi \<equiv> 0x3b"
abbreviation (input) c_comma :: byte where "c_comma \<equiv> 0x2c"
abbreviation (input) c_dash :: byte where "c_dash \<equiv> 0x2d"
abbreviation (input) c_star :: byte where "c_star \<equiv> 0x2a"
abbreviation (input) c_space :: byte where "c_space \<equiv> 0x20"
abbreviation (input) c_tab :: byte where "c_tab \<equiv> 0x09"
abbreviation (input) c_cr :: byte where "c_cr \<equiv> 0x0d"
abbreviation (input) c_lf :: byte where "c_lf \<equiv> 0x0a"

lemma named_bytes:
  "c_slash = ch CHR ''/''" "c_bslash = ch CHR 0x5C" "c_dot = ch CHR ''.''" "c_qmark = ch CHR ''?''"
  "c_hash = ch CHR ''#''" "c_percent = ch CHR ''%''" "c_colon = ch CHR '':''" "c_semi = ch CHR '';''"
  "c_comma = ch CHR '',''" "c_dash = ch CHR ''-''" "c_star = ch CHR ''*''" "c_space = ch CHR '' ''"
  "c_tab = ch CHR 0x09" "c_cr = ch CHR 0x0D" "c_lf = ch CHR 0x0A"
  by simp_all

definition bytes_of :: "string \<Rightarrow> bytes" where
  "bytes_of s = map of_char s"

named_theorems wire_defs \<open>definitions of encoders and decoders, unfolded together\<close>
named_theorems invar_intro \<open>preservation of the components' invariants\<close>

lemma bytes_of_Nil [simp]: "bytes_of [] = []"
  by (simp add: bytes_of_def)

lemma bytes_of_Cons [simp]: "bytes_of (c # s) = ch c # bytes_of s"
  by (simp add: bytes_of_def)

lemma length_bytes_of [simp]: "length (bytes_of s) = length s"
  by (simp add: bytes_of_def)


subsection \<open>Searching a view\<close>

text \<open>\<open>s.find(c)\<close>, and \<open>s.find(c, pos)\<close>.\<close>

fun find_byte :: "byte \<Rightarrow> bytes \<Rightarrow> nat option" where
  "find_byte c [] = None"
| "find_byte c (x # xs) = (if x = c then Some 0 else map_option Suc (find_byte c xs))"

definition find_from :: "byte \<Rightarrow> bytes \<Rightarrow> nat \<Rightarrow> nat option" where
  "find_from c s pos = map_option (\<lambda>i. pos + i) (find_byte c (drop pos s))"

text \<open>\<open>s.rfind(c)\<close>.\<close>

definition rfind_byte :: "byte \<Rightarrow> bytes \<Rightarrow> nat option" where
  "rfind_byte c s = map_option (\<lambda>i. length s - 1 - i) (find_byte c (rev s))"

lemma find_byte_None [simp]: "find_byte c s = None \<longleftrightarrow> c \<notin> set s"
  by (induction s) auto

lemma find_byte_SomeD:
  "find_byte c s = Some i \<Longrightarrow>
     i < length s \<and> s ! i = c \<and> c \<notin> set (take i s) \<and> take i s = takeWhile (\<lambda>x. x \<noteq> c) s"
proof (induction s arbitrary: i)
  case (Cons x xs)
  then show ?case by (cases i) (auto split: if_splits)
qed simp

lemma find_byte_append_None: "c \<notin> set s \<Longrightarrow> find_byte c (s @ t) = map_option (\<lambda>i. length s + i) (find_byte c t)"
proof (induction s)
  case Nil
  then show ?case by (simp add: option.map_ident)
next
  case (Cons x s)
  then show ?case by (auto simp: option.map_comp comp_def)
qed

lemma find_byte_hit: "c \<notin> set s \<Longrightarrow> find_byte c (s @ c # t) = Some (length s)"
  by (simp add: find_byte_append_None)

text \<open>A found separator splits the string: before it, the separator, after it.\<close>

lemma find_byte_split:
  assumes "find_byte c s = Some i"
  shows "s = take i s @ c # drop (Suc i) s"
proof -
  from find_byte_SomeD [OF assms] have "i < length s" and "s ! i = c" by auto
  then show ?thesis by (metis id_take_nth_drop)
qed

lemma find_byte_Some_iff:
  "find_byte c s = Some i \<longleftrightarrow> i < length s \<and> s ! i = c \<and> c \<notin> set (take i s)"
proof
  show "find_byte c s = Some i \<Longrightarrow> i < length s \<and> s ! i = c \<and> c \<notin> set (take i s)"
    using find_byte_SomeD by blast
next
  assume a: "i < length s \<and> s ! i = c \<and> c \<notin> set (take i s)"
  then have "s = take i s @ c # drop (Suc i) s" by (metis id_take_nth_drop)
  moreover have "find_byte c (take i s @ c # drop (Suc i) s) = Some (length (take i s))"
    using a by (intro find_byte_hit) simp
  ultimately show "find_byte c s = Some i" using a by simp
qed


subsection \<open>Splitting at a separator, writing into a buffer\<close>

fun split_on :: "byte \<Rightarrow> bytes \<Rightarrow> bytes list" where
  "split_on c [] = [[]]"
| "split_on c (x # xs) =
     (if x = c then [] # split_on c xs
      else case split_on c xs of [] \<Rightarrow> [[x]] | s # ss \<Rightarrow> (x # s) # ss)"

lemma split_on_not_Nil [simp]: "split_on c s \<noteq> []"
  by (induction s) (auto split: list.splits)

lemma split_on_append:
  "c \<notin> set s \<Longrightarrow> split_on c (s @ t) = (s @ hd (split_on c t)) # tl (split_on c t)"
  by (induction s) (auto split: list.splits)

lemma split_on_none: "c \<notin> set s \<Longrightarrow> split_on c s = [s]"
  using split_on_append [of c s "[]"] by simp

lemma split_on_sep: "c \<notin> set s \<Longrightarrow> split_on c (s @ c # t) = s # split_on c t"
  by (simp add: split_on_append)

lemma split_on_find:
  "split_on c s =
     (case find_byte c s of None \<Rightarrow> [s] | Some i \<Rightarrow> take i s # split_on c (drop (Suc i) s))"
proof (cases "find_byte c s")
  case None
  then have "c \<notin> set s" by simp
  with None show ?thesis by (simp add: split_on_none del: find_byte_None)
next
  case (Some i)
  from find_byte_split [OF Some] find_byte_SomeD [OF Some]
  have "split_on c s = take i s # split_on c (drop (Suc i) s)"
    by (metis split_on_sep)
  then show ?thesis by (simp add: Some)
qed

lemma split_on_no_sep: "s \<in> set (split_on c t) \<Longrightarrow> c \<notin> set s"
proof (induction t arbitrary: s)
  case (Cons x t)
  then show ?case by (cases "split_on c t") (auto split: if_splits)
qed simp

lemma split_on_elems: "s \<in> set (split_on c t) \<Longrightarrow> set s \<subseteq> set t"
proof (induction t arbitrary: s)
  case (Cons x t)
  then show ?case by (cases "split_on c t") (fastforce split: if_splits)+
qed simp

lemma split_on_Union: "\<Union> (set ` set (split_on c t)) \<subseteq> set t"
  by (auto dest: split_on_elems)

text \<open>\<open>memcpy(out + w, xs)\<close> over bytes the buffer already has.\<close>

definition overwrite :: "'a list \<Rightarrow> nat \<Rightarrow> 'a list \<Rightarrow> 'a list" where
  "overwrite out w xs = take w out @ xs @ drop (w + length xs) out"

lemma length_overwrite [simp]:
  "w + length xs \<le> length out \<Longrightarrow> length (overwrite out w xs) = length out"
  by (simp add: overwrite_def)

lemma take_overwrite:
  "w + length xs \<le> length out \<Longrightarrow> take (w + length xs) (overwrite out w xs) = take w out @ xs"
  by (simp add: overwrite_def)

lemma drop_overwrite:
  "w + length xs \<le> m \<Longrightarrow> w + length xs \<le> length out \<Longrightarrow> drop m (overwrite out w xs) = drop m out"
  by (simp add: overwrite_def)


subsection \<open>Words\<close>

lemma take_bit_of_less: "v < 2 ^ n \<Longrightarrow> take_bit n v = v" for v :: "'a::len word"
  by (simp add: take_bit_eq_mask less_mask_eq)

lemma less_of_take_bit: "take_bit n v = v \<Longrightarrow> n < LENGTH('a) \<Longrightarrow> v < 2 ^ n" for v :: "'a::len word"
  by (metis and_mask_less' take_bit_eq_mask)


subsection \<open>Big-endian integers\<close>

text \<open>
  The \<open>n\<close> low bytes of a word, most significant first, and the value of such bytes as a
  loop \<open>v = (v << 8) | p[i]\<close> accumulates it.
\<close>

fun be_bytes :: "nat \<Rightarrow> 'a::len word \<Rightarrow> bytes" where
  "be_bytes 0 v = []"
| "be_bytes (Suc n) v = ucast (drop_bit (8 * n) v) # be_bytes n v"

definition be_word :: "'a::len word \<Rightarrow> bytes \<Rightarrow> 'a word" where
  "be_word = foldl (\<lambda>v b. push_bit 8 v OR ucast b)"

lemma length_be_bytes [simp]: "length (be_bytes n v) = n"
  by (induction n) auto

lemma be_word_Nil [simp]: "be_word v [] = v"
  by (simp add: be_word_def)

lemma be_word_Cons [simp]: "be_word v (b # bs) = be_word (push_bit 8 v OR ucast b) bs"
  by (simp add: be_word_def)

lemma be_word_append [simp]: "be_word v (bs @ cs) = be_word (be_word v bs) cs"
  by (simp add: be_word_def)

lemma be_bytes_snoc: "be_bytes (Suc n) v = be_bytes n (drop_bit 8 v) @ [ucast v]"
proof (induction n)
  case (Suc n)
  have "be_bytes (Suc (Suc n)) v = ucast (drop_bit (8 * Suc n) v) # be_bytes (Suc n) v" by simp
  also have "be_bytes (Suc n) v = be_bytes n (drop_bit 8 v) @ [ucast v]" by (rule Suc.IH)
  finally show ?case by (simp add: drop_bit_drop_bit add.commute)
qed simp

text \<open>Reading back what was written keeps exactly the low \<open>8 * n\<close> bits.\<close>

lemma be_word_be_bytes:
  fixes v a :: "'a::len word"
  shows "be_word a (be_bytes n v) = push_bit (8 * n) a OR take_bit (8 * n) v"
proof (induction n arbitrary: v)
  case (Suc n)
  have "be_word a (be_bytes (Suc n) v)
      = push_bit 8 (push_bit (8 * n) a OR take_bit (8 * n) (drop_bit 8 v)) OR ucast (ucast v :: byte)"
    by (simp only: be_bytes_snoc be_word_append Suc.IH be_word_Cons be_word_Nil)
  also have "\<dots> = push_bit (8 * Suc n) a OR take_bit (8 * Suc n) v"
    by (rule bit_word_eqI) (auto simp: bit_simps)
  finally show ?case .
qed simp

lemma take_bit_be_word:
  fixes a :: "'a::len word"
  shows "take_bit m a = a \<Longrightarrow> take_bit (m + 8 * length bs) (be_word a bs) = be_word a bs"
proof (induction bs arbitrary: a m)
  case (Cons b bs)
  have bits: "bit a i \<Longrightarrow> i < m" for i using Cons.prems by (metis bit_take_bit_iff)
  have "take_bit (m + 8) (push_bit 8 a OR ucast b) = push_bit 8 a OR (ucast b :: 'a word)"
    by (rule bit_word_eqI) (auto simp: bit_simps dest: bits bit_imp_le_length)
  from Cons.IH [OF this] show ?case by (simp add: ac_simps)
qed simp

lemma not_le_of_less: "(a::'a::linorder) < b \<Longrightarrow> \<not> b \<le> a"
  by simp

lemma unat_drop_bit: "unat (drop_bit n w) = unat w div 2 ^ n" for w :: "'a::len word"
proof -
  have "take_bit LENGTH('a) (unat w) = unat w" by (intro take_bit_nat_eq_self) (rule unsigned_less)
  then show ?thesis unfolding unsigned_drop_bit_eq by (simp add: drop_bit_eq_div)
qed

lemma unat_take_bit: "unat (take_bit n w) = unat w mod 2 ^ n" for w :: "'a::len word"
  unfolding unsigned_take_bit_eq by (rule take_bit_eq_mod)

lemma unat_push_bit_less: "unat v * 2 ^ n < 2 ^ LENGTH('a) \<Longrightarrow> unat (push_bit n v) = unat v * 2 ^ n"
  for v :: "'a::len word"
  unfolding unsigned_push_bit_eq by (simp add: push_bit_eq_mult take_bit_nat_eq_self)

lemma unat_add_less: "unat v + unat w < 2 ^ LENGTH('a) \<Longrightarrow> unat (v + w) = unat v + unat w"
  for v w :: "'a::len word"
  by (simp add: unat_word_ariths)

lemma unat_ucast_less: "unat v < 2 ^ LENGTH('b) \<Longrightarrow> unat (ucast v :: 'b::len word) = unat v" for v :: "'a::len word"
  by (simp add: unsigned_ucast_eq take_bit_nat_eq_self)


subsection \<open>Sums over the values of a map\<close>

definition map_weight :: "('p \<Rightarrow> 'n::comm_monoid_add) \<Rightarrow> ('k \<rightharpoonup> 'p) \<Rightarrow> 'n" where
  "map_weight f m = (\<Sum>q\<in>dom m. f (the (m q)))"

lemma map_weight_empty [simp]: "map_weight f Map.empty = 0"
  by (simp add: map_weight_def)

lemma map_weight_add:
  assumes "finite (dom m)" "m q = None"
  shows "map_weight f (m(q \<mapsto> p)) = map_weight f m + f p"
proof -
  have "q \<notin> dom m" using assms(2) by auto
  moreover have "(\<Sum>x\<in>dom m. f (the ((m(q \<mapsto> p)) x))) = (\<Sum>x\<in>dom m. f (the (m x)))"
    using assms(2) by (intro sum.cong) auto
  ultimately show ?thesis using assms(1) by (simp add: map_weight_def add.commute)
qed

lemma map_weight_remove:
  assumes "finite (dom m)" "m q = Some p"
  shows "map_weight f m = map_weight f (m(q := None)) + f p"
  using map_weight_add [of "m(q := None)" q f p] assms map_upd_triv [of m q p] by simp

lemma map_weight_update:
  assumes "finite (dom m)" "m q = Some p"
  shows "map_weight f (m(q \<mapsto> p')) + f p = map_weight f m + f p'"
  using map_weight_add [of "m(q := None)" q f p'] map_weight_remove [OF assms, of f] assms(1) by (simp add: ac_simps)

end
