(* ===== verification/Paths.thy ===== *)
theory Paths
  imports Prelude
begin

text \<open>
  Request targets as paths (\<^verbatim>\<open>src/path.cpp\<close>). \<open>normalize_target\<close> is the code's
  two-way function: the fast path of \<open>plain_path\<close> for a target that needs no work, and
  otherwise percent-decoding followed by the in-place normalisation of the segments. The
  in-place loop works on one buffer with a write position \<open>w\<close> behind a read position
  \<open>r\<close>; it is shown to compute a stack of segments (\<open>resolve\<close>), from which the safety of
  every accepted path follows. The filters applied to a normalised path follow:
  \<open>has_hidden_segment\<close> and \<open>windows_path_ok\<close>.
\<close>

unbundle bit_operations_syntax


subsection \<open>The code\<close>

definition hex_val :: "byte \<Rightarrow> byte option" where
  "hex_val c =
     (if ch CHR ''0'' \<le> c \<and> c \<le> ch CHR ''9'' then Some (c - ch CHR ''0'')
      else if ch CHR ''a'' \<le> c \<and> c \<le> ch CHR ''f'' then Some (c - ch CHR ''a'' + 10)
      else if ch CHR ''A'' \<le> c \<and> c \<le> ch CHR ''F'' then Some (c - ch CHR ''A'' + 10)
      else None)"

definition is_ctl :: "byte \<Rightarrow> bool" where
  "is_ctl uc = (uc < 0x20 \<or> uc = 0x7f)"

fun plain_path_from :: "bytes \<Rightarrow> nat \<Rightarrow> nat option" where
  "plain_path_from [] i = Some i"
| "plain_path_from (c # cs) i =
     (if c = c_qmark \<or> c = c_hash then Some i
      else if c = c_percent \<or> is_ctl c then None
      else if c = c_slash \<and> cs \<noteq> [] \<and> (hd cs = c_slash \<or> hd cs = c_dot) then None
      else plain_path_from cs (Suc i))"

definition plain_path :: "bytes \<Rightarrow> nat option" where
  "plain_path target = plain_path_from target 0"

text \<open>
  Step 1: percent-decoding. \<open>is_ctl\<close> is the test for NUL and control characters, \<open>hex_pair\<close>
  the byte an escape stands for; the flag is \<open>*encoded_separator\<close>.
\<close>

definition hex_pair :: "byte \<Rightarrow> byte \<Rightarrow> byte option" where
  "hex_pair h l =
     (case (hex_val h, hex_val l) of (Some hi, Some lo) \<Rightarrow> Some (push_bit 4 hi OR lo) | _ \<Rightarrow> None)"

fun percent_decode :: "bytes \<Rightarrow> (bytes \<times> bool) option" where
  "percent_decode [] = Some ([], False)"
| "percent_decode (c # cs) =
     (if c = c_percent then
        (case cs of
           h # l # rest \<Rightarrow>
             (case hex_pair h l of
                Some d \<Rightarrow>
                  if is_ctl d then None
                  else map_option (\<lambda>(out, sep). (d # out, d = c_slash \<or> d = c_bslash \<or> sep))
                         (percent_decode rest)
              | None \<Rightarrow> None)
         | _ \<Rightarrow> None)
      else if is_ctl c then None
      else map_option (\<lambda>(out, sep). (c # out, sep)) (percent_decode cs))"

text \<open>
  Step 2: the segments, in place. \<open>back_to_slash\<close> is the inner \<open>while\<close> that drops the
  last segment; the \<open>--w\<close> after it never wraps, because the written prefix begins with a
  slash (\<open>back_to_slash_flat\<close> below).
\<close>

fun back_to_slash :: "bytes \<Rightarrow> nat \<Rightarrow> nat" where
  "back_to_slash out 0 = 0"
| "back_to_slash out (Suc w) =
     (if out ! w \<noteq> c_slash then back_to_slash out w else Suc w)"

definition place_segment :: "bytes \<Rightarrow> nat \<Rightarrow> nat \<Rightarrow> nat \<Rightarrow> bytes" where
  "place_segment out w r len =
     (let out1 = out[w := c_slash]
      in overwrite out1 (Suc w) (take len (drop r out1)))"

definition normalise_step :: "bytes \<Rightarrow> nat \<Rightarrow> nat \<Rightarrow> nat \<Rightarrow> (bytes \<times> nat \<times> bool) option" where
  "normalise_step out w r e =
     (let len = e - r in
      if len = 0 \<or> (len = 1 \<and> out ! r = c_dot) then Some (out, w, True)
      else if len = 2 \<and> out ! r = c_dot \<and> out ! (r + 1) = c_dot then
        (if w = 0 then None else Some (out, back_to_slash out w - 1, True))
      else Some (place_segment out w r len, w + 1 + len, False))"

function normalise_loop :: "nat \<Rightarrow> bytes \<Rightarrow> nat \<Rightarrow> nat \<Rightarrow> (bytes \<times> nat \<times> bool) option" where
  "normalise_loop n out w r =
     (let e = (case find_from c_slash out r of None \<Rightarrow> n | Some e \<Rightarrow> e)
      in case normalise_step out w r e of
           None \<Rightarrow> None
         | Some (out', w', dir) \<Rightarrow>
             if e \<ge> n then Some (out', w', dir) else normalise_loop n out' w' (e + 1))"
  by pat_completeness auto
termination
  by (relation "measure (\<lambda>(n, out, w, r). n - r)") (auto simp: find_from_def split: option.splits)

declare normalise_loop.simps [simp del]

definition strip_query :: "bytes \<Rightarrow> bytes" where
  "strip_query target =
     (let t = (case find_byte c_qmark target of None \<Rightarrow> target | Some q \<Rightarrow> take q target)
      in case find_byte c_hash t of None \<Rightarrow> t | Some h \<Rightarrow> take h t)"

definition normalize_target :: "bytes \<Rightarrow> (bytes \<times> bool) option" where
  "normalize_target target =
     (if target = [] \<or> hd target \<noteq> c_slash then None
      else case plain_path target of
        Some n \<Rightarrow> Some (take n target, False)
      | None \<Rightarrow>
          (case percent_decode (strip_query target) of
             None \<Rightarrow> None
           | Some (out, sep) \<Rightarrow>
               (case normalise_loop (length out) out 0 1 of
                  None \<Rightarrow> None
                | Some (out', w, dir) \<Rightarrow>
                    Some (take w out' @ (if w = 0 \<or> dir then [c_slash] else []), sep))))"

fun hidden_from :: "bytes \<Rightarrow> bool" where
  "hidden_from (a # b # rest) = (a = c_slash \<and> b = c_dot \<or> hidden_from (b # rest))"
| "hidden_from _ = False"

definition kWellKnown :: bytes where
  "kWellKnown = bytes_of ''/.well-known''"

definition has_hidden_segment :: "bytes \<Rightarrow> bool" where
  "has_hidden_segment path =
     hidden_from
       (if take (length kWellKnown) path = kWellKnown
           \<and> (length path = length kWellKnown \<or> path ! length kWellKnown = c_slash)
        then drop (length kWellKnown) path else path)"

definition upper :: "byte \<Rightarrow> byte" where
  "upper c = (if ch CHR ''a'' \<le> c \<and> c \<le> ch CHR ''z'' then c - 32 else c)"

definition device_base :: "bytes \<Rightarrow> bytes" where
  "device_base seg = (case find_byte c_dot seg of None \<Rightarrow> seg | Some dot \<Rightarrow> take dot seg)"

definition reserved_device_name :: "bytes \<Rightarrow> bool" where
  "reserved_device_name seg =
     (let base = device_base seg in
      case base of
        [a, b, c] \<Rightarrow> map upper [a, b, c] \<in>
          {bytes_of ''CON'', bytes_of ''PRN'', bytes_of ''AUX'', bytes_of ''NUL''}
      | [a, b, c, d] \<Rightarrow> ch CHR ''1'' \<le> d \<and> d \<le> ch CHR ''9'' \<and>
          map upper [a, b, c] \<in> {bytes_of ''COM'', bytes_of ''LPT''}
      | _ \<Rightarrow> False)"

definition windows_segment_ok :: "bytes \<Rightarrow> bool" where
  "windows_segment_ok seg =
     (seg = [] \<or> (last seg \<noteq> c_dot \<and> last seg \<noteq> c_space \<and> \<not> reserved_device_name seg))"

fun windows_loop :: "bytes \<Rightarrow> bytes \<Rightarrow> bool" where
  "windows_loop seg [] = windows_segment_ok seg"
| "windows_loop seg (c # cs) =
     (if c \<noteq> c_slash then
        (if c = c_bslash \<or> c = c_colon then False else windows_loop (seg @ [c]) cs)
      else windows_segment_ok seg \<and> windows_loop [] cs)"

definition windows_path_ok :: "bytes \<Rightarrow> bool" where
  "windows_path_ok path = windows_loop [] path"


subsection \<open>The specification: a stack of segments\<close>

definition resolve_step :: "bytes \<Rightarrow> bytes list \<Rightarrow> (bytes list \<times> bool) option" where
  "resolve_step s st =
     (if s = [] \<or> s = [c_dot] then Some (st, True)
      else if s = [c_dot, c_dot] then (case st of [] \<Rightarrow> None | _ # st' \<Rightarrow> Some (st', True))
      else Some (s # st, False))"

fun resolve :: "bytes list \<Rightarrow> bytes list \<Rightarrow> bool \<Rightarrow> (bytes list \<times> bool) option" where
  "resolve [] st dir = Some (rev st, dir)"
| "resolve (s # ss) st dir =
     (case resolve_step s st of None \<Rightarrow> None | Some (st', d) \<Rightarrow> resolve ss st' d)"

definition flat :: "bytes list \<Rightarrow> bytes" where
  "flat segs = concat (map (\<lambda>s. c_slash # s) segs)"

definition render :: "bytes list \<times> bool \<Rightarrow> bytes" where
  "render = (\<lambda>(segs, dir). flat segs @ (if segs = [] \<or> dir then [c_slash] else []))"

definition normalize_spec :: "bytes \<Rightarrow> (bytes \<times> bool) option" where
  "normalize_spec target =
     (if target = [] \<or> hd target \<noteq> c_slash then None
      else case percent_decode (strip_query target) of
        None \<Rightarrow> None
      | Some (out, sep) \<Rightarrow>
          map_option (\<lambda>res. (render res, sep)) (resolve (split_on c_slash (tl out)) [] False))"

text \<open>A segment that may stand in a resolved path.\<close>

definition proper_segment :: "bytes \<Rightarrow> bool" where
  "proper_segment s \<longleftrightarrow>
     s \<noteq> [] \<and> s \<noteq> [c_dot] \<and> s \<noteq> [c_dot, c_dot] \<and> c_slash \<notin> set s"

lemma flat_Nil [simp]: "flat [] = []"
  by (simp add: flat_def)

lemma flat_snoc [simp]: "flat (segs @ [s]) = flat segs @ c_slash # s"
  by (simp add: flat_def)

lemma flat_Cons [simp]: "flat (s # segs) = c_slash # s @ flat segs"
  by (simp add: flat_def)

lemma flat_eq_Nil [simp]: "flat segs = [] \<longleftrightarrow> segs = []"
  by (cases segs) auto


subsection \<open>The in-place loop computes the stack\<close>

lemma back_to_slash_hit:
  assumes "take w out = p @ c_slash # s" and "c_slash \<notin> set s" and "w \<le> length out"
  shows "back_to_slash out w = Suc (length p)"
  using assms
proof (induction s arbitrary: w rule: rev_induct)
  case Nil
  then have w: "w = Suc (length p)" by (metis length_append_singleton length_take min.absorb2)
  have "out ! length p = take w out ! length p" by (simp add: w)
  also have "\<dots> = c_slash" by (simp add: Nil.prems(1))
  finally show ?case by (simp add: w)
next
  case (snoc x s)
  from snoc.prems obtain v where w: "w = Suc v" by (cases w) auto
  have len: "v = length p + 1 + length s"
    using arg_cong [OF snoc.prems(1), of length] snoc.prems(3) by (simp add: w)
  have "out ! v = take w out ! v" by (simp add: w)
  also have "\<dots> = x" by (simp add: snoc.prems(1) len nth_append)
  finally have "out ! v = x" .
  moreover have "take v out = p @ c_slash # s"
    using arg_cong [OF snoc.prems(1), of "take v"] by (simp add: w len)
  ultimately show ?case using snoc.IH [of v] snoc.prems by (auto simp: w)
qed

lemma place_segment_facts:
  assumes "w < r" and "r + len \<le> length out" and "out' = place_segment out w r len"
  shows "length out' = length out"
    and "take (w + 1 + len) out' = take w out @ c_slash # take len (drop r out)"
    and "drop (r + len) out' = drop (r + len) out"
proof -
  let ?o = "out[w := c_slash]"
  have seg: "take len (drop r ?o) = take len (drop r out)" using assms(1) by simp
  have l: "length (take len (drop r out)) = len" using assms(2) by simp
  have out': "out' = overwrite ?o (Suc w) (take len (drop r out))"
    by (simp only: assms(3) place_segment_def Let_def seg)
  have fit: "Suc w + length (take len (drop r out)) \<le> length ?o" using assms(1,2) l by simp
  show "length out' = length out" using fit by (simp add: out')
  have "take (Suc w + length (take len (drop r out))) out' = take (Suc w) ?o @ take len (drop r out)"
    unfolding out' using fit by (rule take_overwrite)
  moreover have "take (Suc w) ?o = take w out @ [c_slash]"
    using assms(1,2) by (simp add: take_Suc_conv_app_nth)
  ultimately show "take (w + 1 + len) out' = take w out @ c_slash # take len (drop r out)"
    using assms(2) by (simp add: min_absorb2)
  have "Suc w + length (take len (drop r out)) \<le> r + len" using assms(1) l by simp
  then have "drop (r + len) out' = drop (r + len) ?o"
    unfolding out' using fit by (intro drop_overwrite)
  then show "drop (r + len) out' = drop (r + len) out" using assms(1) by simp
qed

lemma resolve_dir: "ss \<noteq> [] \<Longrightarrow> resolve ss st d = resolve ss st d'"
  by (cases ss) auto

lemma proper_segmentI:
  "s \<noteq> [] \<Longrightarrow> s \<noteq> [c_dot] \<Longrightarrow> s \<noteq> [c_dot, c_dot] \<Longrightarrow> c_slash \<notin> set s \<Longrightarrow> proper_segment s"
  by (simp add: proper_segment_def)

lemma resolve_step_proper:
  "resolve_step s st = Some (st', d) \<Longrightarrow> c_slash \<notin> set s \<Longrightarrow>
     \<forall>x\<in>set st. proper_segment x \<Longrightarrow> \<forall>x\<in>set st'. proper_segment x"
  by (auto simp: resolve_step_def split: if_splits list.splits intro: proper_segmentI)

lemma dot_shapes:
  assumes "seg = take len (drop r out)" and "r + len \<le> length out"
  shows "seg = [] \<longleftrightarrow> len = 0"
    and "seg = [c_dot] \<longleftrightarrow> len = 1 \<and> out ! r = c_dot"
    and "seg = [c_dot, c_dot] \<longleftrightarrow> len = 2 \<and> out ! r = c_dot \<and> out ! (r + 1) = c_dot"
proof -
  have len: "length seg = len" using assms by simp
  have nth: "seg ! i = out ! (r + i)" if "i < len" for i using that assms by simp
  have one: "seg = [c] \<longleftrightarrow> length seg = 1 \<and> seg ! 0 = c" for c by (cases seg) auto
  have two: "seg = [c, d] \<longleftrightarrow> length seg = 2 \<and> seg ! 0 = c \<and> seg ! 1 = d" for c d
    by (auto simp: numeral_2_eq_2 length_Suc_conv)
  show "seg = [] \<longleftrightarrow> len = 0" using len by auto
  show "seg = [c_dot] \<longleftrightarrow> len = 1 \<and> out ! r = c_dot"
    unfolding one len using nth [of 0] by auto
  show "seg = [c_dot, c_dot] \<longleftrightarrow> len = 2 \<and> out ! r = c_dot \<and> out ! (r + 1) = c_dot"
    unfolding two len using nth [of 0] nth [of 1] by auto
qed

text \<open>One turn of the loop is one step of the stack; what is still to be read is untouched.\<close>

lemma normalise_step_sim:
  assumes "w < r" "r \<le> e" "e \<le> length out" and fl: "take w out = flat (rev st)"
    and ok: "\<forall>x\<in>set st. proper_segment x"
    and seg: "seg = take (e - r) (drop r out)"
  shows "case resolve_step seg st of
           None \<Rightarrow> normalise_step out w r e = None
         | Some (st', d) \<Rightarrow> \<exists>out' w'. normalise_step out w r e = Some (out', w', d)
             \<and> length out' = length out \<and> w' \<le> e
             \<and> take w' out' = flat (rev st') \<and> drop e out' = drop e out"
proof -
  let ?len = "e - r"
  have in_range: "r + ?len \<le> length out" and wl: "w \<le> length out" using assms(1-3) by auto
  note shapes = dot_shapes [OF seg in_range]
  consider (stay) "seg = [] \<or> seg = [c_dot]" | (up) "seg = [c_dot, c_dot]"
    | (down) "seg \<noteq> []" "seg \<noteq> [c_dot]" "seg \<noteq> [c_dot, c_dot]" by blast
  then show ?thesis
  proof cases
    case stay
    then show ?thesis using shapes assms by (auto simp: resolve_step_def normalise_step_def Let_def)
  next
    case up
    show ?thesis
    proof (cases st)
      case Nil
      then have "w = 0" using fl wl assms(1) by auto
      then show ?thesis using up shapes Nil by (simp add: resolve_step_def normalise_step_def Let_def)
    next
      case (Cons s st')
      have tw: "take w out = flat (rev st') @ c_slash # s" using fl Cons by simp
      have b: "back_to_slash out w = Suc (length (flat (rev st')))"
        using tw ok wl Cons by (intro back_to_slash_hit [where s = s]) (auto simp: proper_segment_def)
      have w: "w = Suc (length (flat (rev st')) + length s)"
        using arg_cong [OF tw, of length] wl by simp
      have "take (length (flat (rev st'))) out = take (length (flat (rev st'))) (take w out)"
        by (simp add: w)
      then have "take (length (flat (rev st'))) out = flat (rev st')" by (simp add: tw)
      then show ?thesis using up shapes Cons b w assms
        by (auto simp: resolve_step_def normalise_step_def Let_def)
    qed
  next
    case down
    note facts = place_segment_facts [OF assms(1) in_range refl]
    have "normalise_step out w r e = Some (place_segment out w r ?len, w + 1 + ?len, False)"
      using down shapes by (auto simp: normalise_step_def Let_def)
    moreover have "take (w + 1 + ?len) (place_segment out w r ?len) = flat (rev (seg # st))"
      using facts(2) fl seg by simp
    ultimately show ?thesis using down facts(1,3) assms
      by (simp add: resolve_step_def)
  qed
qed

lemma normalise_loop_resolve:
  assumes "n = length out" "r \<le> n" "w < r" "take w out = flat (rev st)" "\<forall>x\<in>set st. proper_segment x"
  shows "map_option (\<lambda>(out', w', dir). (take w' out', w', dir)) (normalise_loop n out w r)
       = map_option (\<lambda>(segs, dir). (flat segs, length (flat segs), dir))
           (resolve (split_on c_slash (drop r out)) st dir)"
  using assms
proof (induction n out w r arbitrary: st dir rule: normalise_loop.induct)
  case (1 n out w r)
  define e where "e = (case find_from c_slash out r of None \<Rightarrow> n | Some e \<Rightarrow> e)"
  define seg where "seg = take (e - r) (drop r out)"
  have re: "r \<le> e" "e \<le> length out" and ns: "c_slash \<notin> set seg"
    and sp: "split_on c_slash (drop r out) =
       seg # (if e \<ge> n then [] else split_on c_slash (drop (e + 1) out))"
    using "1.prems"(1,2) find_byte_SomeD [of "c_slash" "drop r out"]
    by (auto simp: e_def seg_def find_from_def split_on_find [of _ "drop r out"] add.commute
        simp del: find_byte_None split: option.splits dest: find_byte_None [THEN iffD1])
  note sim = normalise_step_sim [OF "1.prems"(3) re "1.prems"(4,5) seg_def]
  show ?case
  proof (cases "resolve_step seg st")
    case None
    with sim show ?thesis by (simp add: sp normalise_loop.simps [of n out w r] e_def [symmetric])
  next
    case (Some res)
    obtain st' d where res: "resolve_step seg st = Some (st', d)" using Some by (cases res) auto
    with sim obtain out' w' where step: "normalise_step out w r e = Some (out', w', d)"
      and len: "length out' = length out" and w': "w' \<le> e"
      and tk: "take w' out' = flat (rev st')" and dr: "drop e out' = drop e out" by auto
    have ok: "\<forall>x\<in>set st'. proper_segment x"
      using resolve_step_proper [OF res ns "1.prems"(5)] .
    have lw: "w' = length (flat (rev st'))" using arg_cong [OF tk, of length] len w' re by simp
    show ?thesis
    proof (cases "e \<ge> n")
      case True
      then show ?thesis using res step tk lw
        by (simp add: sp normalise_loop.simps [of n out w r] e_def [symmetric])
    next
      case False
      have "drop (e + 1) out' = drop (e + 1) out"
        using arg_cong [OF dr, of "drop 1"] by (simp add: add.commute)
      moreover have "map_option (\<lambda>(o', w', dir). (take w' o', w', dir)) (normalise_loop n out' w' (e + 1))
          = map_option (\<lambda>(segs, dir). (flat segs, length (flat segs), dir))
              (resolve (split_on c_slash (drop (e + 1) out')) st' d)"
        using False len w' tk ok "1.prems"(1) re
        by (intro "1.IH" [OF e_def step refl refl]) auto
      ultimately show ?thesis using False res step
        by (simp add: sp normalise_loop.simps [of n out w r] e_def [symmetric])
    qed
  qed
qed



subsection \<open>The fast path agrees with the slow one\<close>

fun plain_adjacent :: "bytes \<Rightarrow> bool" where
  "plain_adjacent (a # b # rest) =
     (\<not> (a = c_slash \<and> (b = c_slash \<or> b = c_dot)) \<and> plain_adjacent (b # rest))"
| "plain_adjacent _ = True"

definition plain_bytes :: "bytes \<Rightarrow> bool" where
  "plain_bytes u \<longleftrightarrow> (\<forall>c\<in>set u. c \<noteq> c_percent \<and> \<not> is_ctl c)"

lemma take_find_byte:
  "(case find_byte c t of None \<Rightarrow> t | Some q \<Rightarrow> take q t) = takeWhile (\<lambda>x. x \<noteq> c) t"
proof (cases "find_byte c t")
  case None
  then have "c \<notin> set t" by simp
  then have tw: "takeWhile (\<lambda>x. x \<noteq> c) t = t" by (auto simp: takeWhile_eq_all_conv)
  show ?thesis by (simp only: None option.case tw)
next
  case (Some q)
  with find_byte_SomeD [OF Some] show ?thesis by simp
qed

lemma strip_query_takeWhile: "strip_query t = takeWhile (\<lambda>x. x \<noteq> c_qmark \<and> x \<noteq> c_hash) t"
  unfolding strip_query_def Let_def take_find_byte by (induction t) auto

lemma plain_path_from_Some:
  "plain_path_from t i = Some n \<Longrightarrow>
     \<exists>k. n = i + k \<and> take k t = strip_query t \<and> plain_bytes (take k t) \<and> plain_adjacent (take k t)"
proof (induction t arbitrary: i)
  case Nil
  then show ?case by (simp add: strip_query_takeWhile plain_bytes_def)
next
  case (Cons c cs)
  show ?case
  proof (cases "c = c_qmark \<or> c = c_hash")
    case True
    with Cons.prems show ?thesis
      by (intro exI [of _ 0]) (auto simp: strip_query_takeWhile plain_bytes_def)
  next
    case False
    with Cons.prems have rec: "plain_path_from cs (Suc i) = Some n"
      and c: "c \<noteq> c_percent" "\<not> is_ctl c"
      and adj: "\<not> (c = c_slash \<and> cs \<noteq> [] \<and> (hd cs = c_slash \<or> hd cs = c_dot))"
      by (auto split: if_splits)
    from Cons.IH [OF rec] obtain k where k: "n = Suc i + k" "take k cs = strip_query cs"
      "plain_bytes (take k cs)" "plain_adjacent (take k cs)" by blast
    have "plain_adjacent (c # take k cs)"
      using adj k(4) by (cases cs; cases k) auto
    then show ?thesis using False c k
      by (intro exI [of _ "Suc k"]) (auto simp: strip_query_takeWhile plain_bytes_def)
  qed
qed

lemma percent_decode_plain: "plain_bytes u \<Longrightarrow> percent_decode u = Some (u, False)"
  by (induction u) (auto simp: plain_bytes_def)

lemma plain_adjacent_tail: "plain_adjacent (a # u) \<Longrightarrow> plain_adjacent u"
  by (cases u) auto

lemma plain_adjacent_append: "plain_adjacent (u @ v) \<Longrightarrow> plain_adjacent v"
  by (induction u) (auto dest: plain_adjacent_tail)

lemma resolve_plain:
  assumes "plain_adjacent (c_slash # v)"
  shows "\<exists>segs dir. resolve (split_on c_slash v) st d = Some (rev st @ segs, dir)
           \<and> render (segs, dir) = c_slash # v \<and> (segs = [] \<longrightarrow> dir)"
  using assms
proof (induction "length v" arbitrary: v st d rule: less_induct)
  case less
  show ?case
  proof (cases "find_byte c_slash v")
    case None
    then have ns: "c_slash \<notin> set v" by simp
    show ?thesis
    proof (cases v)
      case Nil
      then show ?thesis
        by (intro exI [of _ "[]"] exI [of _ True]) (simp add: resolve_step_def render_def)
    next
      case (Cons a u)
      with less.prems ns show ?thesis
        by (intro exI [of _ "[v]"] exI [of _ False])
           (auto simp: split_on_none resolve_step_def render_def)
    qed
  next
    case (Some i)
    define s where "s = take i v"
    define t where "t = drop (Suc i) v"
    from find_byte_split [OF Some] find_byte_SomeD [OF Some]
    have v: "v = s @ c_slash # t" and ns: "c_slash \<notin> set s" by (auto simp: s_def t_def)
    have "s \<noteq> [] \<and> hd s \<noteq> c_dot" using less.prems v by (cases s) auto
    then have step: "resolve_step s st = Some (s # st, False)" by (auto simp: resolve_step_def)
    have "plain_adjacent (c_slash # t)"
      using less.prems plain_adjacent_append [of "c_slash # s" "c_slash # t"] by (simp add: v)
    moreover have "length t < length v" by (simp add: v)
    ultimately obtain segs dir where
      IH: "resolve (split_on c_slash t) (s # st) False = Some (rev (s # st) @ segs, dir)"
        "render (segs, dir) = c_slash # t" "segs = [] \<longrightarrow> dir" using less.hyps by blast
    show ?thesis
      using IH step by (intro exI [of _ "s # segs"] exI [of _ dir])
        (auto simp: v split_on_sep [OF ns] render_def split: if_splits)
  qed
qed

lemma normalize_target_eq: "normalize_target t = normalize_spec t"
proof (cases "t = [] \<or> hd t \<noteq> c_slash")
  case True
  then show ?thesis by (auto simp: normalize_target_def normalize_spec_def)
next
  case False
  then obtain u where t: "t = c_slash # u" by (cases t) auto
  show ?thesis
  proof (cases "plain_path t")
    case (Some n)
    then obtain pb: "take n t = strip_query t" "plain_bytes (take n t)" "plain_adjacent (take n t)"
      using plain_path_from_Some [of t 0 n] by (auto simp: plain_path_def)
    have st: "strip_query t = c_slash # tl (strip_query t)" by (simp add: t strip_query_takeWhile)
    have pd: "percent_decode (strip_query t) = Some (strip_query t, False)"
      using pb by (intro percent_decode_plain) simp
    obtain segs dir where "resolve (split_on c_slash (tl (strip_query t))) [] False = Some (segs, dir)"
      and "render (segs, dir) = strip_query t"
      using resolve_plain [of "tl (strip_query t)" "[]" False] pb st by auto
    then show ?thesis using Some False pb(1)
      by (simp add: normalize_target_def normalize_spec_def pd)
  next
    case None
    show ?thesis
    proof (cases "percent_decode (strip_query t)")
      case None': None
      then show ?thesis using None False by (simp add: normalize_target_def normalize_spec_def)
    next
      case (Some res)
      obtain out sep where dec: "percent_decode (strip_query t) = Some (out, sep)"
        using Some by (cases res) auto
      have "strip_query t = c_slash # strip_query u" by (simp add: t strip_query_takeWhile)
      with dec obtain out1 where out: "out = c_slash # out1" by (auto split: if_splits)
      have "map_option (\<lambda>(out', w', dir). (take w' out', w', dir)) (normalise_loop (length out) out 0 1)
          = map_option (\<lambda>(segs, dir). (flat segs, length (flat segs), dir))
              (resolve (split_on c_slash (drop 1 out)) [] False)"
        by (rule normalise_loop_resolve) (auto simp: out)
      then show ?thesis using None False dec
        by (cases "normalise_loop (length out) out 0 1";
            cases "resolve (split_on c_slash (drop 1 out)) [] False")
           (auto simp: normalize_target_def normalize_spec_def render_def drop_Suc)
    qed
  qed
qed


text \<open>
  C1. \<open>normalize_target\<close> is its specification on every input: the fast path of
  \<open>plain_path\<close>, the percent-decoder and the in-place segment loop together compute the
  path obtained by decoding, splitting at slashes and resolving \<open>.\<close> and \<open>..\<close> on a stack,
  and they refuse exactly the targets the specification refuses (no leading slash, a bad
  escape, a control character, a climb above the root).
\<close>

theorem normalize_target_refines: "normalize_target t = normalize_spec t"
  by (rule normalize_target_eq)


subsection \<open>What an accepted path looks like\<close>

text \<open>
  Absolute, no control character, no \<open>.\<close> or \<open>..\<close> segment, and an empty segment only
  after a trailing slash.
\<close>

definition safe_path :: "bytes \<Rightarrow> bool" where
  "safe_path p =
     (p \<noteq> [] \<and> hd p = c_slash \<and> (\<forall>b\<in>set p. \<not> is_ctl b) \<and>
      (let ss = split_on c_slash (tl p)
       in (\<forall>s\<in>set ss. s \<noteq> [c_dot] \<and> s \<noteq> [c_dot, c_dot]) \<and> (\<forall>s\<in>set (butlast ss). s \<noteq> [])))"

lemma split_on_flat:
  assumes "\<forall>s\<in>set (s0 # segs). c_slash \<notin> set s"
  shows "split_on c_slash (s0 @ flat segs) = s0 # segs"
    and "split_on c_slash (s0 @ flat segs @ [c_slash]) = s0 # segs @ [[]]"
  using assms
  by (induction segs arbitrary: s0) (auto simp: split_on_none split_on_sep)

lemma split_on_render:
  assumes "\<forall>s\<in>set segs. proper_segment s"
  shows "split_on c_slash (tl (render (segs, dir))) =
           (if segs = [] then [[]] else segs @ (if dir then [[]] else []))"
  using assms split_on_flat [of "hd segs" "tl segs"]
  by (cases segs) (auto simp: render_def proper_segment_def)

lemma resolve_proper_segments:
  "resolve ss st d = Some (segs, d') \<Longrightarrow> \<forall>s\<in>set ss. c_slash \<notin> set s \<Longrightarrow>
     \<forall>s\<in>set st. proper_segment s \<Longrightarrow> \<forall>s\<in>set segs. proper_segment s"
proof (induction ss arbitrary: st d)
  case (Cons s ss)
  then obtain st' d2 where step: "resolve_step s st = Some (st', d2)"
    and rest: "resolve ss st' d2 = Some (segs, d')" by (auto split: option.splits)
  have "\<forall>x\<in>set st'. proper_segment x"
    using resolve_step_proper [OF step] Cons.prems by simp
  then show ?case using Cons.IH [OF rest] Cons.prems by simp
qed auto

lemma resolve_elems:
  "resolve ss st d = Some (segs, d') \<Longrightarrow> \<Union> (set ` set segs) \<subseteq> \<Union> (set ` set ss) \<union> \<Union> (set ` set st)"
proof (induction ss arbitrary: st d)
  case (Cons s ss)
  then obtain st' d2 where step: "resolve_step s st = Some (st', d2)"
    and rest: "resolve ss st' d2 = Some (segs, d')" by (auto split: option.splits)
  have "\<Union> (set ` set st') \<subseteq> set s \<union> \<Union> (set ` set st)"
    using step by (auto simp: resolve_step_def split: if_splits list.splits)
  from order_trans [OF Cons.IH [OF rest] Un_mono [OF order_refl this]]
  show ?case by (simp add: Un_ac)
qed auto

lemma percent_decode_ConsD:
  assumes "percent_decode (c # cs) = Some (out, sep)"
  shows "\<exists>d rest out' sep'. out = d # out' \<and> \<not> is_ctl d
           \<and> percent_decode rest = Some (out', sep') \<and> length rest < length (c # cs)"
proof (cases "c = c_percent")
  case True
  with assms obtain h l rest where cs: "cs = h # l # rest"
    by (cases cs; cases "tl cs") auto
  with assms True obtain d out' sep' where "hex_pair h l = Some d" "\<not> is_ctl d"
    "percent_decode rest = Some (out', sep')" "out = d # out'"
    by (auto split: option.splits if_splits)
  then show ?thesis using cs
    by (intro exI [of _ d] exI [of _ rest] exI [of _ out'] exI [of _ sep']) simp
next
  case False
  with assms show ?thesis by (auto split: if_splits)
qed

lemma percent_decode_clean:
  "percent_decode t = Some (out, sep) \<Longrightarrow> \<forall>b\<in>set out. \<not> is_ctl b"
proof (induction "length t" arbitrary: t out sep rule: less_induct)
  case less
  show ?case
  proof (cases t)
    case Nil
    with less.prems show ?thesis by simp
  next
    case (Cons c cs)
    with percent_decode_ConsD [of c cs out sep] less.prems obtain d rest out' sep'
      where "out = d # out'" "\<not> is_ctl d" "percent_decode rest = Some (out', sep')" "length rest < length t"
      by auto
    with less.hyps show ?thesis by auto
  qed
qed

lemma set_flat: "set (flat segs) = (if segs = [] then {} else {c_slash}) \<union> \<Union> (set ` set segs)"
  by (induction segs) auto

lemma normalize_spec_shape:
  assumes "normalize_spec t = Some (p, sep)"
  obtains segs dir where "p = render (segs, dir)" and "\<forall>s\<in>set segs. proper_segment s"
    and "\<forall>b\<in>set p. \<not> is_ctl b"
proof -
  from assms obtain out segs dir where dec: "percent_decode (strip_query t) = Some (out, sep)"
    and res: "resolve (split_on c_slash (tl out)) [] False = Some (segs, dir)"
    and p: "p = render (segs, dir)"
    by (auto simp: normalize_spec_def split: if_splits option.splits)
  have pr: "\<forall>s\<in>set segs. proper_segment s"
    using res by (rule resolve_proper_segments) (auto dest: split_on_no_sep)
  have "\<Union> (set ` set segs) \<subseteq> set (tl out)"
    using resolve_elems [OF res] split_on_Union [of c_slash "tl out"] by simp
  moreover have "set p \<subseteq> \<Union> (set ` set segs) \<union> {c_slash}"
    by (auto simp: p render_def set_flat)
  moreover have "set (tl out) \<subseteq> set out" by (cases out) auto
  ultimately have "set p \<subseteq> set out \<union> {c_slash}" by blast
  moreover have "\<not> is_ctl c_slash" by (simp add: is_ctl_def)
  ultimately
  have "\<forall>b\<in>set p. \<not> is_ctl b"
    using percent_decode_clean [OF dec] by auto
  with p pr show thesis by (rule that)
qed

lemma render_safe:
  assumes pr: "\<forall>s\<in>set segs. proper_segment s" and ctl: "\<forall>b\<in>set (render (segs, dir)). \<not> is_ctl b"
  shows "safe_path (render (segs, dir))"
proof -
  let ?ss = "split_on c_slash (tl (render (segs, dir)))"
  have "render (segs, dir) \<noteq> [] \<and> hd (render (segs, dir)) = c_slash"
    by (cases segs) (auto simp: render_def)
  moreover have "\<forall>s\<in>set ?ss. s \<noteq> [c_dot] \<and> s \<noteq> [c_dot, c_dot]"
    using pr by (auto simp: split_on_render proper_segment_def)
  moreover have "set (butlast ?ss) \<subseteq> set segs"
    using pr by (auto simp: split_on_render butlast_append dest: in_set_butlastD)
  then have "\<forall>s\<in>set (butlast ?ss). s \<noteq> []" using pr by (auto simp: proper_segment_def)
  ultimately show ?thesis using ctl unfolding safe_path_def Let_def by blast
qed

text \<open>
  C20. Every path \<open>normalize_target\<close> accepts is safe to resolve below a document root:
  absolute, free of control characters, with no \<open>.\<close> or \<open>..\<close> segment and no empty segment
  but a trailing one, whatever mixture of escapes and dots the client sent.
\<close>

theorem normalize_target_safe:
  assumes "normalize_target t = Some (p, sep)"
  shows "safe_path p"
proof -
  from assms have "normalize_spec t = Some (p, sep)"
    by (simp add: normalize_target_eq)
  then show ?thesis by (rule normalize_spec_shape) (auto intro: render_safe)
qed

theorem normalize_target_safe_witness:
  "normalize_target (bytes_of ''/a/%2e%2E/b//c?q'') = Some (bytes_of ''/b/c'', False)
   \<and> safe_path (bytes_of ''/b/c'')"
proof -
  have "normalize_target (bytes_of ''/a/%2e%2E/b//c?q'') = Some (bytes_of ''/b/c'', False)"
    by code_simp
  with normalize_target_safe [OF this] show ?thesis by simp
qed

lemma resolve_step_of_proper: "proper_segment s \<Longrightarrow> resolve_step s st = Some (s # st, False)"
  by (auto simp: proper_segment_def resolve_step_def)

lemma resolve_of_proper:
  "\<forall>s\<in>set segs. proper_segment s \<Longrightarrow> segs \<noteq> [] \<Longrightarrow>
     resolve (segs @ rest) st d = resolve rest (rev segs @ st) False"
proof (induction segs arbitrary: st d)
  case (Cons s segs)
  then show ?case by (cases "segs = []") (auto simp: resolve_step_of_proper)
qed simp

lemma resolve_render:
  assumes "\<forall>s\<in>set segs. proper_segment s"
  shows "\<exists>dir'. resolve (split_on c_slash (tl (render (segs, dir)))) [] False = Some (segs, dir')
           \<and> render (segs, dir') = render (segs, dir)"
proof -
  note split = split_on_render [OF assms, of dir]
  consider (root) "segs = []" | (dir) "segs \<noteq> []" dir | (leaf) "segs \<noteq> []" "\<not> dir" by blast
  then show ?thesis
  proof cases
    case root
    then show ?thesis unfolding split
      by (intro exI [of _ True]) (simp add: resolve_step_def render_def)
  next
    case dir
    then show ?thesis unfolding split
      using resolve_of_proper [OF assms dir(1), of "[[]]" "[]" False]
      by (intro exI [of _ True]) (simp add: resolve_step_def)
  next
    case leaf
    then show ?thesis unfolding split
      using resolve_of_proper [OF assms leaf(1), of "[]" "[]" False]
      by (intro exI [of _ False]) simp
  qed
qed

text \<open>
  Normalisation is idempotent: an accepted path that holds no byte with a meaning in a
  request target (\<open>%\<close>, \<open>?\<close>, \<open>#\<close>) is accepted again, unchanged and with no encoded
  separator, so the file a path names does not depend on how often it is normalised.
\<close>

theorem normalize_target_idempotent:
  assumes "normalize_target t = Some (p, sep)"
    and "c_percent \<notin> set p" and "c_qmark \<notin> set p" and "c_hash \<notin> set p"
  shows "normalize_target p = Some (p, False)"
proof -
  from assms(1) have "normalize_spec t = Some (p, sep)" by (simp add: normalize_target_eq)
  then obtain segs dir where p: "p = render (segs, dir)" and pr: "\<forall>s\<in>set segs. proper_segment s"
    and ctl: "\<forall>b\<in>set p. \<not> is_ctl b" by (rule normalize_spec_shape)
  have "p \<noteq> [] \<and> hd p = c_slash" by (cases segs) (auto simp: p render_def)
  moreover have "strip_query p = p"
    using assms(3,4) by (auto simp: strip_query_takeWhile takeWhile_eq_all_conv)
  moreover have "percent_decode p = Some (p, False)"
    using assms(2) ctl by (intro percent_decode_plain) (auto simp: plain_bytes_def)
  ultimately have "normalize_spec p = Some (p, False)"
    using resolve_render [OF pr, of dir] by (auto simp: normalize_spec_def p)
  then show ?thesis by (simp add: normalize_target_eq)
qed

subsection \<open>Filters on a normalised path\<close>

lemma hidden_from_append:
  "c_slash \<notin> set s \<Longrightarrow> hidden_from (s @ t) = hidden_from t"
proof (induction s)
  case (Cons a s)
  then show ?case by (cases "s @ t") auto
qed simp

lemma hidden_from_split:
  "hidden_from (c_slash # q) \<longleftrightarrow> (\<exists>s\<in>set (split_on c_slash q). s \<noteq> [] \<and> hd s = c_dot)"
proof (induction "length q" arbitrary: q rule: less_induct)
  case less
  have head: "hidden_from (c_slash # q) \<longleftrightarrow> (q \<noteq> [] \<and> hd q = c_dot) \<or> hidden_from q" for q
    by (cases q) auto
  show ?case
  proof (cases "find_byte c_slash q")
    case None
    then have ns: "c_slash \<notin> set q" by simp
    then have "\<not> hidden_from q" using hidden_from_append [of q "[]"] by simp
    then show ?thesis by (simp add: head split_on_none [OF ns])
  next
    case (Some i)
    define s where "s = take i q"
    define t where "t = drop (Suc i) q"
    from find_byte_split [OF Some] find_byte_SomeD [OF Some]
    have q: "q = s @ c_slash # t" and ns: "c_slash \<notin> set s" by (auto simp: s_def t_def)
    have "hidden_from (c_slash # t) \<longleftrightarrow> (\<exists>s\<in>set (split_on c_slash t). s \<noteq> [] \<and> hd s = c_dot)"
      by (rule less.hyps) (simp add: q)
    moreover have "hidden_from q = hidden_from (c_slash # t)"
      unfolding q by (rule hidden_from_append [OF ns])
    moreover have "(q \<noteq> [] \<and> hd q = c_dot) \<longleftrightarrow> s \<noteq> [] \<and> hd s = c_dot"
      by (cases s) (auto simp: q)
    ultimately show ?thesis by (auto simp: head q split_on_sep [OF ns])
  qed
qed

lemma kWellKnown_split:
  "(take (length kWellKnown) (c_slash # q) = kWellKnown \<and>
     (length (c_slash # q) = length kWellKnown \<or> (c_slash # q) ! length kWellKnown = c_slash))
   \<longleftrightarrow> hd (split_on c_slash q) = bytes_of ''.well-known''" (is "?l \<longleftrightarrow> ?r")
proof -
  define w where "w = bytes_of ''.well-known''"
  have k: "kWellKnown = c_slash # w" and ns: "c_slash \<notin> set w" by (simp_all add: kWellKnown_def w_def)
  have "?l \<longleftrightarrow> take (length w) q = w \<and> (length q = length w \<or> q ! length w = c_slash)"
    by (simp add: k)
  also have "\<dots> \<longleftrightarrow> hd (split_on c_slash q) = w"
  proof (cases "find_byte c_slash q")
    case None
    then have "c_slash \<notin> set q" by simp
    then have "length w < length q \<Longrightarrow> q ! length w \<noteq> c_slash" by (metis nth_mem)
    with \<open>c_slash \<notin> set q\<close> show ?thesis
      by (cases "length q" "length w" rule: linorder_cases) (auto simp: split_on_none)
  next
    case (Some i)
    from find_byte_SomeD [OF Some] have i: "i < length q" "q ! i = c_slash" "c_slash \<notin> set (take i q)" by auto
    have h: "hd (split_on c_slash q) = take i q" by (simp add: split_on_find [of _ q] Some)
    show ?thesis
    proof
      assume a: "take (length w) q = w \<and> (length q = length w \<or> q ! length w = c_slash)"
      then have "\<not> i < length w" using i ns by (metis in_set_conv_nth length_take min_less_iff_conj nth_take)
      moreover have "\<not> length w < i" using a i by (auto simp: in_set_conv_nth)
      ultimately show "hd (split_on c_slash q) = w" using a h by (metis linorder_neqE_nat)
    next
      assume "hd (split_on c_slash q) = w"
      then show "take (length w) q = w \<and> (length q = length w \<or> q ! length w = c_slash)"
        using h i by auto
    qed
  qed
  finally show ?thesis by (simp add: w_def)
qed

text \<open>
  \<open>has_hidden_segment\<close> decides exactly its documented rule on an absolute path: some
  segment begins with a dot, where only a first segment that is exactly \<open>.well-known\<close> is
  exempt (the segments below it are not).
\<close>

theorem has_hidden_segment_iff:
  "has_hidden_segment (c_slash # q) \<longleftrightarrow>
     (let ss = split_on c_slash q
      in \<exists>s\<in>set (if hd ss = bytes_of ''.well-known'' then tl ss else ss). s \<noteq> [] \<and> hd s = c_dot)"
proof (cases "hd (split_on c_slash q) = bytes_of ''.well-known''")
  case False
  then show ?thesis
    unfolding has_hidden_segment_def kWellKnown_split by (simp add: hidden_from_split)
next
  case True
  define w where "w = bytes_of ''.well-known''"
  have dk: "drop (length kWellKnown) (c_slash # q) = drop (length w) q" by (simp add: kWellKnown_def w_def)
  have ns: "c_slash \<notin> set w" by (simp add: w_def)
  have "hidden_from (drop (length w) q) \<longleftrightarrow> (\<exists>s\<in>set (tl (split_on c_slash q)). s \<noteq> [] \<and> hd s = c_dot)"
  proof (cases "find_byte c_slash q")
    case None
    then have "c_slash \<notin> set q" by simp
    with True have "q = w" "split_on c_slash q = [q]" by (auto simp: split_on_none w_def)
    then show ?thesis by simp
  next
    case (Some i)
    with True have "take i q = w" by (simp add: split_on_find [of _ q] w_def)
    moreover from find_byte_SomeD [OF Some] have "i < length q" "q ! i = c_slash" by auto
    ultimately have "drop (length w) q = c_slash # drop (Suc i) q"
      by (metis Cons_nth_drop_Suc length_take min.absorb4)
    then show ?thesis by (simp add: hidden_from_split split_on_find [of _ q] Some)
  qed
  with True show ?thesis
    unfolding has_hidden_segment_def kWellKnown_split dk by simp
qed

lemma windows_loop_split:
  "windows_loop seg p \<longleftrightarrow> c_bslash \<notin> set p \<and> c_colon \<notin> set p \<and>
     (case split_on c_slash p of [] \<Rightarrow> False
      | s # ss \<Rightarrow> windows_segment_ok (seg @ s) \<and> (\<forall>s\<in>set ss. windows_segment_ok s))"
proof (induction p arbitrary: seg)
  case (Cons c p)
  then show ?case by (cases "split_on c_slash p") auto
qed simp

text \<open>
  \<open>windows_path_ok\<close> accepts a path exactly when it holds no backslash and no colon and
  every segment between slashes is acceptable on its own: it does not end in a dot or a
  space, and its part before the first dot is not a reserved device name in any case
  (\<open>CON\<close>, \<open>PRN\<close>, \<open>AUX\<close>, \<open>NUL\<close>, \<open>COM1\<close>-\<open>9\<close>, \<open>LPT1\<close>-\<open>9\<close>).
\<close>

theorem windows_path_ok_iff:
  "windows_path_ok p \<longleftrightarrow> c_bslash \<notin> set p \<and> c_colon \<notin> set p \<and>
     list_all windows_segment_ok (split_on c_slash p)"
  unfolding windows_path_ok_def windows_loop_split list_all_iff
  by (cases "split_on c_slash p") auto

end
