(* ===== verification/Varint.thy ===== *)
theory Varint
  imports Wire_Codec
begin

text \<open>
  QUIC variable-length integers (\<^verbatim>\<open>src/quic/varint.hpp\<close>). A writer that fills
  \<open>p[0..n)\<close> is the list of the bytes it stores; the reader takes \<open>[p, end)\<close> and returns
  the value with what is left of it.
\<close>

unbundle bit_operations_syntax

definition kVarintMax :: u64 where
  "kVarintMax = push_bit 62 1 - 1"

definition varint_size :: "u64 \<Rightarrow> nat" where
  "varint_size v = (if v < 64 then 1 else if v < 16384 then 2 else if v < 1073741824 then 4 else 8)"

definition write_varint_fixed :: "u64 \<Rightarrow> nat \<Rightarrow> bytes" where
  "write_varint_fixed v n =
     (if n = 1 then [ucast v]
      else if n = 2 then [ucast (0x40 OR drop_bit 8 v), ucast v]
      else if n = 4 then
        [ucast (0x80 OR drop_bit 24 v), ucast (drop_bit 16 v), ucast (drop_bit 8 v), ucast v]
      else ucast (0xc0 OR drop_bit 56 v) # map (\<lambda>i. ucast (drop_bit (8 * (7 - i)) v)) [1..<8])"

definition write_varint :: "u64 \<Rightarrow> bytes" where
  "write_varint v = write_varint_fixed v (varint_size v)"

definition append_varint :: "bytes \<Rightarrow> u64 \<Rightarrow> bytes" where
  "append_varint out v = out @ write_varint v"

definition read_varint :: "bytes \<Rightarrow> (u64 \<times> bytes) option" where
  "read_varint p =
     (case p of
        [] \<Rightarrow> None
      | b # rest \<Rightarrow>
          (let n = 2 ^ unat (drop_bit 6 b)
           in if length p < n then None
              else Some (be_word (ucast (b AND 0x3f)) (take (n - 1) rest), drop (n - 1) rest)))"


subsection \<open>The first byte\<close>

lemma byte_and_3f: "(b :: byte) AND 0x3f = take_bit 6 b"
  by (simp add: take_bit_eq_mask mask_eq_exp_minus_1)

text \<open>
  Every width is the two bits of the tag \<open>t\<close> over the big-endian bytes of the value.
\<close>

lemma write_varint_fixed_eq:
  assumes "n = 2 ^ k" and "k < 4"
  shows "write_varint_fixed v n
           = ucast (push_bit 6 (of_nat k) OR drop_bit (8 * (n - 1)) v) # be_bytes (n - 1) v"
proof -
  from assms(2) consider "k = 0" | "k = 1" | "k = 2" | "k = 3" by linarith
  then show ?thesis
    by cases (simp_all add: assms(1) write_varint_fixed_def eval_nat_numeral upt_rec)
qed

lemma tagged_byte:
  fixes v :: u64
  assumes "v = take_bit (m + 6) v" and "k < 4"
  defines "b \<equiv> ucast (push_bit 6 (of_nat k) OR drop_bit m v) :: byte"
  shows "unat (drop_bit 6 b) = k" and "ucast (take_bit 6 b) = drop_bit m v"
proof -
  have hi: "drop_bit m v = take_bit 6 (drop_bit m v)"
    using assms(1) by (metis add.commute take_bit_drop_bit)
  have "k = take_bit 2 k" using assms(2) by (simp add: take_bit_eq_mod)
  then have k2: "bit k i \<Longrightarrow> i < 2" for i by (metis bit_take_bit_iff)
  have "drop_bit 6 b = ucast (of_nat k :: u64)"
    unfolding b_def
    by (subst hi) (rule bit_word_eqI, auto simp: bit_simps dest: k2)
  then show "unat (drop_bit 6 b) = k"
    using assms(2) by (simp add: unsigned_ucast_eq unsigned_of_nat take_bit_eq_mod)
  show "ucast (take_bit 6 b) = drop_bit m v"
    unfolding b_def by (subst (2) hi) (rule bit_word_eqI, auto simp: bit_simps)
qed

lemma varint_size_cases:
  obtains (one) "varint_size v = 2 ^ 0" "v < 2 ^ 6" | (two) "varint_size v = 2 ^ 1" "v < 2 ^ 14"
    | (four) "varint_size v = 2 ^ 2" "v < 2 ^ 30" | (eight) "varint_size v = 2 ^ 3"
  by (cases "v < 64"; cases "v < 16384"; cases "v < 1073741824") (simp_all add: varint_size_def)

lemma varint_size_bounds: "1 \<le> varint_size v" "varint_size v \<le> 8"
  by (auto simp: varint_size_def)

lemma kVarintMax_less: "v \<le> kVarintMax \<longleftrightarrow> v < 2 ^ 62"
proof -
  have "unat kVarintMax = 2 ^ 62 - 1" by (simp add: kVarintMax_def push_bit_eq_mult)
  moreover have "unat (2 ^ 62 :: u64) = 2 ^ 62" by simp
  ultimately show ?thesis unfolding word_le_nat_alt word_less_nat_alt by (simp, linarith)
qed

lemma length_write_varint_fixed: "n \<in> {1, 2, 4, 8} \<Longrightarrow> length (write_varint_fixed v n) = n"
  by (auto simp: write_varint_fixed_def)

lemma length_write_varint [simp]: "length (write_varint v) = varint_size v"
  by (auto simp: write_varint_def varint_size_def intro!: length_write_varint_fixed)


subsection \<open>Reading back\<close>

lemma read_varint_fixed:
  assumes "k < 4" and v: "v < 2 ^ (8 * 2 ^ k - 2)"
  shows "read_varint (write_varint_fixed v (2 ^ k) @ rest) = Some (v, rest)"
proof -
  let ?n = "2 ^ k :: nat"
  define m where "m = 8 * (?n - 1)"
  have m: "m + 6 = 8 * ?n - 2" by (simp add: m_def algebra_simps)
  have tb: "v = take_bit (m + 6) v" unfolding m using take_bit_of_less [OF v] by simp
  define b where "b = (ucast (push_bit 6 (of_nat k) OR drop_bit m v) :: byte)"
  note byte = tagged_byte [OF tb assms(1), folded b_def]
  have w: "write_varint_fixed v ?n = b # be_bytes (?n - 1) v"
    by (simp add: write_varint_fixed_eq [OF refl assms(1)] b_def m_def)
  have "be_word (ucast (b AND 0x3f)) (be_bytes (?n - 1) v) = push_bit m (drop_bit m v) OR take_bit m v"
    by (simp add: be_word_be_bytes byte_and_3f byte(2) m_def)
  also have "\<dots> = v" by (rule bit_word_eqI) (auto simp: bit_simps)
  finally show ?thesis
    by (simp add: w read_varint_def byte(1))
qed

lemma read_write_varint:
  assumes "v \<le> kVarintMax"
  shows "read_varint (write_varint v @ rest) = Some (v, rest)"
proof (cases v rule: varint_size_cases)
  case one
  then show ?thesis using read_varint_fixed [of 0 v rest] by (simp add: write_varint_def)
next
  case two
  then show ?thesis using read_varint_fixed [of 1 v rest] by (simp add: write_varint_def)
next
  case four
  then show ?thesis using read_varint_fixed [of 2 v rest] by (simp add: write_varint_def)
next
  case eight
  have "v < 2 ^ 62" using assms by (simp only: kVarintMax_less)
  with eight show ?thesis using read_varint_fixed [of 3 v rest] by (simp add: write_varint_def)
qed

text \<open>The varint as an instance of the codec contract.\<close>

interpretation varint: wire_codec "\<lambda>v. v \<le> kVarintMax" write_varint read_varint
  by unfold_locales (rule read_write_varint)

text \<open>
  A QUIC integer written in any width it fits in, the minimal one of \<open>write_varint\<close> or a
  longer one reserved in advance (\<open>write_varint_fixed\<close>), reads back as itself, with exactly
  the following bytes left.
\<close>

theorem varint_roundtrip:
  assumes "n \<in> {1, 2, 4, 8}" and "varint_size v \<le> n" and "v \<le> kVarintMax"
  shows "read_varint (write_varint_fixed v n @ rest) = Some (v, rest)
    \<and> length (write_varint_fixed v n) = n"
proof -
  obtain k where k: "n = 2 ^ k" "k < 4"
    using assms(1) by (elim insertE emptyE) (auto intro: that [of 0] that [of 1] that [of 2] that [of 3])
  have "v < 2 ^ 62" using assms(3) by (simp only: kVarintMax_less)
  then have "v < 2 ^ (8 * 2 ^ k - 2)"
    using assms(1,2) k by (cases v rule: varint_size_cases) (auto simp: varint_size_def word_less_nat_alt split: if_splits)
  then have "read_varint (write_varint_fixed v n @ rest) = Some (v, rest)"
    unfolding k(1) by (rule read_varint_fixed [OF k(2)])
  with length_write_varint_fixed [OF assms(1)] show ?thesis by simp
qed

theorem varint_roundtrip_witness:
  "read_varint (write_varint_fixed 37 2 @ [1, 2]) = Some (37, [1, 2])
   \<and> write_varint_fixed 37 2 = [0x40, 37] \<and> write_varint 37 = [37]"
proof -
  have "varint_size 37 = 1" and "(37 :: u64) \<le> kVarintMax" by code_simp+
  then have "read_varint (write_varint_fixed 37 2 @ [1, 2]) = Some (37, [1, 2])"
    by (intro varint_roundtrip [THEN conjunct1]) simp_all
  moreover have "write_varint_fixed 37 2 = [0x40, 37] \<and> write_varint 37 = [37]" by code_simp
  ultimately show ?thesis by simp
qed

lemma read_varint_bounds_lemma:
  assumes "read_varint p = Some (v, rest)"
  obtains n where "n \<in> {1, 2, 4, 8}" "n \<le> length p" "rest = drop n p" "v < 2 ^ (8 * n - 2)"
proof -
  from assms obtain b bs where p: "p = b # bs" by (auto simp: read_varint_def split: list.splits)
  define k where "k = unat (drop_bit 6 b)"
  define n :: nat where "n = 2 ^ k"
  have k: "k < 4"
  proof -
    have "drop_bit 6 b < 2 ^ 2"
      by (rule less_of_take_bit) (rule bit_word_eqI, auto simp: bit_simps dest: bit_imp_le_length)
    then show ?thesis by (simp add: k_def word_less_nat_alt)
  qed
  have n: "n \<in> {1, 2, 4, 8}"
  proof -
    from k consider "k = 0" | "k = 1" | "k = 2" | "k = 3" by linarith
    then show ?thesis by cases (simp_all add: n_def)
  qed
  from assms have len: "n \<le> length p" and rest: "rest = drop n p"
    and v: "v = be_word (ucast (take_bit 6 b)) (take (n - 1) bs)"
    using n by (auto simp: p read_varint_def Let_def k_def [symmetric] n_def [symmetric] byte_and_3f
        split: if_splits)
  have "take_bit 6 (ucast (take_bit 6 b) :: u64) = ucast (take_bit 6 b)"
    by (rule bit_word_eqI) (auto simp: bit_simps)
  from take_bit_be_word [OF this, of "take (n - 1) bs", folded v]
  have "take_bit (8 * n - 2) v = v" using len n by (auto simp: p)
  then have "v < 2 ^ (8 * n - 2)" using n by (intro less_of_take_bit) auto
  with n len rest show thesis by (rule that)
qed

text \<open>
  Whatever bytes a peer sends, \<open>read_varint\<close> stays in them and in range: it consumes 1,
  2, 4 or 8 bytes that are there, leaves exactly the rest, and the value is at most
  \<open>2^62 - 1\<close>, so the sums of two such values the frame reader forms never wrap.
\<close>

lemma read_varint_bounds:
  assumes "read_varint p = Some (v, rest)"
  shows "v \<le> kVarintMax \<and> (\<exists>n\<in>{1, 2, 4, 8}. n \<le> length p \<and> rest = drop n p)"
proof -
  from assms obtain n where n: "n \<in> {1, 2, 4, 8}" "n \<le> length p" "rest = drop n p" "v < 2 ^ (8 * n - 2)"
    by (rule read_varint_bounds_lemma)
  have "v < 2 ^ 62"
    using n(1) by (elim insertE emptyE) (use n(4) in \<open>auto elim!: less_trans\<close>)
  then have "v \<le> kVarintMax" by (simp only: kVarintMax_less)
  with n show ?thesis by auto
qed

lemma read_varint_shorter: "read_varint p = Some (v, r) \<Longrightarrow> length r < length p"
  by (erule read_varint_bounds_lemma) auto

end
