(* ===== verification/Chunked.thy ===== *)
theory Chunked
  imports Prelude
begin

text \<open>
  The chunked transfer coding (\<^verbatim>\<open>src/http1/chunked.hpp\<close>): the encoder's size line and
  the incremental decoder, a state machine over the wire bytes. \<open>decode\<close> takes the
  decoder, the input and the room of the output buffer and returns the status, the decoder
  as it is left, how many input bytes were used and the bytes produced.
\<close>

unbundle bit_operations_syntax


subsection \<open>The code\<close>

definition kLastChunk :: bytes where
  "kLastChunk = bytes_of ''0'' @ [c_cr, c_lf, c_cr, c_lf]"

text \<open>\<open>std::to_chars(n, 16)\<close>: lower-case digits, no leading zero.\<close>

definition hex_digit :: "nat \<Rightarrow> byte" where
  "hex_digit d = (if d < 10 then ch CHR ''0'' + of_nat d else ch CHR ''a'' + of_nat (d - 10))"

fun to_hex :: "nat \<Rightarrow> bytes" where
  "to_hex n = (if n < 16 then [hex_digit n] else to_hex (n div 16) @ [hex_digit (n mod 16)])"

declare to_hex.simps [simp del]

definition chunk_size_line :: "u64 \<Rightarrow> bytes" where
  "chunk_size_line n = to_hex (unat n) @ [c_cr, c_lf]"

datatype chunk_status = Chunk_ok | Chunk_done | Chunk_error

datatype chunk_state =
  CSize | CExt | CSizeLf | CData | CDataCr | CDataLf
  | CTrailerStart | CTrailerLine | CTrailerLf | CEndLf | CComplete | CFailed

record chunked_decoder =
  cstate :: chunk_state
  remaining :: u64
  digits :: nat
  cline :: nat

definition chunked_reset :: chunked_decoder where
  "chunked_reset = \<lparr>cstate = CSize, remaining = 0, digits = 0, cline = 0\<rparr>"

definition chunked_done :: "chunked_decoder \<Rightarrow> bool" where
  "chunked_done d = (cstate d = CComplete)"

definition kMaxLine :: nat where "kMaxLine = 4096"
definition kMaxTrailers :: nat where "kMaxTrailers = 8192"

definition hex_value :: "byte \<Rightarrow> byte option" where
  "hex_value c =
     (if ch CHR ''0'' \<le> c \<and> c \<le> ch CHR ''9'' then Some (c - ch CHR ''0'')
      else if ch CHR ''a'' \<le> c \<and> c \<le> ch CHR ''f'' then Some (c - ch CHR ''a'' + 10)
      else if ch CHR ''A'' \<le> c \<and> c \<le> ch CHR ''F'' then Some (c - ch CHR ''A'' + 10)
      else None)"

text \<open>
  The states that look at one byte: the decoder advanced past it, or failed having used
  \<open>0\<close> or \<open>1\<close> bytes more.
\<close>

datatype chunk_result = Advance chunked_decoder | Fail nat chunked_decoder

abbreviation cfail :: "nat \<Rightarrow> chunked_decoder \<Rightarrow> chunk_result" where
  "cfail k d \<equiv> Fail k (d\<lparr>cstate := CFailed\<rparr>)"

definition chunk_byte :: "chunked_decoder \<Rightarrow> byte \<Rightarrow> chunk_result" where
  "chunk_byte d c =
     (case cstate d of
        CSize \<Rightarrow>
          (case hex_value c of
             Some v \<Rightarrow>
               if digits d + 1 > 16 then cfail 0 (d\<lparr>digits := digits d + 1\<rparr>)
               else Advance (d\<lparr>digits := digits d + 1, remaining := push_bit 4 (remaining d) OR ucast v\<rparr>)
           | None \<Rightarrow>
               if digits d = 0 then cfail 0 d
               else if c = c_semi then Advance (d\<lparr>cstate := CExt, cline := 0\<rparr>)
               else if c = c_cr then Advance (d\<lparr>cstate := CSizeLf\<rparr>)
               else cfail 0 d)
      | CExt \<Rightarrow>
          if c = c_cr then Advance (d\<lparr>cstate := CSizeLf\<rparr>)
          else if c = c_lf then cfail 0 d
          else if cline d + 1 > kMaxLine then cfail 0 (d\<lparr>cline := cline d + 1\<rparr>)
          else Advance (d\<lparr>cline := cline d + 1\<rparr>)
      | CSizeLf \<Rightarrow>
          if c \<noteq> c_lf then cfail 0 d
          else if remaining d = 0 then Advance (d\<lparr>cstate := CTrailerStart, cline := 0\<rparr>)
          else Advance (d\<lparr>cstate := CData\<rparr>)
      | CDataCr \<Rightarrow> if c \<noteq> c_cr then cfail 0 d else Advance (d\<lparr>cstate := CDataLf\<rparr>)
      | CDataLf \<Rightarrow> if c \<noteq> c_lf then cfail 0 d else Advance (d\<lparr>cstate := CSize, digits := 0\<rparr>)
      | CTrailerStart \<Rightarrow>
          if c = c_cr then Advance (d\<lparr>cstate := CEndLf, cline := cline d + 1\<rparr>)
          else if c = c_space \<or> c = c_tab \<or> c = c_lf then cfail 0 d
          else Advance (d\<lparr>cstate := CTrailerLine, cline := cline d + 1\<rparr>)
      | CTrailerLine \<Rightarrow>
          if c = c_lf then cfail 0 d
          else
            (let d1 = (if c = c_cr then d\<lparr>cstate := CTrailerLf\<rparr> else d)\<lparr>cline := cline d + 1\<rparr>
             in if cline d + 1 > kMaxTrailers then cfail 1 d1 else Advance d1)
      | CTrailerLf \<Rightarrow> if c \<noteq> c_lf then cfail 0 d else Advance (d\<lparr>cstate := CTrailerStart\<rparr>)
      | CEndLf \<Rightarrow> if c \<noteq> c_lf then cfail 0 d else Advance (d\<lparr>cstate := CComplete\<rparr>)
      | _ \<Rightarrow> cfail 0 d)"

text \<open>
  The loop. \<open>CData\<close> moves \<open>min(remaining, input left, room left)\<close> bytes at once; the other
  states look at one byte; \<open>CComplete\<close> and \<open>CFailed\<close> return without looking. \<open>produced\<close> is
  the length of \<open>out\<close>, which never passes \<open>cap\<close>, so the test for a full buffer is written
  with \<open>\<ge>\<close>.
\<close>

definition data_take :: "chunked_decoder \<Rightarrow> bytes \<Rightarrow> nat \<Rightarrow> nat" where
  "data_take d inp room = min (unat (remaining d)) (min (length inp) room)"

definition data_after :: "chunked_decoder \<Rightarrow> nat \<Rightarrow> chunked_decoder" where
  "data_after d t =
     (let d1 = d\<lparr>remaining := remaining d - of_nat t\<rparr>
      in if remaining d1 = 0 then d1\<lparr>cstate := CDataCr\<rparr> else d1)"

type_synonym decode_result = "chunk_status \<times> chunked_decoder \<times> nat \<times> bytes"

function decode_loop :: "chunked_decoder \<Rightarrow> bytes \<Rightarrow> nat \<Rightarrow> bytes \<Rightarrow> nat \<Rightarrow> decode_result" where
  "decode_loop d inp consumed out cap =
     (case inp of
        [] \<Rightarrow> (if cstate d = CComplete then Chunk_done else Chunk_ok, d, consumed, out)
      | c # cs \<Rightarrow>
          if cstate d = CComplete then (Chunk_done, d, consumed, out)
          else if cstate d = CFailed then (Chunk_error, d, consumed, out)
          else if cstate d = CData then
            (if length out \<ge> cap then (Chunk_ok, d, consumed, out)
             else let t = data_take d inp (cap - length out)
                  in decode_loop (data_after d t) (drop t inp) (consumed + t) (out @ take t inp) cap)
          else
            (case chunk_byte d c of
               Fail k d' \<Rightarrow> (Chunk_error, d', consumed + k, out)
             | Advance d' \<Rightarrow>
                 if cstate d' = CComplete then (Chunk_done, d', consumed + 1, out)
                 else decode_loop d' cs (consumed + 1) out cap))"
  by pat_completeness auto
termination
proof (relation "measures [\<lambda>(d, inp, consumed, out, cap). length inp,
    \<lambda>(d, inp, consumed, out, cap). if cstate d = CData then 1 else 0]", goal_cases)
  case (2 d inp consumed out cap c cs t)
  show ?case
  proof (cases "remaining d = 0")
    case True
    then have "t = 0" using 2 by (simp add: data_take_def)
    with True 2 show ?thesis by (simp add: data_after_def)
  next
    case False
    then have "t > 0" using 2 by (simp add: data_take_def unat_gt_0)
    with 2 show ?thesis by simp
  qed
qed auto

declare decode_loop.simps [simp del]

definition decode :: "chunked_decoder \<Rightarrow> bytes \<Rightarrow> nat \<Rightarrow> decode_result" where
  "decode d inp out_cap = decode_loop d inp 0 [] out_cap"


subsection \<open>One byte at a time\<close>

text \<open>
  The reference machine takes the data bytes one by one. A decoder in \<open>CData\<close> always has
  bytes left in its chunk, and then the two machines agree.
\<close>

definition chunk_inv :: "chunked_decoder \<Rightarrow> bool" where
  "chunk_inv d \<longleftrightarrow> (cstate d = CData \<longrightarrow> remaining d \<noteq> 0)"

fun byte_loop :: "chunked_decoder \<Rightarrow> bytes \<Rightarrow> nat \<Rightarrow> bytes \<Rightarrow> nat \<Rightarrow> decode_result" where
  "byte_loop d [] consumed out cap =
     (if cstate d = CComplete then Chunk_done else Chunk_ok, d, consumed, out)"
| "byte_loop d (c # cs) consumed out cap =
     (if cstate d = CComplete then (Chunk_done, d, consumed, out)
      else if cstate d = CFailed then (Chunk_error, d, consumed, out)
      else if cstate d = CData then
        (if length out \<ge> cap then (Chunk_ok, d, consumed, out)
         else byte_loop (data_after d 1) cs (consumed + 1) (out @ [c]) cap)
      else
        (case chunk_byte d c of
           Fail k d' \<Rightarrow> (Chunk_error, d', consumed + k, out)
         | Advance d' \<Rightarrow>
             if cstate d' = CComplete then (Chunk_done, d', consumed + 1, out)
             else byte_loop d' cs (consumed + 1) out cap))"

lemma chunk_inv_reset [invar_intro]: "chunk_inv chunked_reset"
  by (simp add: chunk_inv_def chunked_reset_def)

lemma chunk_inv_byte [invar_intro]:
  "chunk_byte d c = Advance d' \<Longrightarrow> cstate d \<noteq> CData \<Longrightarrow> chunk_inv d'"
  by (auto simp: chunk_byte_def chunk_inv_def Let_def
      split: chunk_state.splits option.splits if_splits)

lemma chunk_inv_fail [invar_intro]: "chunk_byte d c = Fail k d' \<Longrightarrow> cstate d' = CFailed"
  by (auto simp: chunk_byte_def Let_def split: chunk_state.splits option.splits if_splits)

lemma chunk_inv_data [invar_intro]: "chunk_inv (data_after d t)"
  by (auto simp: chunk_inv_def data_after_def Let_def)

lemma data_after_0: "cstate d = CData \<Longrightarrow> remaining d \<noteq> 0 \<Longrightarrow> data_after d 0 = d"
  by (simp add: data_after_def)

lemma data_after_add:
  assumes "cstate d = CData" and "t + 1 < unat (remaining d)"
  shows "data_after (data_after d 1) (Suc t) = data_after d (Suc (Suc t))"
    and "cstate (data_after d 1) = CData" and "unat (remaining (data_after d 1)) = unat (remaining d) - 1"
proof -
  have u: "unat (remaining d - 1) = unat (remaining d) - 1"
    using assms(2) by (simp add: unat_minus_one unat_gt_0 [symmetric])
  then have "remaining d - 1 \<noteq> 0" using assms(2) by (metis less_diff_conv not_less_zero unat_0)
  then show "data_after (data_after d 1) (Suc t) = data_after d (Suc (Suc t))"
    and "cstate (data_after d 1) = CData" and "unat (remaining (data_after d 1)) = unat (remaining d) - 1"
    using u assms(1) by (simp_all add: data_after_def Let_def algebra_simps)
qed

lemma byte_loop_data:
  assumes "cstate d = CData" and "t \<le> unat (remaining d)" and "remaining d \<noteq> 0"
    and "t \<le> length inp" and "length out + t \<le> cap"
  shows "byte_loop d inp consumed out cap
       = byte_loop (data_after d t) (drop t inp) (consumed + t) (out @ take t inp) cap"
  using assms
proof (induction t arbitrary: d inp consumed out)
  case 0
  then show ?case by (simp add: data_after_0)
next
  case (Suc t)
  then obtain c cs where inp: "inp = c # cs" by (cases inp) auto
  have one: "byte_loop d inp consumed out cap = byte_loop (data_after d 1) cs (consumed + 1) (out @ [c]) cap"
    using Suc.prems by (simp add: inp)
  show ?case
  proof (cases t)
    case 0
    then show ?thesis unfolding one by (simp add: inp)
  next
    case (Suc t')
    with Suc.prems(2) have lt: "t' + 1 < unat (remaining d)" by simp
    note after = data_after_add [OF Suc.prems(1) lt]
    have "byte_loop (data_after d 1) cs (consumed + 1) (out @ [c]) cap
        = byte_loop (data_after (data_after d 1) t) (drop t cs) (consumed + 1 + t) ((out @ [c]) @ take t cs) cap"
    proof (rule Suc.IH)
      show "t \<le> unat (remaining (data_after d 1))" using after(3) Suc.prems(2) by simp
      then show "remaining (data_after d 1) \<noteq> 0" using Suc by auto
    qed (use after(2) Suc.prems in \<open>auto simp: inp\<close>)
    then show ?thesis unfolding one using after(1) by (simp add: inp Suc)
  qed
qed

lemma decode_loop_bytes: "chunk_inv d \<Longrightarrow> decode_loop d inp consumed out cap = byte_loop d inp consumed out cap"
proof (induction d inp consumed out cap rule: decode_loop.induct)
  case (1 d inp consumed out cap)
  show ?case
  proof (cases inp)
    case Nil
    then show ?thesis by (simp add: decode_loop.simps [of d])
  next
    case (Cons c cs)
    show ?thesis
    proof (cases "cstate d = CData")
      case False
      have "byte_loop d' cs (consumed + 1) out cap = decode_loop d' cs (consumed + 1) out cap"
        if "chunk_byte d c = Advance d'" "cstate d \<noteq> CComplete" "cstate d \<noteq> CFailed" "cstate d' \<noteq> CComplete" for d'
        using "1.IH"(2) [OF Cons that(2,3) False that(1,4)] chunk_inv_byte [OF that(1) False] by simp
      then show ?thesis using False
        by (simp add: Cons decode_loop.simps [of d] split: chunk_result.split)
    next
      case True
      with "1.prems" have rem: "remaining d \<noteq> 0" by (simp add: chunk_inv_def)
      show ?thesis
      proof (cases "length out \<ge> cap")
        case True': True
        with True show ?thesis by (simp add: Cons decode_loop.simps [of d])
      next
        case False
        define t where "t = data_take d inp (cap - length out)"
        have t: "t \<le> unat (remaining d)" "t \<le> length inp" "length out + t \<le> cap"
          using False by (auto simp: t_def data_take_def)
        have "decode_loop (data_after d t) (drop t inp) (consumed + t) (out @ take t inp) cap
            = byte_loop (data_after d t) (drop t inp) (consumed + t) (out @ take t inp) cap"
          using True by (intro "1.IH"(1) [OF Cons _ _ _ False t_def]) (auto intro: chunk_inv_data)
        moreover have "decode_loop d inp consumed out cap
            = decode_loop (data_after d t) (drop t inp) (consumed + t) (out @ take t inp) cap"
          using True False by (subst decode_loop.simps) (simp add: Cons t_def Let_def)
        ultimately show ?thesis
          using byte_loop_data [OF True t(1) rem t(2,3), of consumed] by simp
      qed
    qed
  qed
qed


lemma decode_bytes: "chunk_inv d \<Longrightarrow> decode d inp cap = byte_loop d inp 0 [] cap"
  by (simp add: decode_def decode_loop_bytes)

lemma byte_loop_inv:
  "byte_loop d inp n out cap = (st, d', m, out') \<Longrightarrow> chunk_inv d \<Longrightarrow> chunk_inv d'"
proof (induction inp arbitrary: d n out)
  case (Cons c cs)
  then show ?case
    by (auto split: if_splits chunk_result.splits intro: invar_intro simp: chunk_inv_def
        dest: chunk_inv_fail chunk_inv_byte Cons.IH [OF _ chunk_inv_data])
       (metis Cons.IH chunk_inv_byte chunk_inv_def)+
qed auto

text \<open>Positions and output so far only shift the result.\<close>

lemma byte_loop_shift:
  assumes "length out \<le> cap"
  shows "byte_loop d inp n out cap =
    (case byte_loop d inp 0 [] (cap - length out) of (st, d', m, out') \<Rightarrow> (st, d', n + m, out @ out'))"
  using assms
proof (induction inp arbitrary: d n out cap)
  case (Cons c cs)
  show ?case
  proof (cases "cstate d = CData \<and> length out < cap")
    case True
    have "byte_loop (data_after d 1) cs (n + 1) (out @ [c]) cap =
        (case byte_loop (data_after d 1) cs 0 [] (cap - length (out @ [c])) of
           (st, d', m, o') \<Rightarrow> (st, d', n + 1 + m, (out @ [c]) @ o'))"
      using True by (intro Cons.IH) simp
    moreover have "byte_loop (data_after d 1) cs (0 + 1) ([] @ [c]) (cap - length out) =
        (case byte_loop (data_after d 1) cs 0 [] (cap - length out - length [c]) of
           (st, d', m, o') \<Rightarrow> (st, d', 0 + 1 + m, [c] @ o'))"
      using True by (simp only: append_Nil) (intro Cons.IH, auto)
    ultimately show ?thesis using True by (simp split: prod.split)
  next
    case False
    have "byte_loop d' cs (n + 1) out cap =
        (case byte_loop d' cs 0 [] (cap - length out) of (st, d'', m, o') \<Rightarrow> (st, d'', n + 1 + m, out @ o'))"
      and "byte_loop d' cs (0 + 1) [] (cap - length out) =
        (case byte_loop d' cs 0 [] (cap - length out) of (st, d'', m, o') \<Rightarrow> (st, d'', 0 + 1 + m, o'))" for d'
      using Cons.IH [OF Cons.prems, of d' "n + 1"] Cons.IH [of "[]" "cap - length out" d' "0 + 1"] by simp_all
    with False show ?thesis
      by (cases "cstate d = CData") (simp_all split: prod.split chunk_result.split)
  qed
qed auto

lemma byte_loop_append:
  "byte_loop d (xs @ ys) n out cap =
     (case byte_loop d xs n out cap of
        (st, d', m, out') \<Rightarrow>
          if st = Chunk_ok \<and> m = n + length xs then byte_loop d' ys m out' cap else (st, d', m, out'))"
proof (induction xs arbitrary: d n out)
  case Nil
  then show ?case by (cases ys) auto
next
  case (Cons c cs)
  then show ?case by (simp split: chunk_result.split prod.split)
qed

lemma chunk_byte_fail_le: "chunk_byte d c = Fail k d' \<Longrightarrow> k \<le> 1"
  by (auto simp: chunk_byte_def Let_def split: chunk_state.splits option.splits if_splits)

lemma byte_loop_bounds:
  assumes "byte_loop d inp n out cap = (st, d', m, out')" and "length out \<le> cap"
  shows "m \<le> n + length inp \<and> length out' \<le> cap \<and> length out' + n \<le> m + length out
    \<and> (st = Chunk_ok \<longrightarrow> m = n + length inp \<or> length out' = cap)
    \<and> (st = Chunk_done \<longleftrightarrow> chunked_done d') \<and> (st = Chunk_error \<longrightarrow> cstate d' = CFailed)"
  using assms
proof (induction inp arbitrary: d n out)
  case Nil
  then show ?case by (auto simp: chunked_done_def split: if_splits)
next
  case (Cons c cs)
  show ?case
  proof (cases "cstate d = CData")
    case True
    show ?thesis
    proof (cases "length out \<ge> cap")
      case True': True
      with True Cons.prems show ?thesis by (auto simp: chunked_done_def)
    next
      case False
      with True Cons.prems Cons.IH [of "data_after d 1" "n + 1" "out @ [c]"] show ?thesis by auto
    qed
  next
    case False
    show ?thesis
    proof (cases "chunk_byte d c")
      case (Advance d1)
      with False Cons.prems Cons.IH [of d1 "n + 1" out] show ?thesis
        by (auto simp: chunked_done_def split: if_splits)
    next
      case (Fail k d1)
      with False Cons.prems chunk_inv_fail [OF Fail] chunk_byte_fail_le [OF Fail] show ?thesis
        by (auto simp: chunked_done_def split: if_splits)
    qed
  qed
qed

text \<open>
  Bounds and statuses of one call: no more input is used than there is and no more
  output written than fits; \<open>ok\<close> means that the input is used up or the buffer full, so the
  caller always progresses; \<open>done\<close> is returned exactly when the body is complete and
  \<open>error\<close> leaves the decoder failed.
\<close>

theorem chunked_decode_bounds:
  assumes "chunk_inv d" and "decode d inp cap = (st, d', m, out)"
  shows "m \<le> length inp \<and> length out \<le> cap \<and> length out \<le> m
    \<and> (st = Chunk_ok \<longrightarrow> m = length inp \<or> length out = cap)
    \<and> (st = Chunk_done \<longleftrightarrow> chunked_done d') \<and> (st = Chunk_error \<longrightarrow> cstate d' = CFailed)"
  using byte_loop_bounds [of d inp 0 "[]" cap st d' m out] assms by (simp add: decode_bytes)

theorem chunked_decode_bounds_witness:
  "decode chunked_reset (bytes_of ''3g'') 10
     = (Chunk_error, \<lparr>cstate = CFailed, remaining = 3, digits = 1, cline = 0\<rparr>, 1, [])
   \<and> (1 :: nat) \<le> length (bytes_of ''3g'')"
proof -
  have a: "decode chunked_reset (bytes_of ''3g'') 10
     = (Chunk_error, \<lparr>cstate = CFailed, remaining = 3, digits = 1, cline = 0\<rparr>, 1, [])" by code_simp
  with chunked_decode_bounds [OF chunk_inv_reset a] show ?thesis by simp
qed

text \<open>
  C8. The chunked decoder is a stream function: feeding it the wire bytes in two pieces,
  however they are split, gives the status, the decoder, the number of bytes used and the
  body bytes that feeding them at once gives (the room of the output buffer being what is
  left of it).
\<close>

theorem chunked_decode_stream:
  assumes "chunk_inv d" and "decode d xs cap = (Chunk_ok, d', length xs, o1)"
  shows "decode d (xs @ ys) cap =
    (case decode d' ys (cap - length o1) of (st, d'', m, o2) \<Rightarrow> (st, d'', length xs + m, o1 @ o2))"
proof -
  have run: "byte_loop d xs 0 [] cap = (Chunk_ok, d', length xs, o1)"
    using assms by (simp add: decode_bytes)
  have inv: "chunk_inv d'" using byte_loop_inv [OF run assms(1)] .
  have fits: "length o1 \<le> cap" using byte_loop_bounds [OF run] by simp
  have "decode d (xs @ ys) cap = byte_loop d' ys (length xs) o1 cap"
    using run assms(1) by (simp add: decode_bytes byte_loop_append)
  then show ?thesis
    by (simp add: byte_loop_shift [OF fits] decode_bytes [OF inv])
qed

theorem chunked_decode_stream_witness:
  "decode chunked_reset (bytes_of ''3'' @ [c_cr, c_lf] @ bytes_of ''ab'') 10
     = (Chunk_ok, \<lparr>cstate = CData, remaining = 1, digits = 1, cline = 0\<rparr>, 5, bytes_of ''ab'')
   \<and> decode chunked_reset ((bytes_of ''3'' @ [c_cr, c_lf] @ bytes_of ''ab'') @ bytes_of ''c'') 10
     = (Chunk_ok, \<lparr>cstate = CDataCr, remaining = 0, digits = 1, cline = 0\<rparr>, 6, bytes_of ''abc'')"
proof -
  let ?d = "\<lparr>cstate = CData, remaining = 1, digits = 1, cline = 0\<rparr>"
  have a: "decode chunked_reset (bytes_of ''3'' @ [c_cr, c_lf] @ bytes_of ''ab'') 10
      = (Chunk_ok, ?d, length (bytes_of ''3'' @ [c_cr, c_lf] @ bytes_of ''ab''), bytes_of ''ab'')"
    by code_simp
  have b: "decode ?d (bytes_of ''c'') (10 - length (bytes_of ''ab''))
      = (Chunk_ok, \<lparr>cstate = CDataCr, remaining = 0, digits = 1, cline = 0\<rparr>, 1, bytes_of ''c'')"
    by code_simp
  from chunked_decode_stream [OF chunk_inv_reset a, of "bytes_of ''c''"] a b show ?thesis by simp
qed



subsection \<open>The writer's framing reads back\<close>

text \<open>
  What the response writer sends for a body of unknown length
  (\<^verbatim>\<open>src/http1/writer.hpp\<close>): each piece it read from the source behind its size line, then
  the last chunk.
\<close>

definition encode_chunk :: "bytes \<Rightarrow> bytes" where
  "encode_chunk c = chunk_size_line (of_nat (length c)) @ c @ [c_cr, c_lf]"

definition encode_chunks :: "bytes list \<Rightarrow> bytes" where
  "encode_chunks cs = concat (map encode_chunk cs) @ kLastChunk"

lemma hex_value_hex_digit: "v < 16 \<Longrightarrow> hex_value (hex_digit v) = Some (of_nat v)"
proof -
  have "\<forall>v\<in>set [0..<16]. hex_value (hex_digit v) = Some (of_nat v)" by code_simp
  then show "v < 16 \<Longrightarrow> hex_value (hex_digit v) = Some (of_nat v)" by simp
qed

lemma nibble_step:
  assumes "v < 16"
  shows "push_bit 4 (of_nat a :: u64) OR ucast (of_nat v :: byte) = of_nat (16 * a + v)"
proof -
  have "v = take_bit 4 v" using assms by (simp add: take_bit_eq_mod)
  then have low: "bit v i \<Longrightarrow> i < 4" for i by (metis bit_take_bit_iff)
  have v: "ucast (of_nat v :: byte) = (of_nat v :: u64)"
    by (rule bit_word_eqI) (auto simp: bit_simps dest: low)
  have "push_bit 4 (of_nat a :: u64) AND of_nat v = 0"
    by (rule bit_word_eqI) (auto simp: bit_simps dest: low)
  then show ?thesis
    by (simp add: v disjunctive_add_eq_or [symmetric] push_bit_eq_mult)
qed

text \<open>The value of a run of digits, and the decoder after reading it.\<close>

definition digits_value :: "nat \<Rightarrow> nat list \<Rightarrow> nat" where
  "digits_value = foldl (\<lambda>a v. 16 * a + v)"

lemma byte_loop_digits:
  assumes "cstate d = CSize" and "remaining d = of_nat a" and "\<forall>v\<in>set vs. v < 16"
    and "digits d + length vs \<le> 16"
  shows "byte_loop d (map hex_digit vs @ rest) n out cap =
    byte_loop (d\<lparr>digits := digits d + length vs, remaining := of_nat (digits_value a vs)\<rparr>)
      rest (n + length vs) out cap"
  using assms
proof (induction vs arbitrary: d a n)
  case Nil
  then have "d\<lparr>digits := digits d + 0, remaining := of_nat a\<rparr> = d" by (cases d) simp
  then show ?case by (simp add: digits_value_def)
next
  case (Cons v vs)
  let ?d = "d\<lparr>digits := digits d + 1, remaining := of_nat (16 * a + v)\<rparr>"
  have "chunk_byte d (hex_digit v) = Advance ?d"
    using Cons.prems nibble_step [of v a] by (simp add: chunk_byte_def hex_value_hex_digit)
  moreover have "byte_loop ?d (map hex_digit vs @ rest) (n + 1) out cap =
      byte_loop (?d\<lparr>digits := digits ?d + length vs, remaining := of_nat (digits_value (16 * a + v) vs)\<rparr>)
        rest (n + 1 + length vs) out cap"
    using Cons.prems by (intro Cons.IH) auto
  ultimately show ?case using Cons.prems(1) by (simp add: digits_value_def)
qed

lemma to_hex_digits:
  "n < 16 ^ k \<Longrightarrow> 0 < k \<Longrightarrow>
     \<exists>vs. to_hex n = map hex_digit vs \<and> (\<forall>v\<in>set vs. v < 16) \<and> digits_value 0 vs = n
        \<and> vs \<noteq> [] \<and> length vs \<le> k"
proof (induction k arbitrary: n)
  case (Suc k)
  show ?case
  proof (cases "n < 16")
    case True
    then show ?thesis
      by (intro exI [of _ "[n]"]) (simp add: to_hex.simps [of n] digits_value_def)
  next
    case False
    then have "k \<noteq> 0" using Suc.prems by (cases k) auto
    moreover have lt: "n div 16 < 16 ^ k" using Suc.prems by (simp add: less_mult_imp_div_less)
    ultimately obtain vs where "to_hex (n div 16) = map hex_digit vs" "\<forall>v\<in>set vs. v < 16"
      "digits_value 0 vs = n div 16" "vs \<noteq> []" "length vs \<le> k" using Suc.IH [OF lt] by auto
    with False show ?thesis
      by (intro exI [of _ "vs @ [n mod 16]"]) (simp add: to_hex.simps [of n] digits_value_def)
  qed
qed simp

lemma byte_loop_size_line:
  assumes "cstate d = CSize" and "remaining d = 0" and "digits d = 0"
  shows "\<exists>k. byte_loop d (chunk_size_line m @ rest) n out cap =
    byte_loop (if m = 0 then d\<lparr>digits := k, remaining := 0, cstate := CTrailerStart, cline := 0\<rparr>
               else d\<lparr>digits := k, remaining := m, cstate := CData\<rparr>)
      rest (n + length (chunk_size_line m)) out cap"
proof -
  have "unat m < 2 ^ LENGTH(64)" by (rule unsigned_less)
  then have "unat m < 16 ^ 16" by simp
  then obtain vs where vs: "to_hex (unat m) = map hex_digit vs" "\<forall>v\<in>set vs. v < 16"
    "digits_value 0 vs = unat m" "vs \<noteq> []" "length vs \<le> 16" using to_hex_digits [of "unat m" 16] by auto
  have "byte_loop d (chunk_size_line m @ rest) n out cap =
      byte_loop (d\<lparr>digits := length vs, remaining := m\<rparr>) ([c_cr, c_lf] @ rest) (n + length vs) out cap"
    using byte_loop_digits [OF assms(1) _ vs(2), of 0] assms vs(3,5) by (simp add: chunk_size_line_def vs(1))
  also have "\<dots> = byte_loop (if m = 0 then d\<lparr>digits := length vs, remaining := 0, cstate := CTrailerStart, cline := 0\<rparr>
               else d\<lparr>digits := length vs, remaining := m, cstate := CData\<rparr>)
      rest (n + length (chunk_size_line m)) out cap"
    using assms(1) vs(4) by (simp add: chunk_byte_def hex_value_def chunk_size_line_def vs(1))
  finally show ?thesis by blast
qed

lemma byte_loop_chunk:
  assumes "cstate d = CSize" and "remaining d = 0" and "digits d = 0"
    and "c \<noteq> []" and "length c < 2 ^ 64" and "length out + length c \<le> cap"
  shows "\<exists>d'. cstate d' = CSize \<and> remaining d' = 0 \<and> digits d' = 0 \<and>
    byte_loop d (encode_chunk c @ rest) n out cap =
    byte_loop d' rest (n + length (encode_chunk c)) (out @ c) cap"
proof -
  let ?m = "of_nat (length c) :: u64"
  have um: "unat ?m = length c" using assms(5) by (simp add: unsigned_of_nat take_bit_nat_eq_self)
  have m0: "?m \<noteq> 0" using um assms(4) by (metis length_0_conv unat_0)
  from byte_loop_size_line [OF assms(1-3), of ?m "c @ [c_cr, c_lf] @ rest" n out cap] m0
  obtain k where "byte_loop d (encode_chunk c @ rest) n out cap =
      byte_loop (d\<lparr>digits := k, remaining := ?m, cstate := CData\<rparr>) (c @ [c_cr, c_lf] @ rest)
        (n + length (chunk_size_line ?m)) out cap" by (auto simp: encode_chunk_def)
  also have "\<dots> = byte_loop (d\<lparr>digits := k, remaining := 0, cstate := CDataCr\<rparr>) ([c_cr, c_lf] @ rest)
        (n + length (chunk_size_line ?m) + length c) (out @ c) cap"
    using m0 um assms(6) byte_loop_data [of "d\<lparr>digits := k, remaining := ?m, cstate := CData\<rparr>" "length c"
      "c @ [c_cr, c_lf] @ rest" out cap "n + length (chunk_size_line ?m)"]
    by (simp add: data_after_def del: byte_loop.simps)
  also have "\<dots> = byte_loop (d\<lparr>remaining := 0, cstate := CSize, digits := 0\<rparr>) rest
        (n + length (encode_chunk c)) (out @ c) cap"
    by (simp add: chunk_byte_def encode_chunk_def add.assoc)
  finally show ?thesis
    by (intro exI [of _ "d\<lparr>remaining := 0, cstate := CSize, digits := 0\<rparr>"]) simp
qed

lemma byte_loop_chunks:
  assumes "cstate d = CSize" and "remaining d = 0" and "digits d = 0"
    and "\<forall>c\<in>set cs. c \<noteq> [] \<and> length c < 2 ^ 64" and "length out + length (concat cs) \<le> cap"
  shows "\<exists>d'. chunked_done d' \<and> byte_loop d (encode_chunks cs @ rest) n out cap =
    (Chunk_done, d', n + length (encode_chunks cs), out @ concat cs)"
  using assms
proof (induction cs arbitrary: d n out)
  case Nil
  have "to_hex 0 = bytes_of ''0''" by code_simp
  then have l: "kLastChunk = chunk_size_line 0 @ [c_cr, c_lf]" by (simp add: kLastChunk_def chunk_size_line_def)
  from byte_loop_size_line [OF Nil.prems(1-3), of 0 "[c_cr, c_lf] @ rest" n out cap] show ?case
    by (auto simp: encode_chunks_def l chunk_byte_def chunked_done_def)
next
  case (Cons c cs)
  from byte_loop_chunk [OF Cons.prems(1-3), of c out cap "encode_chunks cs @ rest" n] Cons.prems(4,5)
  obtain d1 where d1: "cstate d1 = CSize" "remaining d1 = 0" "digits d1 = 0"
    "byte_loop d (encode_chunks (c # cs) @ rest) n out cap =
      byte_loop d1 (encode_chunks cs @ rest) (n + length (encode_chunk c)) (out @ c) cap"
    by (auto simp: encode_chunks_def)
  from Cons.IH [OF d1(1-3), of "out @ c" "n + length (encode_chunk c)"] Cons.prems(4,5) d1(4) show ?case
    by (auto simp: encode_chunks_def)
qed

text \<open>
  C21. What the response writer frames, the decoder reads back: for any body cut into
  non-empty pieces, the decoder accepts the writer's chunks, produces exactly the body, is
  complete at the final CRLF and leaves the bytes of a pipelined next message untouched.
\<close>

theorem chunked_roundtrip:
  assumes "\<forall>c\<in>set cs. c \<noteq> [] \<and> length c < 2 ^ 64" and "length (concat cs) \<le> cap"
  shows "\<exists>d'. chunked_done d' \<and> decode chunked_reset (encode_chunks cs @ rest) cap =
    (Chunk_done, d', length (encode_chunks cs), concat cs)"
  using byte_loop_chunks [of chunked_reset cs "[]" cap rest 0] assms
  unfolding decode_bytes [OF chunk_inv_reset] by (simp add: chunked_reset_def)

theorem chunked_roundtrip_witness:
  "\<exists>d'. chunked_done d' \<and> decode chunked_reset (encode_chunks [bytes_of ''hello'', bytes_of '' w''] @ bytes_of ''GET'') 100 =
    (Chunk_done, d', 22, bytes_of ''hello w'')"
proof -
  have "length (encode_chunks [bytes_of ''hello'', bytes_of '' w'']) = 22" by code_simp
  with chunked_roundtrip [of "[bytes_of ''hello'', bytes_of '' w'']" 100 "bytes_of ''GET''"]
  show ?thesis by simp
qed

end
