(* ===== verification/Range_Set.thy ===== *)
theory Range_Set
  imports Prelude
begin

text \<open>
  Sets of packet numbers and stream offsets as sorted, disjoint, merged half-open ranges
  (\<^verbatim>\<open>src/quic/range_set.hpp\<close>). The vector \<open>r_\<close> is a list of pairs; an operation that
  changes it returns the new list. \<open>rs_set\<close> is the set of values a list stands for and
  \<open>rs_inv\<close> the order the class keeps. The locale \<open>interval_set\<close> is the contract the rest
  of the transport relies on.
\<close>

type_synonym range = "u64 \<times> u64"
type_synonym range_set = "range list"


subsection \<open>The code\<close>

definition rs_max :: "range_set \<Rightarrow> u64" where
  "rs_max r = (if r = [] then 0 else snd (last r) - 1)"

definition rs_min :: "range_set \<Rightarrow> u64" where
  "rs_min r = (if r = [] then 0 else fst (hd r))"

fun contiguous_from :: "range_set \<Rightarrow> u64 \<Rightarrow> u64" where
  "contiguous_from [] frm = frm"
| "contiguous_from (x # r) frm =
     (if fst x \<le> frm \<and> frm < snd x then snd x else contiguous_from r frm)"

text \<open>The merge loop of \<open>add\<close>: \<open>it\<close> absorbs every following range it reaches.\<close>

fun rs_merge :: "range \<Rightarrow> range_set \<Rightarrow> range_set" where
  "rs_merge it [] = [it]"
| "rs_merge it (next # r) =
     (if fst next \<le> snd it then rs_merge (fst it, max (snd it) (snd next)) r
      else it # next # r)"

text \<open>
  \<open>std::lower_bound\<close> on the ends of a sorted vector is the first range whose end is not below
  \<open>begin\<close>.
\<close>

definition rs_add :: "range_set \<Rightarrow> u64 \<Rightarrow> u64 \<Rightarrow> range_set" where
  "rs_add r b e =
     (if b \<ge> e then r
      else
        (let before = takeWhile (\<lambda>x. snd x < b) r;
             it_on = dropWhile (\<lambda>x. snd x < b) r
         in case it_on of
              [] \<Rightarrow> before @ [(b, e)]
            | it # rest \<Rightarrow>
                if fst it > e then before @ (b, e) # it # rest
                else before @ rs_merge (min (fst it) b, max (snd it) e) rest))"

definition rs_add_point :: "range_set \<Rightarrow> u64 \<Rightarrow> range_set" where
  "rs_add_point r v = rs_add r v (v + 1)"

fun rs_contains :: "range_set \<Rightarrow> u64 \<Rightarrow> u64 \<Rightarrow> bool" where
  "rs_contains [] b e = False"
| "rs_contains (x # r) b e =
     (if fst x \<le> b \<and> e \<le> snd x then True else rs_contains r b e)"

definition rs_contains_point :: "range_set \<Rightarrow> u64 \<Rightarrow> bool" where
  "rs_contains_point r v = rs_contains r v (v + 1)"

definition rs_remove_below :: "range_set \<Rightarrow> u64 \<Rightarrow> range_set" where
  "rs_remove_below r lim =
     (case dropWhile (\<lambda>x. snd x \<le> lim) r of
        [] \<Rightarrow> []
      | x # rest \<Rightarrow> if fst x < lim then (lim, snd x) # rest else x # rest)"

fun rs_remove_loop :: "u64 \<Rightarrow> u64 \<Rightarrow> range_set \<Rightarrow> range_set" where
  "rs_remove_loop b e [] = []"
| "rs_remove_loop b e (x # r) =
     (if snd x \<le> b \<or> fst x \<ge> e then x # rs_remove_loop b e r
      else if fst x < b \<and> snd x > e then (fst x, b) # (e, snd x) # r
      else if fst x < b then (fst x, b) # rs_remove_loop b e r
      else if snd x > e then (e, snd x) # rs_remove_loop b e r
      else rs_remove_loop b e r)"

definition rs_remove :: "range_set \<Rightarrow> u64 \<Rightarrow> u64 \<Rightarrow> range_set" where
  "rs_remove r b e = (if b \<ge> e then r else rs_remove_loop b e r)"

definition rs_keep_highest :: "range_set \<Rightarrow> nat \<Rightarrow> range_set" where
  "rs_keep_highest r n = (if length r > n then drop (length r - n) r else r)"

text \<open>\<open>None\<close> is the \<open>false\<close> result, \<open>Some (gb, ge)\<close> the gap.\<close>

fun rs_gap_loop :: "range_set \<Rightarrow> u64 \<Rightarrow> u64 \<Rightarrow> (u64 \<times> u64) option" where
  "rs_gap_loop [] pos limit = (if pos < limit then Some (pos, limit) else None)"
| "rs_gap_loop (x # r) pos limit =
     (if snd x \<le> pos then rs_gap_loop r pos limit
      else if fst x > pos then
        (if pos < min (fst x) limit then Some (pos, min (fst x) limit) else None)
      else if snd x \<ge> limit then None
      else rs_gap_loop r (snd x) limit)"

definition first_gap :: "range_set \<Rightarrow> u64 \<Rightarrow> u64 \<Rightarrow> (u64 \<times> u64) option" where
  "first_gap r frm limit = rs_gap_loop r frm limit"


subsection \<open>Invariant and meaning\<close>

definition rs_set :: "range_set \<Rightarrow> u64 set" where
  "rs_set r = (\<Union>x\<in>set r. {fst x..<snd x})"

fun rs_inv :: "range_set \<Rightarrow> bool" where
  "rs_inv [] = True"
| "rs_inv (x # r) = (fst x < snd x \<and> (\<forall>y\<in>set r. snd x < fst y) \<and> rs_inv r)"

lemma rs_set_Nil [simp]: "rs_set [] = {}"
  by (simp add: rs_set_def)

lemma rs_set_Cons [simp]: "rs_set (x # r) = {fst x..<snd x} \<union> rs_set r"
  by (simp add: rs_set_def)

lemma rs_set_append [simp]: "rs_set (r @ s) = rs_set r \<union> rs_set s"
  by (simp add: rs_set_def)

lemma rs_inv_append:
  "rs_inv (r @ s) \<longleftrightarrow> rs_inv r \<and> rs_inv s \<and> (\<forall>x\<in>set r. \<forall>y\<in>set s. snd x < fst y)"
  by (induction r) auto

lemma rs_inv_proper: "rs_inv r \<Longrightarrow> x \<in> set r \<Longrightarrow> fst x < snd x"
  by (induction r) auto

lemma rs_inv_above: "rs_inv (x # r) \<Longrightarrow> v \<in> rs_set r \<Longrightarrow> snd x < v"
  by (auto simp: rs_set_def intro: less_le_trans)


subsection \<open>Adding a range\<close>

lemma rs_merge_set:
  "rs_inv r \<Longrightarrow> fst it < snd it \<Longrightarrow> \<forall>y\<in>set r. fst it \<le> fst y \<Longrightarrow>
     rs_set (rs_merge it r) = {fst it..<snd it} \<union> rs_set r"
proof (induction it r rule: rs_merge.induct)
  case (2 it y r)
  show ?case
  proof (cases "fst y \<le> snd it")
    case True
    have "rs_set (rs_merge (fst it, max (snd it) (snd y)) r) = {fst it..<max (snd it) (snd y)} \<union> rs_set r"
      using 2 True by (auto simp: max_def)
    moreover have "{fst it..<max (snd it) (snd y)} = {fst it..<snd it} \<union> {fst y..<snd y}"
      using 2 True by (auto simp: max_def)
    ultimately show ?thesis using True by auto
  qed auto
qed simp

lemma rs_merge_inv:
  "rs_inv r \<Longrightarrow> fst it < snd it \<Longrightarrow> \<forall>y\<in>set r. fst it \<le> fst y \<Longrightarrow>
     rs_inv (rs_merge it r) \<and> (\<forall>x\<in>set (rs_merge it r). fst it \<le> fst x)"
proof (induction it r rule: rs_merge.induct)
  case (2 it y r)
  show ?case
  proof (cases "fst y \<le> snd it")
    case True
    have "fst it < max (snd it) (snd y)" using 2 by (simp add: less_max_iff_disj)
    with 2 True show ?thesis by simp
  next
    case False
    with 2 show ?thesis by (auto simp: not_le intro: less_trans)
  qed
qed auto

text \<open>The ranges before the place \<open>lower_bound\<close> finds end below \<open>b\<close>; those from it on do not.\<close>

lemma rs_lower_bound:
  assumes "rs_inv r"
  obtains pre post where "takeWhile (\<lambda>x. snd x < b) r = pre" "dropWhile (\<lambda>x. snd x < b) r = post"
    "r = pre @ post" "\<forall>x\<in>set pre. snd x < b" "\<forall>x\<in>set post. b \<le> snd x"
proof -
  let ?post = "dropWhile (\<lambda>x. snd x < b) r"
  have "\<forall>x\<in>set ?post. b \<le> snd x"
    using assms
  proof (induction r)
    case (Cons x r)
    have "b \<le> snd y" if "\<not> snd x < b" "y \<in> set r" for y
    proof -
      have "snd x < fst y" and "fst y < snd y" using Cons.prems that(2) rs_inv_proper [of r y] by auto
      with that(1) show ?thesis by order
    qed
    then show ?case
      using Cons.IH Cons.prems by (cases "snd x < b") (simp_all add: leI)
  qed simp
  then show thesis by (intro that [OF refl refl]) (auto dest: set_takeWhileD)
qed

lemma rs_add_correct:
  assumes inv: "rs_inv r"
  shows "rs_inv (rs_add r b e)" and "rs_set (rs_add r b e) = rs_set r \<union> {b..<e}"
proof -
  have "rs_inv (rs_add r b e) \<and> rs_set (rs_add r b e) = rs_set r \<union> {b..<e}"
  proof (cases "b \<ge> e")
    case True
    then show ?thesis using inv by (auto simp: rs_add_def)
  next
    case False
    then have be: "b < e" by simp
    obtain pre post where tw: "takeWhile (\<lambda>x. snd x < b) r = pre" "dropWhile (\<lambda>x. snd x < b) r = post"
      and r: "r = pre @ post" and pre: "\<forall>x\<in>set pre. snd x < b" and post: "\<forall>x\<in>set post. b \<le> snd x"
      by (rule rs_lower_bound [OF inv])
    have add: "rs_add r b e = (case post of [] \<Rightarrow> pre @ [(b, e)]
        | it # rest \<Rightarrow> if fst it > e then pre @ (b, e) # it # rest
            else pre @ rs_merge (min (fst it) b, max (snd it) e) rest)"
      using False by (simp add: rs_add_def tw Let_def)
    have invs: "rs_inv pre" "rs_inv post" "\<forall>x\<in>set pre. \<forall>y\<in>set post. snd x < fst y"
      using inv by (simp_all add: r rs_inv_append)
    show ?thesis
    proof (cases post)
      case Nil
      with be r pre invs show ?thesis unfolding add by (simp add: rs_inv_append)
    next
      case (Cons it rest)
      show ?thesis
      proof (cases "fst it > e")
        case True
        have "\<forall>y\<in>set rest. e < fst y" using invs(2) Cons True by (auto intro: less_trans dest: rs_inv_proper)
        with True be r pre invs Cons show ?thesis
          unfolding add by (auto simp: rs_inv_append)
      next
        case False
        let ?it = "(min (fst it) b, max (snd it) e)"
        have it: "fst it < snd it" "\<forall>y\<in>set rest. snd it < fst y" "rs_inv rest" "b \<le> snd it"
          using invs(2) post Cons by auto
        have proper: "fst ?it < snd ?it" using it(1) by (simp add: min_less_iff_disj less_max_iff_disj)
        have low: "\<forall>y\<in>set rest. fst ?it \<le> fst y"
          using it(1,2) by (auto simp: min_le_iff_disj intro: less_imp_le less_trans)
        have "{fst ?it..<snd ?it} = {fst it..<snd it} \<union> {b..<e}"
          using it be False by (auto simp: min_def max_def not_less)
        moreover have "\<forall>x\<in>set pre. \<forall>y\<in>set (rs_merge ?it rest). snd x < fst y"
        proof (intro ballI)
          fix x y assume "x \<in> set pre" "y \<in> set (rs_merge ?it rest)"
          then have "snd x < fst ?it" "fst ?it \<le> fst y"
            using rs_merge_inv [OF it(3) proper low] pre invs(3) Cons by simp_all
          then show "snd x < fst y" by (rule less_le_trans)
        qed
        ultimately show ?thesis
          using False r Cons invs(1) rs_merge_inv [OF it(3) proper low] rs_merge_set [OF it(3) proper low]
          unfolding add by (auto simp: rs_inv_append)
      qed
    qed
  qed
  then show "rs_inv (rs_add r b e)" and "rs_set (rs_add r b e) = rs_set r \<union> {b..<e}" by auto
qed


subsection \<open>Removing, trimming\<close>

lemma rs_remove_loop_correct:
  assumes "rs_inv r" and "b < e"
  shows "rs_inv (rs_remove_loop b e r) \<and> rs_set (rs_remove_loop b e r) = rs_set r - {b..<e}
    \<and> (\<forall>l. (\<forall>y\<in>set r. l < fst y) \<longrightarrow> (\<forall>y\<in>set (rs_remove_loop b e r). l < fst y))"
  using assms(1)
proof (induction r)
  case (Cons x r)
  let ?r = "rs_remove_loop b e r"
  have x: "fst x < snd x" "\<forall>y\<in>set r. snd x < fst y" and inv: "rs_inv r" using Cons.prems by auto
  have IH: "rs_inv ?r" "rs_set ?r = rs_set r - {b..<e}" "\<forall>y\<in>set ?r. snd x < fst y"
    "\<And>l. \<forall>y\<in>set r. l < fst y \<Longrightarrow> \<forall>y\<in>set ?r. l < fst y"
    using Cons.IH [OF inv] x(2) by auto
  have lr: "\<And>l. l < fst x \<Longrightarrow> \<forall>y\<in>set r. l < fst y" using x by (meson less_trans)
  consider (out) "snd x \<le> b \<or> e \<le> fst x" | (cut) "b < snd x" "fst x < e" "fst x < b" "e < snd x"
    | (left) "b < snd x" "fst x < e" "fst x < b" "snd x \<le> e"
    | (right) "b < snd x" "fst x < e" "b \<le> fst x" "e < snd x"
    | (inside) "b < snd x" "fst x < e" "b \<le> fst x" "snd x \<le> e" by (meson not_le)
  then show ?case
  proof cases
    case out
    then have "{fst x..<snd x} - {b..<e} = {fst x..<snd x}" using assms(2) by auto
    moreover have "rs_remove_loop b e (x # r) = x # ?r" using out by simp
    ultimately show ?thesis using x(1) IH by (simp add: Un_Diff)
  next
    case cut
    have "v \<notin> {b..<e}" if "v \<in> rs_set r" for v
      using rs_inv_above [OF Cons.prems that] cut(4) by (auto dest: less_trans)
    then have "rs_set r - {b..<e} = rs_set r" by blast
    moreover have "{fst x..<snd x} - {b..<e} = {fst x..<b} \<union> {e..<snd x}" using cut assms(2) by auto
    moreover have "\<forall>y\<in>set r. b < fst y" using x(2) cut(1) by (meson less_trans)
    moreover have "\<not> snd x \<le> b" "\<not> e \<le> fst x" using cut by auto
    ultimately show ?thesis using cut x inv lr assms(2)
      by (auto simp: Un_Diff intro: less_trans)
  next
    case left
    have "{fst x..<snd x} - {b..<e} = {fst x..<b}" using left assms(2) by auto
    moreover have "\<forall>y\<in>set ?r. b < fst y" using IH(3) left(1) by (meson less_trans)
    moreover have "\<not> snd x \<le> b" "\<not> e \<le> fst x" "\<not> e < snd x" using left by auto
    moreover from calculation(3-5) have "rs_remove_loop b e (x # r) = (fst x, b) # ?r" using left by simp
    ultimately show ?thesis using left(3) IH by (simp add: Un_Diff)
  next
    case right
    have "{fst x..<snd x} - {b..<e} = {e..<snd x}" using right assms(2) by auto
    moreover have "\<not> snd x \<le> b" "\<not> e \<le> fst x" "\<not> fst x < b" using right by auto
    moreover from calculation(2-4) have "rs_remove_loop b e (x # r) = (e, snd x) # ?r" using right by simp
    ultimately show ?thesis using right(2,4) IH by (simp add: Un_Diff) (meson less_trans)
  next
    case inside
    have "rs_set (x # r) - {b..<e} = rs_set r - {b..<e}" using inside by auto
    moreover have "\<not> snd x \<le> b" "\<not> e \<le> fst x" "\<not> fst x < b" "\<not> e < snd x" using inside by auto
    moreover from calculation(2-5) have "rs_remove_loop b e (x # r) = ?r" by simp
    ultimately show ?thesis using IH by simp
  qed
qed simp

lemma rs_remove_correct:
  assumes "rs_inv r"
  shows "rs_inv (rs_remove r b e)" and "rs_set (rs_remove r b e) = rs_set r - {b..<e}"
  using rs_remove_loop_correct [OF assms, of b e] assms by (auto simp: rs_remove_def not_le)

lemma rs_remove_below_correct:
  assumes "rs_inv r"
  shows "rs_inv (rs_remove_below r lim)" and "rs_set (rs_remove_below r lim) = rs_set r - {..<lim}"
proof -
  have "rs_inv (rs_remove_below r lim) \<and> rs_set (rs_remove_below r lim) = rs_set r - {..<lim}"
    using assms
  proof (induction r)
    case (Cons x r)
    show ?case
    proof (cases "snd x \<le> lim")
      case True
      then have "rs_set (x # r) - {..<lim} = rs_set r - {..<lim}" by auto
      moreover have "rs_remove_below (x # r) lim = rs_remove_below r lim" using True by (simp add: rs_remove_below_def)
      ultimately show ?thesis using Cons by simp
    next
      case False
      have rest: "rs_set r - {..<lim} = rs_set r"
        using False rs_inv_above [OF Cons.prems] by (auto simp: not_le) (meson less_trans not_less_iff_gr_or_eq)
      have "{fst x..<snd x} - {..<lim} = {max (fst x) lim..<snd x}" by auto
      with False rest Cons.prems show ?thesis
        by (auto simp: rs_remove_below_def Un_Diff max_def not_le)
    qed
  qed (simp add: rs_remove_below_def)
  then show "rs_inv (rs_remove_below r lim)" "rs_set (rs_remove_below r lim) = rs_set r - {..<lim}" by auto
qed

lemma rs_keep_highest_correct:
  assumes "rs_inv r"
  shows "rs_inv (rs_keep_highest r n)" and "rs_set (rs_keep_highest r n) \<subseteq> rs_set r"
    and "length (rs_keep_highest r n) = min n (length r)"
proof -
  have "rs_inv (take k r @ drop k r)" for k using assms by simp
  then show "rs_inv (rs_keep_highest r n)" using assms by (simp only: rs_inv_append rs_keep_highest_def split: if_split) simp
  show "rs_set (rs_keep_highest r n) \<subseteq> rs_set r"
    by (auto simp: rs_keep_highest_def rs_set_def dest: in_set_dropD)
  show "length (rs_keep_highest r n) = min n (length r)" by (auto simp: rs_keep_highest_def)
qed


subsection \<open>Queries\<close>

lemma rs_contains_ex: "rs_contains r b e \<longleftrightarrow> (\<exists>x\<in>set r. fst x \<le> b \<and> e \<le> snd x)"
  by (induction r) auto

text \<open>Merged ranges never touch, so an interval inside the union is inside one range.\<close>

lemma rs_contains_iff:
  assumes "rs_inv r" and "b < e"
  shows "rs_contains r b e \<longleftrightarrow> {b..<e} \<subseteq> rs_set r"
proof
  assume "rs_contains r b e"
  then obtain x where "x \<in> set r" "fst x \<le> b" "e \<le> snd x" by (auto simp: rs_contains_ex)
  then have "{b..<e} \<subseteq> {fst x..<snd x}" "{fst x..<snd x} \<subseteq> rs_set r" by (auto simp: rs_set_def)
  then show "{b..<e} \<subseteq> rs_set r" by (rule subset_trans)
next
  show "{b..<e} \<subseteq> rs_set r \<Longrightarrow> rs_contains r b e"
    using assms
  proof (induction r)
    case (Cons x r)
    note above = rs_inv_above [OF Cons.prems(2)]
    show ?case
    proof (cases "b < snd x")
      case True
      have "b \<in> {fst x..<snd x}" using Cons.prems(1,3) above [of b] True by auto
      moreover have "e \<le> snd x"
      proof (rule ccontr)
        assume "\<not> e \<le> snd x"
        then have "snd x \<in> {b..<e}" using True by auto
        then have "snd x \<in> rs_set (x # r)" using Cons.prems(1) by blast
        then show False using above [of "snd x"] by auto
      qed
      ultimately show ?thesis by simp
    next
      case False
      then have "{b..<e} \<inter> {fst x..<snd x} = {}" by auto
      then have "{b..<e} \<subseteq> rs_set r" using Cons.prems(1) unfolding rs_set_Cons by blast
      with Cons show ?thesis by simp
    qed
  qed auto
qed

lemma contiguous_from_correct:
  assumes "rs_inv r"
  shows "frm \<le> contiguous_from r frm" and "{frm..<contiguous_from r frm} \<subseteq> rs_set r"
    and "contiguous_from r frm \<notin> rs_set r"
proof -
  have "frm \<le> contiguous_from r frm \<and> {frm..<contiguous_from r frm} \<subseteq> rs_set r
    \<and> contiguous_from r frm \<notin> rs_set r"
    using assms
  proof (induction r)
    case (Cons x r)
    note above = rs_inv_above [OF Cons.prems]
    show ?case
    proof (cases "fst x \<le> frm \<and> frm < snd x")
      case True
      then show ?thesis using above [of "snd x"] by auto
    next
      case False
      let ?c = "contiguous_from r frm"
      have IH: "frm \<le> ?c" "{frm..<?c} \<subseteq> rs_set r" "?c \<notin> rs_set r" using Cons by auto
      have "?c \<notin> {fst x..<snd x}"
      proof (cases "frm = ?c")
        case True
        then show ?thesis using False by auto
      next
        case neq: False
        then have "frm \<in> {frm..<?c}" using IH(1) by simp
        then have "frm \<in> rs_set r" using IH(2) by blast
        from above [OF this] IH(1) show ?thesis by auto
      qed
      moreover have "contiguous_from (x # r) frm = ?c" by (simp only: contiguous_from.simps False if_False)
      ultimately show ?thesis using IH by auto
    qed
  qed simp
  then show "frm \<le> contiguous_from r frm" "{frm..<contiguous_from r frm} \<subseteq> rs_set r"
    "contiguous_from r frm \<notin> rs_set r" by auto
qed

lemma rs_gap_loop_None:
  assumes "rs_inv r"
  shows "rs_gap_loop r pos limit = None \<Longrightarrow> {pos..<limit} \<subseteq> rs_set r"
  using assms
proof (induction r pos limit rule: rs_gap_loop.induct)
  case (2 x r pos limit)
  consider (skip) "snd x \<le> pos" | (gap) "pos < snd x" "pos < fst x" | (reach) "pos < snd x" "fst x \<le> pos" "limit \<le> snd x"
    | (on) "pos < snd x" "fst x \<le> pos" "snd x < limit" by (meson not_le)
  then show ?case
  proof cases
    case skip
    then show ?thesis using 2 by auto
  next
    case gap
    then have "limit \<le> pos" using 2(3) by (auto simp: min_less_iff_conj not_less split: if_splits)
    then show ?thesis by simp
  next
    case reach
    then show ?thesis by auto
  next
    case on
    then have "\<not> snd x \<le> pos" "\<not> pos < fst x" "\<not> limit \<le> snd x" by auto
    then have "{snd x..<limit} \<subseteq> rs_set r" using 2(2) 2(3,4) by simp
    moreover have "{pos..<limit} \<subseteq> {fst x..<snd x} \<union> {snd x..<limit}" using on by auto
    ultimately show ?thesis by auto
  qed
qed (auto split: if_splits)

lemma rs_gap_loop_Some:
  assumes "rs_inv r"
  shows "rs_gap_loop r pos limit = Some (gb, ge) \<Longrightarrow>
    pos \<le> gb \<and> gb < ge \<and> ge \<le> limit \<and> {pos..<gb} \<subseteq> rs_set r \<and> {gb..<ge} \<inter> rs_set r = {}
    \<and> (ge = limit \<or> ge \<in> rs_set r)"
  using assms
proof (induction r pos limit rule: rs_gap_loop.induct)
  case (2 x r pos limit)
  note above = rs_inv_above [OF 2(4)]
  consider (skip) "snd x \<le> pos" | (gap) "pos < snd x" "pos < fst x" | (reach) "pos < snd x" "fst x \<le> pos" "limit \<le> snd x"
    | (on) "pos < snd x" "fst x \<le> pos" "snd x < limit" by (meson not_le)
  then show ?case
  proof cases
    case skip
    then have IH: "pos \<le> gb \<and> gb < ge \<and> ge \<le> limit \<and> {pos..<gb} \<subseteq> rs_set r \<and> {gb..<ge} \<inter> rs_set r = {}
      \<and> (ge = limit \<or> ge \<in> rs_set r)" using 2 by auto
    then have "{gb..<ge} \<inter> {fst x..<snd x} = {}" using skip by auto
    with IH show ?thesis by auto
  next
    case gap
    then have g: "gb = pos" "ge = min (fst x) limit" "pos < min (fst x) limit"
      using 2(3) by (auto split: if_splits)
    have less: "v \<notin> rs_set (x # r)" if "v < fst x" for v
      using that above [of v] 2(4) by (auto dest: less_trans)
    have ge: "ge \<le> fst x" "ge \<le> limit" "ge = limit \<or> ge = fst x" by (auto simp: g min_def)
    have "{gb..<ge} \<inter> rs_set (x # r) = {}" using less ge(1) by (meson atLeastLessThan_iff disjoint_iff less_le_trans)
    moreover have "fst x \<in> rs_set (x # r)" using 2(4) by simp
    ultimately show ?thesis using g ge by auto
  next
    case reach
    then show ?thesis using 2(3) by (simp add: not_le_of_less leD)
  next
    case on
    then have "\<not> snd x \<le> pos" "\<not> pos < fst x" "\<not> limit \<le> snd x" by auto
    then have IH: "snd x \<le> gb \<and> gb < ge \<and> ge \<le> limit \<and> {snd x..<gb} \<subseteq> rs_set r \<and> {gb..<ge} \<inter> rs_set r = {}
      \<and> (ge = limit \<or> ge \<in> rs_set r)" using 2(2) 2(3,4) by simp
    then have "{gb..<ge} \<inter> {fst x..<snd x} = {}" by auto
    moreover have "{pos..<gb} \<subseteq> {fst x..<snd x} \<union> {snd x..<gb}" using on by auto
    ultimately show ?thesis using IH on by auto
  qed
qed (auto split: if_splits)

lemma rs_max_min:
  assumes "rs_inv r" and "r \<noteq> []"
  shows "rs_max r \<in> rs_set r" and "rs_min r \<in> rs_set r"
    and "v \<in> rs_set r \<Longrightarrow> rs_min r \<le> v \<and> v \<le> rs_max r"
proof -
  have dec: "w - 1 < w \<and> u \<le> w - 1" if "u < w" for u w :: u64
  proof -
    have "w \<noteq> 0" using that by auto
    then show ?thesis using that unat_minus_one [of w] by (auto simp: word_less_nat_alt word_le_nat_alt)
  qed
  obtain x r' where r: "r = x # r'" using assms(2) by (cases r) auto
  obtain p l where l: "r = p @ [l]" using assms(2) by (cases r rule: rev_cases) auto
  have lp: "fst l < snd l" using assms(1) l by (auto simp: rs_inv_append)
  show "rs_max r \<in> rs_set r" using dec [OF lp] by (simp add: rs_max_def l)
  show "rs_min r \<in> rs_set r" using assms(1) by (simp add: rs_min_def r)
  assume v: "v \<in> rs_set r"
  have "fst x \<le> v" using v rs_inv_above [of x r' v] assms(1) by (auto simp: r intro: less_imp_le less_trans)
  moreover have "v < snd l"
    using v assms(1) lp by (auto simp: l rs_inv_append rs_set_def intro: less_trans)
  moreover have "rs_min r = fst x" by (simp add: rs_min_def r)
  moreover have "rs_max r = snd l - 1" by (simp add: rs_max_def l)
  ultimately show "rs_min r \<le> v \<and> v \<le> rs_max r" using dec [of v "snd l"] by simp
qed


subsection \<open>The contract\<close>

text \<open>
  What the users of a range set rely on: an abstract set of values, the operations that
  change it, and the query that decides membership of a whole interval.
\<close>

locale interval_set =
  fixes inv :: "'s \<Rightarrow> bool"
    and vals :: "'s \<Rightarrow> u64 set"
    and empty :: 's
    and add :: "'s \<Rightarrow> u64 \<Rightarrow> u64 \<Rightarrow> 's"
    and remove :: "'s \<Rightarrow> u64 \<Rightarrow> u64 \<Rightarrow> 's"
    and contains :: "'s \<Rightarrow> u64 \<Rightarrow> u64 \<Rightarrow> bool"
  assumes empty: "inv empty" "vals empty = {}"
    and add: "inv s \<Longrightarrow> inv (add s b e)" "inv s \<Longrightarrow> vals (add s b e) = vals s \<union> {b..<e}"
    and remove: "inv s \<Longrightarrow> inv (remove s b e)" "inv s \<Longrightarrow> vals (remove s b e) = vals s - {b..<e}"
    and contains: "inv s \<Longrightarrow> b < e \<Longrightarrow> contains s b e \<longleftrightarrow> {b..<e} \<subseteq> vals s"
begin

lemma add_seq:
  "inv s \<Longrightarrow> inv (fold (\<lambda>(b, e) s. add s b e) xs s)
    \<and> vals (fold (\<lambda>(b, e) s. add s b e) xs s) = vals s \<union> (\<Union>(b, e)\<in>set xs. {b..<e})"
proof (induction xs arbitrary: s)
  case (Cons x xs)
  obtain b e where x: "x = (b, e)" by force
  show ?case using Cons.IH [of "add s b e"] Cons.prems by (simp add: x add Un_assoc)
qed simp

text \<open>The order in which ranges arrive does not matter.\<close>

lemma add_order:
  assumes "set xs = set ys"
  shows "vals (fold (\<lambda>(b, e) s. add s b e) xs empty) = vals (fold (\<lambda>(b, e) s. add s b e) ys empty)"
  using assms add_seq [of empty xs] add_seq [of empty ys] by (simp add: empty)

lemma contains_added:
  assumes "inv s" and "b < e"
  shows "contains (add s b e) b e"
  using assms by (simp add: contains add)

lemma add_removed:
  assumes "inv s" and "contains s b e" and "b < e"
  shows "vals (add (remove s b e) b e) = vals s"
  using assms by (auto simp: contains add remove)

end

interpretation rs: interval_set rs_inv rs_set "[]" rs_add rs_remove rs_contains
  by unfold_locales
    (simp_all add: rs_add_correct rs_remove_correct rs_contains_iff)

text \<open>
  A sorted merged list is determined by its set: two range sets built from the same values are
  the same vector.
\<close>

lemma rs_inv_unique:
  assumes "rs_inv r" and "rs_inv s" and "rs_set r = rs_set s"
  shows "r = s"
  using assms
proof (induction r arbitrary: s)
  case Nil
  show ?case
  proof (cases s)
    case (Cons y s')
    then have "fst y \<in> rs_set s" using Nil.prems by simp
    with Nil.prems show ?thesis by simp
  qed simp
next
  case (Cons x r)
  have "fst x \<in> rs_set s" using Cons.prems by (simp flip: Cons.prems(3))
  then obtain y s' where s: "s = y # s'" by (cases s) auto
  have "fst y \<in> rs_set (x # r)" unfolding Cons.prems(3) using Cons.prems(2) by (simp add: s)
  then have "fst x \<le> fst y" using rs_max_min(3) [OF Cons.prems(1), of "fst y"] by (simp add: rs_min_def)
  moreover have "fst y \<le> fst x"
    using rs_max_min(3) [OF Cons.prems(2), of "fst x"] \<open>fst x \<in> rs_set s\<close> by (simp add: rs_min_def s)
  ultimately have xy: "fst x = fst y" by simp
  have ends: "contiguous_from (x # r) (fst x) = snd x" "contiguous_from s (fst x) = snd y"
    using Cons.prems(1,2) by (simp_all add: s xy)
  note cx = contiguous_from_correct(2,3) [OF Cons.prems(1), of "fst x", unfolded ends]
    contiguous_from_correct(2,3) [OF Cons.prems(2), of "fst x", unfolded ends]
  have "snd x \<notin> {fst x..<snd y}" "snd y \<notin> {fst x..<snd x}" using cx Cons.prems(3) by blast+
  then have xy2: "snd x = snd y" using Cons.prems(1,2) xy by (auto simp: s not_less)
  have "v \<in> rs_set r \<longleftrightarrow> v \<in> rs_set s'" for v
  proof -
    have "v \<in> rs_set r \<longleftrightarrow> v \<in> rs_set (x # r) \<and> snd x < v"
      using rs_inv_above [OF Cons.prems(1), of v] by auto
    moreover have "v \<in> rs_set s' \<longleftrightarrow> v \<in> rs_set s \<and> snd x < v"
      using rs_inv_above [OF Cons.prems(2) [unfolded s], of v] xy2 by (auto simp: s)
    ultimately show ?thesis using Cons.prems(3) by blast
  qed
  then have "rs_set r = rs_set s'" by blast
  then have "r = s'" using Cons.IH Cons.prems(1,2) s by simp
  with xy xy2 s show ?case by (simp add: prod_eq_iff)
qed

lemma rs_add_seq_inv: "rs_inv r \<Longrightarrow> rs_inv (fold (\<lambda>(b, e) s. rs_add s b e) xs r)"
  using rs.add_seq [of r xs] by simp


subsection \<open>Properties\<close>

text \<open>
  C19. A range set built by \<open>add\<close> calls is a canonical form: after any two sequences of additions
  that cover the same ranges, in whatever order and overlap they arrived, the vectors are equal,
  sorted, disjoint and merged, and the values held are exactly the union of the ranges added.
\<close>

theorem range_set_canonical:
  assumes "set xs = set ys"
  shows "fold (\<lambda>(b, e) s. rs_add s b e) xs [] = fold (\<lambda>(b, e) s. rs_add s b e) ys []
    \<and> rs_inv (fold (\<lambda>(b, e) s. rs_add s b e) xs [])
    \<and> rs_set (fold (\<lambda>(b, e) s. rs_add s b e) xs []) = (\<Union>(b, e)\<in>set xs. {b..<e})"
  using rs.add_seq [of "[]" xs] rs.add_order [OF assms] rs_inv_unique rs_add_seq_inv by auto

lemma range_set_canonical_witness:
  "fold (\<lambda>(b, e) s. rs_add s b e) [(5, 9), (1, 3), (3, 5)] [] = fold (\<lambda>(b, e) s. rs_add s b e) [(3, 5), (5, 9), (1, 3)] []
    \<and> fold (\<lambda>(b, e) s. rs_add s b e) [(5, 9), (1, 3), (3, 5)] [] = [(1, 9)]"
proof -
  have "fold (\<lambda>(b, e) s. rs_add s b e) [(5, 9), (1, 3), (3, 5)] [] = fold (\<lambda>(b, e) s. rs_add s b e) [(3, 5), (5, 9), (1, 3)] []"
    by (rule range_set_canonical [THEN conjunct1]) auto
  then show ?thesis by code_simp
qed

text \<open>
  On a well-formed range set, \<open>remove\<close> and \<open>remove_below\<close> take away exactly the named
  values, \<open>contains\<close> decides whether a non-empty interval is held, and each keeps the vector
  sorted, disjoint and merged.
\<close>

theorem range_set_operations:
  assumes "rs_inv r" and "b < e"
  shows "rs_inv (rs_remove r b e) \<and> rs_set (rs_remove r b e) = rs_set r - {b..<e}
    \<and> rs_inv (rs_remove_below r b) \<and> rs_set (rs_remove_below r b) = rs_set r - {..<b}
    \<and> (rs_contains r b e \<longleftrightarrow> {b..<e} \<subseteq> rs_set r)"
  using assms rs_remove_correct rs_remove_below_correct rs_contains_iff by simp

text \<open>
  \<open>first_gap\<close> finds the first missing values: when it reports a gap \<open>[gb, ge)\<close>, the gap is
  non-empty, lies in \<open>[from, limit)\<close>, nothing in it is held, everything between \<open>from\<close> and it is
  held, and it ends at the limit or at a held value; when it reports none, all of \<open>[from, limit)\<close> is
  held.
\<close>

theorem first_gap_correct:
  assumes "rs_inv r"
  shows "case first_gap r frm limit of
      None \<Rightarrow> {frm..<limit} \<subseteq> rs_set r
    | Some (gb, ge) \<Rightarrow> frm \<le> gb \<and> gb < ge \<and> ge \<le> limit \<and> {frm..<gb} \<subseteq> rs_set r
        \<and> {gb..<ge} \<inter> rs_set r = {} \<and> (ge = limit \<or> ge \<in> rs_set r)"
  using rs_gap_loop_None [OF assms, of frm limit] rs_gap_loop_Some [OF assms, of frm limit]
  by (auto simp: first_gap_def split: option.split)

end
