(* ===== verification/H2_Frame.thy ===== *)
theory H2_Frame
  imports Wire_Codec
begin

text \<open>
  HTTP/2 framing (\<^verbatim>\<open>src/http2/frame.hpp\<close>) and SETTINGS (\<^verbatim>\<open>src/http2/settings.hpp\<close>). A reader
  takes the bytes at its pointer; the nine of a frame header are known to be present, which
  the list pattern of \<open>read_frame_header\<close> says and the callers' guard establishes. A builder
  returns the output buffer with what it appended. \<open>h2_frame\<close> is the frame as the peer sees it;
  \<open>split_frame\<close> is how the peer cuts the stream.
\<close>

unbundle bit_operations_syntax


subsection \<open>Constants\<close>

definition kFrameHeaderSize :: nat where
  "kFrameHeaderSize = 9"

definition kPreface :: bytes where
  "kPreface = bytes_of ''PRI * HTTP/2.0'' @ [c_cr, c_lf, c_cr, c_lf] @ bytes_of ''SM'' @ [c_cr, c_lf, c_cr, c_lf]"

definition kMaxStreamId :: u32 where
  "kMaxStreamId = 0x7fffffff"

datatype FrameType = ft_data | ft_headers | ft_priority | ft_rst_stream | ft_settings
  | ft_push_promise | ft_ping | ft_goaway | ft_window_update | ft_continuation

fun frame_type_code :: "FrameType \<Rightarrow> byte" where
  "frame_type_code ft_data = 0x0"
| "frame_type_code ft_headers = 0x1"
| "frame_type_code ft_priority = 0x2"
| "frame_type_code ft_rst_stream = 0x3"
| "frame_type_code ft_settings = 0x4"
| "frame_type_code ft_push_promise = 0x5"
| "frame_type_code ft_ping = 0x6"
| "frame_type_code ft_goaway = 0x7"
| "frame_type_code ft_window_update = 0x8"
| "frame_type_code ft_continuation = 0x9"

definition flag_end_stream :: byte where "flag_end_stream = 0x1"
definition flag_ack :: byte where "flag_ack = 0x1"
definition flag_end_headers :: byte where "flag_end_headers = 0x4"
definition flag_padded :: byte where "flag_padded = 0x8"
definition flag_priority :: byte where "flag_priority = 0x20"

datatype ErrorCode = no_error | protocol_error | internal_error | flow_control_error
  | settings_timeout | stream_closed | frame_size_error | refused_stream | ec_cancel
  | compression_error | connect_error | enhance_your_calm | inadequate_security | http_1_1_required

fun error_code :: "ErrorCode \<Rightarrow> u32" where
  "error_code no_error = 0x0"
| "error_code protocol_error = 0x1"
| "error_code internal_error = 0x2"
| "error_code flow_control_error = 0x3"
| "error_code settings_timeout = 0x4"
| "error_code stream_closed = 0x5"
| "error_code frame_size_error = 0x6"
| "error_code refused_stream = 0x7"
| "error_code ec_cancel = 0x8"
| "error_code compression_error = 0x9"
| "error_code connect_error = 0xa"
| "error_code enhance_your_calm = 0xb"
| "error_code inadequate_security = 0xc"
| "error_code http_1_1_required = 0xd"

text \<open>
  The switch of \<open>error_name\<close> is over the underlying number, since the peer's codes are cast into the
  enumeration.
\<close>

definition error_name :: "u32 \<Rightarrow> string" where
  "error_name c =
    (if c = error_code no_error then ''NO_ERROR''
     else if c = error_code protocol_error then ''PROTOCOL_ERROR''
     else if c = error_code internal_error then ''INTERNAL_ERROR''
     else if c = error_code flow_control_error then ''FLOW_CONTROL_ERROR''
     else if c = error_code settings_timeout then ''SETTINGS_TIMEOUT''
     else if c = error_code stream_closed then ''STREAM_CLOSED''
     else if c = error_code frame_size_error then ''FRAME_SIZE_ERROR''
     else if c = error_code refused_stream then ''REFUSED_STREAM''
     else if c = error_code ec_cancel then ''CANCEL''
     else if c = error_code compression_error then ''COMPRESSION_ERROR''
     else if c = error_code connect_error then ''CONNECT_ERROR''
     else if c = error_code enhance_your_calm then ''ENHANCE_YOUR_CALM''
     else if c = error_code inadequate_security then ''INADEQUATE_SECURITY''
     else if c = error_code http_1_1_required then ''HTTP_1_1_REQUIRED''
     else ''UNKNOWN'')"


subsection \<open>Headers\<close>

record FrameHeader =
  fh_length :: u32
  fh_type :: byte
  fh_flags :: byte
  fh_stream_id :: u32

definition read_u32 :: "byte \<Rightarrow> byte \<Rightarrow> byte \<Rightarrow> byte \<Rightarrow> u32" where
  "read_u32 p0 p1 p2 p3 =
     push_bit 24 (ucast p0) OR push_bit 16 (ucast p1) OR push_bit 8 (ucast p2) OR ucast p3"

definition write_u32 :: "u32 \<Rightarrow> bytes" where
  "write_u32 v = [ucast (drop_bit 24 v), ucast (drop_bit 16 v), ucast (drop_bit 8 v), ucast v]"

fun read_frame_header :: "bytes \<Rightarrow> FrameHeader option" where
  "read_frame_header (p0 # p1 # p2 # p3 # p4 # p5 # p6 # p7 # p8 # _) =
     Some \<lparr>fh_length = push_bit 16 (ucast p0) OR push_bit 8 (ucast p1) OR ucast p2,
           fh_type = p3, fh_flags = p4,
           fh_stream_id = read_u32 p5 p6 p7 p8 AND kMaxStreamId\<rparr>"
| "read_frame_header _ = None"

definition write_frame_header :: "u32 \<Rightarrow> FrameType \<Rightarrow> byte \<Rightarrow> u32 \<Rightarrow> bytes" where
  "write_frame_header len type flags stream_id =
     [ucast (drop_bit 16 len), ucast (drop_bit 8 len), ucast len,
      frame_type_code type, flags] @ write_u32 (stream_id AND kMaxStreamId)"


subsection \<open>Builders\<close>

definition append_frame_header :: "bytes \<Rightarrow> u32 \<Rightarrow> FrameType \<Rightarrow> byte \<Rightarrow> u32 \<Rightarrow> bytes" where
  "append_frame_header out len type flags stream_id = out @ write_frame_header len type flags stream_id"

definition append_u32 :: "bytes \<Rightarrow> u32 \<Rightarrow> bytes" where
  "append_u32 out v = out @ write_u32 v"

definition append_u16 :: "bytes \<Rightarrow> u16 \<Rightarrow> bytes" where
  "append_u16 out v = out @ [ucast (drop_bit 8 v), ucast v]"

record SettingPair =
  sp_id :: u16
  sp_value :: u32

definition append_settings :: "bytes \<Rightarrow> SettingPair list \<Rightarrow> bytes" where
  "append_settings out pairs =
     fold (\<lambda>p out. append_u32 (append_u16 out (sp_id p)) (sp_value p)) pairs
       (append_frame_header out (of_nat (length pairs * 6)) ft_settings 0 0)"

definition append_settings_ack :: "bytes \<Rightarrow> bytes" where
  "append_settings_ack out = append_frame_header out 0 ft_settings flag_ack 0"

definition append_ping_ack :: "bytes \<Rightarrow> bytes \<Rightarrow> bytes" where
  "append_ping_ack out payload = append_frame_header out 8 ft_ping flag_ack 0 @ take 8 payload"

definition append_rst_stream :: "bytes \<Rightarrow> u32 \<Rightarrow> ErrorCode \<Rightarrow> bytes" where
  "append_rst_stream out stream_id code =
     append_u32 (append_frame_header out 4 ft_rst_stream 0 stream_id) (error_code code)"

definition append_window_update :: "bytes \<Rightarrow> u32 \<Rightarrow> u32 \<Rightarrow> bytes" where
  "append_window_update out stream_id increment =
     append_u32 (append_frame_header out 4 ft_window_update 0 stream_id) (increment AND kMaxStreamId)"

definition append_goaway :: "bytes \<Rightarrow> u32 \<Rightarrow> ErrorCode \<Rightarrow> bytes \<Rightarrow> bytes" where
  "append_goaway out last_stream_id code debug =
     append_u32
       (append_u32 (append_frame_header out (of_nat (8 + length debug)) ft_goaway 0 0)
         (last_stream_id AND kMaxStreamId))
       (error_code code) @ debug"

lemmas builder_defs = append_frame_header_def append_u32_def append_u16_def append_settings_ack_def
  append_ping_ack_def append_rst_stream_def append_window_update_def append_goaway_def


subsection \<open>Settings\<close>

definition setting_header_table_size :: u16 where "setting_header_table_size = 0x1"
definition setting_enable_push :: u16 where "setting_enable_push = 0x2"
definition setting_max_concurrent_streams :: u16 where "setting_max_concurrent_streams = 0x3"
definition setting_initial_window_size :: u16 where "setting_initial_window_size = 0x4"
definition setting_max_frame_size :: u16 where "setting_max_frame_size = 0x5"
definition setting_max_header_list_size :: u16 where "setting_max_header_list_size = 0x6"
definition setting_enable_connect_protocol :: u16 where "setting_enable_connect_protocol = 0x8"
definition setting_no_rfc7540_priorities :: u16 where "setting_no_rfc7540_priorities = 0x9"

lemmas setting_ids = setting_header_table_size_def setting_enable_push_def
  setting_max_concurrent_streams_def setting_initial_window_size_def setting_max_frame_size_def
  setting_max_header_list_size_def setting_enable_connect_protocol_def setting_no_rfc7540_priorities_def

definition kDefaultWindow :: u32 where "kDefaultWindow = 65535"
definition kMaxWindow :: u32 where "kMaxWindow = 0x7fffffff"
definition kMinFrameSize :: u32 where "kMinFrameSize = 16384"
definition kMaxFrameSize :: u32 where "kMaxFrameSize = push_bit 24 1 - 1"

record PeerSettings =
  ps_header_table_size :: u32
  ps_enable_push :: u32
  ps_max_concurrent_streams :: u32
  ps_initial_window_size :: u32
  ps_max_frame_size :: u32
  ps_max_header_list_size :: u32
  ps_no_rfc7540_priorities :: bool

definition default_settings :: PeerSettings where
  "default_settings =
     \<lparr>ps_header_table_size = 4096, ps_enable_push = 1, ps_max_concurrent_streams = 0xffffffff,
      ps_initial_window_size = kDefaultWindow, ps_max_frame_size = kMinFrameSize,
      ps_max_header_list_size = 0xffffffff, ps_no_rfc7540_priorities = False\<rparr>"

definition settings_apply :: "PeerSettings \<Rightarrow> u16 \<Rightarrow> u32 \<Rightarrow> PeerSettings \<times> ErrorCode" where
  "settings_apply s i v =
    (if i = setting_header_table_size then (s\<lparr>ps_header_table_size := v\<rparr>, no_error)
     else if i = setting_enable_push then
       (if v > 1 then (s, protocol_error) else (s\<lparr>ps_enable_push := v\<rparr>, no_error))
     else if i = setting_max_concurrent_streams then (s\<lparr>ps_max_concurrent_streams := v\<rparr>, no_error)
     else if i = setting_initial_window_size then
       (if v > kMaxWindow then (s, flow_control_error) else (s\<lparr>ps_initial_window_size := v\<rparr>, no_error))
     else if i = setting_max_frame_size then
       (if v < kMinFrameSize \<or> v > kMaxFrameSize then (s, protocol_error)
        else (s\<lparr>ps_max_frame_size := v\<rparr>, no_error))
     else if i = setting_max_header_list_size then (s\<lparr>ps_max_header_list_size := v\<rparr>, no_error)
     else if i = setting_no_rfc7540_priorities then
       (if v > 1 then (s, protocol_error) else (s\<lparr>ps_no_rfc7540_priorities := v = 1\<rparr>, no_error))
     else (s, no_error))"


subsection \<open>What the bytes mean\<close>

lemma write_u32_be: "write_u32 v = be_bytes 4 v"
  by (simp add: write_u32_def eval_nat_numeral)

lemma read_u32_be: "read_u32 p0 p1 p2 p3 = be_word 0 [p0, p1, p2, p3]"
  unfolding read_u32_def be_word_def
  by (simp, rule bit_word_eqI) (auto simp: bit_simps)

lemma length_write_u32 [simp]: "length (write_u32 v) = 4"
  by (simp add: write_u32_def)

lemma read_write_u32 [simp]:
  "read_u32 (ucast (drop_bit 24 v)) (ucast (drop_bit 16 v)) (ucast (drop_bit 8 v)) (ucast v) = v"
proof -
  have "be_word 0 (write_u32 v) = v" by (simp add: write_u32_be be_word_be_bytes take_bit_word_eq_self)
  then show ?thesis by (simp only: read_u32_be write_u32_def)
qed

lemma read_frame_header_write:
  assumes "len < 2 ^ 24"
  shows "read_frame_header (write_frame_header len type flags stream_id @ rest)
    = Some \<lparr>fh_length = len, fh_type = frame_type_code type, fh_flags = flags,
        fh_stream_id = stream_id AND kMaxStreamId\<rparr>"
proof -
  have "take_bit 24 len = len" using assms by (rule take_bit_of_less)
  then have bits: "bit len i \<Longrightarrow> i < 24" for i by (metis bit_take_bit_iff)
  have up: "n - 8 < 8" if "\<not> n < 8" "bit len n" "\<not> bit len (16 + (n - 16))" for n
    using that by (cases "n < 16") auto
  have "push_bit 16 (ucast (ucast (drop_bit 16 len) :: byte)) OR push_bit 8 (ucast (ucast (drop_bit 8 len) :: byte))
      OR ucast (ucast len :: byte) = len"
    by (rule bit_word_eqI) (auto simp: bit_simps dest: bits up)
  then show ?thesis
    by (simp add: write_frame_header_def write_u32_def and.assoc del: drop_bit_and)
qed

lemma length_write_frame_header [simp]: "length (write_frame_header l t f s) = 9"
  by (simp add: write_frame_header_def write_u32_def)

text \<open>A frame as the receiver sees it: its header and its payload.\<close>

record h2_frame =
  f_type :: FrameType
  f_flags :: byte
  f_stream :: u32
  f_payload :: bytes

fun frame_type_of :: "byte \<Rightarrow> FrameType option" where
  "frame_type_of b =
    (if b = 0 then Some ft_data else if b = 1 then Some ft_headers else if b = 2 then Some ft_priority
     else if b = 3 then Some ft_rst_stream else if b = 4 then Some ft_settings
     else if b = 5 then Some ft_push_promise else if b = 6 then Some ft_ping else if b = 7 then Some ft_goaway
     else if b = 8 then Some ft_window_update else if b = 9 then Some ft_continuation else None)"

definition frame_bytes :: "h2_frame \<Rightarrow> bytes" where
  "frame_bytes f =
     write_frame_header (of_nat (length (f_payload f))) (f_type f) (f_flags f) (f_stream f) @ f_payload f"

definition frame_ok :: "h2_frame \<Rightarrow> bool" where
  "frame_ok f \<longleftrightarrow> length (f_payload f) < 2 ^ 24 \<and> f_stream f \<le> kMaxStreamId"

definition split_frame :: "bytes \<Rightarrow> (h2_frame \<times> bytes) option" where
  "split_frame bs =
    (case read_frame_header bs of
       None \<Rightarrow> None
     | Some h \<Rightarrow>
         (case frame_type_of (fh_type h) of
            None \<Rightarrow> None
          | Some t \<Rightarrow>
              if length (drop 9 bs) < unat (fh_length h) then None
              else Some (\<lparr>f_type = t, f_flags = fh_flags h, f_stream = fh_stream_id h,
                           f_payload = take (unat (fh_length h)) (drop 9 bs)\<rparr>,
                         drop (unat (fh_length h)) (drop 9 bs))))"

lemma frame_type_of_code [simp]: "frame_type_of (frame_type_code t) = Some t"
  by (cases t) simp_all

lemma and_kMaxStreamId: "s \<le> kMaxStreamId \<Longrightarrow> s AND kMaxStreamId = s"
proof -
  assume a: "s \<le> kMaxStreamId"
  have m: "kMaxStreamId = mask 31" by (simp add: kMaxStreamId_def mask_eq_exp_minus_1)
  have "s < 2 ^ 31" using a by (simp add: kMaxStreamId_def word_le_nat_alt word_less_nat_alt)
  then show ?thesis by (simp add: m take_bit_of_less flip: take_bit_eq_mask)
qed

lemma unat_of_nat_less: "n < 2 ^ LENGTH('a::len) \<Longrightarrow> unat (of_nat n :: 'a word) = n"
  by (simp add: unsigned_of_nat take_bit_nat_eq_self)

lemma split_frame_bytes:
  assumes "frame_ok f"
  shows "split_frame (frame_bytes f @ rest) = Some (f, rest)"
proof -
  let ?n = "length (f_payload f)"
  have n: "?n < 2 ^ 24" and s: "f_stream f AND kMaxStreamId = f_stream f"
    using assms by (simp_all add: frame_ok_def and_kMaxStreamId)
  have u: "unat (of_nat ?n :: u32) = ?n" using n by (intro unat_of_nat_less) simp
  have "(of_nat ?n :: u32) < 2 ^ 24" using n u by (simp add: word_less_nat_alt)
  from read_frame_header_write [OF this] show ?thesis
    by (simp add: split_frame_def frame_bytes_def u s del: frame_type_of.simps)
qed

interpretation h2f: wire_codec frame_ok frame_bytes split_frame
  by unfold_locales (rule split_frame_bytes)


subsection \<open>The builders write well-formed frames\<close>

lemma append_settings_fold:
  "fold (\<lambda>p out. append_u32 (append_u16 out (sp_id p)) (sp_value p)) pairs out
    = out @ concat (map (\<lambda>p. be_bytes 2 (sp_id p) @ be_bytes 4 (sp_value p)) pairs)"
  by (induction pairs arbitrary: out)
    (simp_all add: append_u32_def append_u16_def write_u32_be eval_nat_numeral)

lemma length_settings_payload:
  "length (concat (map (\<lambda>p. be_bytes 2 (sp_id p) @ be_bytes 4 (sp_value p)) pairs)) = length pairs * 6"
  by (induction pairs) simp_all

lemma builders_are_frames:
  "append_settings out pairs = out @ frame_bytes \<lparr>f_type = ft_settings, f_flags = 0, f_stream = 0,
     f_payload = concat (map (\<lambda>p. be_bytes 2 (sp_id p) @ be_bytes 4 (sp_value p)) pairs)\<rparr>"
  "append_settings_ack out = out @ frame_bytes \<lparr>f_type = ft_settings, f_flags = flag_ack, f_stream = 0, f_payload = []\<rparr>"
  "length payload = 8 \<Longrightarrow> append_ping_ack out payload
     = out @ frame_bytes \<lparr>f_type = ft_ping, f_flags = flag_ack, f_stream = 0, f_payload = payload\<rparr>"
  "append_rst_stream out sid code = out @ frame_bytes
     \<lparr>f_type = ft_rst_stream, f_flags = 0, f_stream = sid, f_payload = be_bytes 4 (error_code code)\<rparr>"
  "append_window_update out sid inc = out @ frame_bytes
     \<lparr>f_type = ft_window_update, f_flags = 0, f_stream = sid, f_payload = be_bytes 4 (inc AND kMaxStreamId)\<rparr>"
  "append_goaway out sid code debug = out @ frame_bytes
     \<lparr>f_type = ft_goaway, f_flags = 0, f_stream = 0,
       f_payload = be_bytes 4 (sid AND kMaxStreamId) @ be_bytes 4 (error_code code) @ debug\<rparr>"
  by (simp_all only: append_settings_def append_settings_fold)
    (simp_all add: builder_defs frame_bytes_def write_u32_be length_settings_payload)


subsection \<open>Validated settings\<close>

definition settings_ok :: "PeerSettings \<Rightarrow> bool" where
  "settings_ok s \<longleftrightarrow> ps_enable_push s \<le> 1 \<and> ps_initial_window_size s \<le> kMaxWindow
     \<and> kMinFrameSize \<le> ps_max_frame_size s \<and> ps_max_frame_size s \<le> kMaxFrameSize"

lemma settings_ok_default: "settings_ok default_settings"
  by (simp add: settings_ok_def default_settings_def kMaxWindow_def kDefaultWindow_def kMinFrameSize_def
      kMaxFrameSize_def word_le_nat_alt)

lemma settings_apply_ok: "settings_ok s \<Longrightarrow> settings_ok (fst (settings_apply s i v))"
  unfolding settings_apply_def by (simp only: split: if_split) (simp add: settings_ok_def not_less)

lemma settings_apply_error:
  "case settings_apply s i v of (s', err) \<Rightarrow> err \<noteq> no_error \<longrightarrow> s' = s"
  unfolding settings_apply_def by (simp only: split: if_split) simp


subsection \<open>Properties\<close>

text \<open>
  Frames survive the wire: any sequence of frames with payloads below \<open>2^24\<close> bytes and 31-bit
  stream identifiers, written header and payload one after another, is cut into exactly those
  frames by reading a nine-byte header and its length, with nothing of what follows consumed.
\<close>

theorem h2_frames_roundtrip:
  assumes "list_all frame_ok fs"
  shows "decode_seq split_frame (length fs) (concat (map frame_bytes fs) @ rest) = Some (fs, rest)"
  using assms by (intro h2f.decode_seq_concat) (simp add: list_all_iff)

lemma h2_frames_roundtrip_witness:
  "decode_seq split_frame 2
     (concat (map frame_bytes
       [\<lparr>f_type = ft_ping, f_flags = 1, f_stream = 0, f_payload = [1, 2, 3, 4, 5, 6, 7, 8]\<rparr>,
        \<lparr>f_type = ft_data, f_flags = 0, f_stream = 5, f_payload = [9]\<rparr>]) @ [7])
   = Some ([\<lparr>f_type = ft_ping, f_flags = 1, f_stream = 0, f_payload = [1, 2, 3, 4, 5, 6, 7, 8]\<rparr>,
        \<lparr>f_type = ft_data, f_flags = 0, f_stream = 5, f_payload = [9]\<rparr>], [7])"
proof -
  let ?fs = "[\<lparr>f_type = ft_ping, f_flags = 1, f_stream = 0, f_payload = [1, 2, 3, 4, 5, 6, 7, 8]\<rparr>,
        \<lparr>f_type = ft_data, f_flags = 0, f_stream = 5, f_payload = [9]\<rparr>]"
  have "list_all frame_ok ?fs" by (simp add: frame_ok_def kMaxStreamId_def)
  from h2_frames_roundtrip [OF this, of "[7]"] show ?thesis by (simp only: list.size add_0 add_Suc Suc_1 One_nat_def [symmetric] plus_1_eq_Suc)
qed

text \<open>
  The control frames the server builds say what they should: read back from the output
  buffer, RST_STREAM carries the stream and the error code, WINDOW_UPDATE a 31-bit increment,
  GOAWAY the last stream, the code and the reason (for reasons that fit a frame), a PING
  acknowledgement the peer's eight bytes, and a SETTINGS acknowledgement nothing.
\<close>

theorem control_frames_read_back:
  assumes "length payload = 8" and "sid \<le> kMaxStreamId" and "length debug < 2 ^ 24 - 8"
  shows "split_frame (append_rst_stream [] sid code @ rest)
      = Some (\<lparr>f_type = ft_rst_stream, f_flags = 0, f_stream = sid, f_payload = be_bytes 4 (error_code code)\<rparr>, rest)
    \<and> split_frame (append_window_update [] sid inc @ rest)
      = Some (\<lparr>f_type = ft_window_update, f_flags = 0, f_stream = sid,
               f_payload = be_bytes 4 (inc AND kMaxStreamId)\<rparr>, rest)
    \<and> split_frame (append_goaway [] lst code debug @ rest)
      = Some (\<lparr>f_type = ft_goaway, f_flags = 0, f_stream = 0,
               f_payload = be_bytes 4 (lst AND kMaxStreamId) @ be_bytes 4 (error_code code) @ debug\<rparr>, rest)
    \<and> split_frame (append_ping_ack [] payload @ rest)
      = Some (\<lparr>f_type = ft_ping, f_flags = flag_ack, f_stream = 0, f_payload = payload\<rparr>, rest)
    \<and> split_frame (append_settings_ack [] @ rest)
      = Some (\<lparr>f_type = ft_settings, f_flags = flag_ack, f_stream = 0, f_payload = []\<rparr>, rest)"
proof -
  have "0 \<le> kMaxStreamId" by simp
  then show ?thesis
    using assms by (simp add: builders_are_frames split_frame_bytes frame_ok_def)
qed

text \<open>
  C22. The peer's settings stay within the protocol's limits whatever pairs arrive: from the
  defaults, after any sequence of \<open>apply\<close> calls, \<open>enable_push\<close> is 0 or 1, the initial window is at most
  \<open>2^31 - 1\<close> and the maximum frame size lies in \<open>[2^14, 2^24 - 1]\<close>; and a pair that is refused
  changes nothing.
\<close>

theorem settings_stay_valid:
  "settings_ok (fold (\<lambda>(i, v) s. fst (settings_apply s i v)) pairs default_settings)
   \<and> (snd (settings_apply s i v) \<noteq> no_error \<longrightarrow> fst (settings_apply s i v) = s)"
proof -
  have "settings_ok s \<Longrightarrow> settings_ok (fold (\<lambda>(i, v) s. fst (settings_apply s i v)) pairs s)" for s
    by (induction pairs arbitrary: s) (auto simp: settings_apply_ok)
  then show ?thesis using settings_ok_default settings_apply_error [of s i v] by (simp add: case_prod_beta)
qed

lemma settings_stay_valid_witness:
  "settings_ok (fold (\<lambda>(i, v) s. fst (settings_apply s i v)) [(5, 16383), (4, 100)] default_settings)
   \<and> fst (settings_apply default_settings 5 16383) = default_settings"
proof -
  have "snd (settings_apply default_settings 5 16383) \<noteq> no_error" by code_simp
  then show ?thesis using settings_stay_valid [of "[(5, 16383), (4, 100)]" default_settings 5 16383] by blast
qed

end
