(* ===== verification/Dynamic_Table.thy ===== *)
theory Dynamic_Table
  imports Prelude
begin

text \<open>
  The dynamic table both header codecs keep (\<^verbatim>\<open>src/http/field_codec.hpp\<close>,
  \<^verbatim>\<open>src/http/field_codec.cpp\<close>, class \<open>DynamicTable\<close>): a ring of entries, the newest at \<open>head_\<close>,
  evicted oldest first. \<open>dt_list\<close> is the abstract table, newest first; the locale
  \<open>field_table\<close> is the contract of RFC 7541 section 4 that the codecs rely on, and the ring is
  shown to implement it. A mark pointer (\<open>std::uint8_t* checked\<close>) is the ring index of its entry.
\<close>


subsection \<open>The ring\<close>

record Entry =
  e_name :: bytes
  e_value :: bytes
  e_checked :: byte

record DynamicTable =
  dt_ring :: "Entry list"
  dt_head :: nat
  dt_count :: nat
  dt_size :: nat
  dt_capacity :: nat
  dt_limit :: nat

definition dt_new :: "nat \<Rightarrow> DynamicTable" where
  "dt_new capacity =
     \<lparr>dt_ring = [], dt_head = 0, dt_count = 0, dt_size = 0, dt_capacity = capacity, dt_limit = capacity\<rparr>"

definition empty_entry :: Entry where
  "empty_entry = \<lparr>e_name = [], e_value = [], e_checked = 0\<rparr>"

definition dt_oldest :: "DynamicTable \<Rightarrow> nat" where
  "dt_oldest t = (dt_head t + length (dt_ring t) - (dt_count t - 1)) mod length (dt_ring t)"

function evict_to :: "DynamicTable \<Rightarrow> nat \<Rightarrow> DynamicTable" where
  "evict_to t limit =
     (if dt_count t > 0 \<and> dt_size t > limit then
        let oldest = dt_oldest t;
            e = dt_ring t ! oldest
        in evict_to
             (t\<lparr>dt_size := dt_size t - (length (e_name e) + length (e_value e) + 32),
               dt_ring := (dt_ring t)[oldest := e\<lparr>e_name := [], e_value := []\<rparr>],
               dt_count := dt_count t - 1\<rparr>) limit
      else t)"
  by pat_completeness auto
termination
  by (relation "measure (\<lambda>(t, _). dt_count t)") (auto simp: Let_def)

definition set_limit :: "DynamicTable \<Rightarrow> nat \<Rightarrow> DynamicTable" where
  "set_limit t limit = evict_to (t\<lparr>dt_limit := limit\<rparr>) limit"

text \<open>\<open>add\<close> up to the eviction, and the insertion that follows.\<close>

definition dt_insert :: "DynamicTable \<Rightarrow> bytes \<Rightarrow> bytes \<Rightarrow> DynamicTable" where
  "dt_insert t name value =
     (let ring = (if dt_ring t = [] then replicate (dt_capacity t div 32 + 1) empty_entry else dt_ring t);
          head = (dt_head t + 1) mod length ring
      in t\<lparr>dt_ring := ring[head := \<lparr>e_name = name, e_value = value, e_checked = 0\<rparr>],
          dt_head := head,
          dt_count := dt_count t + 1,
          dt_size := dt_size t + (length name + length value + 32)\<rparr>)"

definition dt_add :: "DynamicTable \<Rightarrow> bytes \<Rightarrow> bytes \<Rightarrow> DynamicTable \<times> bool" where
  "dt_add t name value =
     (let need = length name + length value + 32
      in if need > dt_limit t then (evict_to t 0, False)
         else (dt_insert (evict_to t (dt_limit t - need)) name value, True))"

definition dt_index :: "DynamicTable \<Rightarrow> nat \<Rightarrow> nat" where
  "dt_index t k = (if dt_head t \<ge> k then dt_head t - k else dt_head t + length (dt_ring t) - k)"

definition dt_at :: "DynamicTable \<Rightarrow> nat \<Rightarrow> (bytes \<times> bytes) option" where
  "dt_at t k =
     (if k \<ge> dt_count t \<or> dt_ring t = [] then None
      else let e = dt_ring t ! dt_index t k in Some (e_name e, e_value e))"

definition dt_at_mark :: "DynamicTable \<Rightarrow> nat \<Rightarrow> (bytes \<times> bytes \<times> nat) option" where
  "dt_at_mark t k =
     (if k \<ge> dt_count t \<or> dt_ring t = [] then None
      else let e = dt_ring t ! dt_index t k in Some (e_name e, e_value e, dt_index t k))"

definition newest_mark :: "DynamicTable \<Rightarrow> nat option" where
  "newest_mark t = (if dt_count t \<noteq> 0 then Some (dt_head t) else None)"

text \<open>The loop of \<open>find\<close>: \<open>k\<close> entries are left to look at, the next one at ring index \<open>i\<close>.\<close>

fun dt_find_loop :: "Entry list \<Rightarrow> bytes \<Rightarrow> bytes \<Rightarrow> nat \<Rightarrow> nat \<Rightarrow> nat \<Rightarrow> nat option" where
  "dt_find_loop ring name value 0 k i = None"
| "dt_find_loop ring name value (Suc left) k i =
     (let e = ring ! i
      in if length (e_name e) = length name \<and> length (e_value e) = length value
            \<and> e_name e = name \<and> e_value e = value then Some k
         else dt_find_loop ring name value left (Suc k) (if i = 0 then length ring - 1 else i - 1))"

definition dt_find :: "DynamicTable \<Rightarrow> bytes \<Rightarrow> bytes \<Rightarrow> nat option" where
  "dt_find t name value = dt_find_loop (dt_ring t) name value (dt_count t) 0 (dt_head t)"


subsection \<open>The abstract table\<close>

type_synonym field = "bytes \<times> bytes"

fun field_size :: "field \<Rightarrow> nat" where
  "field_size (n, v) = length n + length v + 32"

definition table_size :: "field list \<Rightarrow> nat" where
  "table_size xs = sum_list (map field_size xs)"

text \<open>Eviction: the oldest entries, at the end of the list, go until the rest fits.\<close>

function fit :: "nat \<Rightarrow> field list \<Rightarrow> field list" where
  "fit lim xs = (if xs = [] \<or> table_size xs \<le> lim then xs else fit lim (butlast xs))"
  by pat_completeness auto
termination
  by (relation "measure (\<lambda>(_, xs). length xs)") auto

declare fit.simps [simp del] evict_to.simps [simp del]

definition add_field :: "nat \<Rightarrow> field list \<Rightarrow> field \<Rightarrow> field list" where
  "add_field lim xs f = (if field_size f > lim then [] else f # fit (lim - field_size f) xs)"

definition find_field :: "field list \<Rightarrow> field \<Rightarrow> nat option" where
  "find_field xs f = (if f \<in> set xs then Some (length (takeWhile (\<lambda>x. x \<noteq> f) xs)) else None)"

lemma length_takeWhile_less_mem: "x \<in> set xs \<Longrightarrow> length (takeWhile (\<lambda>y. y \<noteq> x) xs) < length xs"
  by (induction xs) auto

lemma table_size_Nil [simp]: "table_size [] = 0"
  by (simp add: table_size_def)

lemma table_size_Cons [simp]: "table_size (f # xs) = field_size f + table_size xs"
  by (simp add: table_size_def)

lemma table_size_append [simp]: "table_size (xs @ ys) = table_size xs + table_size ys"
  by (simp add: table_size_def)

lemma table_size_ge: "32 * length xs \<le> table_size xs"
proof (induction xs)
  case (Cons f xs)
  then show ?case by (cases f) simp
qed simp

lemma fit_size: "table_size (fit lim xs) \<le> lim"
proof (induction lim xs rule: fit.induct)
  case (1 lim xs)
  then show ?case by (subst fit.simps) auto
qed

lemma fit_prefix: "\<exists>ys. xs = fit lim xs @ ys"
proof (induction lim xs rule: fit.induct)
  case (1 lim xs)
  show ?case
  proof (cases "xs = [] \<or> table_size xs \<le> lim")
    case True
    then show ?thesis by (subst fit.simps) auto
  next
    case False
    with 1 obtain ys where "butlast xs = fit lim (butlast xs) @ ys" by auto
    then have "xs = fit lim (butlast xs) @ ys @ [last xs]" using False by (metis append.assoc append_butlast_last_id)
    with False show ?thesis by (subst fit.simps) auto
  qed
qed

lemma fit_all: "table_size xs \<le> lim \<Longrightarrow> fit lim xs = xs"
  by (subst fit.simps) simp

lemma fit_zero [simp]: "fit 0 xs = []"
  using fit_size [of 0 xs] table_size_ge [of "fit 0 xs"] by auto

text \<open>Nothing that fits is evicted: one more of the evicted entries would exceed the limit.\<close>

lemma fit_maximal: "xs = fit lim xs @ y # ys \<Longrightarrow> table_size (fit lim xs @ [y]) > lim"
proof (induction lim xs arbitrary: ys rule: fit.induct)
  case (1 lim xs)
  show ?case
  proof (cases "xs = [] \<or> table_size xs \<le> lim")
    case True
    with 1(2) show ?thesis by (simp add: fit.simps [of lim xs])
  next
    case False
    then have f: "fit lim xs = fit lim (butlast xs)" by (simp add: fit.simps [of lim xs])
    show ?thesis
    proof (cases "ys = []")
      case True
      then show ?thesis using 1(2) False by auto
    next
      case ys: False
      have "butlast xs = fit lim (butlast xs) @ y # butlast ys"
        using 1(2) ys unfolding f by (metis butlast_append butlast.simps(2) list.distinct(1))
      from 1(1) [OF False this] show ?thesis by (simp add: f)
    qed
  qed
qed

text \<open>Eviction is determined by that: the longest prefix that fits.\<close>

lemma fit_unique:
  assumes "xs = p @ q" and "table_size p \<le> n" and "case q of [] \<Rightarrow> True | y # _ \<Rightarrow> n < table_size p + field_size y"
  shows "fit n xs = p"
proof -
  obtain q0 where q0: "xs = fit n xs @ q0" using fit_prefix by blast
  have eq: "p @ q = fit n xs @ q0" using assms(1) q0 by simp
  then obtain us where "p = fit n xs @ us \<and> us @ q = q0 \<or> p @ us = fit n xs \<and> q = us @ q0"
    by (auto simp: append_eq_append_conv2)
  then show ?thesis
  proof (elim disjE conjE)
    assume a: "p = fit n xs @ us" "us @ q = q0"
    show ?thesis
    proof (cases us)
      case (Cons y us')
      have "xs = fit n xs @ y # us' @ q" using q0 a(2) Cons by simp
      from fit_maximal [OF this] show ?thesis using assms(2) a(1) Cons by simp
    qed (simp add: a(1))
  next
    assume a: "p @ us = fit n xs" "q = us @ q0"
    show ?thesis
    proof (cases us)
      case (Cons y us')
      with a assms(3) have "n < table_size p + field_size y" by simp
      also have "\<dots> \<le> table_size (fit n xs)" unfolding a(1) [symmetric] Cons by simp
      finally show ?thesis using fit_size [of n xs] by simp
    qed (use a in simp)
  qed
qed

lemma fit_fit: "fit m (fit n xs) = fit (min m n) xs"
proof -
  obtain q where q: "xs = fit n xs @ q" using fit_prefix by blast
  obtain r where r: "fit n xs = fit m (fit n xs) @ r" using fit_prefix by blast
  have "fit (min m n) xs = fit m (fit n xs)"
  proof (rule fit_unique [where q = "r @ q"])
    show "xs = fit m (fit n xs) @ r @ q" using q r by (metis append.assoc)
    have "table_size (fit m (fit n xs)) \<le> table_size (fit n xs)" using arg_cong [OF r, of table_size] by simp
    then show "table_size (fit m (fit n xs)) \<le> min m n" using fit_size [of m "fit n xs"] fit_size [of n xs] by simp
    show "case r @ q of [] \<Rightarrow> True | y # _ \<Rightarrow> min m n < table_size (fit m (fit n xs)) + field_size y"
    proof (cases r)
      case (Cons y r')
      then show ?thesis using fit_maximal [of "fit n xs" m y r'] r by simp
    next
      case Nil
      then have f: "fit m (fit n xs) = fit n xs" using r by simp
      show ?thesis
      proof (cases q)
        case (Cons y q')
        then show ?thesis using fit_maximal [of xs n y q'] q Nil f by simp
      qed (simp add: Nil)
    qed
  qed
  then show ?thesis by simp
qed


subsection \<open>The contract\<close>

locale field_table =
  fixes inv :: "'t \<Rightarrow> bool"
    and entries :: "'t \<Rightarrow> field list"
    and limit :: "'t \<Rightarrow> nat"
    and capacity :: "'t \<Rightarrow> nat"
    and add :: "'t \<Rightarrow> bytes \<Rightarrow> bytes \<Rightarrow> 't \<times> bool"
    and change_limit :: "'t \<Rightarrow> nat \<Rightarrow> 't"
    and get :: "'t \<Rightarrow> nat \<Rightarrow> field option"
    and search :: "'t \<Rightarrow> bytes \<Rightarrow> bytes \<Rightarrow> nat option"
  assumes bounded: "inv t \<Longrightarrow> table_size (entries t) \<le> limit t"
    and limit_le: "inv t \<Longrightarrow> limit t \<le> capacity t"
    and add_inv: "inv t \<Longrightarrow> inv (fst (add t n v))"
    and add_limit: "inv t \<Longrightarrow> limit (fst (add t n v)) = limit t \<and> capacity (fst (add t n v)) = capacity t"
    and add_entries: "inv t \<Longrightarrow> entries (fst (add t n v)) = add_field (limit t) (entries t) (n, v)"
    and add_result: "inv t \<Longrightarrow> snd (add t n v) \<longleftrightarrow> field_size (n, v) \<le> limit t"
    and change_inv: "inv t \<Longrightarrow> l \<le> capacity t \<Longrightarrow> inv (change_limit t l)"
    and change_limit: "inv t \<Longrightarrow> l \<le> capacity t \<Longrightarrow> limit (change_limit t l) = l \<and> capacity (change_limit t l) = capacity t"
    and change_entries: "inv t \<Longrightarrow> l \<le> capacity t \<Longrightarrow> entries (change_limit t l) = fit l (entries t)"
    and get_entries: "inv t \<Longrightarrow> get t k = (if k < length (entries t) then Some (entries t ! k) else None)"
    and search_entries: "inv t \<Longrightarrow> search t n v = find_field (entries t) (n, v)"
begin

lemma add_get_newest:
  assumes "inv t" and "snd (add t n v)"
  shows "get (fst (add t n v)) 0 = Some (n, v)"
proof -
  have "entries (fst (add t n v)) = (n, v) # fit (limit t - field_size (n, v)) (entries t)"
    using assms by (simp add: add_entries add_result add_field_def del: field_size.simps)
  then show ?thesis using assms(1) by (simp add: get_entries add_inv)
qed

lemma search_get:
  assumes "inv t" and "search t n v = Some k"
  shows "get t k = Some (n, v)"
proof -
  let ?xs = "entries t" and ?k = "length (takeWhile (\<lambda>x. x \<noteq> (n, v)) (entries t))"
  have mem: "(n, v) \<in> set ?xs" and k: "k = ?k"
    using assms by (auto simp: search_entries find_field_def split: if_splits)
  have "?k < length ?xs" using mem by (rule length_takeWhile_less_mem)
  moreover from nth_length_takeWhile [OF this] have "?xs ! ?k = (n, v)" by simp
  ultimately show ?thesis using assms(1) by (simp add: k get_entries)
qed

text \<open>
  Two tables that start from the same entries and limit and take the same operations hold the
  same entries: a decoder's table mirrors the peer's encoder.
\<close>

lemma mirror_add:
  assumes "inv s" and "inv t" and "entries s = entries t" and "limit s = limit t"
  shows "entries (fst (add s n v)) = entries (fst (add t n v)) \<and> limit (fst (add s n v)) = limit (fst (add t n v))"
  using assms by (simp add: add_entries add_limit)

end


subsection \<open>The ring implements the contract\<close>

definition dt_list :: "DynamicTable \<Rightarrow> field list" where
  "dt_list t = map (\<lambda>k. let e = dt_ring t ! dt_index t k in (e_name e, e_value e)) [0..<dt_count t]"

definition dt_inv :: "DynamicTable \<Rightarrow> bool" where
  "dt_inv t \<longleftrightarrow> dt_limit t \<le> dt_capacity t
     \<and> (dt_ring t = [] \<longrightarrow> dt_count t = 0)
     \<and> (dt_ring t \<noteq> [] \<longrightarrow> length (dt_ring t) = dt_capacity t div 32 + 1 \<and> dt_head t < length (dt_ring t)
          \<and> dt_count t \<le> length (dt_ring t))
     \<and> dt_size t = table_size (dt_list t)"

text \<open>The index of the entry \<open>k\<close> places behind the head of a ring of \<open>n\<close>.\<close>

definition ridx :: "nat \<Rightarrow> nat \<Rightarrow> nat \<Rightarrow> nat" where
  "ridx h n k = (if h \<ge> k then h - k else h + n - k)"

lemma dt_index_ridx: "dt_index t k = ridx (dt_head t) (length (dt_ring t)) k"
  by (simp add: dt_index_def ridx_def)

lemma ridx_less: "h < n \<Longrightarrow> k < n \<Longrightarrow> ridx h n k < n"
  by (auto simp: ridx_def)

lemma ridx_inj: "h < n \<Longrightarrow> j < n \<Longrightarrow> k < n \<Longrightarrow> ridx h n j = ridx h n k \<longleftrightarrow> j = k"
  by (auto simp: ridx_def split: if_splits)

lemma ridx_zero [simp]: "ridx h n 0 = h"
  by (simp add: ridx_def)

lemma ridx_advance: "h < n \<Longrightarrow> Suc k < n \<Longrightarrow> ridx ((h + 1) mod n) n (Suc k) = ridx h n k"
  by (cases "h + 1 = n") (auto simp: ridx_def)

lemma ridx_back: "h < n \<Longrightarrow> k < n \<Longrightarrow> (if ridx h n k = 0 then n - 1 else ridx h n k - 1) = ridx h n (Suc k)"
  by (auto simp: ridx_def)

lemma ridx_mod: "h < n \<Longrightarrow> k < n \<Longrightarrow> (h + n - k) mod n = ridx h n k"
  by (auto simp: ridx_def mod_if)

lemma length_dt_list [simp]: "length (dt_list t) = dt_count t"
  by (simp add: dt_list_def)

lemma dt_list_nth:
  "k < dt_count t \<Longrightarrow> dt_list t ! k = (e_name (dt_ring t ! dt_index t k), e_value (dt_ring t ! dt_index t k))"
  by (simp add: dt_list_def Let_def)

lemma evict_step:
  assumes "dt_inv t" and "dt_count t > 0"
    and "t' = t\<lparr>dt_size := dt_size t - (length (e_name (dt_ring t ! dt_oldest t)) + length (e_value (dt_ring t ! dt_oldest t)) + 32),
       dt_ring := (dt_ring t)[dt_oldest t := (dt_ring t ! dt_oldest t)\<lparr>e_name := [], e_value := []\<rparr>],
       dt_count := dt_count t - 1\<rparr>"
  shows "dt_inv t' \<and> dt_list t' = butlast (dt_list t)"
proof -
  let ?n = "length (dt_ring t)" and ?h = "dt_head t" and ?c = "dt_count t"
  have b: "?h < ?n" "?c \<le> ?n" "?c - 1 < ?n" using assms(1,2) by (auto simp: dt_inv_def)
  have old: "dt_oldest t = ridx ?h ?n (?c - 1)" using b by (simp add: dt_oldest_def ridx_mod)
  have lst: "dt_list t' = butlast (dt_list t)"
  proof (rule nth_equalityI)
    fix k assume "k < length (dt_list t')"
    then have k: "k < ?c - 1" by (simp add: assms(3))
    then have "ridx ?h ?n k \<noteq> dt_oldest t" using b by (simp add: old ridx_inj)
    with k show "dt_list t' ! k = butlast (dt_list t) ! k"
      by (simp add: nth_butlast dt_list_nth assms(3) dt_index_ridx)
  qed (simp add: assms(3))
  have ne: "dt_list t \<noteq> []" using assms(2) by (metis length_dt_list length_0_conv less_numeral_extra(3))
  have "last (dt_list t) = (e_name (dt_ring t ! dt_oldest t), e_value (dt_ring t ! dt_oldest t))"
    using ne assms(2) by (simp add: last_conv_nth dt_list_nth old dt_index_ridx)
  then have "table_size (dt_list t)
      = table_size (butlast (dt_list t)) + (length (e_name (dt_ring t ! dt_oldest t)) + length (e_value (dt_ring t ! dt_oldest t)) + 32)"
    using ne by (metis append_butlast_last_id field_size.simps table_size_append table_size_Cons table_size_Nil add_0_right)
  then show ?thesis using assms(1) lst by (auto simp: dt_inv_def assms(3))
qed

lemma evict_to_refines:
  "dt_inv t \<Longrightarrow> dt_inv (evict_to t lim) \<and> dt_list (evict_to t lim) = fit lim (dt_list t)
     \<and> dt_limit (evict_to t lim) = dt_limit t \<and> dt_capacity (evict_to t lim) = dt_capacity t
     \<and> dt_head (evict_to t lim) = dt_head t"
proof (induction t lim rule: evict_to.induct)
  case (1 t lim)
  have size: "dt_size t = table_size (dt_list t)" using 1(2) by (simp add: dt_inv_def)
  show ?case
  proof (cases "dt_count t > 0 \<and> dt_size t > lim")
    case True
    define t' where "t' = t\<lparr>dt_size := dt_size t - (length (e_name (dt_ring t ! dt_oldest t)) + length (e_value (dt_ring t ! dt_oldest t)) + 32),
       dt_ring := (dt_ring t)[dt_oldest t := (dt_ring t ! dt_oldest t)\<lparr>e_name := [], e_value := []\<rparr>],
       dt_count := dt_count t - 1\<rparr>"
    note st = evict_step [OF 1(2) _ t'_def]
    have "evict_to t lim = evict_to t' lim" using True by (subst evict_to.simps) (simp add: Let_def t'_def)
    moreover have "fit lim (dt_list t) = fit lim (butlast (dt_list t))"
      using True size by (subst fit.simps) auto
    ultimately show ?thesis
      using 1(1) [OF True refl refl] st True by (simp add: t'_def [symmetric]) (simp add: t'_def)
  next
    case False
    then have "evict_to t lim = t" by (subst evict_to.simps) (simp only: if_False)
    moreover have "fit lim (dt_list t) = dt_list t"
      using False size by (subst fit.simps) (auto simp flip: length_dt_list)
    ultimately show ?thesis using 1(2) by simp
  qed
qed

lemma dt_insert_refines:
  assumes "dt_inv t" and "dt_size t + field_size (n, v) \<le> dt_limit t"
  shows "dt_inv (dt_insert t n v) \<and> dt_list (dt_insert t n v) = (n, v) # dt_list t"
proof -
  define ring where "ring = (if dt_ring t = [] then replicate (dt_capacity t div 32 + 1) empty_entry else dt_ring t)"
  let ?n = "length ring" and ?t = "dt_insert t n v"
  have len: "?n = dt_capacity t div 32 + 1" using assms(1) by (auto simp: ring_def dt_inv_def)
  have "32 * dt_count t \<le> dt_size t" using assms(1) table_size_ge [of "dt_list t"] by (simp add: dt_inv_def)
  then have "32 * (dt_count t + 1) \<le> dt_capacity t" using assms by (auto simp: dt_inv_def)
  then have "dt_count t + 1 \<le> dt_capacity t div 32" by (simp add: less_eq_div_iff_mult_less_eq mult.commute)
  then have cnt: "dt_count t + 1 < ?n" unfolding len by simp
  have head: "dt_ring t \<noteq> [] \<Longrightarrow> dt_head t < ?n" using assms(1) by (auto simp: dt_inv_def ring_def)
  have t: "dt_ring ?t = ring[(dt_head t + 1) mod ?n := \<lparr>e_name = n, e_value = v, e_checked = 0\<rparr>]"
    "dt_head ?t = (dt_head t + 1) mod ?n" "dt_count ?t = dt_count t + 1"
    "dt_size ?t = dt_size t + field_size (n, v)" "dt_limit ?t = dt_limit t" "dt_capacity ?t = dt_capacity t"
    by (simp_all add: dt_insert_def Let_def flip: ring_def)
  have hn: "dt_head ?t < ?n" unfolding t using cnt by (intro mod_less_divisor) linarith
  have lst: "dt_list ?t = (n, v) # dt_list t"
  proof (rule nth_equalityI)
    fix k assume "k < length (dt_list ?t)"
    then have k: "k < dt_count t + 1" by (simp add: t)
    show "dt_list ?t ! k = ((n, v) # dt_list t) ! k"
    proof (cases k)
      case 0
      then show ?thesis using hn by (simp add: dt_list_nth t dt_index_ridx)
    next
      case (Suc j)
      then have j: "j < dt_count t" "dt_ring t \<noteq> []" using k assms(1) by (auto simp: dt_inv_def)
      then have "ring = dt_ring t" by (simp add: ring_def)
      moreover have "ridx (dt_head ?t) ?n k = ridx (dt_head t) ?n j"
        unfolding t Suc using head [OF j(2)] j cnt by (intro ridx_advance) auto
      moreover have "ridx (dt_head ?t) ?n k \<noteq> dt_head ?t"
        using ridx_inj [of "dt_head ?t" ?n k 0] hn k cnt Suc by force
      ultimately show ?thesis using j k by (simp add: dt_list_nth dt_index_ridx t Suc)
    qed
  qed (simp add: t)
  have "dt_ring ?t \<noteq> []" using cnt by (auto simp: t)
  then show ?thesis using assms lst hn cnt len by (auto simp: dt_inv_def t)
qed

lemma dt_add_refines:
  assumes "dt_inv t"
  shows "dt_inv (fst (dt_add t n v)) \<and> dt_list (fst (dt_add t n v)) = add_field (dt_limit t) (dt_list t) (n, v)
    \<and> dt_limit (fst (dt_add t n v)) = dt_limit t \<and> dt_capacity (fst (dt_add t n v)) = dt_capacity t
    \<and> (snd (dt_add t n v) \<longleftrightarrow> field_size (n, v) \<le> dt_limit t)"
proof (cases "field_size (n, v) > dt_limit t")
  case True
  then show ?thesis using evict_to_refines [OF assms, of 0] by (simp add: dt_add_def add_field_def)
next
  case False
  let ?t = "evict_to t (dt_limit t - field_size (n, v))"
  note ev = evict_to_refines [OF assms, of "dt_limit t - field_size (n, v)"]
  have "dt_size ?t \<le> dt_limit t - field_size (n, v)" using ev fit_size by (simp add: dt_inv_def)
  then have "dt_size ?t + field_size (n, v) \<le> dt_limit ?t" using False ev by simp
  note ins = dt_insert_refines [OF conjunct1 [OF ev] this]
  have "dt_limit (dt_insert ?t n v) = dt_limit t" "dt_capacity (dt_insert ?t n v) = dt_capacity t"
    using ev by (simp_all add: dt_insert_def Let_def)
  moreover have "dt_add t n v = (dt_insert ?t n v, True)" using False by (simp add: dt_add_def)
  ultimately show ?thesis using False ins ev by (simp add: add_field_def)
qed

lemma set_limit_refines:
  assumes "dt_inv t" and "l \<le> dt_capacity t"
  shows "dt_inv (set_limit t l) \<and> dt_list (set_limit t l) = fit l (dt_list t) \<and> dt_limit (set_limit t l) = l
    \<and> dt_capacity (set_limit t l) = dt_capacity t"
proof -
  have lst: "dt_list (t\<lparr>dt_limit := l\<rparr>) = dt_list t" by (simp add: dt_list_def dt_index_def)
  then have "dt_inv (t\<lparr>dt_limit := l\<rparr>)" using assms by (auto simp: dt_inv_def)
  from evict_to_refines [OF this, of l] show ?thesis by (simp add: set_limit_def lst)
qed

lemma dt_at_refines:
  "dt_inv t \<Longrightarrow> dt_at t k = (if k < length (dt_list t) then Some (dt_list t ! k) else None)"
  by (auto simp: dt_at_def Let_def dt_list_nth dt_inv_def)

lemma dt_at_mark_at: "map_option (\<lambda>(n, v, i). (n, v)) (dt_at_mark t k) = dt_at t k"
  by (simp add: dt_at_mark_def dt_at_def Let_def)

lemma find_field_Nil [simp]: "find_field [] f = None"
  by (simp add: find_field_def)

lemma find_field_Cons: "find_field (x # xs) f = (if x = f then Some 0 else map_option Suc (find_field xs f))"
  by (simp add: find_field_def)

lemma dt_find_loop_refines:
  assumes "dt_inv t"
  shows "k + left = dt_count t \<Longrightarrow>
    dt_find_loop (dt_ring t) n v left k (dt_index t k) = map_option (\<lambda>i. k + i) (find_field (drop k (dt_list t)) (n, v))"
proof (induction left arbitrary: k)
  case (Suc left)
  let ?e = "dt_ring t ! dt_index t k"
  have k: "k < dt_count t" and b: "dt_head t < length (dt_ring t)" "k < length (dt_ring t)"
    using Suc.prems assms by (auto simp: dt_inv_def)
  have d: "drop k (dt_list t) = (e_name ?e, e_value ?e) # drop (Suc k) (dt_list t)"
    using k by (simp add: dt_list_nth flip: Cons_nth_drop_Suc)
  have nxt: "(if dt_index t k = 0 then length (dt_ring t) - 1 else dt_index t k - 1) = dt_index t (Suc k)"
    unfolding dt_index_ridx by (rule ridx_back [OF b])
  have IH: "dt_find_loop (dt_ring t) n v left (Suc k) (dt_index t (Suc k))
      = map_option (\<lambda>i. Suc k + i) (find_field (drop (Suc k) (dt_list t)) (n, v))"
    using Suc.prems by (intro Suc.IH) simp
  show ?case
  proof (cases "e_name ?e = n \<and> e_value ?e = v")
    case True
    then show ?thesis by (simp add: d find_field_Cons Let_def)
  next
    case False
    have "dt_find_loop (dt_ring t) n v (Suc left) k (dt_index t k)
        = dt_find_loop (dt_ring t) n v left (Suc k) (dt_index t (Suc k))"
      using False nxt by (auto simp: Let_def)
    then show ?thesis using False IH by (auto simp: d find_field_Cons option.map_comp comp_def)
  qed
qed simp

lemma dt_find_refines:
  assumes "dt_inv t"
  shows "dt_find t n v = find_field (dt_list t) (n, v)"
proof -
  have "dt_find t n v = map_option (\<lambda>i. 0 + i) (find_field (drop 0 (dt_list t)) (n, v))"
    unfolding dt_find_def using dt_find_loop_refines [OF assms, of 0 "dt_count t" n v] by (simp add: dt_index_def)
  then show ?thesis by (simp add: option.map_ident)
qed

lemma dt_new_inv: "dt_inv (dt_new c)" and dt_new_list: "dt_list (dt_new c) = []"
  by (simp_all add: dt_inv_def dt_new_def dt_list_def)

text \<open>Besides the ring's invariant, the table's size stays within its limit between calls.\<close>

definition dt_ok :: "DynamicTable \<Rightarrow> bool" where
  "dt_ok t \<longleftrightarrow> dt_inv t \<and> dt_size t \<le> dt_limit t"

lemma dt_ok_new [simp]: "dt_ok (dt_new c)"
  using dt_new_inv [of c] by (simp add: dt_ok_def dt_new_def)

lemma dt_ok_iff: "dt_ok t \<longleftrightarrow> dt_inv t \<and> table_size (dt_list t) \<le> dt_limit t"
  by (auto simp: dt_ok_def dt_inv_def)

lemma add_field_size: "table_size (add_field lim xs f) \<le> lim"
  using fit_size [of "lim - field_size f" xs] by (auto simp: add_field_def)

interpretation dt: field_table dt_ok dt_list dt_limit dt_capacity dt_add set_limit dt_at dt_find
proof
  fix t n v assume "dt_ok t"
  note r = dt_add_refines [OF conjunct1 [OF this [unfolded dt_ok_iff]], of n v]
  then show "dt_ok (fst (dt_add t n v))" using add_field_size by (simp add: dt_ok_iff)
next
  fix t l assume a: "dt_ok t" "l \<le> dt_capacity t"
  note r = set_limit_refines [OF conjunct1 [OF a(1) [unfolded dt_ok_iff]] a(2)]
  then show "dt_ok (set_limit t l)" using fit_size by (simp add: dt_ok_iff)
qed (auto simp: dt_ok_iff dt_inv_def [of t for t] dt_add_refines set_limit_refines dt_at_refines dt_find_refines)


subsection \<open>Properties\<close>

text \<open>The calls that change a table, and their meaning on the abstract table and its limit.\<close>

datatype table_op = Add_op bytes bytes | Limit_op nat

fun run_op :: "table_op \<Rightarrow> DynamicTable \<Rightarrow> DynamicTable" where
  "run_op (Add_op n v) t = fst (dt_add t n v)"
| "run_op (Limit_op l) t = set_limit t l"

fun spec_op :: "table_op \<Rightarrow> nat \<times> field list \<Rightarrow> nat \<times> field list" where
  "spec_op (Add_op n v) (l, xs) = (l, add_field l xs (n, v))"
| "spec_op (Limit_op l') (l, xs) = (l', fit l' xs)"

fun op_within :: "nat \<Rightarrow> table_op \<Rightarrow> bool" where
  "op_within c (Add_op n v) = True"
| "op_within c (Limit_op l) = (l \<le> c)"

lemma run_ops_refine:
  "dt_ok t \<Longrightarrow> dt_capacity t = c \<Longrightarrow> list_all (op_within c) ops \<Longrightarrow>
    dt_ok (fold run_op ops t) \<and>
    (dt_limit (fold run_op ops t), dt_list (fold run_op ops t)) = fold spec_op ops (dt_limit t, dt_list t)"
proof (induction ops arbitrary: t)
  case (Cons x ops)
  have "dt_ok (run_op x t) \<and> dt_capacity (run_op x t) = c
      \<and> (dt_limit (run_op x t), dt_list (run_op x t)) = spec_op x (dt_limit t, dt_list t)"
    using Cons.prems by (cases x) (auto simp: dt.add_inv dt.add_limit dt.add_entries dt.change_inv dt.change_limit dt.change_entries)
  with Cons show ?case by simp
qed simp

text \<open>
  C24. The ring implements the abstract table of RFC 7541 section 4: after any sequence of
  insertions and limit changes within the capacity, the entries are those of the newest-first
  list under the same operations, the size kept incrementally is their exact size and never
  exceeds the limit, \<open>at\<close> is indexing from the newest and \<open>find\<close> the first occurrence.
\<close>

theorem dynamic_table_refines:
  assumes "list_all (op_within c) ops"
  shows "let t = fold run_op ops (dt_new c) in
      (dt_limit t, dt_list t) = fold spec_op ops (c, [])
      \<and> dt_size t = table_size (dt_list t) \<and> dt_size t \<le> dt_limit t
      \<and> dt_at t k = (if k < length (dt_list t) then Some (dt_list t ! k) else None)
      \<and> dt_find t n v = find_field (dt_list t) (n, v)"
proof -
  have "dt_limit (dt_new c) = c" "dt_capacity (dt_new c) = c" by (simp_all add: dt_new_def)
  with run_ops_refine [OF dt_ok_new _ assms] have
    "dt_ok (fold run_op ops (dt_new c)) \<and> (dt_limit (fold run_op ops (dt_new c)), dt_list (fold run_op ops (dt_new c)))
      = fold spec_op ops (c, [])"
    by (simp add: dt_new_list)
  then show ?thesis
    by (simp add: Let_def dt.get_entries dt.search_entries) (simp add: dt_ok_def dt_inv_def)
qed

lemma dynamic_table_refines_witness:
  "let t = fold run_op [Add_op [1] [2], Add_op [3] [4, 4], Limit_op 40, Add_op [5] []] (dt_new 100)
   in dt_list t = [([5], [])] \<and> dt_find t [5] [] = Some 0"
proof -
  let ?ops = "[Add_op [1] [2], Add_op [3] [4, 4], Limit_op 40, Add_op [5] []]"
  have "list_all (op_within 100) ?ops" by code_simp
  note r = dynamic_table_refines [OF this, of 0 "[5]" "[]"]
  have "fold spec_op ?ops (100, []) = (40, [([5], [])])" by code_simp
  with r show ?thesis by (simp add: Let_def find_field_def del: fold.simps fold_simps)
qed

text \<open>
  Eviction drops exactly what must go: in a table that satisfies its invariant,
  \<open>evict_to limit\<close> keeps a prefix of the newest-first list whose size is at most the limit, and the
  newest of the dropped entries would not have fitted beside it.
\<close>

theorem evict_to_exact:
  assumes "dt_ok t"
  shows "\<exists>dropped. dt_list t = dt_list (evict_to t lim) @ dropped
    \<and> dt_size (evict_to t lim) \<le> lim
    \<and> (case dropped of [] \<Rightarrow> True | y # ys \<Rightarrow> dt_size (evict_to t lim) + field_size y > lim)"
proof -
  have "dt_inv t" using assms by (simp add: dt_ok_def)
  note r = evict_to_refines [OF this, of lim]
  then have size: "dt_size (evict_to t lim) = table_size (fit lim (dt_list t))" by (simp add: dt_inv_def)
  obtain ys where ys: "dt_list t = fit lim (dt_list t) @ ys" using fit_prefix by blast
  have "case ys of [] \<Rightarrow> True | y # _ \<Rightarrow> table_size (fit lim (dt_list t)) + field_size y > lim"
    using fit_maximal [of "dt_list t" lim] ys by (cases ys) auto
  then have "case ys of [] \<Rightarrow> True | y # _ \<Rightarrow> dt_size (evict_to t lim) + field_size y > lim" by (simp only: size)
  then show ?thesis using r ys fit_size [of lim "dt_list t"] by (intro exI [of _ ys] conjI) (simp_all only: size)
qed

end
