(* ===== verification/Huffman.thy ===== *)
theory Huffman
  imports Huffman_Tables
begin

text \<open>
  The Huffman code shared by HPACK and QPACK (\<^verbatim>\<open>src/http/field_codec.cpp\<close>: \<open>huffman_size\<close>,
  \<open>huffman_encode\<close>, \<open>huffman_decode\<close>). The encoder keeps its 64-bit accumulator; the decoder walks
  the nibble automaton and writes through a pointer bounded by the symbols the input can hold.
  The proof goes through bits: the encoder's bytes spell the codes followed by ones, the
  automaton walks the code tree, and the two meet in \<open>huffman_decode_iff\<close>.
\<close>

unbundle bit_operations_syntax


subsection \<open>The code\<close>

definition huffman_size :: "bytes \<Rightarrow> nat" where
  "huffman_size s = (sum_list (map (\<lambda>c. snd (kHuffmanCodes ! unat c)) s) + 7) div 8"

text \<open>The inner \<open>while\<close> of the encoder: whole bytes leave the accumulator.\<close>

fun huff_flush :: "u64 \<Rightarrow> nat \<Rightarrow> bytes \<Rightarrow> nat \<times> bytes" where
  "huff_flush acc nbits out =
     (if nbits \<ge> 8 then huff_flush acc (nbits - 8) (out @ [ucast (drop_bit (nbits - 8) acc AND 0xff)])
      else (nbits, out))"

declare huff_flush.simps [simp del]

fun huff_encode_loop :: "u64 \<Rightarrow> nat \<Rightarrow> bytes \<Rightarrow> bytes \<Rightarrow> u64 \<times> nat \<times> bytes" where
  "huff_encode_loop acc nbits out [] = (acc, nbits, out)"
| "huff_encode_loop acc nbits out (c # s) =
     (let code = kHuffmanCodes ! unat c;
          acc = push_bit (snd code) acc OR ucast (fst code);
          (nbits, out) = huff_flush acc (nbits + snd code) out
      in huff_encode_loop acc nbits out s)"

definition huffman_encode :: "bytes \<Rightarrow> bytes \<Rightarrow> bytes" where
  "huffman_encode out s =
     (case huff_encode_loop 0 0 out s of
        (acc, nbits, out) \<Rightarrow>
          if nbits > 0 then
            let pad = 8 - nbits;
                acc = push_bit pad acc OR (push_bit pad 1 - 1)
            in out @ [ucast (acc AND 0xff)]
          else out)"

datatype HuffStatus = hs_ok | hs_malformed | hs_too_large

text \<open>
  One nibble: \<open>w\<close> is what has been stored between the start and the pointer, \<open>cap\<close> the room there is.
\<close>

definition huff_nibble :: "nat \<Rightarrow> nat \<Rightarrow> bytes \<Rightarrow> nat \<Rightarrow> HuffStatus + (nat \<times> byte \<times> bytes)" where
  "huff_nibble cap state w nib =
     (case kHuffmanSteps ! state ! nib of
        (next, flags, symbol) \<Rightarrow>
          if flags AND kHuffmanFail \<noteq> 0 then Inl hs_malformed
          else if flags AND kHuffmanSymbol \<noteq> 0 then
            (if length w = cap then Inl hs_too_large else Inr (next, flags, w @ [symbol]))
          else Inr (next, flags, w))"

fun huff_decode_loop :: "nat \<Rightarrow> nat \<Rightarrow> byte \<Rightarrow> bytes \<Rightarrow> bytes \<Rightarrow> HuffStatus + (byte \<times> bytes)" where
  "huff_decode_loop cap state flags w [] = Inr (flags, w)"
| "huff_decode_loop cap state flags w (c # inp) =
     (case huff_nibble cap state w (unat (drop_bit 4 c)) of
        Inl e \<Rightarrow> Inl e
      | Inr (hi, _, w) \<Rightarrow>
          (case huff_nibble cap hi w (unat (c AND 0xf)) of
             Inl e \<Rightarrow> Inl e
           | Inr (lo, flags, w) \<Rightarrow> huff_decode_loop cap lo flags w inp))"

definition huffman_decode :: "bytes \<Rightarrow> bytes \<Rightarrow> nat \<Rightarrow> HuffStatus \<times> bytes" where
  "huffman_decode inp out max_out =
     (let cap = min max_out (length inp * 8 div 5 + 1)
      in case huff_decode_loop cap 0 kHuffmanAccepted [] inp of
           Inl e \<Rightarrow> (e, out)
         | Inr (flags, w) \<Rightarrow> if flags AND kHuffmanAccepted \<noteq> 0 then (hs_ok, out @ w) else (hs_malformed, out))"


subsection \<open>Bits\<close>

text \<open>The \<open>n\<close> low bits of a word, most significant first.\<close>

fun low_bits :: "nat \<Rightarrow> 'a::len word \<Rightarrow> bool list" where
  "low_bits 0 v = []"
| "low_bits (Suc n) v = bit v n # low_bits n v"

lemma length_low_bits [simp]: "length (low_bits n v) = n"
  by (induction n) auto

lemma low_bits_nth: "i < n \<Longrightarrow> low_bits n v ! i = bit v (n - 1 - i)"
proof (induction n arbitrary: i)
  case (Suc n)
  then show ?case by (cases i) auto
qed simp

lemma low_bits_cong: "(\<And>i. i < n \<Longrightarrow> bit v i = bit w i) \<Longrightarrow> low_bits n v = low_bits n w"
  for v :: "'a::len word" and w :: "'b::len word"
  by (induction n) auto

lemma low_bits_add: "low_bits (n + m) v = low_bits n (drop_bit m v) @ low_bits m v"
proof (induction n)
  case (Suc n)
  then show ?case by (simp add: bit_simps add.commute)
qed simp

lemma low_bits_eqI: "low_bits LENGTH('a) v = low_bits LENGTH('a) w \<Longrightarrow> v = w" for v w :: "'a::len word"
proof (rule bit_word_eqI)
  fix n assume a: "low_bits LENGTH('a) v = low_bits LENGTH('a) w" and "n < LENGTH('a)"
  from this(2) have "low_bits LENGTH('a) v ! (LENGTH('a) - 1 - n) = bit v n"
    "low_bits LENGTH('a) w ! (LENGTH('a) - 1 - n) = bit w n" by (simp_all add: low_bits_nth del: low_bits.simps)
  with a show "bit v n = bit w n" by metis
qed

definition bits_of :: "bytes \<Rightarrow> bool list" where
  "bits_of bs = concat (map (low_bits 8) bs)"

lemma bits_of_Nil [simp]: "bits_of [] = []"
  and bits_of_Cons [simp]: "bits_of (b # bs) = low_bits 8 b @ bits_of bs"
  and bits_of_append [simp]: "bits_of (bs @ cs) = bits_of bs @ bits_of cs"
  by (simp_all add: bits_of_def)

lemma length_bits_of [simp]: "length (bits_of bs) = 8 * length bs"
  by (induction bs) auto

lemma bits_of_inj: "bits_of bs = bits_of cs \<Longrightarrow> bs = cs"
proof (induction bs arbitrary: cs)
  case Nil
  then show ?case by (metis length_bits_of length_0_conv list.size(3) mult_eq_0_iff zero_neq_numeral bits_of_Nil)
next
  case (Cons b bs)
  have "length cs = Suc (length bs)" using arg_cong [OF Cons.prems, of length] by simp
  then obtain c cs' where cs: "cs = c # cs'" by (cases cs) auto
  with Cons.prems have "low_bits 8 b = low_bits 8 c" "bits_of bs = bits_of cs'" by auto
  then show ?case using Cons.IH low_bits_eqI [of b c] by (simp add: cs)
qed


subsection \<open>The encoder spells the codes\<close>

definition code_bits :: "byte \<Rightarrow> bool list" where
  "code_bits c = low_bits (snd (code (unat c))) (fst (code (unat c)))"

lemma huff_flush_bits:
  "huff_flush acc nbits out = (nbits', out') \<Longrightarrow>
     nbits' < 8 \<and> bits_of out' @ low_bits nbits' acc = bits_of out @ low_bits nbits acc"
proof (induction acc nbits out rule: huff_flush.induct)
  case (1 acc nbits out)
  show ?case
  proof (cases "nbits \<ge> 8")
    case True
    let ?b = "ucast (drop_bit (nbits - 8) acc AND 0xff) :: byte"
    have "low_bits nbits acc = low_bits 8 (drop_bit (nbits - 8) acc) @ low_bits (nbits - 8) acc"
      using low_bits_add [of 8 "nbits - 8" acc] True by simp
    moreover have "low_bits 8 (drop_bit (nbits - 8) acc) = low_bits 8 ?b"
    proof -
      have m: "(0xff :: u64) = mask 8" by (simp add: mask_eq_exp_minus_1)
      show ?thesis unfolding m by (rule low_bits_cong) (simp add: bit_simps)
    qed
    ultimately show ?thesis
      using 1(1) [OF True] 1(2) True by (subst (asm) (2) huff_flush.simps) simp
  next
    case False
    then show ?thesis using 1(2) by (subst (asm) huff_flush.simps) auto
  qed
qed

text \<open>Every code has between 5 and 30 bits and no bit above its length.\<close>

lemma code_range: "list_all (\<lambda>c. 5 \<le> snd (code c) \<and> snd (code c) \<le> 30 \<and> fst (code c) < 2 ^ snd (code c)) all_states"
  unfolding all_states_def by (simp add: code_eqs del: One_nat_def)

lemma state_in: "s < 256 \<Longrightarrow> s \<in> set all_states"
  by (simp add: all_states_upt)

lemma unat_byte_in: "unat (c :: byte) \<in> set all_states"
  using unsigned_less [of c, where ?'a = nat] by (simp add: all_states_upt)

lemma code_len: "5 \<le> length (code_bits c)" "length (code_bits c) \<le> 30"
  using code_range unat_byte_in [of c] by (auto simp: code_bits_def list_all_iff)

lemma code_bit_less: "bit (fst (code (unat (c :: byte)))) i \<Longrightarrow> i < snd (code (unat c))"
proof -
  assume a: "bit (fst (code (unat c))) i"
  have "take_bit (snd (code (unat c))) (fst (code (unat c))) = fst (code (unat c))"
    using code_range unat_byte_in [of c] by (intro take_bit_of_less) (auto simp: list_all_iff)
  with a show ?thesis by (metis bit_take_bit_iff)
qed

lemma huff_encode_loop_bits:
  "huff_encode_loop acc nbits out s = (acc', nbits', out') \<Longrightarrow> nbits < 8 \<Longrightarrow>
     nbits' < 8 \<and> bits_of out' @ low_bits nbits' acc' = bits_of out @ low_bits nbits acc @ concat (map code_bits s)"
proof (induction acc nbits out s rule: huff_encode_loop.induct)
  case (2 acc nbits out c s)
  let ?code = "code (unat c)"
  let ?n = "snd ?code"
  let ?acc = "push_bit ?n acc OR ucast (fst ?code)"
  obtain nb o2 where fl: "huff_flush ?acc (nbits + ?n) out = (nb, o2)" by force
  have n: "?n \<le> 30" using code_len(2) [of c] by (simp add: code_bits_def)
  have "low_bits (nbits + ?n) ?acc = low_bits nbits (drop_bit ?n ?acc) @ low_bits ?n ?acc" by (rule low_bits_add)
  also have "low_bits nbits (drop_bit ?n ?acc) = low_bits nbits acc"
  proof (rule low_bits_cong)
    fix i assume "i < nbits"
    then have "i + ?n < 64" using n 2(3) by simp
    moreover have "\<not> bit (fst ?code) (?n + i)" using code_bit_less [of c "?n + i"] by auto
    ultimately show "bit (drop_bit ?n ?acc) i = bit acc i" by (auto simp: bit_simps add.commute)
  qed
  also have "low_bits ?n ?acc = code_bits c"
    unfolding code_bits_def using n by (intro low_bits_cong) (auto simp: bit_simps)
  finally have "low_bits (nbits + ?n) ?acc = low_bits nbits acc @ code_bits c" .
  with huff_flush_bits [OF fl] 2 fl show ?case by (simp add: code_def Let_def)
qed simp

lemma huff_flush_append: "huff_flush acc nbits out = (fst (huff_flush acc nbits []), out @ snd (huff_flush acc nbits []))"
proof (induction nbits arbitrary: out rule: less_induct)
  case (less nbits)
  show ?case
  proof (cases "nbits \<ge> 8")
    case True
    let ?b = "[ucast (drop_bit (nbits - 8) acc AND 0xff)] :: bytes"
    have f: "huff_flush acc nbits o1 = huff_flush acc (nbits - 8) (o1 @ ?b)" for o1
      using True by (subst huff_flush.simps) simp
    show ?thesis unfolding f [of out] f [of "[]"] using less.IH [of "nbits - 8" "out @ ?b"] less.IH [of "nbits - 8" ?b] True
      by simp
  qed (simp add: huff_flush.simps)
qed

lemma huff_encode_loop_append:
  "huff_encode_loop acc nbits (out @ out2) s
    = (case huff_encode_loop acc nbits out2 s of (a, n, o') \<Rightarrow> (a, n, out @ o'))"
proof (induction s arbitrary: acc nbits out2)
  case (Cons c s)
  let ?acc = "push_bit (snd (kHuffmanCodes ! unat c)) acc OR ucast (fst (kHuffmanCodes ! unat c))"
  let ?fl = "huff_flush ?acc (nbits + snd (kHuffmanCodes ! unat c))"
  have "?fl (out @ out2) = (fst (?fl out2), out @ snd (?fl out2))"
    using huff_flush_append [of ?acc _ "out @ out2"] huff_flush_append [of ?acc _ out2] by simp
  then show ?case using Cons.IH by (simp add: Let_def case_prod_beta)
qed simp

lemma huffman_encode_append: "huffman_encode out s = out @ huffman_encode [] s"
  using huff_encode_loop_append [of 0 0 out "[]" s]
  by (simp add: huffman_encode_def Let_def split: prod.splits)

text \<open>What the encoder appends: the codes, then ones up to the end of the last byte.\<close>

lemma huffman_encode_bits:
  "\<exists>pad. pad < 8 \<and> bits_of (huffman_encode [] s) = concat (map code_bits s) @ replicate pad True"
proof -
  obtain acc nbits enc where l: "huff_encode_loop 0 0 [] s = (acc, nbits, enc)" using prod_cases3 by blast
  have nb: "nbits < 8" and bits: "bits_of enc @ low_bits nbits acc = concat (map code_bits s)"
    using huff_encode_loop_bits [OF l] by simp_all
  show ?thesis
  proof (cases "nbits > 0")
    case False
    then show ?thesis using l bits by (intro exI [of _ 0]) (simp add: huffman_encode_def)
  next
    case True
    let ?pad = "8 - nbits"
    let ?acc = "push_bit ?pad acc OR (push_bit ?pad 1 - 1)"
    let ?b = "ucast (?acc AND 0xff) :: byte"
    have m: "(0xff :: u64) = mask 8" "push_bit ?pad (1 :: u64) - 1 = mask ?pad" by (simp_all add: mask_eq_exp_minus_1 push_bit_eq_mult)
    have "low_bits 8 ?b = low_bits (nbits + ?pad) ?acc"
      unfolding m using nb by (simp del: low_bits.simps, intro low_bits_cong) (simp add: bit_simps)
    also have "\<dots> = low_bits nbits acc @ replicate ?pad True"
    proof -
      have "low_bits nbits (drop_bit ?pad ?acc) = low_bits nbits acc"
        unfolding m using nb by (intro low_bits_cong) (auto simp: bit_simps)
      moreover have "low_bits ?pad ?acc = replicate ?pad True"
        unfolding m using nb by (intro nth_equalityI) (auto simp: low_bits_nth bit_simps)
      ultimately show ?thesis by (simp only: low_bits_add)
    qed
    finally have "bits_of (enc @ [?b]) = concat (map code_bits s) @ replicate ?pad True"
      by (simp flip: bits)
    moreover have "huffman_encode [] s = enc @ [?b]"
      using l True by (simp add: huffman_encode_def Let_def)
    ultimately show ?thesis using True by (intro exI [of _ ?pad]) simp
  qed
qed

text \<open>Two byte strings that spell the same bits up to a last byte's ones are the same.\<close>

lemma padded_unique:
  assumes "bits_of a = x @ replicate p True" and "bits_of b = x @ replicate q True" and "p < 8" and "q < 8"
  shows "a = b"
proof -
  have "8 * length a = length x + p" "8 * length b = length x + q"
    using arg_cong [OF assms(1), of length] arg_cong [OF assms(2), of length] by simp_all
  then have "p = q" using assms(3,4) by presburger
  with assms show ?thesis by (intro bits_of_inj) simp
qed

lemma huffman_size_correct: "length (huffman_encode [] s) = huffman_size s"
proof -
  obtain pad where p: "pad < 8" "bits_of (huffman_encode [] s) = concat (map code_bits s) @ replicate pad True"
    using huffman_encode_bits by blast
  have "length (concat (map code_bits s)) = sum_list (map (\<lambda>c. snd (kHuffmanCodes ! unat c)) s)"
    by (induction s) (simp_all add: code_bits_def code_def)
  with arg_cong [OF p(2), of length] have "8 * length (huffman_encode [] s) = sum_list (map (\<lambda>c. snd (kHuffmanCodes ! unat c)) s) + pad"
    by simp
  then show ?thesis using p(1) by (simp add: huffman_size_def)
qed


subsection \<open>The automaton walks the code tree\<close>

fun walk :: "nat \<Rightarrow> bool list \<Rightarrow> (nat \<times> bytes) option" where
  "walk s [] = Some (s, [])"
| "walk s (b # bs) =
     (case kid s b of
        HLf c \<Rightarrow> map_option (\<lambda>(s', syms). (s', c # syms)) (walk 0 bs)
      | HEos \<Rightarrow> None
      | HNd s' \<Rightarrow> walk s' bs)"

lemma path_0 [simp]: "path 0 = []"
  by (simp add: path_eqs)

lemma horner_snoc: "horner v (bs @ [b]) = 2 * horner v bs + of_bool b"
  by (induction bs arbitrary: v) simp_all

lemma horner_less: "horner 0 bs < 2 ^ length bs"
  by (induction bs rule: rev_induct) (simp_all add: horner_snoc)

lemma horner_bits: "length bs \<le> 32 \<Longrightarrow> low_bits (length bs) (of_nat (horner 0 bs) :: u32) = bs"
proof (induction bs rule: rev_induct)
  case (snoc b bs)
  let ?h = "horner 0 (bs @ [b])"
  let ?w = "of_nat ?h :: u32"
  have "?h < 2 ^ length (bs @ [b])" by (rule horner_less)
  also have "\<dots> \<le> 2 ^ 32" using snoc.prems by (intro power_increasing) simp_all
  finally have h: "unat ?w = ?h" by (simp add: unsigned_of_nat take_bit_nat_eq_self)
  have "unat (drop_bit 1 ?w) = horner 0 bs" unfolding unat_drop_bit h by (simp add: horner_snoc)
  then have "drop_bit 1 ?w = of_nat (horner 0 bs)" by (metis of_nat_unat ucast_id)
  moreover have "bit ?w 0 = b" using h by (simp add: bit_0 horner_snoc)
  ultimately show ?case
    using snoc low_bits_add [of "length bs" 1 ?w] by simp
qed simp

lemma kid_HLf: "s < 256 \<Longrightarrow> kid s b = HLf c \<Longrightarrow> code_bits c = path s @ [b]"
  and kid_HNd: "s < 256 \<Longrightarrow> kid s b = HNd s' \<Longrightarrow> s' < 256 \<and> path s' = path s @ [b]"
proof -
  have ok: "s < 256 \<Longrightarrow> kid_ok s b" using kids_ok state_in [of s] by (cases b) (auto simp: list_all_iff)
  show "s < 256 \<Longrightarrow> kid s b = HNd s' \<Longrightarrow> s' < 256 \<and> path s' = path s @ [b]"
    using ok by (simp add: kid_ok_def)
  assume "s < 256" "kid s b = HLf c"
  with ok have c: "code (unat c) = (of_nat (horner 0 (path s @ [b])), length (path s @ [b]))"
    by (simp add: kid_ok_def count_bits_length)
  then have "length (path s @ [b]) \<le> 32" using code_len(2) [of c] by (simp add: code_bits_def)
  from horner_bits [OF this] show "code_bits c = path s @ [b]" unfolding code_bits_def c by simp
qed

text \<open>Walking consumes exactly codes and the path of the node it ends in.\<close>

lemma walk_path:
  "walk s bs = Some (s', syms) \<Longrightarrow> s < 256 \<Longrightarrow> s' < 256 \<and> concat (map code_bits syms) @ path s' = path s @ bs"
proof (induction s bs arbitrary: syms rule: walk.induct)
  case (2 s b bs)
  show ?case
  proof (cases "kid s b")
    case (HLf c)
    with 2(3) obtain syms' where w: "walk 0 bs = Some (s', syms')" "syms = c # syms'" by auto
    then have "s' < 256 \<and> concat (map code_bits syms') @ path s' = bs" using 2(1) [OF HLf w(1)] by simp
    then show ?thesis using w kid_HLf [OF 2(4) HLf] by simp
  next
    case HEos
    with 2(3) show ?thesis by simp
  next
    case (HNd n)
    with 2(3) have "walk n bs = Some (s', syms)" by simp
    from 2(2) [OF HNd this] kid_HNd [OF 2(4) HNd] show ?thesis by simp
  qed
qed simp

lemma walk_append:
  "walk s (as @ bs) = (case walk s as of None \<Rightarrow> None
     | Some (s', o1) \<Rightarrow> map_option (\<lambda>(s'', o2). (s'', o1 @ o2)) (walk s' bs))"
proof (induction s as rule: walk.induct)
  case (1 s)
  then show ?case by (cases "walk s bs") auto
next
  case (2 s b as)
  then show ?case by (cases "kid s b"; cases "walk 0 as") (auto simp: option.map_comp comp_def split_beta' split: option.split)
qed

lemma walk_short:
  assumes "walk s bs = Some (s', syms)" and "s < 256" and "length bs \<le> 4"
  shows "length syms \<le> 1"
proof -
  have root: "syms = []" if "walk 0 bs = Some (s', syms)" "length bs \<le> 3" for bs s' syms
  proof (cases syms)
    case (Cons c r)
    with walk_path [OF that(1)] have "length (code_bits c) \<le> length bs"
      by (metis (no_types, lifting) concat.simps(2) length_append le_add1 list.simps(9) append.assoc append_Nil path_0 zero_less_numeral)
    with code_len(1) [of c] that(2) show ?thesis by simp
  qed simp
  show ?thesis
    using assms
  proof (induction s bs arbitrary: syms rule: walk.induct)
    case (2 s b bs)
    show ?case
    proof (cases "kid s b")
      case (HLf c)
      with 2(3) obtain syms' where "walk 0 bs = Some (s', syms')" "syms = c # syms'" by auto
      with root [of bs s' syms'] 2(5) show ?thesis by simp
    next
      case HEos
      with 2(3) show ?thesis by simp
    next
      case (HNd n)
      with 2 kid_HNd [OF 2(4) HNd] show ?thesis by simp
    qed
  qed simp
qed

lemma walk_follow: "follow s bs = Some s' \<Longrightarrow> walk s bs = Some (s', [])"
  by (induction s bs rule: follow.induct) (auto split: href.splits)

lemma leaf_states: "list_all (\<lambda>(s, b). s < 256) leaf_list"
  by (simp add: leaf_list_def)

lemma walk_code: "walk 0 (code_bits c) = Some (0, [c])"
proof -
  let ?i = "unat c"
  have i: "?i < 256" using unsigned_less [of c, where ?'a = nat] by simp
  have len: "length leaf_list = 256" "length all_bytes = 256" by (simp_all add: leaf_list_def all_bytes_def)
  obtain s b where sb: "leaf_list ! ?i = (s, b)" by force
  have "all_bytes ! ?i = c"
    using arg_cong [OF map_unat, of "\<lambda>xs. xs ! ?i"] i len by (simp add: all_states_upt word_unat_eq_iff)
  then have k: "kid s b = HLf c" using arg_cong [OF leaves_found, of "\<lambda>xs. xs ! ?i"] i len sb by simp
  have s: "s < 256" using leaf_states i len sb by (auto simp: list_all_length split: prod.splits)
  have "follow 0 (path s) = Some s" using paths_followed state_in [OF s] by (simp add: list_all_iff)
  then show ?thesis using walk_follow kid_HLf [OF s k] k by (simp add: walk_append)
qed

lemma walk_codes: "walk 0 (concat (map code_bits syms) @ bs) = map_option (\<lambda>(s, o'). (s, syms @ o')) (walk 0 bs)"
  by (induction syms) (simp_all add: walk_append walk_code option.map_comp comp_def case_prod_beta option.map_ident)

lemma ones_accept:
  "list_all (\<lambda>bs. case follow 0 bs of None \<Rightarrow> False | Some s \<Rightarrow> accepting s)
     [[], [True], [True, True], [True, True, True], [True, True, True, True], [True, True, True, True, True],
      [True, True, True, True, True, True], [True, True, True, True, True, True, True]]"
  by (simp add: kid_def kids_eqs accepting_def)

lemma walk_ones: "k < 8 \<Longrightarrow> \<exists>s. walk 0 (replicate k True) = Some (s, []) \<and> accepting s"
proof -
  assume "k < 8"
  then have "k \<in> {0, 1, 2, 3, 4, 5, 6, 7}" by auto
  then have "case follow 0 (replicate k True) of None \<Rightarrow> False | Some s \<Rightarrow> accepting s"
    using ones_accept by (elim insertE) (simp_all add: eval_nat_numeral)
  then show ?thesis using walk_follow by (auto split: option.splits)
qed

lemma step_table:
  assumes "s < 256" and "nib < 16"
  shows "kHuffmanSteps ! s ! nib = step_of (nib_walk s (all_nibbles ! nib) None)"
proof -
  have "kHuffmanSteps ! s = tree_row s"
    using assms(1) by (simp add: all_states_upt flip: steps_are_tree_rows)
  moreover have "length all_nibbles = 16" by (simp add: all_nibbles_def)
  ultimately show ?thesis using assms(2) by (simp add: tree_row_def)
qed

lemma nib_walk_walk:
  "nib_walk s bs so = map_option (\<lambda>(s', syms). (s', if syms = [] then so else Some (last syms))) (walk s bs)"
proof (induction s bs so rule: nib_walk.induct)
  case (2 s b bs so)
  show ?case
  proof (cases "kid s b")
    case (HLf c)
    then show ?thesis using 2(1) [of c] by (cases "walk 0 bs") (auto simp: kid_def)
  next
    case HEos
    then show ?thesis by (simp add: kid_def)
  next
    case (HNd n)
    then show ?thesis using 2(2) [of n] by (simp add: kid_def)
  qed
qed simp

lemma length_nibble: "nib < 16 \<Longrightarrow> length (all_nibbles ! nib) = 4"
proof -
  have "list_all (\<lambda>bs. length bs = 4) all_nibbles" "length all_nibbles = 16" by (simp_all add: all_nibbles_def)
  then show "nib < 16 \<Longrightarrow> length (all_nibbles ! nib) = 4" by (simp add: list_all_length)
qed

text \<open>The flags of a step that ends in state \<open>s\<close>.\<close>

lemma huff_nibble_walk:
  assumes "s < 256" and "nib < 16" and "length w \<le> cap"
  shows "(\<exists>flags. huff_nibble cap s w nib =
      (case walk s (all_nibbles ! nib) of
         None \<Rightarrow> Inl hs_malformed
       | Some (s', syms) \<Rightarrow> if length w + length syms > cap then Inl hs_too_large else Inr (s', flags, w @ syms))
    \<and> (\<forall>s' syms. walk s (all_nibbles ! nib) = Some (s', syms) \<longrightarrow> (flags AND kHuffmanAccepted \<noteq> 0 \<longleftrightarrow> accepting s')))"
proof (cases "walk s (all_nibbles ! nib)")
  case None
  then show ?thesis
    using assms by (simp add: huff_nibble_def step_table nib_walk_walk kHuffmanFail_def)
next
  case (Some r)
  obtain s' syms where r: "r = (s', syms)" by force
  have short: "length syms \<le> 1"
    using walk_short [OF _ assms(1)] Some r length_nibble [OF assms(2)] by simp
  have step: "kHuffmanSteps ! s ! nib = step_of (Some (s', if syms = [] then None else Some (last syms)))"
    using assms Some r by (simp add: step_table nib_walk_walk)
  show ?thesis
  proof (cases syms)
    case Nil
    then show ?thesis using Some r step assms(3)
      by (intro exI [of _ "if accepting s' then 1 else 0"])
        (simp add: huff_nibble_def kHuffmanFail_def kHuffmanSymbol_def kHuffmanAccepted_def)
  next
    case (Cons c cs)
    then have "syms = [c]" using short by simp
    then show ?thesis using Some r step assms(3)
      by (intro exI [of _ "if accepting s' then 3 else 2"])
        (auto simp: huff_nibble_def kHuffmanFail_def kHuffmanSymbol_def kHuffmanAccepted_def)
  qed
qed

lemma nibble_bits: "list_all (\<lambda>n. low_bits 4 (of_nat n :: byte) = all_nibbles ! n) [0..<16]"
  by code_simp

lemma byte_nibbles:
  "low_bits 8 c = all_nibbles ! unat (drop_bit 4 c) @ all_nibbles ! unat (c AND 0xf)"
  "unat (drop_bit 4 (c :: byte)) < 16" "unat (c AND 0xf) < 16"
proof -
  show hi: "unat (drop_bit 4 c) < 16"
    unfolding unat_drop_bit using unsigned_less [of c, where ?'a = nat] by simp
  have m: "c AND 0xf = take_bit 4 c" by (simp add: take_bit_eq_mask mask_eq_exp_minus_1)
  show lo: "unat (c AND 0xf) < 16" unfolding m unat_take_bit by simp
  have small: "low_bits 4 x = all_nibbles ! unat x" if "unat x < 16" for x :: byte
  proof -
    have "unat x \<in> set [0..<16]" using that by simp
    then have "low_bits 4 (of_nat (unat x) :: byte) = all_nibbles ! unat x"
      using nibble_bits unfolding list_all_iff by blast
    then show ?thesis by simp
  qed
  have "low_bits 8 c = low_bits 4 (drop_bit 4 c) @ low_bits 4 c" using low_bits_add [of 4 4 c] by simp
  moreover have "low_bits 4 c = low_bits 4 (c AND 0xf)" unfolding m by (rule low_bits_cong) (simp add: bit_simps)
  ultimately show "low_bits 8 c = all_nibbles ! unat (drop_bit 4 c) @ all_nibbles ! unat (c AND 0xf)"
    using small hi lo by simp
qed

text \<open>A whole byte: both nibbles, or the first error.\<close>

lemma huff_byte_walk:
  assumes "s < 256" and "length w \<le> cap"
  shows "case walk s (low_bits 8 c) of
      None \<Rightarrow> (\<exists>e. huff_decode_loop cap s flags w (c # inp) = Inl e)
    | Some (s', syms) \<Rightarrow>
        if length w + length syms > cap then huff_decode_loop cap s flags w (c # inp) = Inl hs_too_large
        else \<exists>flags'. huff_decode_loop cap s flags w (c # inp) = huff_decode_loop cap s' flags' (w @ syms) inp
               \<and> (flags' AND kHuffmanAccepted \<noteq> 0 \<longleftrightarrow> accepting s')"
proof -
  let ?h = "unat (drop_bit 4 c)" and ?l = "unat (c AND 0xf)"
  obtain f1 where n1: "huff_nibble cap s w ?h = (case walk s (all_nibbles ! ?h) of
         None \<Rightarrow> Inl hs_malformed
       | Some (s', syms) \<Rightarrow> if length w + length syms > cap then Inl hs_too_large else Inr (s', f1, w @ syms))"
    using huff_nibble_walk [OF assms(1) byte_nibbles(2) assms(2)] by blast
  show ?thesis
  proof (cases "walk s (all_nibbles ! ?h)")
    case None
    then show ?thesis using n1 by (simp add: byte_nibbles(1) walk_append)
  next
    case (Some r)
    obtain s1 o1 where r: "r = (s1, o1)" by force
    have s1: "s1 < 256" using walk_path Some r assms(1) by blast
    show ?thesis
    proof (cases "length w + length o1 > cap")
      case True
      then show ?thesis using n1 Some r
        by (auto simp: byte_nibbles(1) walk_append split: option.split)
    next
      case False
      then have len: "length (w @ o1) \<le> cap" by simp
      obtain f2 where n2: "huff_nibble cap s1 (w @ o1) ?l = (case walk s1 (all_nibbles ! ?l) of
         None \<Rightarrow> Inl hs_malformed
       | Some (s', syms) \<Rightarrow> if length (w @ o1) + length syms > cap then Inl hs_too_large else Inr (s', f2, (w @ o1) @ syms))"
        and acc: "\<forall>s' syms. walk s1 (all_nibbles ! ?l) = Some (s', syms) \<longrightarrow> (f2 AND kHuffmanAccepted \<noteq> 0 \<longleftrightarrow> accepting s')"
        using huff_nibble_walk [OF s1 byte_nibbles(3) len] by blast
      show ?thesis using n1 n2 Some r False acc
        by (auto simp: byte_nibbles(1) walk_append split: option.split)
    qed
  qed
qed

lemma huff_decode_loop_walk:
  assumes "s < 256" and "length w \<le> cap" and "flags AND kHuffmanAccepted \<noteq> 0 \<longleftrightarrow> accepting s"
  shows "(\<exists>flags'. huff_decode_loop cap s flags w inp = Inr (flags', w') \<and> (flags' AND kHuffmanAccepted \<noteq> 0) = acc)
    \<longleftrightarrow> (\<exists>s' syms. walk s (bits_of inp) = Some (s', syms) \<and> w' = w @ syms \<and> length w' \<le> cap \<and> accepting s' = acc)"
  using assms
proof (induction inp arbitrary: s w flags)
  case (Cons c inp)
  note b = huff_byte_walk [OF Cons.prems(1,2), where c = c and flags = flags and inp = inp]
  show ?case
  proof (cases "walk s (low_bits 8 c)")
    case None
    with b show ?thesis by (auto simp: walk_append)
  next
    case (Some r)
    obtain s1 o1 where r: "r = (s1, o1)" by force
    have s1: "s1 < 256" using walk_path Some r Cons.prems(1) by blast
    show ?thesis
    proof (cases "length w + length o1 > cap")
      case True
      with b Some r show ?thesis by (auto simp: walk_append)
    next
      case False
      with b Some r obtain f where f: "huff_decode_loop cap s flags w (c # inp) = huff_decode_loop cap s1 f (w @ o1) inp"
        "f AND kHuffmanAccepted \<noteq> 0 \<longleftrightarrow> accepting s1" by auto
      show ?thesis
        using Cons.IH [OF s1 _ f(2), of "w @ o1"] False
        unfolding f(1) by (auto simp: walk_append Some r)
    qed
  qed
qed auto

lemma huff_nibble_error: "huff_nibble cap s w nib \<noteq> Inl hs_ok"
  by (auto simp: huff_nibble_def split: prod.split)

lemma huff_decode_loop_error: "huff_decode_loop cap s flags w inp \<noteq> Inl hs_ok"
  by (induction inp arbitrary: s flags w) (auto simp: huff_nibble_error split: sum.split prod.split)

lemma all_true_replicate: "list_all id bs \<Longrightarrow> bs = replicate (length bs) True"
  by (induction bs) auto

lemma codes_length: "5 * length syms \<le> length (concat (map code_bits syms))"
proof (induction syms)
  case (Cons c syms)
  then show ?case using code_len(1) [of c] by simp
qed simp


subsection \<open>Properties\<close>

lemma huffman_decode_ok_iff:
  "huffman_decode inp out max_out = (hs_ok, out @ s) \<longleftrightarrow> inp = huffman_encode [] s \<and> length s \<le> max_out"
proof -
  let ?cap = "min max_out (length inp * 8 div 5 + 1)"
  have start: "kHuffmanAccepted AND kHuffmanAccepted \<noteq> 0 \<longleftrightarrow> accepting 0"
    by (simp add: kHuffmanAccepted_def accepting_def)
  have "huffman_decode inp out max_out = (hs_ok, out @ s)
      \<longleftrightarrow> (\<exists>flags. huff_decode_loop ?cap 0 kHuffmanAccepted [] inp = Inr (flags, s) \<and> (flags AND kHuffmanAccepted \<noteq> 0) = True)"
    using huff_decode_loop_error [of ?cap 0 kHuffmanAccepted "[]" inp]
    by (auto simp: huffman_decode_def Let_def split: sum.splits)
  also have "\<dots> \<longleftrightarrow> (\<exists>s'. walk 0 (bits_of inp) = Some (s', s) \<and> length s \<le> ?cap \<and> accepting s')"
    using huff_decode_loop_walk [OF _ _ start, of "[]" ?cap inp s True] by auto
  also have "\<dots> \<longleftrightarrow> inp = huffman_encode [] s \<and> length s \<le> max_out"
  proof (intro iffI; elim exE conjE)
    fix s' assume w: "walk 0 (bits_of inp) = Some (s', s)" and len: "length s \<le> ?cap" and acc: "accepting s'"
    have p: "s' < 256" "concat (map code_bits s) @ path s' = bits_of inp" using walk_path [OF w] by auto
    have "list_all id (path s') \<and> length (path s') \<le> 7"
      using accepting_path state_in [OF p(1)] acc unfolding list_all_iff [where xs = all_states] by blast
    then have "path s' = replicate (length (path s')) True" "length (path s') < 8"
      using all_true_replicate by auto
    then show "inp = huffman_encode [] s \<and> length s \<le> max_out"
      using huffman_encode_bits [of s] padded_unique [of inp] p(2) len by (metis min.boundedE)
  next
    assume inp: "inp = huffman_encode [] s" and len: "length s \<le> max_out"
    obtain pad where p: "pad < 8" "bits_of inp = concat (map code_bits s) @ replicate pad True"
      using huffman_encode_bits inp by blast
    have "5 * length s \<le> 8 * length inp" using arg_cong [OF p(2), of length] codes_length [of s] by simp
    then have "length s \<le> ?cap" using len by simp
    moreover obtain s' where "walk 0 (replicate pad True) = Some (s', [])" "accepting s'" using walk_ones [OF p(1)] by blast
    ultimately show "\<exists>s'. walk 0 (bits_of inp) = Some (s', s) \<and> length s \<le> ?cap \<and> accepting s'"
      by (simp add: p(2) walk_codes)
  qed
  finally show ?thesis .
qed

text \<open>
  C25. Huffman decoding is the exact inverse of encoding: \<open>huffman_decode\<close> accepts an input and
  appends \<open>s\<close> if and only if the input is, byte for byte, the encoding of \<open>s\<close> and \<open>s\<close> fits the caller's
  budget. Truncated codes, EOS, wrong or overlong padding are all refused.
\<close>

theorem huffman_decode_exact:
  "huffman_decode inp out max_out = (hs_ok, out @ s) \<longleftrightarrow> inp = huffman_encode [] s \<and> length s \<le> max_out"
  by (rule huffman_decode_ok_iff)

text \<open>
  \<open>huffman_encode\<close> only appends, and what it appends has exactly the size \<open>huffman_size\<close>
  announces: the length prefix written before the bytes is right.
\<close>

theorem huffman_size_exact:
  "huffman_encode out s = out @ huffman_encode [] s \<and> length (huffman_encode out s) = length out + huffman_size s"
  using huffman_encode_append [of out s] huffman_size_correct [of s] by simp

end
