(* ===== verification/Field_Int.thy ===== *)
theory Field_Int
  imports Wire_Codec
begin

text \<open>
  The prefixed integers of HPACK and QPACK (\<^verbatim>\<open>src/http/field_codec.cpp\<close>: \<open>append_integer\<close>,
  \<open>read_integer\<close>). The writer works on 64-bit values; the reader accumulates in 64 bits, stops after
  five continuation bytes and refuses what does not fit 32 bits. A reader at \<open>in[pos]\<close> takes the bytes
  from \<open>pos\<close> on and returns what is left.
\<close>

unbundle bit_operations_syntax


subsection \<open>The code\<close>

text \<open>The continuation bytes, seven bits each, low first.\<close>

function int_bytes :: "u64 \<Rightarrow> bytes" where
  "int_bytes value =
     (if value \<ge> 128 then ucast ((value AND 0x7f) OR 0x80) # int_bytes (drop_bit 7 value)
      else [ucast value])"
  by pat_completeness auto
termination
proof (relation "measure unat")
  fix v :: u64 assume "v \<ge> 128"
  then have "unat v > 0" by (simp add: word_le_nat_alt)
  then show "(drop_bit 7 v, v) \<in> measure unat" by (simp add: unat_drop_bit)
qed simp

declare int_bytes.simps [simp del]

definition prefix_max :: "nat \<Rightarrow> u32" where
  "prefix_max prefix_bits = push_bit prefix_bits 1 - 1"

definition append_integer :: "bytes \<Rightarrow> u64 \<Rightarrow> nat \<Rightarrow> byte \<Rightarrow> bytes" where
  "append_integer out value prefix_bits prefix_flags =
     (let mx = ucast (prefix_max prefix_bits)
      in if value < mx then out @ [prefix_flags OR ucast value]
         else out @ [prefix_flags OR ucast mx] @ int_bytes (value - mx))"

fun read_int_loop :: "u64 \<Rightarrow> nat \<Rightarrow> bytes \<Rightarrow> (u64 \<times> bytes) option" where
  "read_int_loop acc shift [] = None"
| "read_int_loop acc shift (b # rest) =
     (if shift > 28 then None
      else let acc = acc + push_bit shift (ucast (b AND 0x7f))
           in if b AND 0x80 = 0 then Some (acc, rest) else read_int_loop acc (shift + 7) rest)"

fun read_integer :: "nat \<Rightarrow> bytes \<Rightarrow> (u32 \<times> bytes) option" where
  "read_integer prefix_bits [] = None"
| "read_integer prefix_bits (c # rest) =
     (let mx = prefix_max prefix_bits;
          v = ucast c AND mx
      in if v < mx then Some (v, rest)
         else case read_int_loop (ucast mx) 0 rest of
                None \<Rightarrow> None
              | Some (acc, rest) \<Rightarrow> if acc > 0xffffffff then None else Some (ucast acc, rest))"


subsection \<open>Round trip\<close>

lemma unat_prefix_max: "p \<le> 8 \<Longrightarrow> unat (prefix_max p) = 2 ^ p - 1"
proof -
  assume "p \<le> 8"
  then have "p \<in> {0, 1, 2, 3, 4, 5, 6, 7, 8}" by auto
  then show ?thesis by (elim insertE) (simp_all add: prefix_max_def)
qed

lemma unat_and_7f: "unat (v AND 0x7f) = unat v mod 128" for v :: "'a::len word"
proof -
  have "v AND 0x7f = take_bit 7 v" by (simp add: take_bit_eq_mask mask_eq_exp_minus_1)
  then show ?thesis by (simp add: unat_take_bit)
qed

lemma bit_0x80: "bit (0x80 :: 'a::semiring_bit_operations) n \<longleftrightarrow> possible_bit TYPE('a) n \<and> n = 7"
proof -
  have "(0x80 :: 'a) = 2 ^ 7" by simp
  then show ?thesis by (auto simp only: bit_exp_iff)
qed

text \<open>A byte of the sequence: its low seven bits and whether it is the last.\<close>

lemma more_byte:
  fixes v :: u64
  defines "b \<equiv> ucast ((v AND 0x7f) OR 0x80) :: byte"
  shows "unat (b AND 0x7f) = unat v mod 128" and "b AND 0x80 \<noteq> 0"
proof -
  have m: "(0x7f :: u64) = mask 7" "(0x7f :: byte) = mask 7"
    by (simp_all add: mask_eq_exp_minus_1)
  have e: "b AND 0x7f = ucast (take_bit 7 v)" unfolding b_def m
    by (rule bit_word_eqI) (auto simp: bit_simps bit_0x80)
  have "unat v mod 128 < 128" by simp
  then show "unat (b AND 0x7f) = unat v mod 128"
    unfolding e by (subst unat_ucast_less) (simp_all add: unat_take_bit)
  have "bit (b AND 0x80) 7" unfolding b_def m by (simp add: bit_simps bit_0x80)
  then show "b AND 0x80 \<noteq> 0" by (metis bit_0_eq bot_apply bot_bool_def)
qed

lemma last_byte:
  fixes v :: u64
  assumes "unat v < 128"
  shows "unat (ucast v AND 0x7f :: byte) = unat v" and "ucast v AND (0x80 :: byte) = 0"
proof -
  have "unat (ucast v AND 0x7f :: byte) = unat (ucast v :: byte) mod 128" by (rule unat_and_7f)
  also have "\<dots> = unat v" using assms by (subst unat_ucast_less) simp_all
  finally show "unat (ucast v AND 0x7f :: byte) = unat v" .
  have "v < 2 ^ 7" using assms by (simp add: word_less_nat_alt)
  then have "take_bit 7 v = v" by (rule take_bit_of_less)
  then have bits: "bit v i \<Longrightarrow> i < 7" for i by (metis bit_take_bit_iff)
  show "ucast v AND (0x80 :: byte) = 0"
    by (rule bit_word_eqI) (auto simp: bit_simps bit_0x80 dest: bits)
qed

lemma read_int_loop_int_bytes:
  assumes "shift \<le> 28" and "7 dvd shift" and "unat v < 2 ^ (35 - shift)" and "unat acc + unat v * 2 ^ shift < 2 ^ 36"
  shows "\<exists>acc'. read_int_loop acc shift (int_bytes v @ rest) = Some (acc', rest) \<and> unat acc' = unat acc + unat v * 2 ^ shift"
  using assms
proof (induction v arbitrary: acc shift rule: int_bytes.induct)
  case (1 v)
  have add: "unat (acc + push_bit shift (ucast (b AND 0x7f))) = unat acc + unat (b AND 0x7f) * 2 ^ shift"
    if "unat acc + unat (b AND 0x7f) * 2 ^ shift < 2 ^ 36" for b :: byte
  proof -
    have u: "unat (ucast (b AND 0x7f) :: u64) = unat (b AND 0x7f)"
      using unsigned_less [of "b AND 0x7f", where ?'a = nat] by (intro unat_ucast_less) simp
    then have p: "unat (push_bit shift (ucast (b AND 0x7f)) :: u64) = unat (b AND 0x7f) * 2 ^ shift"
      using that by (subst unat_push_bit_less) simp_all
    then show ?thesis using that by (subst unat_add_less) simp_all
  qed
  show ?case
  proof (cases "v \<ge> 128")
    case False
    then have v: "unat v < 128" by (simp add: word_le_nat_alt)
    have "int_bytes v = [ucast v]" using False by (simp add: int_bytes.simps)
    then show ?thesis using 1(2,5) add [of "ucast v"] last_byte [OF v] by simp
  next
    case True
    let ?b = "ucast ((v AND 0x7f) OR 0x80) :: byte" and ?v = "drop_bit 7 v"
    let ?acc = "acc + push_bit shift (ucast (?b AND 0x7f))"
    have ib: "int_bytes v = ?b # int_bytes ?v" using True by (subst int_bytes.simps) simp
    have v: "unat v = 128 * unat ?v + unat v mod 128" by (simp add: unat_drop_bit)
    have "unat v \<ge> 128" using True by (simp add: word_le_nat_alt)
    then have "(2::nat) ^ 7 < 2 ^ (35 - shift)" using 1(4) by simp
    then have "7 < 35 - shift" by (rule power_less_imp_less_exp [rotated]) simp
    then have sh: "shift + 7 \<le> 28" using 1(3) by auto
    have "35 - shift = 7 + (35 - (shift + 7))" using sh by simp
    then have e: "(2::nat) ^ (35 - shift) = 128 * 2 ^ (35 - (shift + 7))" by (simp only: power_add) simp
    have "unat ?v < 2 ^ (35 - (shift + 7))" using 1(4) by (simp add: unat_drop_bit e less_mult_imp_div_less mult.commute)
    moreover have sum: "unat acc + unat (?b AND 0x7f) * 2 ^ shift + unat ?v * 2 ^ (shift + 7) = unat acc + unat v * 2 ^ shift"
      unfolding more_byte(1) using arg_cong [OF v, of "\<lambda>x. x * 2 ^ shift"] by (simp add: power_add algebra_simps)
    moreover have acc: "unat ?acc = unat acc + unat (?b AND 0x7f) * 2 ^ shift"
      using add sum 1(5) by simp
    ultimately obtain acc' where "read_int_loop ?acc (shift + 7) (int_bytes ?v @ rest) = Some (acc', rest)"
      "unat acc' = unat acc + unat v * 2 ^ shift"
      using 1(1) [OF True sh, of ?acc] 1(3,5) by auto
    then show ?thesis using 1(2) more_byte(2) [of v] by (simp add: ib Let_def)
  qed
qed

lemma read_append_integer:
  assumes "1 \<le> p" and "p \<le> 8" and "flags AND ucast (prefix_max p) = 0" and "unat v < 2 ^ 32"
  shows "read_integer p (append_integer [] v p flags @ rest) = Some (ucast v, rest)"
proof -
  let ?mx = "ucast (prefix_max p) :: u64" and ?mb = "ucast (prefix_max p) :: byte"
  have "(2::nat) ^ p \<le> 2 ^ 8" using assms(2) by (intro power_increasing) simp_all
  then have small: "2 ^ p - 1 < (256 :: nat)" by simp
  have mx: "unat ?mx = 2 ^ p - 1" "unat (prefix_max p) = 2 ^ p - 1"
    using small unat_prefix_max [OF assms(2)] by (simp_all add: unat_ucast_less)
  have mask: "prefix_max p = mask p" by (simp add: prefix_max_def mask_eq_exp_minus_1 push_bit_eq_mult)
  have fl: "\<not> bit flags i" if "i < p" for i
  proof
    assume "bit flags i"
    then have "bit (flags AND ucast (prefix_max p)) i" using that assms(2) by (auto simp: mask bit_simps)
    then show False using assms(3) by simp
  qed
  have first: "ucast (flags OR ucast w) AND prefix_max p = (ucast w :: u32)" if "unat w \<le> 2 ^ p - 1" for w :: u64
  proof -
    have "(0::nat) < 2 ^ p" by simp
    with that have "unat w < 2 ^ p" by linarith
    then have "take_bit p w = w" by (simp add: word_unat_eq_iff unat_take_bit)
    then have bits: "bit w i \<Longrightarrow> i < p" for i by (metis bit_take_bit_iff)
    show ?thesis
      unfolding mask by (rule bit_word_eqI) (use assms(2) in \<open>auto simp: bit_simps fl dest: bits\<close>)
  qed
  show ?thesis
  proof (cases "v < ?mx")
    case True
    then have "unat v < 2 ^ p - 1" using mx by (simp add: word_less_nat_alt)
    moreover from this have "(ucast v :: u32) < prefix_max p" using mx small by (simp add: word_less_nat_alt unat_ucast_less)
    ultimately show ?thesis using True first [of v] by (simp add: append_integer_def Let_def)
  next
    case False
    then have le: "unat ?mx \<le> unat v" by (simp add: word_less_nat_alt)
    have "unat (v - ?mx) = unat v - (2 ^ p - 1)" using le mx by (simp add: unat_sub word_le_nat_alt)
    then have "unat (v - ?mx) < 2 ^ 35" "unat ?mx + unat (v - ?mx) = unat v" using assms(4) le mx by simp_all
    then obtain acc where acc: "read_int_loop ?mx 0 (int_bytes (v - ?mx) @ rest) = Some (acc, rest)" "unat acc = unat v"
      using read_int_loop_int_bytes [of 0 "v - ?mx" ?mx rest] assms(4) by auto
    then have "acc = v" by (simp add: word_unat_eq_iff)
    moreover have "\<not> v > 0xffffffff" using assms(4) by (simp add: word_less_nat_alt)
    moreover have "ucast ?mx = prefix_max p" using mx small by (simp add: word_unat_eq_iff unat_ucast_less)
    ultimately show ?thesis using False acc first [of ?mx] mx by (simp add: append_integer_def Let_def)
  qed
qed

text \<open>The prefix sizes and flags the codecs use: the flags leave the prefix bits free.\<close>

definition prefix_ok :: "nat \<Rightarrow> byte \<Rightarrow> bool" where
  "prefix_ok p flags \<longleftrightarrow> 1 \<le> p \<and> p \<le> 8 \<and> flags AND ucast (prefix_max p) = 0"

lemma append_integer_out: "append_integer out v p flags = out @ append_integer [] v p flags"
  by (simp add: append_integer_def Let_def)

lemma read_append_u32:
  "prefix_ok p flags \<Longrightarrow> read_integer p (append_integer [] (ucast (v :: u32)) p flags @ rest) = Some (v, rest)"
  using read_append_integer [of p flags "ucast v" rest] unsigned_less [of v, where ?'a = nat]
  by (simp add: prefix_ok_def unat_ucast_less word_unat_eq_iff)

lemma append_integer_not_Nil [simp]: "append_integer out v p flags \<noteq> []"
  by (simp add: append_integer_def Let_def)

text \<open>The integers of the prefixes HPACK uses are wire codecs.\<close>

lemma hpack_prefixes: "prefix_ok 7 0x80" "prefix_ok 7 0" "prefix_ok 6 0x40" "prefix_ok 5 0x20" "prefix_ok 4 0" "prefix_ok 4 0x10"
  by (simp_all add: prefix_ok_def prefix_max_def)

interpretation int7: wire_codec "\<lambda>_. True" "\<lambda>v :: u32. append_integer [] (ucast v) 7 0x80" "read_integer 7"
  by unfold_locales (rule read_append_u32 [OF hpack_prefixes(1)])

interpretation int5: wire_codec "\<lambda>_. True" "\<lambda>v :: u32. append_integer [] (ucast v) 5 0x20" "read_integer 5"
  by unfold_locales (rule read_append_u32 [OF hpack_prefixes(4)])

lemma read_integer_consumes:
  assumes "read_integer p bs = Some (v, rest)"
  shows "\<exists>used. bs = used @ rest \<and> 1 \<le> length used \<and> length used \<le> 6"
proof -
  have loop: "\<exists>used. bs = used @ rest \<and> length used * 7 + shift \<le> 35" if "read_int_loop acc shift bs = Some (acc', rest)"
    for acc shift bs acc'
    using that
  proof (induction acc shift bs rule: read_int_loop.induct)
    case (2 acc shift b bs)
    show ?case
    proof (cases "b AND 0x80 = 0")
      case True
      with 2(2) show ?thesis by (intro exI [of _ "[b]"]) (auto simp: Let_def split: if_splits)
    next
      case False
      with 2(2) have s: "\<not> shift > 28" by (auto split: if_splits)
      with 2(1) [OF s refl] False 2(2) obtain used where "bs = used @ rest" "length used * 7 + (shift + 7) \<le> 35"
        by (auto simp: Let_def)
      then show ?thesis by (intro exI [of _ "b # used"]) simp
    qed
  qed simp
  obtain c cs where bs: "bs = c # cs" using assms by (cases bs) auto
  show ?thesis
  proof (cases "ucast c AND prefix_max p < prefix_max p")
    case True
    then show ?thesis using assms by (intro exI [of _ "[c]"]) (simp add: bs Let_def)
  next
    case False
    then obtain acc where "read_int_loop (ucast (prefix_max p)) 0 cs = Some (acc, rest)"
      using assms by (auto simp: bs Let_def split: option.splits if_splits)
    from loop [OF this] obtain used where "cs = used @ rest" "length used * 7 \<le> 35" by auto
    then show ?thesis by (intro exI [of _ "c # used"]) (simp add: bs)
  qed
qed

lemma read_integer_shorter: "read_integer p bs = Some (v, rest) \<Longrightarrow> length rest < length bs"
  using read_integer_consumes [of p bs v rest] by auto


subsection \<open>Properties\<close>

text \<open>
  Prefixed integers survive the wire: every value below \<open>2^32\<close>, written with any prefix of
  one to eight bits whose flags leave the prefix free, is read back as itself and the reader stops
  exactly at its end, whatever follows.
\<close>

theorem prefixed_integer_roundtrip:
  assumes "prefix_ok p flags" and "v < 2 ^ 32"
  shows "read_integer p (append_integer [] v p flags @ rest) = Some (ucast v, rest)"
proof -
  have "unat v < 2 ^ 32" using assms(2) by (simp add: word_less_nat_alt)
  then show ?thesis using assms(1) by (simp add: prefix_ok_def read_append_integer)
qed

text \<open>
  The integer reader is bounded: it never uses more than six bytes, what it leaves is the rest
  of its input, and so an endless run of continuation bytes is refused.
\<close>

theorem read_integer_bounded:
  assumes "read_integer p bs = Some (v, rest)"
  shows "\<exists>used. bs = used @ rest \<and> 1 \<le> length used \<and> length used \<le> 6"
  using assms by (rule read_integer_consumes)

end
