(* ===== verification/Hpack_Static.thy ===== *)
theory Hpack_Static
  imports Prelude "HOL-Library.List_Lexorder"
begin

text \<open>
  HPACK's static table (\<^verbatim>\<open>src/http2/hpack_tables.hpp\<close>) and the searches in it
  (\<^verbatim>\<open>src/http2/hpack.cpp\<close>: \<open>names_by_name\<close>, \<open>static_name_index\<close>, \<open>static_index\<close>). The comparison of
  \<open>std::string_view\<close> is the lexicographic order of unsigned bytes. The binary search over the
  sorted first occurrences is shown to be the linear search.
\<close>

definition kStaticTable :: "(bytes \<times> bytes) list" where
  "kStaticTable = map (\<lambda>(n, v). (bytes_of n, bytes_of v)) [
     ('':authority'', ''''),
     ('':method'', ''GET''),
     ('':method'', ''POST''),
     ('':path'', ''/''),
     ('':path'', ''/index.html''),
     ('':scheme'', ''http''),
     ('':scheme'', ''https''),
     ('':status'', ''200''),
     ('':status'', ''204''),
     ('':status'', ''206''),
     ('':status'', ''304''),
     ('':status'', ''400''),
     ('':status'', ''404''),
     ('':status'', ''500''),
     (''accept-charset'', ''''),
     (''accept-encoding'', ''gzip, deflate''),
     (''accept-language'', ''''),
     (''accept-ranges'', ''''),
     (''accept'', ''''),
     (''access-control-allow-origin'', ''''),
     (''age'', ''''),
     (''allow'', ''''),
     (''authorization'', ''''),
     (''cache-control'', ''''),
     (''content-disposition'', ''''),
     (''content-encoding'', ''''),
     (''content-language'', ''''),
     (''content-length'', ''''),
     (''content-location'', ''''),
     (''content-range'', ''''),
     (''content-type'', ''''),
     (''cookie'', ''''),
     (''date'', ''''),
     (''etag'', ''''),
     (''expect'', ''''),
     (''expires'', ''''),
     (''from'', ''''),
     (''host'', ''''),
     (''if-match'', ''''),
     (''if-modified-since'', ''''),
     (''if-none-match'', ''''),
     (''if-range'', ''''),
     (''if-unmodified-since'', ''''),
     (''last-modified'', ''''),
     (''link'', ''''),
     (''location'', ''''),
     (''max-forwards'', ''''),
     (''proxy-authenticate'', ''''),
     (''proxy-authorization'', ''''),
     (''range'', ''''),
     (''referer'', ''''),
     (''refresh'', ''''),
     (''retry-after'', ''''),
     (''server'', ''''),
     (''set-cookie'', ''''),
     (''strict-transport-security'', ''''),
     (''transfer-encoding'', ''''),
     (''user-agent'', ''''),
     (''vary'', ''''),
     (''via'', ''''),
     (''www-authenticate'', '''')]"

type_synonym NameIndex = "bytes \<times> nat"

text \<open>The vector as it is filled: the first entry of every name, numbered from one.\<close>

fun first_names :: "NameIndex list \<Rightarrow> nat \<Rightarrow> (bytes \<times> bytes) list \<Rightarrow> NameIndex list" where
  "first_names out i [] = out"
| "first_names out i ((n, v) # t) =
     first_names (if out = [] \<or> list_all (\<lambda>e. fst e \<noteq> n) out then out @ [(n, i + 1)] else out) (Suc i) t"

definition names_by_name :: "NameIndex list" where
  "names_by_name = sort_key fst (first_names [] 0 kStaticTable)"

text \<open>\<open>std::lower_bound\<close> on the sorted vector is the first element not below the name; zero is no entry.\<close>

definition static_name_index :: "bytes \<Rightarrow> nat" where
  "static_name_index name =
     (case dropWhile (\<lambda>e. fst e < name) names_by_name of
        [] \<Rightarrow> 0
      | it # _ \<Rightarrow> if fst it = name then snd it else 0)"

function static_index_from :: "bytes \<Rightarrow> bytes \<Rightarrow> nat \<Rightarrow> nat" where
  "static_index_from name value i =
     (if i \<noteq> 0 \<and> i \<le> length kStaticTable \<and> fst (kStaticTable ! (i - 1)) = name then
        if snd (kStaticTable ! (i - 1)) = value then i else static_index_from name value (i + 1)
      else 0)"
  by pat_completeness auto
termination
  by (relation "measure (\<lambda>(_, _, i). Suc (length kStaticTable) - i)") auto

declare static_index_from.simps [simp del]

definition static_index :: "bytes \<Rightarrow> bytes \<Rightarrow> nat" where
  "static_index name value = static_index_from name value (static_name_index name)"


subsection \<open>What the searches find\<close>

lemma length_kStaticTable [simp]: "length kStaticTable = 61"
  by (simp add: kStaticTable_def)

definition static_at :: "nat \<Rightarrow> (bytes \<times> bytes) option" where
  "static_at i = (if 1 \<le> i \<and> i \<le> 61 then Some (kStaticTable ! (i - 1)) else None)"

text \<open>Every recorded name is the name of the entry it points at.\<close>

lemma first_names_sound:
  assumes "\<forall>(n, k)\<in>set out. 1 \<le> k \<and> k \<le> length pre \<and> fst ((pre @ t) ! (k - 1)) = n"
    and "i = length pre"
  shows "\<forall>(n, k)\<in>set (first_names out i t). 1 \<le> k \<and> k \<le> length (pre @ t) \<and> fst ((pre @ t) ! (k - 1)) = n"
  using assms
proof (induction t arbitrary: out i pre)
  case (Cons e t)
  obtain n v where e: "e = (n, v)" by force
  let ?out = "if out = [] \<or> list_all (\<lambda>x. fst x \<noteq> n) out then out @ [(n, i + 1)] else out"
  have "\<forall>(m, k)\<in>set ?out. 1 \<le> k \<and> k \<le> length (pre @ [e]) \<and> fst (((pre @ [e]) @ t) ! (k - 1)) = m"
    using Cons.prems by (auto simp: e nth_append)
  from Cons.IH [OF this, of "Suc i"] Cons.prems(2) show ?case by (simp add: e)
qed auto

lemma first_names_static:
  "\<forall>(n, k)\<in>set (first_names [] 0 kStaticTable). 1 \<le> k \<and> k \<le> 61 \<and> fst (kStaticTable ! (k - 1)) = n"
  using first_names_sound [of "[]" "[]" kStaticTable 0] by simp

lemma static_name_index_sound:
  assumes "static_name_index name \<noteq> 0"
  shows "static_name_index name \<le> 61 \<and> fst (kStaticTable ! (static_name_index name - 1)) = name"
proof -
  obtain it r where d: "dropWhile (\<lambda>e. fst e < name) names_by_name = it # r" "fst it = name" "static_name_index name = snd it"
    using assms by (auto simp: static_name_index_def split: list.splits if_splits)
  have "it \<in> set (dropWhile (\<lambda>e. fst e < name) names_by_name)" by (simp add: d(1))
  then have "it \<in> set (first_names [] 0 kStaticTable)"
    using set_dropWhileD by (fastforce simp: names_by_name_def)
  then show ?thesis using d first_names_static by (auto simp: split_beta)
qed

lemma static_index_from_sound:
  "static_index_from name v i = k \<Longrightarrow> k \<noteq> 0 \<Longrightarrow> k \<le> 61 \<and> kStaticTable ! (k - 1) = (name, v)"
proof (induction name v i rule: static_index_from.induct)
  case (1 name v i)
  then show ?case by (subst (asm) (2) static_index_from.simps) (auto split: if_splits simp: prod_eq_iff)
qed

lemma static_index_sound:
  "static_index name v \<noteq> 0 \<Longrightarrow> static_index name v \<le> 61 \<and> kStaticTable ! (static_index name v - 1) = (name, v)"
  unfolding static_index_def by (rule static_index_from_sound) simp_all

text \<open>A name that is in the table is found: the binary search misses nothing.\<close>

lemma first_names_complete:
  "fst ` set out \<union> fst ` set t \<subseteq> fst ` set (first_names out i t)"
proof (induction out i t rule: first_names.induct)
  case (2 out i n v t)
  then show ?case by (auto simp: list_all_iff split: if_splits)
qed simp

lemma static_name_index_complete:
  assumes "name \<in> fst ` set kStaticTable"
  shows "static_name_index name \<noteq> 0"
proof -
  have "name \<in> fst ` set names_by_name"
    using assms first_names_complete [of "[]" kStaticTable 0] by (auto simp: names_by_name_def)
  then obtain k where k: "(name, k) \<in> set names_by_name" by auto
  have srt: "sorted (map fst names_by_name)" by (simp add: names_by_name_def)
  let ?d = "dropWhile (\<lambda>e. fst e < name) names_by_name"
  have "(name, k) \<in> set ?d" using k by (metis UnE fst_conv order_less_irrefl set_append set_takeWhileD takeWhile_dropWhile_id)
  then obtain it r where d: "?d = it # r" by (cases ?d) auto
  have "\<not> fst it < name" using hd_dropWhile [of "\<lambda>e. fst e < name" names_by_name] d by simp
  moreover have "sorted (map fst ?d)" using srt by (metis drop_map dropWhile_eq_drop sorted_wrt_drop)
  then have "fst it \<le> name" using \<open>(name, k) \<in> set ?d\<close> d by auto
  ultimately have "fst it = name" by simp
  moreover have "it \<in> set (first_names [] 0 kStaticTable)"
    using set_dropWhileD [of it "\<lambda>e. fst e < name" names_by_name] d by (simp add: names_by_name_def)
  then have "snd it \<noteq> 0" using first_names_static by auto
  ultimately show ?thesis using d by (simp add: static_name_index_def)
qed

end
