(* ===== verification/Hpack.thy ===== *)
theory Hpack
  imports Hpack_Static Dynamic_Table Huffman Field_Int
begin

text \<open>
  HPACK (\<^verbatim>\<open>src/http2/hpack.hpp\<close>, \<^verbatim>\<open>src/http2/hpack.cpp\<close>): the encoding helpers, the connection's
  \<open>Encoder\<close> with its small dynamic table, and the \<open>Decoder\<close>. A function that appends takes the
  output buffer and returns it; a reader takes the bytes from its position on. The decoder's
  sink is a parameter: it receives each field with its origin and the mark of the table entry
  it came from, and returns its new state, whether to go on, and the mark to store. Insertion
  sequence numbers are natural numbers (one per field sent on a connection).
\<close>

unbundle bit_operations_syntax


subsection \<open>Encoding helpers\<close>

definition append_string :: "bytes \<Rightarrow> bytes \<Rightarrow> bytes" where
  "append_string out s =
     (let huff = huffman_size s
      in if huff < length s then huffman_encode (append_integer out (of_nat huff) 7 0x80) s
         else append_integer out (of_nat (length s)) 7 0 @ s)"

definition append_indexed :: "bytes \<Rightarrow> nat \<Rightarrow> bytes" where
  "append_indexed out index = append_integer out (of_nat index) 7 0x80"

definition append_literal_index :: "bytes \<Rightarrow> nat \<Rightarrow> bytes \<Rightarrow> bytes" where
  "append_literal_index out name_index value =
     append_string (append_integer out (of_nat name_index) 4 0) value"

definition append_literal :: "bytes \<Rightarrow> bytes \<Rightarrow> bytes \<Rightarrow> bytes" where
  "append_literal out name value = append_string (append_string (out @ [0]) name) value"

definition append_field :: "bytes \<Rightarrow> bytes \<Rightarrow> bytes \<Rightarrow> bytes" where
  "append_field out name value =
     (let i = static_index name value
      in if i \<noteq> 0 then append_indexed out i
         else let n = static_name_index name
              in if n \<noteq> 0 then append_literal_index out n value else append_literal out name value)"

definition append_insert :: "bytes \<Rightarrow> bytes \<Rightarrow> bytes \<Rightarrow> bytes" where
  "append_insert out name value =
     (let n = static_name_index name;
          out = (if n \<noteq> 0 then append_integer out (of_nat n) 6 0x40
                 else append_string (append_integer out 0 6 0x40) name)
      in append_string out value)"

definition append_never_indexed :: "bytes \<Rightarrow> bytes \<Rightarrow> bytes \<Rightarrow> bytes" where
  "append_never_indexed out name value =
     (let n = static_name_index name;
          out = (if n \<noteq> 0 then append_integer out (of_nat n) 4 0x10
                 else append_string (append_integer out 0 4 0x10) name)
      in append_string out value)"

definition append_status :: "bytes \<Rightarrow> int \<Rightarrow> bytes" where
  "append_status out status =
     (if status = 200 then append_indexed out 8
      else if status = 204 then append_indexed out 9
      else if status = 206 then append_indexed out 10
      else if status = 304 then append_indexed out 11
      else if status = 400 then append_indexed out 12
      else if status = 404 then append_indexed out 13
      else if status = 500 then append_indexed out 14
      else
        let status = (if status < 100 \<or> status > 999 then 500 else status);
            digits = [of_int (48 + status div 100), of_int (48 + status div 10 mod 10), of_int (48 + status mod 10)]
        in append_integer out 8 4 0 @ [3] @ digits)"


subsection \<open>The response encoder\<close>

definition kMaxSize :: nat where "kMaxSize = 1024"

record Encoder =
  en_table :: DynamicTable
  en_next_seq :: nat
  en_server_seq :: nat
  en_alt_svc_seq :: nat
  en_hsts_seq :: nat
  en_hsts_value :: bytes
  en_date_seq :: nat
  en_date_second :: int
  en_ct_seq :: nat
  en_ct_value :: bytes
  en_max :: nat
  en_floor :: nat
  en_assumed :: nat
  en_pending :: bool

definition encoder_new :: Encoder where
  "encoder_new =
     \<lparr>en_table = dt_new kMaxSize, en_next_seq = 1, en_server_seq = 0, en_alt_svc_seq = 0, en_hsts_seq = 0,
      en_hsts_value = [], en_date_seq = 0, en_date_second = 0, en_ct_seq = 0, en_ct_value = [],
      en_max = kMaxSize, en_floor = kMaxSize, en_assumed = 4096, en_pending = True\<rparr>"

datatype Policy = pol_index | pol_literal | pol_never

definition policy :: "bytes \<Rightarrow> Policy" where
  "policy name =
     (if length name = 3 \<and> name = bytes_of ''age'' then pol_literal
      else if length name = 4 \<and> (name = bytes_of ''etag'' \<or> name = bytes_of ''date'') then pol_literal
      else if length name = 6 \<and> name = bytes_of ''cookie'' then pol_never
      else if length name = 7 \<and> name = bytes_of ''expires'' then pol_literal
      else if length name = 8 \<and> name = bytes_of ''location'' then pol_literal
      else if length name = 10 \<and> name = bytes_of ''set-cookie'' then pol_never
      else if length name = 11 \<and> name = bytes_of ''retry-after'' then pol_literal
      else if length name = 13 \<and> (name = bytes_of ''authorization'' \<or> name = bytes_of ''content-range'' \<or>
        name = bytes_of ''last-modified'') then (if name = bytes_of ''authorization'' then pol_never else pol_literal)
      else if length name = 14 \<and> name = bytes_of ''content-length'' then pol_literal
      else if length name = 16 \<and> name = bytes_of ''www-authenticate'' then pol_never
      else if length name = 18 \<and> name = bytes_of ''proxy-authenticate'' then pol_never
      else if length name = 19 \<and> name = bytes_of ''proxy-authorization'' then pol_never
      else if length name = 19 \<and> name = bytes_of ''content-disposition'' then pol_literal
      else pol_index)"

definition alive :: "Encoder \<Rightarrow> nat \<Rightarrow> bool" where
  "alive e seq \<longleftrightarrow> seq \<noteq> 0 \<and> seq + dt_count (en_table e) \<ge> en_next_seq e"

definition index_of :: "Encoder \<Rightarrow> nat \<Rightarrow> nat" where
  "index_of e seq = 61 + (en_next_seq e - seq)"

definition enc_insert :: "Encoder \<Rightarrow> bytes \<Rightarrow> bytes \<Rightarrow> Encoder \<times> bool" where
  "enc_insert e name value =
     (if length name + length value + 32 > en_max e then (e, False)
      else case dt_add (en_table e) name value of
             (t, ok) \<Rightarrow> if \<not> ok then (e\<lparr>en_table := t\<rparr>, False)
                        else (e\<lparr>en_table := t, en_next_seq := en_next_seq e + 1\<rparr>, True))"

definition set_peer_max :: "Encoder \<Rightarrow> u32 \<Rightarrow> Encoder" where
  "set_peer_max e value =
     (let new_max = min (unat value) kMaxSize;
          e1 = (if new_max \<noteq> en_max e then e\<lparr>en_table := set_limit (en_table e) new_max, en_pending := True\<rparr> else e);
          e2 = (if unat value < en_assumed e1 then e1\<lparr>en_pending := True\<rparr> else e1)
      in e2\<lparr>en_max := new_max, en_floor := min (en_floor e2) new_max\<rparr>)"

definition enc_begin :: "Encoder \<Rightarrow> bytes \<Rightarrow> Encoder \<times> bytes" where
  "enc_begin e out =
     (if \<not> en_pending e then (e, out)
      else let out = (if en_floor e < en_max e \<and> en_floor e < en_assumed e
                      then append_integer out (of_nat (en_floor e)) 5 0x20 else out);
               out = (if en_max e \<noteq> en_assumed e \<or> en_floor e < en_max e
                      then append_integer out (of_nat (en_max e)) 5 0x20 else out)
           in (e\<lparr>en_assumed := en_max e, en_floor := en_max e, en_pending := False\<rparr>, out))"

text \<open>The literal at the end of \<open>field\<close>.\<close>

definition enc_field_literal :: "bytes \<Rightarrow> nat \<Rightarrow> bytes \<Rightarrow> bytes \<Rightarrow> bytes" where
  "enc_field_literal out n name value =
     (if n \<noteq> 0 then append_literal_index out n value else append_literal out name value)"

definition enc_field :: "Encoder \<Rightarrow> bytes \<Rightarrow> bytes \<Rightarrow> bytes \<Rightarrow> Encoder \<times> bytes" where
  "enc_field e out name value =
     (let n = static_name_index name;
          i = static_index_from name value n
      in if i \<noteq> 0 then (e, append_indexed out i)
         else case policy name of
             pol_never \<Rightarrow> (e, append_never_indexed out name value)
           | pol_literal \<Rightarrow> (e, enc_field_literal out n name value)
           | pol_index \<Rightarrow>
               if en_max e > 0 then
                 (case dt_find (en_table e) name value of
                    Some k \<Rightarrow> (e, append_indexed out (62 + k))
                  | None \<Rightarrow>
                      (case enc_insert e name value of
                         (e, True) \<Rightarrow>
                           (e, append_string
                                 (if n \<noteq> 0 then append_integer out (of_nat n) 6 0x40
                                  else append_string (append_integer out 0 6 0x40) name) value)
                       | (e, False) \<Rightarrow> (e, enc_field_literal out n name value)))
               else (e, enc_field_literal out n name value))"

definition n_content_type :: bytes where "n_content_type = bytes_of ''content-type''"
definition n_server :: bytes where "n_server = bytes_of ''server''"
definition n_alt_svc :: bytes where "n_alt_svc = bytes_of ''alt-svc''"
definition n_hsts :: bytes where "n_hsts = bytes_of ''strict-transport-security''"
definition n_date :: bytes where "n_date = bytes_of ''date''"

definition enc_content_type :: "Encoder \<Rightarrow> bytes \<Rightarrow> bytes \<Rightarrow> Encoder \<times> bytes" where
  "enc_content_type e out value =
     (if alive e (en_ct_seq e) \<and> value = en_ct_value e then (e, append_indexed out (index_of e (en_ct_seq e)))
      else
        let e = e\<lparr>en_ct_seq := 0\<rparr>
        in if en_max e > 0 then
             (case dt_find (en_table e) n_content_type value of
                Some k \<Rightarrow>
                  (e\<lparr>en_ct_seq := en_next_seq e - 1 - k, en_ct_value := value\<rparr>, append_indexed out (62 + k))
              | None \<Rightarrow>
                  (case enc_insert e n_content_type value of
                     (e, True) \<Rightarrow>
                       (e\<lparr>en_ct_seq := en_next_seq e - 1, en_ct_value := value\<rparr>,
                        append_string (append_integer out 31 6 0x40) value)
                   | (e, False) \<Rightarrow> (e, append_literal_index out 31 value)))
           else (e, append_literal_index out 31 value))"

definition enc_server :: "Encoder \<Rightarrow> bytes \<Rightarrow> bytes \<Rightarrow> bytes \<Rightarrow> Encoder \<times> bytes" where
  "enc_server e out value insert_bytes =
     (if alive e (en_server_seq e) then (e, append_indexed out (index_of e (en_server_seq e)))
      else if en_max e > 0 then
        (case enc_insert e n_server value of
           (e, True) \<Rightarrow> (e\<lparr>en_server_seq := en_next_seq e - 1\<rparr>, out @ insert_bytes)
         | (e, False) \<Rightarrow> (e, append_literal_index out 54 value))
      else (e, append_literal_index out 54 value))"

definition enc_alt_svc :: "Encoder \<Rightarrow> bytes \<Rightarrow> bytes \<Rightarrow> Encoder \<times> bytes" where
  "enc_alt_svc e out value =
     (if alive e (en_alt_svc_seq e) then (e, append_indexed out (index_of e (en_alt_svc_seq e)))
      else if en_max e > 0 then
        (case enc_insert e n_alt_svc value of
           (e, True) \<Rightarrow>
             (e\<lparr>en_alt_svc_seq := en_next_seq e - 1\<rparr>,
              append_string (append_string (append_integer out 0 6 0x40) n_alt_svc) value)
         | (e, False) \<Rightarrow> (e, append_literal out n_alt_svc value))
      else (e, append_literal out n_alt_svc value))"

definition enc_hsts :: "Encoder \<Rightarrow> bytes \<Rightarrow> bytes \<Rightarrow> Encoder \<times> bytes" where
  "enc_hsts e out value =
     (if alive e (en_hsts_seq e) \<and> en_hsts_value e = value then (e, append_indexed out (index_of e (en_hsts_seq e)))
      else if en_max e > 0 then
        (case enc_insert e n_hsts value of
           (e, True) \<Rightarrow>
             (e\<lparr>en_hsts_seq := en_next_seq e - 1, en_hsts_value := value\<rparr>,
              append_string (append_integer out 56 6 0x40) value)
         | (e, False) \<Rightarrow> (e, append_literal out n_hsts value))
      else (e, append_literal out n_hsts value))"

definition enc_date :: "Encoder \<Rightarrow> bytes \<Rightarrow> int \<Rightarrow> bytes \<Rightarrow> bytes \<Rightarrow> Encoder \<times> bytes" where
  "enc_date e out second value insert_bytes =
     (if second = en_date_second e \<and> alive e (en_date_seq e) then (e, append_indexed out (index_of e (en_date_seq e)))
      else if en_max e > 0 then
        (case enc_insert e n_date value of
           (e, True) \<Rightarrow> (e\<lparr>en_date_seq := en_next_seq e - 1, en_date_second := second\<rparr>, out @ insert_bytes)
         | (e, False) \<Rightarrow> (e, append_literal_index out 33 value))
      else (e, append_literal_index out 33 value))"


subsection \<open>The decoder\<close>

datatype Result = dr_ok | dr_malformed | dr_too_large | dr_too_many
datatype StrStatus = ss_malformed | ss_too_large

record Decoder =
  de_table :: DynamicTable
  de_ceiling :: nat

definition decoder_new :: "nat \<Rightarrow> Decoder" where
  "decoder_new ceiling = \<lparr>de_table = dt_new ceiling, de_ceiling = ceiling\<rparr>"

record Origin =
  or_static :: bool
  or_checked :: "nat option"

definition lookup :: "DynamicTable \<Rightarrow> u32 \<Rightarrow> (bytes \<times> bytes) option" where
  "lookup t index =
     (if index = 0 then None
      else if unat index \<le> length kStaticTable then Some (kStaticTable ! (unat index - 1))
      else dt_at t (unat index - length kStaticTable - 1))"

definition lookup_origin :: "DynamicTable \<Rightarrow> u32 \<Rightarrow> (bytes \<times> bytes \<times> Origin) option" where
  "lookup_origin t index =
     (if index = 0 then None
      else if unat index \<le> length kStaticTable then
        (case kStaticTable ! (unat index - 1) of (n, v) \<Rightarrow> Some (n, v, \<lparr>or_static = True, or_checked = None\<rparr>))
      else case dt_at_mark t (unat index - length kStaticTable - 1) of
             None \<Rightarrow> None
           | Some (n, v, mark) \<Rightarrow> Some (n, v, \<lparr>or_static = False, or_checked = Some mark\<rparr>))"

text \<open>
  \<open>read_string\<close> returns the arena and either the error or the string, which is what the arena gained,
  and the bytes after it.
\<close>

definition read_string :: "bytes \<Rightarrow> bytes \<Rightarrow> nat \<Rightarrow> bytes \<times> (StrStatus + (bytes \<times> bytes))" where
  "read_string inp arena max_out =
     (case inp of
        [] \<Rightarrow> (arena, Inl ss_malformed)
      | c # _ \<Rightarrow>
          let huffman = (c AND 0x80 \<noteq> 0)
          in case read_integer 7 inp of
               None \<Rightarrow> (arena, Inl ss_malformed)
             | Some (n, rest) \<Rightarrow>
                 if unat n > length rest then (arena, Inl ss_malformed)
                 else if huffman then
                   (case huffman_decode (take (unat n) rest) arena max_out of
                      (hs_ok, arena') \<Rightarrow> (arena', Inr (drop (length arena) arena', drop (unat n) rest))
                    | (hs_malformed, _) \<Rightarrow> (arena, Inl ss_malformed)
                    | (hs_too_large, _) \<Rightarrow> (arena, Inl ss_too_large))
                 else if unat n > max_out then (arena, Inl ss_too_large)
                 else (arena @ take (unat n) rest, Inr (take (unat n) rest, drop (unat n) rest)))"

fun str_result :: "StrStatus \<Rightarrow> Result" where
  "str_result ss_malformed = dr_malformed"
| "str_result ss_too_large = dr_too_large"

definition budget :: "nat \<Rightarrow> nat \<Rightarrow> nat \<Rightarrow> nat" where
  "budget tot max_list_size used =
     (let spent = tot + 32 + used in if spent \<ge> max_list_size then 0 else max_list_size - spent)"

text \<open>The name of a literal: by index (copied when the entry is dynamic) or as a string.\<close>

definition decode_name :: "DynamicTable \<Rightarrow> nat \<Rightarrow> bytes \<Rightarrow> bytes \<Rightarrow> nat \<Rightarrow> nat \<Rightarrow> bytes \<times> (Result + (bytes \<times> bytes))" where
  "decode_name t prefix_bits block arena tot max_list_size =
     (case read_integer prefix_bits block of
        None \<Rightarrow> (arena, Inl dr_malformed)
      | Some (index, rest) \<Rightarrow>
          if index \<noteq> 0 then
            (case lookup t index of
               None \<Rightarrow> (arena, Inl dr_malformed)
             | Some (name, _) \<Rightarrow>
                 if length name > budget tot max_list_size 0 then (arena, Inl dr_too_large)
                 else (if unat index > length kStaticTable then arena @ name else arena, Inr (name, rest)))
          else
            (case read_string rest arena (budget tot max_list_size 0) of
               (arena, Inl e) \<Rightarrow> (arena, Inl (str_result e))
             | (arena, Inr (name, rest)) \<Rightarrow> (arena, Inr (name, rest))))"

definition decode_literal ::
  "DynamicTable \<Rightarrow> nat \<Rightarrow> bytes \<Rightarrow> bytes \<Rightarrow> nat \<Rightarrow> nat \<Rightarrow> bytes \<times> (Result + (bytes \<times> bytes \<times> bytes))" where
  "decode_literal t prefix_bits block arena tot max_list_size =
     (case decode_name t prefix_bits block arena tot max_list_size of
        (arena, Inl r) \<Rightarrow> (arena, Inl r)
      | (arena, Inr (name, rest)) \<Rightarrow>
          (case read_string rest arena (budget tot max_list_size (length name)) of
             (arena, Inl e) \<Rightarrow> (arena, Inl (str_result e))
           | (arena, Inr (value, rest)) \<Rightarrow> (arena, Inr (name, value, rest))))"

definition no_origin :: Origin where
  "no_origin = \<lparr>or_static = False, or_checked = None\<rparr>"

text \<open>
  One turn of the loop up to the common tail: the table and the arena after it, and an error, or the
  rest of the block with the field it produced (none after a size update).
\<close>

type_synonym field_result = "Result + (bytes \<times> (bytes \<times> bytes \<times> Origin) option)"

definition decode_indexed :: "DynamicTable \<Rightarrow> bytes \<Rightarrow> bytes \<Rightarrow> nat \<Rightarrow> nat \<Rightarrow> DynamicTable \<times> bytes \<times> field_result" where
  "decode_indexed t block arena tot max_list_size =
     (case read_integer 7 block of
        None \<Rightarrow> (t, arena, Inl dr_malformed)
      | Some (index, rest) \<Rightarrow>
          (case lookup_origin t index of
             None \<Rightarrow> (t, arena, Inl dr_malformed)
           | Some (name, value, origin) \<Rightarrow>
               if length name + length value + 32 > max_list_size - min tot max_list_size then (t, arena, Inl dr_too_large)
               else (t, if unat index > length kStaticTable then arena @ name @ value else arena,
                     Inr (rest, Some (name, value, origin)))))"

definition decode_incremental :: "DynamicTable \<Rightarrow> bytes \<Rightarrow> bytes \<Rightarrow> nat \<Rightarrow> nat \<Rightarrow> DynamicTable \<times> bytes \<times> field_result" where
  "decode_incremental t block arena tot max_list_size =
     (case decode_literal t 6 block arena tot max_list_size of
        (arena, Inl r) \<Rightarrow> (t, arena, Inl r)
      | (arena, Inr (name, value, rest)) \<Rightarrow>
          (case dt_add t name value of
             (t, added) \<Rightarrow>
               (t, arena, Inr (rest, Some (name, value, if added then no_origin\<lparr>or_checked := newest_mark t\<rparr> else no_origin)))))"

definition decode_size_update :: "Decoder \<Rightarrow> bytes \<Rightarrow> bytes \<Rightarrow> bool \<Rightarrow> DynamicTable \<times> bytes \<times> field_result" where
  "decode_size_update d block arena fields_started =
     (let t = de_table d
      in if fields_started then (t, arena, Inl dr_malformed)
         else case read_integer 5 block of
                None \<Rightarrow> (t, arena, Inl dr_malformed)
              | Some (sz, rest) \<Rightarrow>
                  if unat sz > de_ceiling d then (t, arena, Inl dr_malformed)
                  else (set_limit t (unat sz), arena, Inr (rest, None)))"

definition decode_plain :: "DynamicTable \<Rightarrow> bytes \<Rightarrow> bytes \<Rightarrow> nat \<Rightarrow> nat \<Rightarrow> DynamicTable \<times> bytes \<times> field_result" where
  "decode_plain t block arena tot max_list_size =
     (case decode_literal t 4 block arena tot max_list_size of
        (arena, Inl r) \<Rightarrow> (t, arena, Inl r)
      | (arena, Inr (name, value, rest)) \<Rightarrow> (t, arena, Inr (rest, Some (name, value, no_origin))))"

definition decode_field ::
  "Decoder \<Rightarrow> byte \<Rightarrow> bytes \<Rightarrow> bytes \<Rightarrow> nat \<Rightarrow> nat \<Rightarrow> bool \<Rightarrow> DynamicTable \<times> bytes \<times> field_result" where
  "decode_field d b block arena tot max_list_size fields_started =
     (if b AND 0x80 \<noteq> 0 then decode_indexed (de_table d) block arena tot max_list_size
      else if b AND 0x40 \<noteq> 0 then decode_incremental (de_table d) block arena tot max_list_size
      else if b AND 0x20 \<noteq> 0 then decode_size_update d block arena fields_started
      else decode_plain (de_table d) block arena tot max_list_size)"

declare read_integer.simps [simp del]

text \<open>A turn that goes on has consumed something.\<close>

lemma read_string_shorter:
  "read_string inp arena m = (arena', Inr (s, rest)) \<Longrightarrow> length rest < length inp"
  unfolding read_string_def Let_def
  by (auto dest!: read_integer_shorter split: list.splits option.splits if_splits prod.splits HuffStatus.splits)

lemma decode_name_shorter:
  assumes "decode_name t p block arena tot mx = (arena', Inr (name, rest))"
  shows "length rest < length block"
proof -
  obtain index r where i: "read_integer p block = Some (index, r)"
    using assms by (auto simp: decode_name_def split: option.splits)
  show ?thesis
  proof (cases "index = 0")
    case True
    with assms i have "read_string r arena (budget tot mx 0) = (arena', Inr (name, rest))"
      by (auto simp: decode_name_def split: sum.splits prod.splits)
    from read_string_shorter [OF this] read_integer_shorter [OF i] show ?thesis by simp
  next
    case False
    with assms i have "r = rest" by (auto simp: decode_name_def split: option.splits if_splits)
    with read_integer_shorter [OF i] show ?thesis by simp
  qed
qed

lemma decode_literal_shorter:
  assumes "decode_literal t p block arena tot mx = (arena', Inr (name, value, rest))"
  shows "length rest < length block"
proof -
  obtain a r where n: "decode_name t p block arena tot mx = (a, Inr (name, r))"
    and v: "read_string r a (budget tot mx (length name)) = (arena', Inr (value, rest))"
    using assms by (auto simp: decode_literal_def split: sum.splits prod.splits)
  from decode_name_shorter [OF n] read_string_shorter [OF v] show ?thesis by simp
qed

lemma decode_field_shorter:
  "decode_field d b block arena tot mx started = (t, arena', Inr (rest, f)) \<Longrightarrow> length rest < length block"
  unfolding decode_field_def decode_indexed_def decode_incremental_def decode_size_update_def decode_plain_def Let_def
  by (auto dest!: decode_literal_shorter read_integer_shorter split: if_splits option.splits sum.splits prod.splits)

definition put_mark :: "DynamicTable \<Rightarrow> Origin \<Rightarrow> byte \<Rightarrow> DynamicTable" where
  "put_mark t origin mark =
     (case or_checked origin of
        None \<Rightarrow> t
      | Some i \<Rightarrow> t\<lparr>dt_ring := (dt_ring t)[i := (dt_ring t ! i)\<lparr>e_checked := mark\<rparr>]\<rparr>)"

definition get_mark :: "DynamicTable \<Rightarrow> Origin \<Rightarrow> byte" where
  "get_mark t origin = (case or_checked origin of None \<Rightarrow> 0 | Some i \<Rightarrow> e_checked (dt_ring t ! i))"

type_synonym 'c sink = "'c \<Rightarrow> bytes \<Rightarrow> bytes \<Rightarrow> Origin \<Rightarrow> byte \<Rightarrow> 'c \<times> bool \<times> byte"

function decode_block :: "'c sink \<Rightarrow> Decoder \<Rightarrow> bytes \<Rightarrow> nat \<Rightarrow> nat \<Rightarrow> bool \<Rightarrow> 'c \<Rightarrow> bytes \<Rightarrow> Result \<times> Decoder \<times> bytes \<times> 'c" where
  "decode_block sink d arena mx tot started ctx [] = (dr_ok, d, arena, ctx)"
| "decode_block sink d arena mx tot started ctx (b # bs) =
     (case decode_field d b (b # bs) arena tot mx started of
        (t, arena, Inl r) \<Rightarrow> (r, d\<lparr>de_table := t\<rparr>, arena, ctx)
      | (t, arena, Inr (rest, None)) \<Rightarrow> decode_block sink (d\<lparr>de_table := t\<rparr>) arena mx tot started ctx rest
      | (t, arena, Inr (rest, Some (name, value, origin))) \<Rightarrow>
          if tot + (length name + length value + 32) > mx then (dr_too_large, d\<lparr>de_table := t\<rparr>, arena, ctx)
          else case sink ctx name value origin (get_mark t origin) of
                 (ctx, go_on, mark) \<Rightarrow>
                   if \<not> go_on then (dr_too_many, d\<lparr>de_table := put_mark t origin mark\<rparr>, arena, ctx)
                   else decode_block sink (d\<lparr>de_table := put_mark t origin mark\<rparr>) arena mx
                          (tot + (length name + length value + 32)) True ctx rest)"
  by pat_completeness auto
termination
  by (relation "measure (\<lambda>(_, _, _, _, _, _, _, block). length block)")
    (auto dest: decode_field_shorter [OF sym] simp flip: length_Cons)

declare decode_block.simps(2) [simp del]

definition hpack_decode :: "'c sink \<Rightarrow> Decoder \<Rightarrow> bytes \<Rightarrow> bytes \<Rightarrow> nat \<Rightarrow> 'c \<Rightarrow> Result \<times> Decoder \<times> bytes \<times> 'c" where
  "hpack_decode sink d block arena max_list_size ctx = decode_block sink d arena max_list_size 0 False ctx block"

end
