(* ===== verification/Hpack_Proof.thy ===== *)
theory Hpack_Proof
  imports Hpack
begin

text \<open>
  The encoder and the decoder of \<^verbatim>\<open>Hpack\<close> agree: what one appends the other reads, and the two
  dynamic tables stay equal through insertions, evictions and size updates. \<open>synced\<close> is the relation
  between a connection's encoder and the decoder at the other end.
\<close>

unbundle bit_operations_syntax


subsection \<open>Strings and integers\<close>

lemma append_string_out: "append_string out s = out @ append_string [] s"
proof -
  have "huffman_encode (append_integer out v 7 0x80) s = out @ huffman_encode (append_integer [] v 7 0x80) s" for v
    using huffman_encode_append [of "append_integer out v 7 0x80" s] huffman_encode_append [of "append_integer [] v 7 0x80" s]
      append_integer_out [of out v 7 "0x80"] by simp
  moreover have "append_integer out v 7 0 = out @ append_integer [] v 7 0" for v by (rule append_integer_out)
  ultimately show ?thesis by (simp add: append_string_def Let_def)
qed

text \<open>The bits of the first byte above the prefix are the flags.\<close>

lemma append_integer_first:
  assumes "prefix_ok p flags"
  obtains b r where "append_integer [] v p flags = b # r"
    and "\<And>m. m AND ucast (prefix_max p) = 0 \<Longrightarrow> b AND m = flags AND m"
proof -
  let ?mx = "ucast (prefix_max p) :: u64" and ?mb = "ucast (prefix_max p) :: byte"
  have p: "p \<le> 8" using assms by (simp add: prefix_ok_def)
  have mask: "prefix_max p = mask p" by (simp add: prefix_max_def mask_eq_exp_minus_1 push_bit_eq_mult)
  have small: "ucast w AND ?mb = (ucast w :: byte)" if "w \<le> ?mx" for w :: u64
  proof -
    have "(2::nat) ^ p \<le> 2 ^ 8" using p by (intro power_increasing) simp_all
    then have "unat ?mx < 2 ^ p"
      using unat_prefix_max [OF p] by (subst unat_ucast_less) simp_all
    then have "unat w < 2 ^ p" using that by (simp add: word_le_nat_alt)
    then have "take_bit p w = w" by (simp add: word_unat_eq_iff unat_take_bit)
    then have bits: "bit w i \<Longrightarrow> i < p" for i by (metis bit_take_bit_iff)
    show ?thesis by (rule bit_word_eqI) (auto simp: mask bit_simps dest: bits)
  qed
  have m: "(flags OR ucast w) AND m = flags AND m" if "w \<le> ?mx" and "m AND ?mb = 0" for w :: u64 and m
  proof -
    have "ucast w AND m = ucast w AND (?mb AND m)" using small [OF that(1)] by (metis and.assoc)
    then have "ucast w AND m = (0 :: byte)" using that(2) by (simp add: and.commute)
    then show ?thesis by (simp add: bit.conj_disj_distrib2)
  qed
  show thesis
  proof (cases "v < ?mx")
    case True
    then show thesis using m [of v] by (intro that [of "flags OR ucast v" "[]"]) (simp_all add: append_integer_def Let_def)
  next
    case False
    then show thesis using m [of ?mx]
      by (intro that [of "flags OR ucast ?mx" "int_bytes (v - ?mx)"]) (simp_all add: append_integer_def Let_def)
  qed
qed

lemma read_append_nat:
  "prefix_ok p flags \<Longrightarrow> n < 2 ^ 32 \<Longrightarrow> read_integer p (append_integer [] (of_nat n) p flags @ rest) = Some (of_nat n, rest)"
  using read_append_integer [of p flags "of_nat n" rest]
  by (simp add: prefix_ok_def unsigned_of_nat take_bit_nat_eq_self)

lemma hd_append_integer:
  assumes "prefix_ok p flags" and "m AND ucast (prefix_max p) = 0"
  shows "hd (append_integer [] v p flags) AND m = flags AND m"
  using append_integer_first [OF assms(1), of v] assms(2) by (metis list.sel(1))

lemma read_append_string:
  assumes "length s \<le> m" and "length s < 2 ^ 32"
  shows "read_string (append_string [] s @ rest) arena m = (arena @ s, Inr (s, rest))"
proof -
  have un: "unat (of_nat n :: u32) = n" if "n < 2 ^ 32" for n using that by (simp add: unsigned_of_nat take_bit_nat_eq_self)
  show ?thesis
  proof (cases "huffman_size s < length s")
    case True
    let ?i = "append_integer [] (of_nat (huffman_size s)) 7 0x80" and ?h = "huffman_encode [] s"
    have e: "append_string [] s @ rest = ?i @ ?h @ rest"
      using True huffman_encode_append [of ?i s] by (simp add: append_string_def Let_def)
    obtain b r where b: "?i = b # r" by (cases ?i) auto
    have "b AND 0x80 \<noteq> 0"
      using hd_append_integer [OF hpack_prefixes(1), of "0x80" "of_nat (huffman_size s)"] b by (simp add: prefix_max_def)
    moreover have "read_integer 7 (?i @ ?h @ rest) = Some (of_nat (huffman_size s), ?h @ rest)"
      using True assms(2) by (intro read_append_nat hpack_prefixes) simp
    moreover have "huffman_decode ?h arena m = (hs_ok, arena @ s)" using assms(1) by (simp add: huffman_decode_ok_iff)
    moreover have "unat (of_nat (huffman_size s) :: u32) = length ?h" using True assms(2) by (simp add: un huffman_size_correct)
    ultimately show ?thesis unfolding e by (simp add: read_string_def b Let_def)
  next
    case False
    let ?i = "append_integer [] (of_nat (length s)) 7 0"
    have e: "append_string [] s @ rest = ?i @ s @ rest" using False by (simp add: append_string_def Let_def)
    obtain b r where b: "?i = b # r" by (cases ?i) auto
    have "b AND 0x80 = 0"
      using hd_append_integer [OF hpack_prefixes(2), of "0x80" "of_nat (length s)"] b by (simp add: prefix_max_def)
    moreover have "read_integer 7 (?i @ s @ rest) = Some (of_nat (length s), s @ rest)"
      using assms(2) by (intro read_append_nat hpack_prefixes) simp
    ultimately show ?thesis unfolding e using un [OF assms(2)] assms(1) by (simp add: read_string_def b Let_def)
  qed
qed


subsection \<open>Fields\<close>

text \<open>The literals, with the name by static index and as a string, for the prefixes in use.\<close>

definition literal_prefix :: "nat \<Rightarrow> byte \<Rightarrow> bool" where
  "literal_prefix p flags \<longleftrightarrow> (p = 6 \<and> flags = 0x40) \<or> (p = 4 \<and> (flags = 0 \<or> flags = 0x10))"

lemma literal_prefix_ok: "literal_prefix p flags \<Longrightarrow> prefix_ok p flags"
  using hpack_prefixes by (auto simp: literal_prefix_def)

lemma budget_le: "tot + (n + 32 + used) \<le> mx \<Longrightarrow> n \<le> budget tot mx used"
  unfolding budget_def Let_def by (cases "tot + 32 + used \<ge> mx") auto

lemma decode_literal_indexed:
  assumes "literal_prefix p flags" and "1 \<le> n" and "n \<le> 61" and "fst (kStaticTable ! (n - 1)) = name"
    and "tot + field_size (name, v) \<le> mx" and "mx < 2 ^ 32"
  shows "decode_literal t p (append_integer [] (of_nat n) p flags @ append_string [] v @ rest) arena tot mx
    = (arena @ v, Inr (name, v, rest))"
proof -
  have un: "unat (of_nat n :: u32) = n" using assms(3) by (simp add: unsigned_of_nat take_bit_nat_eq_self)
  then have nz: "(of_nat n :: u32) \<noteq> 0" using assms(2) by (metis One_nat_def not_less_eq_eq unsigned_0 zero_le)
  have "lookup t (of_nat n) = Some (kStaticTable ! (n - 1))" using un nz assms(3) by (simp add: lookup_def)
  moreover have "read_integer p (append_integer [] (of_nat n) p flags @ append_string [] v @ rest) = Some (of_nat n, append_string [] v @ rest)"
    using assms(3) by (intro read_append_nat literal_prefix_ok assms(1)) simp
  moreover have "length name \<le> budget tot mx 0" using assms(5) by (intro budget_le) simp
  ultimately have "decode_name t p (append_integer [] (of_nat n) p flags @ append_string [] v @ rest) arena tot mx
      = (arena, Inr (name, append_string [] v @ rest))"
    using nz un assms(3,4) by (auto simp: decode_name_def split: prod.split)
  moreover have "length v \<le> budget tot mx (length name)" using assms(5) by (intro budget_le) simp
  moreover have "length v < 2 ^ 32" using assms(5,6) by simp
  ultimately show ?thesis by (simp add: decode_literal_def read_append_string)
qed

lemma decode_literal_named:
  assumes "literal_prefix p flags" and "tot + field_size (name, v) \<le> mx" and "mx < 2 ^ 32"
  shows "decode_literal t p (append_integer [] 0 p flags @ append_string [] name @ append_string [] v @ rest) arena tot mx
    = (arena @ name @ v, Inr (name, v, rest))"
proof -
  have "read_integer p (append_integer [] (of_nat 0) p flags @ append_string [] name @ append_string [] v @ rest)
      = Some (of_nat 0, append_string [] name @ append_string [] v @ rest)"
    by (intro read_append_nat literal_prefix_ok assms(1)) simp
  moreover have "length name \<le> budget tot mx 0" "length v \<le> budget tot mx (length name)"
    using assms(2) by (auto intro: budget_le)
  moreover have "length name < 2 ^ 32" "length v < 2 ^ 32" using assms(2,3) by simp_all
  ultimately show ?thesis by (simp add: decode_literal_def decode_name_def read_append_string)
qed

text \<open>The entry an index names: the static table, then the dynamic one from the newest.\<close>

definition table_at :: "DynamicTable \<Rightarrow> nat \<Rightarrow> field option" where
  "table_at t i = (if i = 0 then None else if i \<le> 61 then Some (kStaticTable ! (i - 1)) else dt_at t (i - 62))"

text \<open>
  \<open>reads_as t bs f t'\<close>: whatever the decoder has done before, as long as the field fits the list
  budget, the bytes \<open>bs\<close> make it produce the field \<open>f\<close> and turn the table \<open>t\<close> into \<open>t'\<close>.
\<close>

definition reads_as :: "DynamicTable \<Rightarrow> bytes \<Rightarrow> field \<Rightarrow> DynamicTable \<Rightarrow> bool" where
  "reads_as t bs f t' \<longleftrightarrow> bs \<noteq> [] \<and>
     (\<forall>ceiling rest arena tot mx started. tot + field_size f \<le> mx \<longrightarrow> mx < 2 ^ 32 \<longrightarrow>
        (\<exists>arena' origin. decode_field \<lparr>de_table = t, de_ceiling = ceiling\<rparr> (hd bs) (bs @ rest) arena tot mx started
           = (t', arena', Inr (rest, Some (fst f, snd f, origin)))))"

lemma append_integer_cons: "\<exists>b r. append_integer [] v p flags = b # r \<and> b = hd (append_integer [] v p flags)"
  by (cases "append_integer [] v p flags") auto

lemma reads_as_indexed:
  assumes "table_at t i = Some f" and "i < 2 ^ 32"
  shows "reads_as t (append_indexed [] i) f t"
proof -
  have un: "unat (of_nat i :: u32) = i" using assms(2) by (simp add: unsigned_of_nat take_bit_nat_eq_self)
  have i0: "i \<noteq> 0" using assms(1) by (auto simp: table_at_def split: if_splits)
  then have nz: "(of_nat i :: u32) \<noteq> 0" using un by (metis unsigned_0)
  obtain n v where f: "f = (n, v)" by force
  obtain origin where lo: "lookup_origin t (of_nat i) = Some (n, v, origin)"
  proof (cases "i \<le> 61")
    case True
    then have "kStaticTable ! (i - 1) = (n, v)" using assms(1) i0 by (simp add: table_at_def f)
    then show thesis using that un nz True by (simp add: lookup_origin_def)
  next
    case False
    then have "map_option (\<lambda>(n, v, i). (n, v)) (dt_at_mark t (i - 62)) = Some (n, v)"
      using assms(1) i0 by (simp add: table_at_def f dt_at_mark_at)
    then show thesis using that un nz False by (auto simp: lookup_origin_def)
  qed
  have hd80: "hd (append_indexed [] i) AND 0x80 \<noteq> 0"
    using hd_append_integer [OF hpack_prefixes(1), of "0x80" "of_nat i"] by (simp add: append_indexed_def prefix_max_def)
  show ?thesis
    unfolding reads_as_def
  proof (intro conjI allI impI)
    show "append_indexed [] i \<noteq> []" by (simp add: append_indexed_def)
    fix ceiling rest arena tot mx started assume fit: "tot + field_size f \<le> mx"
    have "read_integer 7 (append_indexed [] i @ rest) = Some (of_nat i, rest)"
      unfolding append_indexed_def by (intro read_append_nat hpack_prefixes assms(2))
    then show "\<exists>arena' origin. decode_field \<lparr>de_table = t, de_ceiling = ceiling\<rparr> (hd (append_indexed [] i))
        (append_indexed [] i @ rest) arena tot mx started = (t, arena', Inr (rest, Some (fst f, snd f, origin)))"
      using lo hd80 fit by (auto simp: decode_field_def decode_indexed_def f)
  qed
qed

text \<open>What the two kinds of literal do to the table.\<close>

definition literal_table :: "nat \<Rightarrow> DynamicTable \<Rightarrow> field \<Rightarrow> DynamicTable" where
  "literal_table p t f = (if p = 6 then fst (dt_add t (fst f) (snd f)) else t)"

lemma decode_field_literal:
  assumes "literal_prefix p flags"
    and "decode_literal t p (append_integer [] i p flags @ r) arena tot mx = (arena', Inr (n, v, rest))"
  shows "\<exists>origin. decode_field \<lparr>de_table = t, de_ceiling = c\<rparr> (hd (append_integer [] i p flags)) (append_integer [] i p flags @ r)
      arena tot mx started = (literal_table p t (n, v), arena', Inr (rest, Some (n, v, origin)))"
proof -
  have ok: "prefix_ok p flags" using assms(1) by (rule literal_prefix_ok)
  have h: "hd (append_integer [] i p flags) AND m = flags AND m" if "m AND ucast (prefix_max p) = 0" for m
    using hd_append_integer [OF ok that] .
  consider "p = 6" "flags = 0x40" | "p = 4" "flags = 0 \<or> flags = 0x10" using assms(1) by (auto simp: literal_prefix_def)
  then show ?thesis
  proof cases
    case 1
    then show ?thesis using h [of "0x80"] h [of "0x40"] assms(2)
      by (simp add: decode_field_def decode_incremental_def literal_table_def prefix_max_def split: prod.split)
  next
    case 2
    then show ?thesis using h [of "0x80"] h [of "0x40"] h [of "0x20"] assms(2)
      by (auto simp: decode_field_def decode_plain_def literal_table_def prefix_max_def)
  qed
qed

lemma reads_as_literal_index:
  assumes "literal_prefix p flags" and "1 \<le> i" and "i \<le> 61" and "fst (kStaticTable ! (i - 1)) = n"
  shows "reads_as t (append_integer [] (of_nat i) p flags @ append_string [] v) (n, v) (literal_table p t (n, v))"
  unfolding reads_as_def
proof (intro conjI allI impI)
  fix ceiling rest arena tot mx started assume "tot + field_size (n, v) \<le> mx" and "mx < (2 :: nat) ^ 32"
  from decode_literal_indexed [OF assms this, of t rest arena]
  have "decode_literal t p (append_integer [] (of_nat i) p flags @ append_string [] v @ rest) arena tot mx = (arena @ v, Inr (n, v, rest))" .
  from decode_field_literal [OF assms(1) this] show "\<exists>arena' origin. decode_field \<lparr>de_table = t, de_ceiling = ceiling\<rparr>
      (hd (append_integer [] (of_nat i) p flags @ append_string [] v)) ((append_integer [] (of_nat i) p flags @ append_string [] v) @ rest)
      arena tot mx started = (literal_table p t (n, v), arena', Inr (rest, Some (fst (n, v), snd (n, v), origin)))"
    by simp metis
qed simp

lemma reads_as_literal_name:
  assumes "literal_prefix p flags"
  shows "reads_as t (append_integer [] 0 p flags @ append_string [] n @ append_string [] v) (n, v) (literal_table p t (n, v))"
  unfolding reads_as_def
proof (intro conjI allI impI)
  fix ceiling rest arena tot mx started assume "tot + field_size (n, v) \<le> mx" and "mx < (2 :: nat) ^ 32"
  from decode_literal_named [OF assms this, of t rest arena]
  have "decode_literal t p (append_integer [] 0 p flags @ append_string [] n @ append_string [] v @ rest) arena tot mx
      = (arena @ n @ v, Inr (n, v, rest))" .
  from decode_field_literal [OF assms this] show "\<exists>arena' origin. decode_field \<lparr>de_table = t, de_ceiling = ceiling\<rparr>
      (hd (append_integer [] 0 p flags @ append_string [] n @ append_string [] v))
      ((append_integer [] 0 p flags @ append_string [] n @ append_string [] v) @ rest)
      arena tot mx started = (literal_table p t (n, v), arena', Inr (rest, Some (fst (n, v), snd (n, v), origin)))"
    by simp metis
qed simp


subsection \<open>The helpers as literals\<close>

lemma append_helpers:
  "append_indexed out i = out @ append_indexed [] i"
  "append_literal_index out k v = out @ append_integer [] (of_nat k) 4 0 @ append_string [] v"
  "append_literal out n v = out @ append_integer [] 0 4 0 @ append_string [] n @ append_string [] v"
  "append_string (append_integer out w 6 0x40) v = out @ append_integer [] w 6 0x40 @ append_string [] v"
  "append_string (append_string (append_integer out 0 6 0x40) n) v
     = out @ append_integer [] 0 6 0x40 @ append_string [] n @ append_string [] v"
proof -
  show "append_indexed out i = out @ append_indexed [] i" unfolding append_indexed_def by (rule append_integer_out)
  show "append_literal_index out k v = out @ append_integer [] (of_nat k) 4 0 @ append_string [] v"
    unfolding append_literal_index_def
    using append_string_out [of "append_integer out (of_nat k) 4 0" v] append_integer_out [of out "of_nat k" 4 0] by simp
  have "append_integer [] 0 4 0 = [0]" by (simp add: append_integer_def prefix_max_def)
  then show "append_literal out n v = out @ append_integer [] 0 4 0 @ append_string [] n @ append_string [] v"
    unfolding append_literal_def
    using append_string_out [of "append_string (out @ [0]) n" v] append_string_out [of "out @ [0]" n] by simp
  show "append_string (append_integer out w 6 0x40) v = out @ append_integer [] w 6 0x40 @ append_string [] v"
    using append_string_out [of "append_integer out w 6 0x40" v] append_integer_out [of out w 6 "0x40"] by simp
  show "append_string (append_string (append_integer out 0 6 0x40) n) v
     = out @ append_integer [] 0 6 0x40 @ append_string [] n @ append_string [] v"
    using append_string_out [of "append_string (append_integer out 0 6 0x40) n" v]
      append_string_out [of "append_integer out 0 6 0x40" n] append_integer_out [of out 0 6 "0x40"] by simp
qed

lemma enc_field_literal_out: "enc_field_literal out n name v = out @ enc_field_literal [] n name v"
  by (simp add: enc_field_literal_def append_helpers(2,3))

lemma append_never_indexed_out: "append_never_indexed out name v = out @ append_never_indexed [] name v"
proof -
  have a: "append_string (append_integer out k 4 0x10) s = out @ append_string (append_integer [] k 4 0x10) s" for k s
    using append_string_out [of "append_integer out k 4 0x10" s] append_string_out [of "append_integer [] k 4 0x10" s]
      append_integer_out [of out k 4 "0x10"] by simp
  have "append_string (append_string (append_integer out 0 4 0x10) name) v
      = out @ append_string (append_string (append_integer [] 0 4 0x10) name) v"
    using append_string_out [of "append_string (append_integer out 0 4 0x10) name" v]
      append_string_out [of "append_string (append_integer [] 0 4 0x10) name" v] a [of 0 name] by simp
  then show ?thesis using a by (simp add: append_never_indexed_def Let_def)
qed

lemma insert_literal_out:
  "append_string (if b then append_integer out k 6 0x40 else append_string (append_integer out 0 6 0x40) name) v
    = out @ append_string (if b then append_integer [] k 6 0x40 else append_string (append_integer [] 0 6 0x40) name) v"
  using append_helpers(4) [of out k v] append_helpers(4) [of "[]" k v]
    append_helpers(5) [of out name v] append_helpers(5) [of "[]" name v] by simp

lemma prefixes: "literal_prefix 4 0" "literal_prefix 4 0x10" "literal_prefix 6 0x40"
  by (simp_all add: literal_prefix_def)

lemma literal_table_simps [simp]: "literal_table 4 t f = t" "literal_table 6 t f = fst (dt_add t (fst f) (snd f))"
  by (simp_all add: literal_table_def)

lemma reads_as_field_literal:
  "n = 0 \<or> n \<le> 61 \<and> fst (kStaticTable ! (n - 1)) = name \<Longrightarrow>
    reads_as t (enc_field_literal [] n name v) (name, v) t"
  using reads_as_literal_index [OF prefixes(1), of n name t v] reads_as_literal_name [OF prefixes(1), of t name v]
  by (auto simp: enc_field_literal_def append_helpers)

lemma reads_as_never: "reads_as t (append_never_indexed [] name v) (name, v) t"
proof -
  let ?n = "static_name_index name"
  have e: "append_never_indexed [] name v = append_integer [] (of_nat ?n) 4 0x10 @ (if ?n \<noteq> 0 then [] else append_string [] name) @ append_string [] v"
    using append_string_out [of "append_integer [] (of_nat ?n) 4 0x10" v]
      append_string_out [of "append_string (append_integer [] 0 4 0x10) name" v] append_string_out [of "append_integer [] 0 4 0x10" name]
    by (simp add: append_never_indexed_def Let_def)
  show ?thesis
    using reads_as_literal_index [OF prefixes(2), of ?n name t v] reads_as_literal_name [OF prefixes(2), of t name v]
      static_name_index_sound [of name] by (cases "?n = 0") (simp_all add: e)
qed

lemma reads_as_insert:
  "n = 0 \<or> n \<le> 61 \<and> fst (kStaticTable ! (n - 1)) = name \<Longrightarrow>
    reads_as t (append_string (if n \<noteq> 0 then append_integer [] (of_nat n) 6 0x40
       else append_string (append_integer [] 0 6 0x40) name) v) (name, v) (fst (dt_add t name v))"
  using reads_as_literal_index [OF prefixes(3), of n name t v] reads_as_literal_name [OF prefixes(3), of t name v]
    append_helpers(5) [of "[]" name v] append_helpers(4) [of "[]" "of_nat n" v]
  by (cases "n = 0") simp_all

lemma reads_as_append_insert: "reads_as t (append_insert [] name v) (name, v) (fst (dt_add t name v))"
  unfolding append_insert_def Let_def
  using reads_as_insert [of "static_name_index name" name t v] static_name_index_sound [of name] by blast


subsection \<open>The encoder's memory\<close>

text \<open>A remembered sequence number, while alive, names the entry it was remembered for.\<close>

definition remembers :: "Encoder \<Rightarrow> nat \<Rightarrow> field \<Rightarrow> bool" where
  "remembers e seq f \<longleftrightarrow> seq < en_next_seq e \<and>
     (alive e seq \<longrightarrow> dt_list (en_table e) ! (en_next_seq e - 1 - seq) = f)"

definition enc_core :: "Encoder \<Rightarrow> bool" where
  "enc_core e \<longleftrightarrow> dt_ok (en_table e) \<and> dt_capacity (en_table e) = kMaxSize \<and> dt_limit (en_table e) = en_max e
     \<and> en_max e \<le> kMaxSize \<and> dt_count (en_table e) < en_next_seq e"

text \<open>The values a server sends are fixed (\<open>sv\<close>, \<open>av\<close>), the date is a function of the second (\<open>dv\<close>).\<close>

definition enc_inv :: "bytes \<Rightarrow> bytes \<Rightarrow> (int \<Rightarrow> bytes) \<Rightarrow> Encoder \<Rightarrow> bool" where
  "enc_inv sv av dv e \<longleftrightarrow> enc_core e
     \<and> remembers e (en_server_seq e) (n_server, sv)
     \<and> remembers e (en_alt_svc_seq e) (n_alt_svc, av)
     \<and> remembers e (en_hsts_seq e) (n_hsts, en_hsts_value e)
     \<and> remembers e (en_date_seq e) (n_date, dv (en_date_second e))
     \<and> remembers e (en_ct_seq e) (n_content_type, en_ct_value e)"

lemma count_small: "enc_core e \<Longrightarrow> dt_count (en_table e) \<le> 32"
proof -
  assume e: "enc_core e"
  have "32 * dt_count (en_table e) \<le> table_size (dt_list (en_table e))" using table_size_ge [of "dt_list (en_table e)"] by simp
  also have "\<dots> \<le> 1024" using e dt.bounded [of "en_table e"] by (simp add: enc_core_def kMaxSize_def)
  finally show ?thesis by simp
qed

definition agree :: "Encoder \<Rightarrow> DynamicTable \<Rightarrow> bool" where
  "agree e t \<longleftrightarrow> dt_ok t \<and> dt_list t = dt_list (en_table e) \<and> dt_limit t = en_max e"

lemma dt_entry_at:
  assumes "enc_core e" and "agree e t" and "k < dt_count (en_table e)"
  shows "table_at t (62 + k) = Some (dt_list (en_table e) ! k)" and "62 + k < 2 ^ 32"
  using assms count_small [OF assms(1)] by (simp_all add: table_at_def agree_def dt.get_entries flip: length_dt_list)

lemma reads_as_alive:
  assumes "enc_core e" and "agree e t" and "remembers e seq f" and "alive e seq"
  shows "reads_as t (append_indexed [] (index_of e seq)) f t"
proof -
  let ?k = "en_next_seq e - 1 - seq"
  have k: "?k < dt_count (en_table e)" "index_of e seq = 62 + ?k"
    using assms(3,4) by (auto simp: remembers_def alive_def index_of_def)
  have "dt_list (en_table e) ! ?k = f" using assms(3,4) by (simp add: remembers_def)
  then show ?thesis using dt_entry_at [OF assms(1,2) k(1)] reads_as_indexed by (simp add: k(2))
qed

lemma reads_as_found:
  assumes "enc_core e" and "agree e t" and "dt_find (en_table e) n v = Some k"
  shows "reads_as t (append_indexed [] (62 + k)) (n, v) t" and "k < dt_count (en_table e)"
    and "dt_list (en_table e) ! k = (n, v)"
proof -
  have "dt_at (en_table e) k = Some (n, v)" using assms by (simp add: enc_core_def dt.search_get)
  then show k: "k < dt_count (en_table e)" and l: "dt_list (en_table e) ! k = (n, v)"
    using assms(1) by (auto simp: enc_core_def dt.get_entries split: if_splits)
  show "reads_as t (append_indexed [] (62 + k)) (n, v) t"
    using dt_entry_at [OF assms(1,2) k] l reads_as_indexed by simp
qed

text \<open>An insertion keeps what is remembered and is itself the newest entry.\<close>

lemma enc_insert_ok:
  assumes "enc_core e" and "enc_insert e n v = (e', True)"
  shows "e' = e\<lparr>en_table := fst (dt_add (en_table e) n v), en_next_seq := en_next_seq e + 1\<rparr>"
    and "enc_core e'" and "dt_list (en_table e') ! 0 = (n, v)"
    and "remembers e seq f \<Longrightarrow> remembers e' seq f"
    and "agree e t \<Longrightarrow> agree e' (fst (dt_add t n v))"
proof -
  have ok: "dt_ok (en_table e)" and le: "field_size (n, v) \<le> en_max e" and lim: "dt_limit (en_table e) = en_max e"
    using assms by (auto simp: enc_core_def enc_insert_def split: if_splits)
  show e': "e' = e\<lparr>en_table := fst (dt_add (en_table e) n v), en_next_seq := en_next_seq e + 1\<rparr>"
    using assms by (auto simp: enc_insert_def split: if_splits prod.splits)
  let ?l = "dt_list (en_table e)" and ?fit = "fit (en_max e - field_size (n, v)) (dt_list (en_table e))"
  have lst: "dt_list (en_table e') = (n, v) # ?fit"
    using dt.add_entries [OF ok, of n v] le lim by (simp add: e' add_field_def del: field_size.simps)
  obtain ys where ys: "?l = ?fit @ ys" using fit_prefix by blast
  have cnt: "dt_count (en_table e') = Suc (length ?fit)" using lst by (metis length_Cons length_dt_list)
  have fc: "length ?fit \<le> dt_count (en_table e)" using arg_cong [OF ys, of length] by simp
  show "enc_core e'"
    using assms(1) dt.add_inv [OF ok] dt.add_limit [OF ok] cnt fc by (simp add: enc_core_def e')
  show "dt_list (en_table e') ! 0 = (n, v)" by (simp add: lst)
  show "remembers e' seq f" if r: "remembers e seq f"
  proof -
    have s: "seq < en_next_seq e" using r by (simp add: remembers_def)
    have "dt_list (en_table e') ! (en_next_seq e' - 1 - seq) = f" if a: "alive e' seq"
    proof -
      let ?k = "en_next_seq e - 1 - seq"
      have k: "?k < length ?fit" and al: "alive e seq"
        using a s cnt fc by (auto simp: alive_def e')
      have "en_next_seq e' - 1 - seq = Suc ?k" using s by (simp add: e')
      then have "dt_list (en_table e') ! (en_next_seq e' - 1 - seq) = ?fit ! ?k" by (simp add: lst)
      also have "\<dots> = ?l ! ?k" using k by (subst ys) (simp add: nth_append)
      finally show ?thesis using r al by (simp add: remembers_def)
    qed
    then show ?thesis using s by (simp add: remembers_def e')
  qed
  show "agree e' (fst (dt_add t n v))" if "agree e t"
    using that ok lim by (simp add: agree_def e' dt.add_inv dt.add_entries dt.add_limit)
qed

lemma enc_insert_no: "enc_core e \<Longrightarrow> enc_insert e n v = (e', False) \<Longrightarrow> e' = e"
  using dt_add_refines [of "en_table e" n v]
  by (auto simp: enc_core_def enc_insert_def dt_ok_def split: if_splits prod.splits)


subsection \<open>Every operation of the encoder\<close>

text \<open>
  The calls that write a field of a response, with the field each stands for. The prebuilt bytes of
  \<open>server\<close> and \<open>date\<close> are \<open>append_insert\<close>'s, as their callers make them.
\<close>

datatype enc_op = Op_field bytes bytes | Op_content_type bytes | Op_server | Op_alt_svc | Op_hsts bytes | Op_date int

fun run_enc_op :: "bytes \<Rightarrow> bytes \<Rightarrow> (int \<Rightarrow> bytes) \<Rightarrow> enc_op \<Rightarrow> Encoder \<Rightarrow> bytes \<Rightarrow> Encoder \<times> bytes" where
  "run_enc_op sv av dv (Op_field n v) e out = enc_field e out n v"
| "run_enc_op sv av dv (Op_content_type v) e out = enc_content_type e out v"
| "run_enc_op sv av dv Op_server e out = enc_server e out sv (append_insert [] n_server sv)"
| "run_enc_op sv av dv Op_alt_svc e out = enc_alt_svc e out av"
| "run_enc_op sv av dv (Op_hsts v) e out = enc_hsts e out v"
| "run_enc_op sv av dv (Op_date s) e out = enc_date e out s (dv s) (append_insert [] n_date (dv s))"

fun op_pair :: "bytes \<Rightarrow> bytes \<Rightarrow> (int \<Rightarrow> bytes) \<Rightarrow> enc_op \<Rightarrow> field" where
  "op_pair sv av dv (Op_field n v) = (n, v)"
| "op_pair sv av dv (Op_content_type v) = (n_content_type, v)"
| "op_pair sv av dv Op_server = (n_server, sv)"
| "op_pair sv av dv Op_alt_svc = (n_alt_svc, av)"
| "op_pair sv av dv (Op_hsts v) = (n_hsts, v)"
| "op_pair sv av dv (Op_date s) = (n_date, dv s)"

lemma static_names:
  "fst (kStaticTable ! 30) = n_content_type" "fst (kStaticTable ! 53) = n_server"
  "fst (kStaticTable ! 55) = n_hsts" "fst (kStaticTable ! 32) = n_date"
  by (simp_all add: kStaticTable_def n_content_type_def n_server_def n_hsts_def n_date_def)

text \<open>The outcome of one operation on an encoder whose decoder holds the table \<open>t\<close>.\<close>

definition step_ok ::
  "bytes \<Rightarrow> bytes \<Rightarrow> (int \<Rightarrow> bytes) \<Rightarrow> DynamicTable \<Rightarrow> bytes \<Rightarrow> field \<Rightarrow> Encoder \<times> bytes \<Rightarrow> bool" where
  "step_ok sv av dv t out f r \<longleftrightarrow>
     (\<exists>bs t'. snd r = out @ bs \<and> reads_as t bs f t' \<and> enc_inv sv av dv (fst r) \<and> agree (fst r) t')"

lemma step_same: "reads_as t bs f t \<Longrightarrow> enc_inv sv av dv e \<Longrightarrow> agree e t \<Longrightarrow> step_ok sv av dv t out f (e, out @ bs)"
  by (auto simp: step_ok_def)

lemma remembers_new:
  "enc_core e \<Longrightarrow> dt_list (en_table e) ! 0 = f \<Longrightarrow> remembers e (en_next_seq e - 1) f"
  by (auto simp: remembers_def enc_core_def)

lemma remembers_cong:
  "en_table e' = en_table e \<Longrightarrow> en_next_seq e' = en_next_seq e \<Longrightarrow> remembers e' = remembers e"
  by (simp add: remembers_def alive_def fun_eq_iff)

lemma enc_core_cong:
  "en_table e' = en_table e \<Longrightarrow> en_next_seq e' = en_next_seq e \<Longrightarrow> en_max e' = en_max e \<Longrightarrow> enc_core e' = enc_core e"
  by (simp add: enc_core_def)

lemma agree_cong: "en_table e' = en_table e \<Longrightarrow> en_max e' = en_max e \<Longrightarrow> agree e' = agree e"
  by (simp add: agree_def fun_eq_iff)

text \<open>An insertion leaves an encoder that satisfies the invariant, whatever sequence it then stores.\<close>

lemma enc_insert_inv:
  assumes "enc_inv sv av dv e" and "agree e t" and "enc_insert e n v = (e', True)"
  shows "enc_inv sv av dv e'" and "agree e' (fst (dt_add t n v))" and "remembers e' (en_next_seq e' - 1) (n, v)"
proof -
  have core: "enc_core e" using assms(1) by (simp add: enc_inv_def)
  note ins = enc_insert_ok [OF core assms(3)]
  show "enc_inv sv av dv e'" using assms(1) ins(2,4) by (simp add: enc_inv_def) (simp add: ins(1))
  show "agree e' (fst (dt_add t n v))" using ins(5) assms(2) by blast
  show "remembers e' (en_next_seq e' - 1) (n, v)" using remembers_new ins(2,3) by blast
qed

lemma enc_field_step:
  assumes inv: "enc_inv sv av dv e" and ag: "agree e t"
  shows "step_ok sv av dv t out (n, v) (enc_field e out n v)"
proof -
  have core: "enc_core e" using inv by (simp add: enc_inv_def)
  let ?n = "static_name_index n" and ?i = "static_index_from n v (static_name_index n)"
  have ns: "?n = 0 \<or> ?n \<le> 61 \<and> fst (kStaticTable ! (?n - 1)) = n" using static_name_index_sound [of n] by blast
  have lit: "step_ok sv av dv t out (n, v) (e, enc_field_literal out ?n n v)"
    unfolding enc_field_literal_out [of out] by (rule step_same [OF reads_as_field_literal [OF ns] inv ag])
  show ?thesis
  proof (cases "?i = 0")
    case False
    then have "table_at t ?i = Some (n, v)" "?i < 2 ^ 32"
      using static_index_from_sound [OF refl, of n v ?n] by (auto simp: table_at_def)
    then show ?thesis
      using step_same [OF reads_as_indexed inv ag] False append_helpers(1) [of out ?i] by (simp add: enc_field_def Let_def)
  next
    case True
    show ?thesis
    proof (cases "policy n")
      case pol_never
      then show ?thesis
        using step_same [OF reads_as_never inv ag] True append_never_indexed_out [of out n v] by (simp add: enc_field_def Let_def)
    next
      case pol_literal
      then show ?thesis using lit True by (simp add: enc_field_def Let_def)
    next
      case pol_index
      obtain e' ok where ins: "enc_insert e n v = (e', ok)" by force
      let ?ins = "if ?n \<noteq> 0 then append_integer [] (of_nat ?n) 6 0x40 else append_string (append_integer [] 0 6 0x40) n"
      have insert: "step_ok sv av dv t out (n, v) (e', out @ append_string ?ins v)" if ok
        using that enc_insert_inv(1,2) [OF inv ag, of n v e'] ins reads_as_insert [OF ns, of t v] by (auto simp: step_ok_def)
      have found: "step_ok sv av dv t out (n, v) (e, append_indexed out (62 + k))" if "dt_find (en_table e) n v = Some k" for k
        unfolding append_helpers(1) [of out] by (rule step_same [OF reads_as_found(1) [OF core ag that] inv ag])
      have "\<not> ok \<Longrightarrow> e' = e" using enc_insert_no [OF core] ins by simp
      then show ?thesis
        using pol_index True lit insert found ins insert_literal_out [of "?n \<noteq> 0" out "of_nat ?n" n v]
        by (auto simp: enc_field_def Let_def split: option.split bool.split)
    qed
  qed
qed

text \<open>The fields remembered by sequence: an index while alive, else an insertion or a literal.\<close>

lemma alive_step:
  assumes "enc_inv sv av dv e" and "agree e t" and "remembers e seq f" and "alive e seq"
  shows "step_ok sv av dv t out f (e, append_indexed out (index_of e seq))"
  unfolding append_helpers(1) [of out] using assms
  by (intro step_same reads_as_alive) (simp_all add: enc_inv_def)

lemma insert_step:
  assumes "enc_inv sv av dv e" and "agree e t" and "enc_insert e n v = (e1, True)"
    and "reads_as t bs (n, v) (fst (dt_add t n v))"
    and "en_table e' = en_table e1" and "en_next_seq e' = en_next_seq e1" and "en_max e' = en_max e1"
    and "enc_inv sv av dv e1 \<Longrightarrow> remembers e1 (en_next_seq e1 - 1) (n, v) \<Longrightarrow> enc_inv sv av dv e'"
  shows "step_ok sv av dv t out (n, v) (e', out @ bs)"
  using enc_insert_inv [OF assms(1-3)] assms(4,8) agree_cong [of e' e1] assms(5-7) by (auto simp: step_ok_def)

lemma literal_index_step:
  assumes "enc_inv sv av dv e" and "agree e t" and "1 \<le> i" and "i \<le> 61" and "fst (kStaticTable ! (i - 1)) = n"
  shows "step_ok sv av dv t out (n, v) (e, append_literal_index out i v)"
  unfolding append_helpers(2)
  using step_same [OF _ assms(1,2)] reads_as_literal_index [OF prefixes(1) assms(3-5), of t v] by simp

lemma literal_name_step:
  assumes "enc_inv sv av dv e" and "agree e t"
  shows "step_ok sv av dv t out (n, v) (e, append_literal out n v)"
  unfolding append_helpers(3)
  using step_same [OF _ assms(1,2)] reads_as_literal_name [OF prefixes(1), of t n v] by simp

lemma enc_server_step:
  assumes inv: "enc_inv sv av dv e" and ag: "agree e t"
  shows "step_ok sv av dv t out (n_server, sv) (enc_server e out sv (append_insert [] n_server sv))"
proof -
  have lit: "step_ok sv av dv t out (n_server, sv) (e, append_literal_index out 54 sv)"
    by (rule literal_index_step [OF inv ag]) (simp_all add: static_names)
  have core: "enc_core e" and rem: "remembers e (en_server_seq e) (n_server, sv)" using inv by (simp_all add: enc_inv_def)
  obtain e1 ok where ins: "enc_insert e n_server sv = (e1, ok)" by force
  have "step_ok sv av dv t out (n_server, sv) (e1\<lparr>en_server_seq := en_next_seq e1 - 1\<rparr>, out @ append_insert [] n_server sv)" if ok
    using ins that by (intro insert_step [OF inv ag _ reads_as_append_insert, of _ _ e1])
      (simp_all add: enc_inv_def enc_core_def remembers_def alive_def)
  moreover have "\<not> ok \<Longrightarrow> e1 = e" using enc_insert_no [OF core] ins by simp
  ultimately show ?thesis
    using lit ins alive_step [OF inv ag rem] by (auto simp: enc_server_def split: bool.split)
qed

lemma enc_alt_svc_step:
  assumes inv: "enc_inv sv av dv e" and ag: "agree e t"
  shows "step_ok sv av dv t out (n_alt_svc, av) (enc_alt_svc e out av)"
proof -
  have lit: "step_ok sv av dv t out (n_alt_svc, av) (e, append_literal out n_alt_svc av)" by (rule literal_name_step [OF inv ag])
  have core: "enc_core e" and rem: "remembers e (en_alt_svc_seq e) (n_alt_svc, av)" using inv by (simp_all add: enc_inv_def)
  obtain e1 ok where ins: "enc_insert e n_alt_svc av = (e1, ok)" by force
  let ?bs = "append_integer [] 0 6 0x40 @ append_string [] n_alt_svc @ append_string [] av"
  have "reads_as t ?bs (n_alt_svc, av) (fst (dt_add t n_alt_svc av))"
    using reads_as_literal_name [OF prefixes(3), of t n_alt_svc av] by simp
  then have "step_ok sv av dv t out (n_alt_svc, av) (e1\<lparr>en_alt_svc_seq := en_next_seq e1 - 1\<rparr>, out @ ?bs)" if ok
    using ins that by (intro insert_step [OF inv ag, of _ _ e1])
      (simp_all add: enc_inv_def enc_core_def remembers_def alive_def)
  moreover have "\<not> ok \<Longrightarrow> e1 = e" using enc_insert_no [OF core] ins by simp
  ultimately show ?thesis
    using lit ins alive_step [OF inv ag rem] append_helpers(5) [of out n_alt_svc av]
    by (auto simp: enc_alt_svc_def split: bool.split)
qed

lemma enc_hsts_step:
  assumes inv: "enc_inv sv av dv e" and ag: "agree e t"
  shows "step_ok sv av dv t out (n_hsts, v) (enc_hsts e out v)"
proof -
  have lit: "step_ok sv av dv t out (n_hsts, v) (e, append_literal out n_hsts v)" by (rule literal_name_step [OF inv ag])
  have core: "enc_core e" and rem: "remembers e (en_hsts_seq e) (n_hsts, en_hsts_value e)" using inv by (simp_all add: enc_inv_def)
  obtain e1 ok where ins: "enc_insert e n_hsts v = (e1, ok)" by force
  let ?bs = "append_integer [] (of_nat 56) 6 0x40 @ append_string [] v"
  have "reads_as t ?bs (n_hsts, v) (fst (dt_add t n_hsts v))"
    using reads_as_literal_index [OF prefixes(3), of 56 n_hsts t v] by (simp add: static_names)
  then have "step_ok sv av dv t out (n_hsts, v) (e1\<lparr>en_hsts_seq := en_next_seq e1 - 1, en_hsts_value := v\<rparr>, out @ ?bs)" if ok
    using ins that by (intro insert_step [OF inv ag, of _ _ e1])
      (simp_all add: enc_inv_def enc_core_def remembers_def alive_def)
  moreover have "\<not> ok \<Longrightarrow> e1 = e" using enc_insert_no [OF core] ins by simp
  ultimately show ?thesis
    using lit ins alive_step [OF inv ag rem] append_helpers(4) [of out 56 v]
    by (auto simp: enc_hsts_def split: bool.split)
qed

lemma enc_date_step:
  assumes inv: "enc_inv sv av dv e" and ag: "agree e t"
  shows "step_ok sv av dv t out (n_date, dv s) (enc_date e out s (dv s) (append_insert [] n_date (dv s)))"
proof -
  have lit: "step_ok sv av dv t out (n_date, dv s) (e, append_literal_index out 33 (dv s))"
    by (rule literal_index_step [OF inv ag]) (simp_all add: static_names)
  have core: "enc_core e" and rem: "remembers e (en_date_seq e) (n_date, dv (en_date_second e))" using inv by (simp_all add: enc_inv_def)
  obtain e1 ok where ins: "enc_insert e n_date (dv s) = (e1, ok)" by force
  have "step_ok sv av dv t out (n_date, dv s) (e1\<lparr>en_date_seq := en_next_seq e1 - 1, en_date_second := s\<rparr>, out @ append_insert [] n_date (dv s))"
    if ok
    using ins that by (intro insert_step [OF inv ag _ reads_as_append_insert, of _ _ e1])
      (simp_all add: enc_inv_def enc_core_def remembers_def alive_def)
  moreover have "\<not> ok \<Longrightarrow> e1 = e" using enc_insert_no [OF core] ins by simp
  ultimately show ?thesis
    using lit ins alive_step [OF inv ag rem] by (auto simp: enc_date_def split: bool.split)
qed

lemma enc_content_type_step:
  assumes inv: "enc_inv sv av dv e" and ag: "agree e t"
  shows "step_ok sv av dv t out (n_content_type, v) (enc_content_type e out v)"
proof -
  let ?e = "e\<lparr>en_ct_seq := 0\<rparr>"
  have inv0: "enc_inv sv av dv ?e" using inv by (simp add: enc_inv_def enc_core_def remembers_def alive_def)
  have ag0: "agree ?e t" using ag by (simp add: agree_def)
  have core: "enc_core ?e" and rem: "remembers e (en_ct_seq e) (n_content_type, en_ct_value e)"
    using inv inv0 by (simp_all add: enc_inv_def)
  have lit: "step_ok sv av dv t out (n_content_type, v) (?e, append_literal_index out 31 v)"
    by (rule literal_index_step [OF inv0 ag0]) (simp_all add: static_names)
  obtain e1 ok where ins: "enc_insert ?e n_content_type v = (e1, ok)" by force
  let ?bs = "append_integer [] (of_nat 31) 6 0x40 @ append_string [] v"
  have "reads_as t ?bs (n_content_type, v) (fst (dt_add t n_content_type v))"
    using reads_as_literal_index [OF prefixes(3), of 31 n_content_type t v] by (simp add: static_names)
  then have insert: "step_ok sv av dv t out (n_content_type, v) (e1\<lparr>en_ct_seq := en_next_seq e1 - 1, en_ct_value := v\<rparr>, out @ ?bs)" if ok
    using ins that by (intro insert_step [OF inv0 ag0, of _ _ e1])
      (simp_all add: enc_inv_def enc_core_def remembers_def alive_def)
  have no: "\<not> ok \<Longrightarrow> e1 = ?e" using enc_insert_no [OF core] ins by simp
  have found: "step_ok sv av dv t out (n_content_type, v)
      (?e\<lparr>en_ct_seq := en_next_seq ?e - 1 - k, en_ct_value := v\<rparr>, append_indexed out (62 + k))"
    if "dt_find (en_table ?e) n_content_type v = Some k" for k
  proof -
    note fnd = reads_as_found [OF core ag0 that]
    have "k \<le> en_next_seq e - 1" using fnd(2) core by (auto simp: enc_core_def)
    then have "enc_inv sv av dv (?e\<lparr>en_ct_seq := en_next_seq ?e - 1 - k, en_ct_value := v\<rparr>)"
      using inv0 fnd(3) core by (auto simp: enc_inv_def enc_core_def remembers_def alive_def)
    moreover have "agree (?e\<lparr>en_ct_seq := en_next_seq ?e - 1 - k, en_ct_value := v\<rparr>) t" using ag by (simp add: agree_def)
    ultimately show ?thesis unfolding append_helpers(1) [of out] using step_same fnd(1) by blast
  qed
  show ?thesis
    using lit ins insert no found alive_step [OF inv ag rem] append_helpers(4) [of out 31 v]
    by (auto simp: enc_content_type_def Let_def split: bool.split option.split)
qed

lemma enc_op_step:
  "enc_inv sv av dv e \<Longrightarrow> agree e t \<Longrightarrow> step_ok sv av dv t out (op_pair sv av dv x) (run_enc_op sv av dv x e out)"
  by (cases x) (simp_all add: enc_field_step enc_content_type_step enc_server_step enc_alt_svc_step enc_hsts_step enc_date_step)


subsection \<open>Blocks\<close>

text \<open>Setting a mark changes no entry.\<close>

lemma put_mark_ok [simp]:
  "dt_list (put_mark t origin m) = dt_list t" "dt_ok (put_mark t origin m) = dt_ok t"
  "dt_limit (put_mark t origin m) = dt_limit t" "dt_capacity (put_mark t origin m) = dt_capacity t"
proof -
  have nth: "xs[i := (xs ! i)\<lparr>e_checked := m\<rparr>] ! j = (if j = i \<and> i < length xs then (xs ! i)\<lparr>e_checked := m\<rparr> else xs ! j)" for xs :: "Entry list" and i j
    by (cases "i < length xs") (auto simp: nth_list_update list_update_beyond)
  show l: "dt_list (put_mark t origin m) = dt_list t"
    by (auto simp: put_mark_def dt_list_def dt_index_def nth Let_def split: option.split)
  show "dt_ok (put_mark t origin m) = dt_ok t"
    using l unfolding dt_ok_def dt_inv_def l by (simp add: put_mark_def split: option.split)
  show "dt_limit (put_mark t origin m) = dt_limit t" "dt_capacity (put_mark t origin m) = dt_capacity t"
    by (simp_all add: put_mark_def split: option.split)
qed

text \<open>A sink that keeps every field and marks every entry it is shown.\<close>

definition collect :: "field list sink" where
  "collect fs name value origin mark = (fs @ [(name, value)], True, 1)"

fun enc_ops :: "bytes \<Rightarrow> bytes \<Rightarrow> (int \<Rightarrow> bytes) \<Rightarrow> enc_op list \<Rightarrow> Encoder \<Rightarrow> bytes \<Rightarrow> Encoder \<times> bytes" where
  "enc_ops sv av dv [] e out = (e, out)"
| "enc_ops sv av dv (x # xs) e out = (case run_enc_op sv av dv x e out of (e, out) \<Rightarrow> enc_ops sv av dv xs e out)"

lemma decode_block_reads:
  assumes "reads_as (de_table d) bs f t'" and "tot + field_size f \<le> mx" and "mx < 2 ^ 32"
  shows "\<exists>d' arena'. decode_block collect d arena mx tot started ctx (bs @ rest)
      = decode_block collect d' arena' mx (tot + field_size f) True (ctx @ [f]) rest
      \<and> de_ceiling d' = de_ceiling d \<and> (\<exists>origin m. de_table d' = put_mark t' origin m)"
proof -
  obtain b bs' where bs: "bs = b # bs'" using assms(1) by (cases bs) (auto simp: reads_as_def)
  have d: "\<lparr>de_table = de_table d, de_ceiling = de_ceiling d\<rparr> = d" by simp
  obtain arena' origin where "decode_field d b (bs @ rest) arena tot mx started = (t', arena', Inr (rest, Some (fst f, snd f, origin)))"
    using assms unfolding reads_as_def d by (metis (no_types, lifting) bs list.sel(1) d)
  then have "decode_block collect d arena mx tot started ctx (bs @ rest)
      = decode_block collect (d\<lparr>de_table := put_mark t' origin 1\<rparr>) arena' mx (tot + field_size f) True (ctx @ [f]) rest"
    using assms(2) by (cases f) (simp add: bs decode_block.simps(2) collect_def)
  then show ?thesis
    by (intro exI [of _ "d\<lparr>de_table := put_mark t' origin 1\<rparr>"] exI [of _ arena'] conjI exI [of _ origin] exI [of _ 1]) simp_all
qed

lemma agree_put_mark [simp]: "agree e (put_mark t origin m) = agree e t"
  by (simp add: agree_def)

lemma enc_ops_decode:
  assumes "enc_inv sv av dv e" and "agree e t0"
  shows "\<exists>bs. snd (enc_ops sv av dv ops e out) = out @ bs \<and> enc_inv sv av dv (fst (enc_ops sv av dv ops e out))
    \<and> (\<forall>d arena tot started ctx. agree e (de_table d) \<longrightarrow> tot + table_size (map (op_pair sv av dv) ops) \<le> mx \<longrightarrow> mx < 2 ^ 32 \<longrightarrow>
        (\<exists>d' arena'. decode_block collect d arena mx tot started ctx bs = (dr_ok, d', arena', ctx @ map (op_pair sv av dv) ops)
          \<and> agree (fst (enc_ops sv av dv ops e out)) (de_table d') \<and> de_ceiling d' = de_ceiling d))"
  using assms
proof (induction ops arbitrary: e t0 out)
  case (Cons x ops)
  let ?f = "op_pair sv av dv x" and ?fs = "map (op_pair sv av dv) ops"
  obtain e1 out1 where r: "run_enc_op sv av dv x e out = (e1, out1)" by force
  obtain bs1 t1 where st: "out1 = out @ bs1" "enc_inv sv av dv e1" "agree e1 t1"
    using enc_op_step [OF Cons.prems, of out x] r by (auto simp: step_ok_def)
  obtain bs2 where bs2: "snd (enc_ops sv av dv ops e1 out1) = out1 @ bs2" "enc_inv sv av dv (fst (enc_ops sv av dv ops e1 out1))"
    and dec: "\<And>d arena tot started ctx. agree e1 (de_table d) \<Longrightarrow> tot + table_size ?fs \<le> mx \<Longrightarrow> mx < 2 ^ 32 \<Longrightarrow>
        (\<exists>d' arena'. decode_block collect d arena mx tot started ctx bs2 = (dr_ok, d', arena', ctx @ ?fs)
          \<and> agree (fst (enc_ops sv av dv ops e1 out1)) (de_table d') \<and> de_ceiling d' = de_ceiling d)"
    using Cons.IH [OF st(2,3), of out1] by blast
  have "\<exists>d' arena'. decode_block collect d arena mx tot started ctx (bs1 @ bs2) = (dr_ok, d', arena', ctx @ ?f # ?fs)
      \<and> agree (fst (enc_ops sv av dv ops e1 out1)) (de_table d') \<and> de_ceiling d' = de_ceiling d"
    if ag: "agree e (de_table d)" and fit: "tot + table_size (?f # ?fs) \<le> mx" and mx: "mx < 2 ^ 32" for d arena tot started ctx
  proof -
    obtain t' where t': "reads_as (de_table d) bs1 ?f t'" "agree e1 t'"
      using enc_op_step [OF Cons.prems(1) ag, of out x] r st(1) by (auto simp: step_ok_def)
    have "tot + field_size ?f \<le> mx" using fit by simp
    from decode_block_reads [OF t'(1) this mx, of arena started ctx bs2]
    obtain d1 arena1 where d1: "decode_block collect d arena mx tot started ctx (bs1 @ bs2)
        = decode_block collect d1 arena1 mx (tot + field_size ?f) True (ctx @ [?f]) bs2"
      "de_ceiling d1 = de_ceiling d" "agree e1 (de_table d1)" using t'(2) by (metis agree_put_mark)
    have "tot + field_size ?f + table_size ?fs \<le> mx" using fit by simp
    from dec [OF d1(3) this mx, of arena1 True "ctx @ [?f]"] show ?thesis using d1(1,2) by simp
  qed
  then show ?case using bs2 r st(1) by (intro exI [of _ "bs1 @ bs2"]) simp
qed auto


subsection \<open>Size updates\<close>

definition synced :: "bytes \<Rightarrow> bytes \<Rightarrow> (int \<Rightarrow> bytes) \<Rightarrow> Encoder \<Rightarrow> Decoder \<Rightarrow> bool" where
  "synced sv av dv e d \<longleftrightarrow> enc_inv sv av dv e \<and> dt_ok (de_table d) \<and> dt_capacity (de_table d) = de_ceiling d
     \<and> kMaxSize \<le> de_ceiling d \<and> dt_limit (de_table d) = en_assumed e
     \<and> en_floor e \<le> en_max e \<and> en_floor e \<le> en_assumed e
     \<and> dt_list (en_table e) = fit (en_floor e) (dt_list (de_table d))
     \<and> (\<not> en_pending e \<longrightarrow> en_floor e = en_max e \<and> en_assumed e = en_max e)"

lemma decode_block_update:
  assumes "n \<le> de_ceiling d" and "n < 2 ^ 32"
  shows "decode_block sink d arena mx tot False ctx (append_integer [] (of_nat n) 5 0x20 @ rest)
    = decode_block sink (d\<lparr>de_table := set_limit (de_table d) n\<rparr>) arena mx tot False ctx rest"
proof -
  let ?i = "append_integer [] (of_nat n) 5 0x20"
  obtain b r where b: "?i = b # r" by (cases ?i) auto
  have h: "b AND m = 0x20 AND m" if "m AND ucast (prefix_max 5) = 0" for m
    using hd_append_integer [OF hpack_prefixes(4) that, of "of_nat n"] b by simp
  have "read_integer 5 (?i @ rest) = Some (of_nat n, rest)" by (intro read_append_nat hpack_prefixes assms(2))
  moreover have "unat (of_nat n :: u32) = n" using assms(2) by (simp add: unsigned_of_nat take_bit_nat_eq_self)
  ultimately have "decode_field d b (b # r @ rest) arena tot mx False = (set_limit (de_table d) n, arena, Inr (rest, None))"
    using h [of "0x80"] h [of "0x40"] h [of "0x20"] assms(1) b
    by (simp add: decode_field_def decode_size_update_def prefix_max_def)
  then show ?thesis by (simp add: b decode_block.simps(2))
qed

lemma enc_inv_pending [simp]:
  "enc_inv sv av dv (e\<lparr>en_pending := p\<rparr>) = enc_inv sv av dv e"
  "enc_inv sv av dv (e\<lparr>en_assumed := a, en_floor := fl\<rparr>) = enc_inv sv av dv e"
  by (simp_all add: enc_inv_def enc_core_def remembers_def alive_def)

lemma synced_after_begin:
  assumes "synced sv av dv e d" and "dt_ok t" and "dt_capacity t = de_ceiling d" and "dt_limit t = en_max e"
    and "dt_list t = dt_list (en_table e)" and "e' = e\<lparr>en_assumed := en_max e, en_floor := en_max e, en_pending := False\<rparr>"
  shows "synced sv av dv e' (d\<lparr>de_table := t\<rparr>) \<and> agree e' t"
proof -
  have "fit (en_max e) (dt_list t) = dt_list t" using dt.bounded [OF assms(2)] assms(4) by (intro fit_all) simp
  moreover have "enc_inv sv av dv e'"
    using assms(1,6) by (simp add: synced_def)
  ultimately show ?thesis using assms by (simp add: synced_def agree_def enc_inv_def enc_core_def)
qed

lemma enc_begin_decode:
  assumes "synced sv av dv e d"
  shows "\<exists>t. (\<forall>arena mx tot ctx rest. decode_block collect d arena mx tot False ctx (snd (enc_begin e []) @ rest)
      = decode_block collect (d\<lparr>de_table := t\<rparr>) arena mx tot False ctx rest)
    \<and> synced sv av dv (fst (enc_begin e [])) (d\<lparr>de_table := t\<rparr>) \<and> agree (fst (enc_begin e [])) t"
proof -
  let ?t = "de_table d" and ?F = "en_floor e" and ?M = "en_max e" and ?A = "en_assumed e"
  note sy = assms [unfolded synced_def]
  have ok: "dt_ok ?t" and cap: "dt_capacity ?t = de_ceiling d" and le: "?F \<le> ?M" "?F \<le> ?A" and lim: "dt_limit ?t = ?A"
    and lst: "dt_list (en_table e) = fit ?F (dt_list ?t)" using sy by auto
  have M: "?M \<le> de_ceiling d" "?M < 2 ^ 32" using sy by (auto simp: enc_inv_def enc_core_def kMaxSize_def)
  have A: "fit n (dt_list ?t) = dt_list ?t" if "?A \<le> n" for n
    using dt.bounded [OF ok] lim that by (intro fit_all) simp
  define e' where "e' = e\<lparr>en_assumed := ?M, en_floor := ?M, en_pending := False\<rparr>"
  note fin = synced_after_begin [OF assms _ _ _ _ e'_def]
  have upd: "dt_ok (set_limit t n) \<and> dt_capacity (set_limit t n) = de_ceiling d \<and> dt_limit (set_limit t n) = n
      \<and> dt_list (set_limit t n) = fit n (dt_list t)" if "dt_ok t" "dt_capacity t = de_ceiling d" "n \<le> de_ceiling d" for t n
    using that dt.change_inv dt.change_limit dt.change_entries by auto
  consider (idle) "\<not> en_pending e" | (none) "en_pending e" "?M = ?A" "?F = ?M"
    | (one) "en_pending e" "\<not> (?F < ?M \<and> ?F < ?A)" "?M \<noteq> ?A \<or> ?F < ?M"
    | (two) "en_pending e" "?F < ?M" "?F < ?A" using le by linarith
  then show ?thesis
  proof cases
    case idle
    then have "?F = ?M" "?A = ?M" "dt_list (en_table e) = dt_list ?t" using sy lst A by auto
    then show ?thesis using idle assms ok lim by (intro exI [of _ ?t]) (simp add: enc_begin_def agree_def)
  next
    case none
    then have "enc_begin e [] = (e', [])" by (simp add: enc_begin_def e'_def)
    moreover have "dt_list ?t = dt_list (en_table e)" using none lst A by simp
    ultimately show ?thesis using none fin [OF ok cap] lim by (intro exI [of _ ?t]) simp
  next
    case one
    then have b: "enc_begin e [] = (e', append_integer [] (of_nat ?M) 5 0x20)" by (auto simp: enc_begin_def e'_def Let_def)
    have "?F = ?M \<or> ?F = ?A" using one le by auto
    then have "dt_list (set_limit ?t ?M) = dt_list (en_table e)"
      using upd [OF ok cap M(1)] lst A le by auto
    then show ?thesis
      using upd [OF ok cap M(1)] fin [of "set_limit ?t ?M"] b
      by (intro exI [of _ "set_limit ?t ?M"]) (simp add: decode_block_update [OF M])
  next
    case two
    have F: "?F \<le> de_ceiling d" "?F < 2 ^ 32" using le M by auto
    let ?t1 = "set_limit ?t ?F" and ?t2 = "set_limit (set_limit ?t ?F) ?M"
    have b: "enc_begin e [] = (e', append_integer [] (of_nat ?F) 5 0x20 @ append_integer [] (of_nat ?M) 5 0x20)"
      using two append_integer_out [of "append_integer [] (of_nat ?F) 5 0x20" "of_nat ?M" 5 "0x20"]
      by (simp add: enc_begin_def e'_def Let_def)
    note u1 = upd [OF ok cap F(1)] and u2 = upd [of ?t1 ?M]
    have "dt_list ?t2 = dt_list (en_table e)" using u1 u2 M(1) lst le by (simp add: fit_fit)
    then show ?thesis
      using u1 u2 fin [of ?t2] b M
      by (intro exI [of _ ?t2]) (simp add: decode_block_update [OF F] decode_block_update)
  qed
qed

text \<open>A change of the peer's setting keeps the two in step: the update is pending until the next block.\<close>

lemma set_limit_remembers:
  assumes "enc_core e" and "l \<le> kMaxSize" and "e' = e\<lparr>en_table := set_limit (en_table e) l\<rparr>"
  shows "remembers e seq f \<Longrightarrow> remembers e' seq f" and "dt_count (en_table e') \<le> dt_count (en_table e)"
proof -
  have ok: "dt_ok (en_table e)" "l \<le> dt_capacity (en_table e)" using assms(1,2) by (auto simp: enc_core_def)
  obtain ys where ys: "dt_list (en_table e) = fit l (dt_list (en_table e)) @ ys" using fit_prefix by blast
  have lst: "dt_list (en_table e') = fit l (dt_list (en_table e))" using dt.change_entries [OF ok] by (simp add: assms(3))
  then have cnt: "dt_count (en_table e') = length (fit l (dt_list (en_table e)))" by (metis length_dt_list)
  show le: "dt_count (en_table e') \<le> dt_count (en_table e)" using arg_cong [OF ys, of length] cnt by simp
  assume r: "remembers e seq f"
  have "dt_list (en_table e') ! (en_next_seq e - 1 - seq) = f" if "alive e' seq"
  proof -
    have al: "alive e seq" using that le by (auto simp: alive_def assms(3))
    have "en_next_seq e - 1 - seq < length (fit l (dt_list (en_table e)))"
      using that r cnt by (auto simp: alive_def remembers_def assms(3))
    then have "fit l (dt_list (en_table e)) ! (en_next_seq e - 1 - seq) = dt_list (en_table e) ! (en_next_seq e - 1 - seq)"
      by (subst (2) ys) (simp add: nth_append)
    then show ?thesis using r al by (simp add: lst remembers_def)
  qed
  then show "remembers e' seq f" using r by (simp add: remembers_def assms(3))
qed

lemma set_peer_max_synced:
  assumes "synced sv av dv e d"
  shows "synced sv av dv (set_peer_max e v) d"
proof -
  let ?new = "min (unat v) kMaxSize"
  note sy = assms [unfolded synced_def]
  have inv: "enc_inv sv av dv e" and core: "enc_core e" using sy by (auto simp: enc_inv_def)
  show ?thesis
  proof (cases "?new = en_max e")
    case True
    then have "set_peer_max e v = e\<lparr>en_pending := en_pending e \<or> unat v < en_assumed e\<rparr>"
      using sy by (auto simp: set_peer_max_def Let_def min_absorb1)
    then show ?thesis using sy by (simp add: synced_def)
  next
    case False
    define e1 where "e1 = e\<lparr>en_table := set_limit (en_table e) ?new\<rparr>"
    have new: "?new \<le> kMaxSize" by simp
    note sl = set_limit_remembers [OF core new e1_def]
    have ok: "dt_ok (en_table e)" "?new \<le> dt_capacity (en_table e)" using core by (auto simp: enc_core_def)
    have e': "set_peer_max e v = e1\<lparr>en_pending := True, en_max := ?new, en_floor := min (en_floor e) ?new\<rparr>"
      using False by (simp add: set_peer_max_def e1_def Let_def)
    have "enc_core (set_peer_max e v)"
      using core sl(2) dt.change_inv [OF ok] dt.change_limit [OF ok] by (simp add: enc_core_def e' e1_def)
    moreover have "remembers (set_peer_max e v) = remembers e1" unfolding e' by (rule remembers_cong) simp_all
    ultimately have "enc_inv sv av dv (set_peer_max e v)"
      using inv sl(1) by (simp add: enc_inv_def) (simp add: e' e1_def)
    moreover have "dt_list (en_table e1) = fit (min (en_floor e) ?new) (dt_list (de_table d))"
      using dt.change_entries [OF ok] sy by (simp add: e1_def fit_fit min.commute)
    ultimately show ?thesis using sy by (simp add: synced_def e' e1_def min.coboundedI1 min.coboundedI2)
  qed
qed

lemma agree_synced:
  assumes "synced sv av dv e d" and "\<not> en_pending e" and "enc_inv sv av dv e'" and "agree e' (de_table d')"
    and "de_ceiling d' = de_ceiling d" and "dt_capacity (de_table d') = de_ceiling d"
    and "en_max e' = en_max e" and "en_floor e' = en_floor e" and "en_assumed e' = en_assumed e" and "en_pending e' = en_pending e"
  shows "synced sv av dv e' d'"
proof -
  have "fit (en_max e) (dt_list (de_table d')) = dt_list (de_table d')"
    using dt.bounded [of "de_table d'"] assms(4,7) by (intro fit_all) (simp add: agree_def)
  then show ?thesis using assms by (auto simp: synced_def agree_def)
qed

text \<open>Writing fields changes neither the sizes nor the pending update.\<close>

definition same_sizes :: "Encoder \<Rightarrow> Encoder \<Rightarrow> bool" where
  "same_sizes e e' \<longleftrightarrow> en_max e' = en_max e \<and> en_floor e' = en_floor e \<and> en_assumed e' = en_assumed e
     \<and> en_pending e' = en_pending e"

lemma enc_insert_sizes: "enc_insert e n v = (e', ok) \<Longrightarrow> same_sizes e e'"
  by (auto simp: enc_insert_def same_sizes_def split: if_splits prod.splits)

lemma enc_op_sizes: "run_enc_op sv av dv x e out = (e', out') \<Longrightarrow> same_sizes e e'"
  using enc_insert_sizes
  by (cases x)
    (fastforce simp: same_sizes_def enc_field_def enc_content_type_def enc_server_def enc_alt_svc_def enc_hsts_def enc_date_def Let_def
      split: if_splits option.splits prod.splits bool.splits Policy.splits)+

lemma enc_ops_sizes: "same_sizes e (fst (enc_ops sv av dv ops e out))"
proof (induction ops arbitrary: e out)
  case (Cons x ops)
  obtain e1 out1 where r: "run_enc_op sv av dv x e out = (e1, out1)" by force
  show ?case using enc_op_sizes [OF r] Cons.IH [of e1 out1] r by (simp add: same_sizes_def)
qed (simp add: same_sizes_def)


subsection \<open>Any block leaves the decoder well formed\<close>

definition decoder_ok :: "Decoder \<Rightarrow> bool" where
  "decoder_ok d \<longleftrightarrow> dt_ok (de_table d) \<and> dt_capacity (de_table d) = de_ceiling d"

lemma decode_field_ok:
  assumes "decoder_ok d" and "decode_field d b block arena tot mx started = (t, arena', r)"
  shows "dt_ok t \<and> dt_capacity t = de_ceiling d"
  using assms dt.add_inv [of "de_table d"] dt.add_limit [of "de_table d"] dt.change_inv [of "de_table d"] dt.change_limit [of "de_table d"]
  unfolding decoder_ok_def decode_field_def decode_indexed_def decode_incremental_def decode_size_update_def decode_plain_def Let_def
  by (auto split: if_splits option.splits sum.splits prod.splits) (metis fst_conv)+

lemma decode_block_ok:
  "decode_block sink d arena mx tot started ctx block = (r, d', arena', ctx') \<Longrightarrow> decoder_ok d \<Longrightarrow>
    decoder_ok d' \<and> de_ceiling d' = de_ceiling d"
proof (induction sink d arena mx tot started ctx block rule: decode_block.induct)
  case (2 sink d arena mx tot started ctx b bs)
  obtain t arena1 res where f: "decode_field d b (b # bs) arena tot mx started = (t, arena1, res)" using prod_cases3 by blast
  have t: "dt_ok t" "dt_capacity t = de_ceiling d" using decode_field_ok [OF 2(4) f] by auto
  then have ok: "decoder_ok (d\<lparr>de_table := t\<rparr>)" "decoder_ok (d\<lparr>de_table := put_mark t origin m\<rparr>)" for origin m
    by (simp_all add: decoder_ok_def)
  show ?case
  proof (cases res)
    case (Inl e)
    then show ?thesis using 2(3) f ok by (auto simp: decode_block.simps(2))
  next
    case (Inr p)
    obtain rest fo where p: "p = (rest, fo)" by force
    show ?thesis
    proof (cases fo)
      case None
      then show ?thesis using 2(1) [OF f [symmetric] refl Inr p [symmetric] None] 2(3) f ok Inr p by (simp add: decode_block.simps(2))
    next
      case (Some g)
      obtain n v origin where g: "g = (n, v, origin)" using prod_cases3 by blast
      obtain ctx1 go m where sk: "sink ctx n v origin (get_mark t origin) = (ctx1, go, m)" using prod_cases3 by blast
      show ?thesis
      proof (cases "tot + (length n + length v + 32) > mx \<or> \<not> go")
        case True
        then show ?thesis using 2(3) f ok Inr p Some g sk by (auto simp: decode_block.simps(2) split: if_splits)
      next
        case False
        then show ?thesis using 2(2) [OF f [symmetric] refl Inr p [symmetric] Some g [symmetric] refl _ sk [symmetric] refl] 2(3) f ok Inr p Some g sk
          by (simp add: decode_block.simps(2))
      qed
    qed
  qed
qed simp


subsection \<open>Sessions\<close>

text \<open>A connection seen from the server: settings of the peer, and header blocks.\<close>

datatype enc_event = Ev_settings u32 | Ev_block "enc_op list"

definition encode_block :: "bytes \<Rightarrow> bytes \<Rightarrow> (int \<Rightarrow> bytes) \<Rightarrow> Encoder \<Rightarrow> enc_op list \<Rightarrow> Encoder \<times> bytes" where
  "encode_block sv av dv e ops = (case enc_begin e [] of (e, out) \<Rightarrow> enc_ops sv av dv ops e out)"

fun run_session ::
  "bytes \<Rightarrow> bytes \<Rightarrow> (int \<Rightarrow> bytes) \<Rightarrow> nat \<Rightarrow> Encoder \<Rightarrow> Decoder \<Rightarrow> enc_event list \<Rightarrow> (Result \<times> field list) list" where
  "run_session sv av dv mx e d [] = []"
| "run_session sv av dv mx e d (Ev_settings v # evs) = run_session sv av dv mx (set_peer_max e v) d evs"
| "run_session sv av dv mx e d (Ev_block ops # evs) =
     (case encode_block sv av dv e ops of
        (e, block) \<Rightarrow>
          (case hpack_decode collect d block [] mx [] of
             (r, d, _, fs) \<Rightarrow> (r, fs) # run_session sv av dv mx e d evs))"

fun session_fields :: "bytes \<Rightarrow> bytes \<Rightarrow> (int \<Rightarrow> bytes) \<Rightarrow> enc_event list \<Rightarrow> (Result \<times> field list) list" where
  "session_fields sv av dv [] = []"
| "session_fields sv av dv (Ev_settings v # evs) = session_fields sv av dv evs"
| "session_fields sv av dv (Ev_block ops # evs) = (dr_ok, map (op_pair sv av dv) ops) # session_fields sv av dv evs"

fun event_fits :: "bytes \<Rightarrow> bytes \<Rightarrow> (int \<Rightarrow> bytes) \<Rightarrow> nat \<Rightarrow> enc_event \<Rightarrow> bool" where
  "event_fits sv av dv mx (Ev_settings v) = True"
| "event_fits sv av dv mx (Ev_block ops) = (table_size (map (op_pair sv av dv) ops) \<le> mx)"

lemma encode_block_decode:
  assumes "synced sv av dv e d" and "table_size (map (op_pair sv av dv) ops) \<le> mx" and "mx < 2 ^ 32"
  shows "\<exists>d' arena'. hpack_decode collect d (snd (encode_block sv av dv e ops)) [] mx [] = (dr_ok, d', arena', map (op_pair sv av dv) ops)
    \<and> synced sv av dv (fst (encode_block sv av dv e ops)) d'"
proof -
  obtain e1 out1 where b: "enc_begin e [] = (e1, out1)" by force
  obtain t where t: "\<And>arena mx tot ctx rest. decode_block collect d arena mx tot False ctx (out1 @ rest)
      = decode_block collect (d\<lparr>de_table := t\<rparr>) arena mx tot False ctx rest"
    and sy: "synced sv av dv e1 (d\<lparr>de_table := t\<rparr>)" and ag: "agree e1 t"
    using enc_begin_decode [OF assms(1)] b by auto
  have inv: "enc_inv sv av dv e1" using sy by (simp add: synced_def)
  let ?d = "d\<lparr>de_table := t\<rparr>" and ?e = "fst (enc_ops sv av dv ops e1 out1)"
  obtain bs where bs: "snd (enc_ops sv av dv ops e1 out1) = out1 @ bs" "enc_inv sv av dv ?e"
    and dec: "\<forall>d arena tot started ctx. agree e1 (de_table d) \<longrightarrow> tot + table_size (map (op_pair sv av dv) ops) \<le> mx \<longrightarrow> mx < 2 ^ 32 \<longrightarrow>
        (\<exists>d' arena'. decode_block collect d arena mx tot started ctx bs = (dr_ok, d', arena', ctx @ map (op_pair sv av dv) ops)
          \<and> agree ?e (de_table d') \<and> de_ceiling d' = de_ceiling d)"
    using enc_ops_decode [OF inv ag, of ops out1 mx] by (elim exE conjE) (rule that)
  have "agree e1 (de_table ?d)" "0 + table_size (map (op_pair sv av dv) ops) \<le> mx" using ag assms(2) by simp_all
  from dec [rule_format, OF this assms(3), of "[]" False "[]"]
  obtain d' arena' where d': "decode_block collect ?d [] mx 0 False [] bs = (dr_ok, d', arena', map (op_pair sv av dv) ops)"
    "agree ?e (de_table d')" by auto
  have "decoder_ok ?d" using sy by (simp add: synced_def decoder_ok_def)
  from decode_block_ok [OF d'(1) this] have ok: "dt_capacity (de_table d') = de_ceiling d'" "de_ceiling d' = de_ceiling ?d"
    by (simp_all add: decoder_ok_def)
  have "\<not> en_pending e1" using b by (auto simp: enc_begin_def Let_def split: if_splits)
  then have "synced sv av dv ?e d'"
    using enc_ops_sizes [of e1 sv av dv ops out1] ok d'(2) bs(2) by (intro agree_synced [OF sy]) (simp_all add: same_sizes_def)
  then show ?thesis using d'(1) t [of "[]" mx 0 "[]" bs] bs(1) b by (simp add: encode_block_def hpack_decode_def)
qed

lemma run_session_synced:
  "synced sv av dv e d \<Longrightarrow> list_all (event_fits sv av dv mx) evs \<Longrightarrow> mx < 2 ^ 32 \<Longrightarrow>
    run_session sv av dv mx e d evs = session_fields sv av dv evs"
proof (induction evs arbitrary: e d)
  case (Cons x evs)
  show ?case
  proof (cases x)
    case (Ev_settings v)
    then show ?thesis using Cons set_peer_max_synced by simp
  next
    case (Ev_block ops)
    then show ?thesis using Cons encode_block_decode [OF Cons.prems(1), of ops mx] by (auto simp: split_beta)
  qed
qed simp

lemma synced_new: "synced sv av dv encoder_new (decoder_new 4096)"
  by (simp add: synced_def enc_inv_def enc_core_def encoder_new_def decoder_new_def remembers_def alive_def dt_new_list)
    (simp add: dt_new_def kMaxSize_def fit.simps)


subsection \<open>What a hostile block can cost\<close>

lemma huffman_decode_ok_append: "huffman_decode inp out m = (hs_ok, out') \<Longrightarrow> \<exists>s. out' = out @ s \<and> length s \<le> m"
proof -
  assume a: "huffman_decode inp out m = (hs_ok, out')"
  obtain s where s: "out' = out @ s"
    using a by (auto simp: huffman_decode_def Let_def huff_decode_loop_error split: sum.splits if_splits)
  then have "length s \<le> m" using a huffman_decode_ok_iff by blast
  with s show ?thesis by blast
qed

lemma read_string_arena:
  assumes "read_string inp arena m = (arena', r)"
  shows "case r of Inl _ \<Rightarrow> arena' = arena | Inr (s, _) \<Rightarrow> arena' = arena @ s \<and> length s \<le> m"
  using assms unfolding read_string_def Let_def
  by (auto dest!: huffman_decode_ok_append split: list.splits option.splits if_splits prod.splits HuffStatus.splits)

lemma budget_bound: "n \<le> budget tot mx used \<Longrightarrow> n = 0 \<or> tot + 32 + used + n \<le> mx"
  by (auto simp: budget_def Let_def split: if_splits)

lemma decode_name_arena:
  assumes "decode_name t p block arena tot mx = (arena', r)"
  shows "length arena' \<le> length arena + (mx - tot)"
    and "r = Inr (n, rest) \<Longrightarrow> length n \<le> budget tot mx 0 \<and> length arena' \<le> length arena + length n"
proof -
  have "length arena' \<le> length arena + (mx - tot) \<and>
      (r = Inr (n, rest) \<longrightarrow> length n \<le> budget tot mx 0 \<and> length arena' \<le> length arena + length n)"
  proof (cases "read_integer p block")
    case None
    then show ?thesis using assms by (auto simp: decode_name_def)
  next
    case (Some q)
    obtain index r1 where q: "q = (index, r1)" by force
    show ?thesis
    proof (cases "index = 0")
      case True
      obtain a sr where rs: "read_string r1 arena (budget tot mx 0) = (a, sr)" by force
      show ?thesis
        using assms Some q True rs read_string_arena [OF rs] budget_bound [of _ tot mx 0]
        by (cases sr) (fastforce simp: decode_name_def)+
    next
      case False
      then show ?thesis using assms Some q budget_bound [of _ tot mx 0]
        by (fastforce simp: decode_name_def split: option.splits if_splits)
    qed
  qed
  then show "length arena' \<le> length arena + (mx - tot)"
    and "r = Inr (n, rest) \<Longrightarrow> length n \<le> budget tot mx 0 \<and> length arena' \<le> length arena + length n" by auto
qed

lemma decode_literal_arena:
  assumes "decode_literal t p block arena tot mx = (arena', r)"
  shows "length arena' \<le> length arena + (mx - tot)"
    and "r = Inr (n, v, rest) \<Longrightarrow> length arena' \<le> length arena + length n + length v"
proof -
  obtain a nr where nm: "decode_name t p block arena tot mx = (a, nr)" by force
  have "length arena' \<le> length arena + (mx - tot) \<and> (r = Inr (n, v, rest) \<longrightarrow> length arena' \<le> length arena + length n + length v)"
  proof (cases nr)
    case (Inl e)
    then show ?thesis using assms nm decode_name_arena(1) [OF nm] by (auto simp: decode_literal_def)
  next
    case (Inr q)
    obtain n1 r1 where q: "q = (n1, r1)" by force
    note na = decode_name_arena [OF nm] 
    have n1: "length n1 \<le> budget tot mx 0 \<and> length a \<le> length arena + length n1" using na(2) Inr q by blast
    obtain a2 sr where rs: "read_string r1 a (budget tot mx (length n1)) = (a2, sr)" by force
    show ?thesis
    proof (cases sr)
      case (Inl e)
      then show ?thesis using assms nm Inr q rs read_string_arena [OF rs] na(1) by (auto simp: decode_literal_def)
    next
      case sr: (Inr q2)
      obtain v1 r2 where q2: "q2 = (v1, r2)" by force
      have a2: "a2 = a @ v1" "length v1 \<le> budget tot mx (length n1)" using read_string_arena [OF rs] sr q2 by auto
      have r: "arena' = a2" "r = Inr (n1, v1, r2)" using assms nm Inr q rs sr q2 by (auto simp: decode_literal_def)
      have "length n1 + length v1 \<le> mx - tot"
        using budget_bound [OF conjunct1 [OF n1]] budget_bound [OF a2(2)] by auto
      then show ?thesis using r a2 n1 by auto
    qed
  qed
  then show "length arena' \<le> length arena + (mx - tot)"
    and "r = Inr (n, v, rest) \<Longrightarrow> length arena' \<le> length arena + length n + length v" by auto
qed

text \<open>One turn copies at most what is left of the budget, and for a field at most its bytes.\<close>

definition turn_ok :: "bytes \<Rightarrow> nat \<Rightarrow> nat \<Rightarrow> DynamicTable \<times> bytes \<times> field_result \<Rightarrow> bool" where
  "turn_ok arena tot mx res \<longleftrightarrow>
     (case res of (t, arena', r) \<Rightarrow> length arena' \<le> length arena + (mx - tot) \<and>
        (case r of
           Inl _ \<Rightarrow> True
         | Inr (_, None) \<Rightarrow> arena' = arena
         | Inr (_, Some (n, v, _)) \<Rightarrow> length arena' \<le> length arena + length n + length v))"

lemma decode_field_turn: "turn_ok arena tot mx (decode_field d b block arena tot mx started)"
proof -
  have "turn_ok arena tot mx (decode_indexed (de_table d) block arena tot mx)"
    by (auto simp: turn_ok_def decode_indexed_def min_def split: option.split)
  moreover have "turn_ok arena tot mx (decode_incremental (de_table d) block arena tot mx)"
    using decode_literal_arena [of "de_table d" 6 block arena tot mx]
    by (fastforce simp: turn_ok_def decode_incremental_def split: sum.split prod.split)
  moreover have "turn_ok arena tot mx (decode_size_update d block arena started)"
    by (auto simp: turn_ok_def decode_size_update_def Let_def split: option.split)
  moreover have "turn_ok arena tot mx (decode_plain (de_table d) block arena tot mx)"
    using decode_literal_arena [of "de_table d" 4 block arena tot mx]
    by (fastforce simp: turn_ok_def decode_plain_def split: sum.split prod.split)
  ultimately show ?thesis by (simp add: decode_field_def)
qed

lemma decode_block_bounded:
  "decode_block collect d arena mx tot started ctx block = (r, d', arena', ctx') \<Longrightarrow> tot \<le> mx \<Longrightarrow>
    length arena' \<le> length arena + (mx - tot) \<and> (\<exists>fs. ctx' = ctx @ fs \<and> tot + table_size fs \<le> mx)"
proof (induction "collect" d arena mx tot started ctx block rule: decode_block.induct)
  case (2 d arena mx tot started ctx b bs)
  obtain t arena1 res where f: "decode_field d b (b # bs) arena tot mx started = (t, arena1, res)" using prod_cases3 by blast
  have turn: "turn_ok arena tot mx (t, arena1, res)" using decode_field_turn [of arena tot mx d b "b # bs" started] by (simp add: f)
  show ?case
  proof (cases res)
    case (Inl e)
    then show ?thesis using 2(3,4) f turn by (auto simp: decode_block.simps(2) turn_ok_def)
  next
    case (Inr p)
    obtain rest fo where p: "p = (rest, fo)" by force
    show ?thesis
    proof (cases fo)
      case None
      then show ?thesis using 2(1) [OF f [symmetric] refl Inr p [symmetric] None] 2(3,4) f turn Inr p
        by (simp add: decode_block.simps(2) turn_ok_def)
    next
      case (Some g)
      obtain n v origin where g: "g = (n, v, origin)" using prod_cases3 by blast
      have len: "length arena1 \<le> length arena + length n + length v" "length arena1 \<le> length arena + (mx - tot)"
        using turn Inr p Some g by (simp_all add: turn_ok_def)
      have sk: "collect ctx n v origin (get_mark t origin) = (ctx @ [(n, v)], True, 1)" by (simp add: collect_def)
      show ?thesis
      proof (cases "tot + (length n + length v + 32) > mx")
        case True
        then show ?thesis using 2(3,4) f Inr p Some g len by (auto simp: decode_block.simps(2))
      next
        case False
        let ?tot = "tot + (length n + length v + 32)"
        have "decode_block collect (d\<lparr>de_table := put_mark t origin 1\<rparr>) arena1 mx ?tot True (ctx @ [(n, v)]) rest = (r, d', arena', ctx')"
          using 2(3) f Inr p Some g sk False by (simp add: decode_block.simps(2))
        from 2(2) [OF f [symmetric] refl Inr p [symmetric] Some g [symmetric] refl False sk [symmetric] refl _ this] False
        obtain fs where "length arena' \<le> length arena1 + (mx - ?tot)" "ctx' = (ctx @ [(n, v)]) @ fs" "?tot + table_size fs \<le> mx" by auto
        then show ?thesis using len(1) False by (intro conjI exI [of _ "(n, v) # fs"]) auto
      qed
    qed
  qed
qed auto


subsection \<open>Properties\<close>

text \<open>
  C2. HPACK survives a whole connection: whatever settings the peer sends and whatever fields the
  responses carry (through \<open>field\<close>, \<open>content_type\<close>, \<open>server\<close>, \<open>date\<close>, \<open>alt_svc\<close> and \<open>hsts\<close>), every block
  the encoder writes decodes without error to exactly the fields it was given, the dynamic tables of
  both ends staying equal across insertions, evictions and size updates.
\<close>

theorem hpack_session_roundtrip:
  assumes "list_all (event_fits sv av dv mx) evs" and "mx < 2 ^ 32"
  shows "run_session sv av dv mx encoder_new (decoder_new 4096) evs = session_fields sv av dv evs"
  using assms by (rule run_session_synced [OF synced_new])

lemma hpack_session_roundtrip_witness:
  "run_session [1] [2] (\<lambda>s. [3]) 200 encoder_new (decoder_new 4096)
     [Ev_block [Op_server, Op_field [7] [8]], Ev_settings 0, Ev_block [Op_date 5, Op_field [7] [8]]]
   = [(dr_ok, [(n_server, [1]), ([7], [8])]), (dr_ok, [(n_date, [3]), ([7], [8])])]"
proof -
  let ?evs = "[Ev_block [Op_server, Op_field [7] [8]], Ev_settings 0, Ev_block [Op_date 5, Op_field [7] [8]]]"
  have "list_all (event_fits [1] [2] (\<lambda>s. [3]) 200) ?evs" "(200 :: nat) < 2 ^ 32" by (simp_all add: n_server_def n_date_def)
  from hpack_session_roundtrip [OF this] show ?thesis by simp
qed

text \<open>
  C26. A hostile block costs at most the list-size budget: whatever bytes arrive, decoding ends, the
  fields handed to the sink add up to at most \<open>max_list_size\<close> by the rule of RFC 7541 4.1, the arena
  grows by at most that many bytes, and the dynamic table keeps its invariant and stays within the
  ceiling the server advertised.
\<close>

theorem hpack_decode_bounded:
  "case hpack_decode collect d block arena max_list_size [] of (r, d', arena', fs) \<Rightarrow>
     table_size fs \<le> max_list_size \<and> length arena' \<le> length arena + max_list_size
     \<and> (decoder_ok d \<longrightarrow> decoder_ok d' \<and> dt_size (de_table d') \<le> de_ceiling d)"
proof -
  obtain r d' arena' fs where h: "hpack_decode collect d block arena max_list_size [] = (r, d', arena', fs)" using prod_cases4 by blast
  note h' = h [unfolded hpack_decode_def]
  have "dt_size (de_table d') \<le> de_ceiling d'" if "decoder_ok d'"
    using that dt.limit_le [of "de_table d'"] by (auto simp: decoder_ok_def dt_ok_def)
  then show ?thesis
    using decode_block_bounded [OF h'] decode_block_ok [OF h'] by (auto simp: h)
qed

lemma hpack_decode_bounded_witness:
  "case hpack_decode collect (decoder_new 4096) [0x82] [] 50 [] of (r, d', arena', fs) \<Rightarrow>
     table_size fs \<le> 50 \<and> decoder_ok d' \<and> dt_size (de_table d') \<le> 4096"
proof -
  have "dt_capacity (dt_new 4096) = 4096" by (simp add: dt_new_def)
  then have "decoder_ok (decoder_new 4096)" "de_ceiling (decoder_new 4096) = 4096" by (simp_all add: decoder_ok_def decoder_new_def)
  then show ?thesis using hpack_decode_bounded [where d = "decoder_new 4096" and block = "[0x82]" and arena = "[]" and max_list_size = 50] by auto
qed

end
