(* ===== verification/Quic_Packet.thy ===== *)
theory Quic_Packet
  imports Varint
begin

text \<open>
  QUIC packet headers (\<^verbatim>\<open>src/quic/packet.hpp\<close>): connection ids, the parser of the unprotected
  part of a header, packet numbers (their length, their truncation and their recovery, RFC 9000
  A.2 and A.3) and the Version Negotiation packet. A datagram \<open>[p, p + n)\<close> is the list of its
  bytes, a pointer into it the position; the header the parser fills is passed and returned, with
  the fields it had already set when it gives up.
\<close>

unbundle bit_operations_syntax

subsection \<open>Connection ids and headers\<close>

definition kVersion1 :: u32 where
  "kVersion1 = 0x00000001"

definition kMaxCidLen :: nat where
  "kMaxCidLen = 20"

definition kOurCidLen :: nat where
  "kOurCidLen = 8"

definition kMinInitialDatagram :: nat where
  "kMinInitialDatagram = 1200"

definition kAeadTagLen :: nat where
  "kAeadTagLen = 16"

definition kHpSampleLen :: nat where
  "kHpSampleLen = 16"

datatype LongType = lt_initial | lt_zero_rtt | lt_handshake | lt_retry

datatype Space = sp_initial | sp_handshake | sp_application

definition kSpaces :: nat where
  "kSpaces = 3"

text \<open>The array keeps its 20 bytes whatever the length in use.\<close>

record Cid =
  cid_len :: byte
  cid_bytes :: bytes

definition cid_new :: Cid where
  "cid_new = \<lparr>cid_len = 0, cid_bytes = replicate kMaxCidLen 0\<rparr>"

definition cid_view :: "Cid \<Rightarrow> bytes" where
  "cid_view c = take (unat (cid_len c)) (cid_bytes c)"

definition cid_eq :: "Cid \<Rightarrow> Cid \<Rightarrow> bool" where
  "cid_eq c o' \<longleftrightarrow> cid_len c = cid_len o' \<and>
     take (unat (cid_len c)) (cid_bytes c) = take (unat (cid_len c)) (cid_bytes o')"

definition cid_assign :: "Cid \<Rightarrow> bytes \<Rightarrow> nat \<Rightarrow> Cid" where
  "cid_assign c p n = (let l = if n > kMaxCidLen then kMaxCidLen else n in
     c\<lparr>cid_len := of_nat l, cid_bytes := overwrite (cid_bytes c) 0 (take l p)\<rparr>)"

text \<open>\<open>memcpy\<close> into a 64-bit key on the little-endian targets the server is built for.\<close>

definition cid_key :: "Cid \<Rightarrow> u64" where
  "cid_key c = be_word 0 (rev (take kOurCidLen (cid_bytes c)))"

definition cid_ok :: "Cid \<Rightarrow> bool" where
  "cid_ok c \<longleftrightarrow> length (cid_bytes c) = kMaxCidLen \<and> unat (cid_len c) \<le> kMaxCidLen"

record PacketHeader =
  long_form :: bool
  ph_type :: LongType
  version :: u32
  dcid :: Cid
  scid :: Cid
  token :: bytes
  pn_offset :: nat
  ph_length :: nat
  ph_total :: nat
  fixed_bit :: bool
  pn_len :: nat
  pn :: u64
  key_phase :: bool

definition header_new :: PacketHeader where
  "header_new = \<lparr>long_form = False, ph_type = lt_initial, version = 0, dcid = cid_new, scid = cid_new, token = [],
     pn_offset = 0, ph_length = 0, ph_total = 0, fixed_bit = False, pn_len = 0, pn = 0, key_phase = False\<rparr>"

text \<open>\<open>static_cast<LongType>((first >> 4) & 0x3)\<close>.\<close>

definition long_type :: "byte \<Rightarrow> LongType" where
  "long_type b = [lt_initial, lt_zero_rtt, lt_handshake, lt_retry] ! unat (drop_bit 4 b AND 3)"

text \<open>The parser's own varint, at a position of the datagram.\<close>

definition header_varint :: "bytes \<Rightarrow> nat \<Rightarrow> (u64 \<times> nat) option" where
  "header_varint p pos =
     (if pos \<ge> length p then None
      else let len = 2 ^ unat (drop_bit 6 (p ! pos)) in
        if pos + len > length p then None
        else Some (be_word (ucast (p ! pos AND 0x3f)) (take (len - 1) (drop (Suc pos) p)), pos + len))"

text \<open>The Length field, and what it bounds.\<close>

definition parse_length :: "bytes \<Rightarrow> nat \<Rightarrow> PacketHeader \<Rightarrow> bool \<times> PacketHeader" where
  "parse_length p pos h =
     (case header_varint p pos of
        None \<Rightarrow> (False, h)
      | Some (len, pos) \<Rightarrow>
          if unat len < 1 + kAeadTagLen \<or> unat len > length p - pos then (False, h)
          else (True, h\<lparr>pn_offset := pos, ph_length := unat len, ph_total := pos + unat len\<rparr>))"

text \<open>What follows the connection ids of a long header.\<close>

definition parse_long_tail :: "bytes \<Rightarrow> nat \<Rightarrow> PacketHeader \<Rightarrow> bool \<times> PacketHeader" where
  "parse_long_tail p pos h =
     (if version h \<noteq> kVersion1 then (True, h\<lparr>pn_offset := pos, ph_length := length p - pos, ph_total := length p\<rparr>)
      else let h = h\<lparr>ph_type := long_type (p ! 0)\<rparr> in
        if ph_type h = lt_retry then (True, h\<lparr>pn_offset := pos, ph_length := length p - pos, ph_total := length p\<rparr>)
        else if ph_type h = lt_initial then
          (case header_varint p pos of
             None \<Rightarrow> (False, h)
           | Some (tlen, pos) \<Rightarrow>
               if unat tlen > length p - pos then (False, h)
               else parse_length p (pos + unat tlen) (h\<lparr>token := take (unat tlen) (drop pos p)\<rparr>))
        else parse_length p pos h)"

definition parse_header :: "bytes \<Rightarrow> nat \<Rightarrow> PacketHeader \<Rightarrow> bool \<times> PacketHeader" where
  "parse_header p short_dcid_len h =
     (if length p < 1 then (False, h)
      else let h = h\<lparr>fixed_bit := p ! 0 AND 0x40 \<noteq> 0, long_form := p ! 0 AND 0x80 \<noteq> 0\<rparr> in
        if \<not> long_form h then
          if length p < 1 + short_dcid_len + 1 + kAeadTagLen then (False, h)
          else (True, h\<lparr>dcid := cid_assign (dcid h) (drop 1 p) short_dcid_len, pn_offset := 1 + short_dcid_len,
                  ph_length := length p - (1 + short_dcid_len), ph_total := length p\<rparr>)
        else if length p < 7 then (False, h)
        else let h = h\<lparr>version := be_word 0 (take 4 (drop 1 p))\<rparr>; dl = unat (p ! 5) in
          if dl > kMaxCidLen \<or> 6 + dl > length p then (False, h)
          else let h = h\<lparr>dcid := cid_assign (dcid h) (drop 6 p) dl\<rparr>; pos = 6 + dl in
            if pos \<ge> length p then (False, h)
            else let sl = unat (p ! pos); pos = pos + 1 in
              if sl > kMaxCidLen \<or> pos + sl > length p then (False, h)
              else parse_long_tail p (pos + sl) (h\<lparr>scid := cid_assign (scid h) (drop pos p) sl\<rparr>))"


subsection \<open>Packet numbers and Version Negotiation\<close>

definition pn_length :: "u64 \<Rightarrow> u64 \<Rightarrow> bool \<Rightarrow> nat" where
  "pn_length p largest_acked any_acked =
     (let unacked = if any_acked then p - largest_acked else p + 1; range = unacked * 2 + 1 in
      if range < 2 ^ 8 then 1 else if range < 2 ^ 16 then 2 else if range < 2 ^ 24 then 3 else 4)"

definition write_pn :: "u64 \<Rightarrow> nat \<Rightarrow> bytes" where
  "write_pn p len = map (\<lambda>i. ucast (drop_bit (8 * (len - 1 - i)) p)) [0..<len]"

definition decode_pn :: "u64 \<Rightarrow> bool \<Rightarrow> u64 \<Rightarrow> nat \<Rightarrow> u64" where
  "decode_pn largest_received any_received truncated pn_bits =
     (if \<not> any_received then truncated
      else let expected = largest_received + 1; win = push_bit pn_bits 1; hwin = drop_bit 1 win; mask' = win - 1;
             candidate = (expected AND NOT mask') OR truncated in
        if candidate + hwin \<le> expected \<and> candidate < push_bit 62 1 - win then candidate + win
        else if candidate > expected + hwin \<and> candidate \<ge> win then candidate - win
        else candidate)"

definition build_version_negotiation :: "nat \<Rightarrow> Cid \<Rightarrow> Cid \<Rightarrow> u32 \<Rightarrow> byte \<Rightarrow> bytes" where
  "build_version_negotiation cap to from' reserved random_first =
     (if cap < 1 + 4 + 1 + unat (cid_len to) + 1 + unat (cid_len from') + 8 then []
      else [0x80 OR (random_first AND 0x7f)] @ [0, 0, 0, 0] @ [cid_len to] @ take (unat (cid_len to)) (cid_bytes to)
        @ [cid_len from'] @ take (unat (cid_len from')) (cid_bytes from') @ be_bytes 4 kVersion1 @ be_bytes 4 reserved)"


subsection \<open>Recovering a packet number\<close>

lemma write_pn_be_bytes: "write_pn p len = be_bytes len p"
proof -
  have "be_bytes n p = map (\<lambda>i. ucast (drop_bit (8 * (n - 1 - i)) p)) [0..<n]" for n
  proof (induction n)
    case (Suc n)
    have "[0..<Suc n] = 0 # map Suc [0..<n]" by (simp add: upt_conv_Cons map_Suc_upt)
    then show ?case using Suc.IH by (simp add: comp_def)
  qed simp
  then show ?thesis by (simp add: write_pn_def)
qed

lemma unat_candidate:
  fixes e t :: u64
  assumes "k < 63" and "unat t < 2 ^ k"
  shows "unat ((e AND NOT (push_bit k 1 - 1)) OR t) = unat e div 2 ^ k * 2 ^ k + unat t"
proof -
  have m: "push_bit k 1 - 1 = (mask k :: u64)" by (simp add: mask_eq_exp_minus_1 push_bit_eq_mult)
  have tb: "take_bit k t = t" using assms(2) by (intro word_unat_eq_iff [THEN iffD2]) (simp add: unat_take_bit)
  have bits: "bit t i \<Longrightarrow> i < k" for i using tb by (metis bit_take_bit_iff)
  have "(e AND NOT (mask k)) OR t = (e AND NOT (mask k)) + t"
    by (rule disjunctive_add [symmetric]) (auto simp: bit_simps dest: bits)
  moreover have "unat (e AND NOT (mask k)) = unat e div 2 ^ k * 2 ^ k"
  proof -
    have "e AND NOT (mask k) = push_bit k (drop_bit k e)" by (rule bit_word_eqI) (auto simp: bit_simps)
    moreover have "unat e div 2 ^ k * 2 ^ k < 2 ^ 64"
      using le_less_trans [OF div_times_less_eq_dividend unsigned_less, of e "2 ^ k"] by simp
    ultimately show ?thesis by (simp add: unat_push_bit_less unat_drop_bit)
  qed
  moreover have "unat e div 2 ^ k * 2 ^ k + unat t < 2 ^ 64"
  proof -
    have "unat e div 2 ^ k < 2 ^ (64 - k)"
    proof (rule less_mult_imp_div_less)
      show "unat e < 2 ^ (64 - k) * 2 ^ k" using unsigned_less [of e, where 'a = nat] assms(1) by (simp flip: power_add)
    qed
    then have "unat e div 2 ^ k + 1 \<le> 2 ^ (64 - k)" by simp
    then have "(unat e div 2 ^ k + 1) * 2 ^ k \<le> 2 ^ (64 - k) * 2 ^ k" by (rule mult_le_mono1)
    moreover have "(2::nat) ^ (64 - k) * 2 ^ k = 2 ^ 64" using assms(1) by (simp flip: power_add)
    ultimately show ?thesis using assms(2) by simp
  qed
  ultimately show ?thesis using m by (simp add: unat_add_less)
qed

text \<open>The arithmetic core: the candidate whose low bits are those of \<open>q\<close>, nearest to what is expected.\<close>

lemma nearest_window:
  fixes q e w :: nat
  assumes w: "w = 2 * h" "0 < h" and q: "q \<le> e + h" "e < q + h"
  defines "c \<equiv> e div w * w + q mod w"
  shows "c = q \<and> \<not> c + h \<le> e \<and> \<not> c > e + h \<or> c + w = q \<and> c + h \<le> e
    \<or> c = q + w \<and> c > e + h \<and> \<not> c + h \<le> e \<or> c = q \<and> c = e + h \<and> \<not> c + h \<le> e"
proof -
  have e: "e = e div w * w + e mod w" and qd: "q = q div w * w + q mod w" by simp_all
  have ew: "e mod w < w" "q mod w < w" using w by simp_all
  have "q div w = e div w \<or> q div w = Suc (e div w) \<or> Suc (q div w) = e div w"
  proof -
    have "q div w \<le> (e + w) div w" using q w by (intro div_le_mono) simp
    moreover have "e div w \<le> (q + w) div w" using q w by (intro div_le_mono) simp
    ultimately show ?thesis using w by (simp add: div_add_self2 del: div_mult_self_is_m) linarith
  qed
  then show ?thesis
  proof (elim disjE)
    assume "q div w = e div w"
    then have "c = q" using qd by (simp add: c_def)
    with q show ?thesis by auto
  next
    assume "q div w = Suc (e div w)"
    then have "c + w = q" using qd by (simp add: c_def)
    with q w show ?thesis by auto
  next
    assume s: "Suc (q div w) = e div w"
    then have "c = q + w" using qd by (simp add: c_def flip: s)
    with q w show ?thesis by auto
  qed
qed

text \<open>\<open>decode_pn\<close> returns the number whose truncation it was given, if it lies in the window.\<close>

lemma decode_pn_window:
  fixes p l :: u64
  assumes k: "0 < k" "k \<le> 32" and small: "unat p < 2 ^ 62" "unat l < 2 ^ 62"
    and t: "unat t = unat p mod 2 ^ k"
    and win: "unat p \<le> unat l + 1 + 2 ^ (k - 1)" "unat l + 1 < unat p + 2 ^ (k - 1)"
  shows "decode_pn l True t k = p"
proof -
  define h w :: nat where "h = 2 ^ (k - 1)" and "w = 2 ^ k"
  have w: "w = 2 * h" "0 < h" using k by (auto simp: h_def w_def simp flip: power_Suc)
  have w32: "w \<le> 2 ^ 32" unfolding w_def using k by (intro power_increasing) auto
  have uw: "unat (push_bit k 1 :: u64) = w"
    by (subst unat_push_bit_less) (use w32 in \<open>auto simp: w_def\<close>)
  have uh: "unat (drop_bit 1 (push_bit k 1) :: u64) = h" unfolding unat_drop_bit uw using w by simp
  have ue: "unat (l + 1) = unat l + 1" using small by (subst unat_add_less) auto
  define c where "c = ((l + 1) AND NOT (push_bit k 1 - 1)) OR t"
  have tw: "unat t < 2 ^ k" using t by simp
  have uc: "unat c = (unat l + 1) div w * w + unat p mod w"
    unfolding c_def by (subst unat_candidate) (use k tw t ue in \<open>auto simp: w_def\<close>)
  have cb: "unat c < 2 ^ 62 + w"
  proof -
    have "(unat l + 1) div w * w \<le> unat l + 1" by (rule div_times_less_eq_dividend)
    moreover have "unat p mod w < w" using w by simp
    ultimately show ?thesis using uc small by linarith
  qed
  have uch: "unat (c + drop_bit 1 (push_bit k 1)) = unat c + h"
    by (subst unat_add_less) (use cb uh w w32 in auto)
  have ueh: "unat (l + 1 + drop_bit 1 (push_bit k 1)) = unat l + 1 + h"
    by (subst unat_add_less) (use ue uh w w32 small in auto)
  have ucw: "unat (c + push_bit k 1) = unat c + w" by (subst unat_add_less) (use cb uw w32 in auto)
  have lim: "unat (push_bit 62 1 - push_bit k 1 :: u64) = 2 ^ 62 - w"
    by (subst unat_sub) (use uw w32 in \<open>auto simp: word_le_nat_alt unat_push_bit_less\<close>)
  note cmp = word_le_nat_alt word_less_nat_alt uch ueh lim uw ue
  have d: "decode_pn l True t k =
      (if unat c + h \<le> unat l + 1 \<and> unat c < 2 ^ 62 - w then c + push_bit k 1
       else if unat c > unat l + 1 + h \<and> unat c \<ge> w then c - push_bit k 1 else c)"
    by (simp only: decode_pn_def Let_def c_def [symmetric] cmp) simp
  have n: "unat c = unat p \<and> \<not> unat c + h \<le> unat l + 1 \<and> \<not> unat c > unat l + 1 + h
      \<or> unat c + w = unat p \<and> unat c + h \<le> unat l + 1
      \<or> unat c = unat p + w \<and> unat c > unat l + 1 + h \<and> \<not> unat c + h \<le> unat l + 1
      \<or> unat c = unat p \<and> unat c = unat l + 1 + h \<and> \<not> unat c + h \<le> unat l + 1"
    using nearest_window [OF w, of "unat p" "unat l + 1"] win by (simp add: uc h_def)
  from n show ?thesis
  proof (elim disjE conjE)
    assume a: "unat c + w = unat p" "unat c + h \<le> unat l + 1"
    then have "unat c < 2 ^ 62 - w" using small by linarith
    with a have "decode_pn l True t k = c + push_bit k 1" by (simp add: d)
    with a ucw show ?thesis by (simp add: word_unat_eq_iff)
  next
    assume a: "unat c = unat p + w" "unat c > unat l + 1 + h" "\<not> unat c + h \<le> unat l + 1"
    then have "decode_pn l True t k = c - push_bit k 1" by (simp add: d)
    moreover have "unat (c - push_bit k 1) = unat c - w" by (subst unat_sub) (use a uw in \<open>auto simp: word_le_nat_alt\<close>)
    ultimately show ?thesis using a by (simp add: word_unat_eq_iff)
  qed (simp_all add: d word_unat_eq_iff)
qed

lemma pn_length_bounds:
  assumes "u = (if any then p - la else p + 1)" and "unat u < 2 ^ 31"
  shows "1 \<le> pn_length p la any" "pn_length p la any \<le> 4" "unat u < 2 ^ (8 * pn_length p la any - 1)"
proof -
  have "unat (u * 2 + 1) = unat u * 2 + 1"
    using assms(2) by (simp add: unat_word_ariths)
  then show "1 \<le> pn_length p la any" "pn_length p la any \<le> 4" "unat u < 2 ^ (8 * pn_length p la any - 1)"
    using assms(2) by (auto simp: pn_length_def Let_def word_less_nat_alt simp flip: assms(1))
qed

text \<open>The truncation that is sent.\<close>

lemma unat_truncated: "unat (be_word 0 (write_pn p len) :: u64) = unat p mod 2 ^ (8 * len)"
  by (simp add: write_pn_be_bytes be_word_be_bytes unat_take_bit)

text \<open>
  C14. A packet number survives the wire: the sender keeps as many bytes as \<open>pn_length\<close> says,
  the receiver completes them with \<open>decode_pn\<close>, and the number is the one sent, as long as fewer
  than \<open>2^31\<close> packets are in flight, the receiver has everything that was acknowledged, and the largest number it has
  seen is less than half of the window of the truncated number ahead (a packet reordered behind more than that is read as another
  number). It holds before any acknowledgement, and for a receiver that has seen no packet yet.
\<close>

theorem packet_number_roundtrip:
  fixes p acked largest :: u64
  assumes "p < 2 ^ 62" and "largest < 2 ^ 62"
    and "unacked = (if any_acked then unat p - unat acked else unat p + 1)" and "unacked < 2 ^ 31"
    and "any_acked \<longrightarrow> acked \<le> p \<and> any_received \<and> acked \<le> largest"
    and "len = pn_length p acked any_acked"
    and "any_received \<longrightarrow> unat largest + 1 < unat p + 2 ^ (8 * len - 1)"
  shows "decode_pn largest any_received (be_word 0 (write_pn p len)) (8 * len) = p"
proof -
  have small: "unat p < 2 ^ 62" "unat largest < 2 ^ 62" using assms(1,2) by (simp_all add: word_less_nat_alt)
  define u where "u = (if any_acked then p - acked else p + 1)"
  have u: "unat u = unacked"
    using assms(3,5) small by (auto simp: u_def unat_sub word_le_nat_alt unat_add_less)
  note len = pn_length_bounds [OF u_def, unfolded u, OF assms(4), folded assms(6)]
  show ?thesis
  proof (cases any_received)
    case True
    have "unat p \<le> unat largest + 1 + 2 ^ (8 * len - 1)"
      using len(3) assms(3,5) by (auto simp: word_le_nat_alt split: if_splits)
    with True show ?thesis
      using decode_pn_window [of "8 * len" p largest] len small assms(7) by (simp add: unat_truncated)
  next
    case False
    with assms(5) have "unat p < 2 ^ (8 * len - 1)" using len(3) assms(3) by simp
    also have "\<dots> \<le> 2 ^ (8 * len)" by (intro power_increasing) auto
    finally show ?thesis using False by (simp add: decode_pn_def word_unat_eq_iff unat_truncated)
  qed
qed

lemma packet_number_roundtrip_witness:
  "decode_pn 0xa82f30ea True (be_word 0 (write_pn 0xa82f9b32 2)) 16 = 0xa82f9b32
   \<and> pn_length 0xa82f9b32 0xa82f30ea True = 2"
proof -
  have l: "pn_length 0xa82f9b32 0xa82f30ea True = 2" by code_simp
  have "decode_pn 0xa82f30ea True (be_word 0 (write_pn 0xa82f9b32 2)) (8 * 2) = 0xa82f9b32"
    by (rule packet_number_roundtrip [where acked = "0xa82f30ea" and any_acked = True and unacked = 27208, OF _ _ _ _ _ l [symmetric]])
      simp_all
  with l show ?thesis by simp
qed


subsection \<open>What the header parser promises\<close>

lemma header_varint_read:
  "header_varint p pos = map_option (\<lambda>(v, r). (v, length p - length r)) (read_varint (drop pos p))"
proof (cases "pos < length p")
  case True
  then have "drop pos p = p ! pos # drop (Suc pos) p" by (simp add: Cons_nth_drop_Suc)
  with True show ?thesis by (auto simp: header_varint_def read_varint_def Let_def)
qed (simp add: header_varint_def read_varint_def)

lemma header_varint_pos: "header_varint p pos = Some (v, pos') \<Longrightarrow> pos < pos' \<and> pos' \<le> length p"
  by (auto simp: header_varint_def Let_def split: if_splits)

definition header_fits :: "bytes \<Rightarrow> PacketHeader \<Rightarrow> bool" where
  "header_fits p h \<longleftrightarrow> ph_total h = pn_offset h + ph_length h \<and> 0 < ph_total h \<and> ph_total h \<le> length p
     \<and> (\<not> long_form h \<or> version h = kVersion1 \<and> ph_type h \<noteq> lt_retry \<longrightarrow> kAeadTagLen < ph_length h)"

lemma parse_length_fits:
  assumes "parse_length p pos h = (True, h')" and "version h = kVersion1" "ph_type h \<noteq> lt_retry"
  shows "header_fits p h' \<and> dcid h' = dcid h \<and> scid h' = scid h \<and> token h' = token h"
  using assms by (auto simp: parse_length_def header_fits_def dest: header_varint_pos split: option.splits prod.splits if_splits)

lemma parse_long_tail_fits:
  assumes "parse_long_tail p pos h = (True, h')" and "pos \<le> length p" "p \<noteq> []" "long_form h"
  shows "header_fits p h' \<and> dcid h' = dcid h \<and> scid h' = scid h"
proof (cases "version h \<noteq> kVersion1 \<or> long_type (p ! 0) = lt_retry")
  case True
  with assms show ?thesis by (auto simp: parse_long_tail_def header_fits_def Let_def split: if_splits)
next
  case False
  with assms show ?thesis
    by (auto simp: parse_long_tail_def Let_def split: option.splits prod.splits if_splits dest!: parse_length_fits)
qed

lemma cid_assign_ok:
  assumes "cid_ok c" and "n \<le> length q"
  shows "cid_ok (cid_assign c q n)" and "cid_view (cid_assign c q n) = take (min n kMaxCidLen) q"
proof -
  have "of_nat l = (of_nat l :: byte) \<and> unat (of_nat l :: byte) = l" if "l \<le> 20" for l
    using that by (simp add: unsigned_of_nat take_bit_nat_eq_self)
  then show "cid_ok (cid_assign c q n)" "cid_view (cid_assign c q n) = take (min n kMaxCidLen) q"
    using assms by (auto simp: cid_ok_def cid_assign_def cid_view_def kMaxCidLen_def Let_def overwrite_def min_def)
qed

lemma parse_header_cases:
  assumes "parse_header p l h = (True, h')"
  obtains (short) "p ! 0 AND 0x80 = 0" "1 + l + 1 + kAeadTagLen \<le> length p"
      "h' = h\<lparr>fixed_bit := p ! 0 AND 0x40 \<noteq> 0, long_form := False, dcid := cid_assign (dcid h) (drop 1 p) l,
              pn_offset := 1 + l, ph_length := length p - (1 + l), ph_total := length p\<rparr>"
    | (long) dl sl h1 where "p ! 0 AND 0x80 \<noteq> 0" "dl = unat (p ! 5)" "dl \<le> kMaxCidLen" "6 + dl < length p"
      "sl = unat (p ! (6 + dl))" "sl \<le> kMaxCidLen" "7 + dl + sl \<le> length p"
      "parse_long_tail p (7 + dl + sl) h1 = (True, h')"
      "h1 = h\<lparr>fixed_bit := p ! 0 AND 0x40 \<noteq> 0, long_form := True, version := be_word 0 (take 4 (drop 1 p)),
              dcid := cid_assign (dcid h) (drop 6 p) dl, scid := cid_assign (scid h) (drop (7 + dl) p) sl\<rparr>"
proof (cases "p ! 0 AND 0x80 = 0")
  case True
  with assms show ?thesis by (intro short) (auto simp: parse_header_def Let_def split: if_splits)
next
  case False
  with assms show ?thesis
    by (intro long [of "unat (p ! 5)" "unat (p ! (6 + unat (p ! 5)))"]) (auto simp: parse_header_def Let_def split: if_splits)
qed

text \<open>
  C27. Whatever a peer sends, an accepted header stays inside its datagram: the packet is its
  header up to the packet number and \<open>length\<close> bytes after it, none past the end, at least one byte
  long (so the walk over a datagram's packets advances), longer than the AEAD tag where it is to be
  decrypted; the connection ids keep the 20 bytes of their arrays, the destination id and, of a long header, the source id
  are the bytes of the datagram their lengths announce, and a short header leaves the source id as it was.
\<close>

theorem parse_header_bounds:
  assumes "parse_header p l h = (True, h')" and "cid_ok (dcid h)" and "cid_ok (scid h)"
  shows "header_fits p h' \<and> cid_ok (dcid h') \<and> cid_ok (scid h')
    \<and> cid_view (dcid h') = (if long_form h' then take (unat (p ! 5)) (drop 6 p) else take (min l kMaxCidLen) (drop 1 p))
    \<and> (if long_form h' then cid_view (scid h') = take (unat (p ! (6 + unat (p ! 5)))) (drop (7 + unat (p ! 5)) p) else scid h' = scid h)"
  using assms(1)
proof (cases rule: parse_header_cases)
  case short
  then show ?thesis using assms cid_assign_ok [of "dcid h" l "drop 1 p"] by (auto simp: header_fits_def)
next
  case (long dl sl h1)
  then have "p \<noteq> []" "long_form h1" by auto
  from parse_long_tail_fits [OF long(8) long(7) this] long
  have *: "header_fits p h'" "dcid h' = dcid h1" "scid h' = scid h1" by auto
  have lf: "long_form h'" using long(8) \<open>long_form h1\<close>
    by (auto simp: parse_long_tail_def parse_length_def Let_def split: option.splits prod.splits if_splits)
  show ?thesis
    using * lf long cid_assign_ok [of "dcid h" dl "drop 6 p"] cid_assign_ok [of "scid h" sl "drop (7 + dl) p"] assms(2,3)
    by (simp add: min_def)
qed

text \<open>A short header, and a Handshake packet with ids of two and one bytes.\<close>

definition handshake_sample :: bytes where
  "handshake_sample = [0xe0, 0, 0, 0, 1, 2, 5, 6, 1, 9, 0x14] @ replicate 20 7"

lemma parse_header_bounds_witness:
  "(case parse_header (0x40 # replicate 30 7) 8 header_new of (ok, h) \<Rightarrow>
     ok \<and> header_fits (0x40 # replicate 30 7) h \<and> cid_view (dcid h) = replicate 8 7)
   \<and> (case parse_header handshake_sample 8 header_new of (ok, h) \<Rightarrow>
     ok \<and> header_fits handshake_sample h \<and> cid_view (dcid h) = [5, 6] \<and> cid_view (scid h) = [9])"
proof
  have ids: "cid_ok (dcid header_new)" "cid_ok (scid header_new)" by (simp_all add: header_new_def cid_new_def cid_ok_def)
  let ?r = "parse_header (0x40 # replicate 30 7) 8 header_new"
  have "fst ?r" by (simp add: parse_header_def kAeadTagLen_def Let_def)
  moreover have "\<not> long_form (snd ?r)" by (simp add: parse_header_def Let_def)
  ultimately show "case ?r of (ok, h) \<Rightarrow> ok \<and> header_fits (0x40 # replicate 30 7) h \<and> cid_view (dcid h) = replicate 8 7"
    using parse_header_bounds [of "0x40 # replicate 30 7" 8 header_new "snd ?r"] ids
    by (cases ?r) (simp add: kMaxCidLen_def)
  let ?q = "parse_header handshake_sample 8 header_new"
  have "fst ?q" "long_form (snd ?q)" by code_simp+
  then show "case ?q of (ok, h) \<Rightarrow> ok \<and> header_fits handshake_sample h \<and> cid_view (dcid h) = [5, 6] \<and> cid_view (scid h) = [9]"
    using parse_header_bounds [of handshake_sample 8 header_new "snd ?q"] ids
    by (cases ?q) (simp add: handshake_sample_def)
qed


subsection \<open>Version Negotiation\<close>

text \<open>
  What the server answers with is a packet its own parser reads: version 0, the client's ids
  swapped back, and the two versions as the opaque rest.
\<close>

lemma version_negotiation_parses:
  assumes "cid_ok to" "cid_ok from'" "cid_ok (dcid h)" "cid_ok (scid h)"
    and "1 + 4 + 1 + unat (cid_len to) + 1 + unat (cid_len from') + 8 \<le> cap"
  shows "case parse_header (build_version_negotiation cap to from' r x) l h of (ok, h') \<Rightarrow>
    ok \<and> long_form h' \<and> version h' = 0 \<and> cid_view (dcid h') = cid_view to \<and> cid_view (scid h') = cid_view from'
    \<and> drop (pn_offset h') (build_version_negotiation cap to from' r x) = be_bytes 4 kVersion1 @ be_bytes 4 r"
proof -
  define p where "p = build_version_negotiation cap to from' r x"
  let ?t = "take (unat (cid_len to)) (cid_bytes to)" and ?f = "take (unat (cid_len from')) (cid_bytes from')"
  have p: "p = [0x80 OR (x AND 0x7f), 0, 0, 0, 0, cid_len to] @ ?t @ [cid_len from'] @ ?f @ be_bytes 4 kVersion1 @ be_bytes 4 r"
    using assms(5) by (simp add: p_def build_version_negotiation_def)
  have lens: "length ?t = unat (cid_len to)" "length ?f = unat (cid_len from')" using assms by (auto simp: cid_ok_def)
  have b: "(0x80 OR (x AND 0x7f)) AND 0x80 = (0x80 :: byte)" by (rule bit_word_eqI) (auto simp: bit_simps)
  have at: "p ! 0 = 0x80 OR (x AND 0x7f)" "p ! 5 = cid_len to" "p ! (6 + unat (cid_len to)) = cid_len from'"
      "take 4 (drop 1 p) = [0, 0, 0, 0]" "drop 6 p = ?t @ [cid_len from'] @ ?f @ be_bytes 4 kVersion1 @ be_bytes 4 r"
    using lens by (simp_all add: p nth_append)
  have "p = ([0x80 OR (x AND 0x7f), 0, 0, 0, 0, cid_len to] @ ?t @ [cid_len from']) @ ?f @ be_bytes 4 kVersion1 @ be_bytes 4 r"
    "length ([0x80 OR (x AND 0x7f), 0, 0, 0, 0, cid_len to] @ ?t @ [cid_len from']) = 7 + unat (cid_len to)"
    using lens by (simp_all add: p)
  then have at': "drop (7 + unat (cid_len to)) p = ?f @ be_bytes 4 kVersion1 @ be_bytes 4 r" by (metis append_eq_conv_conj)
  then have at'': "drop (7 + unat (cid_len to) + unat (cid_len from')) p = be_bytes 4 kVersion1 @ be_bytes 4 r"
    using lens by (simp add: add.commute [of _ "unat (cid_len from')"] flip: drop_drop)
  have n: "length p = 15 + unat (cid_len to) + unat (cid_len from')" using lens by (simp add: p)
  have c: "unat (cid_len to) \<le> kMaxCidLen" "unat (cid_len from') \<le> kMaxCidLen" using assms by (auto simp: cid_ok_def)
  have nv: "(0 :: u32) \<noteq> kVersion1" by (simp add: kVersion1_def)
  show ?thesis
    using c n at at' at'' b nv assms(3,4) lens cid_assign_ok [of "dcid h" "unat (cid_len to)" "drop 6 p"]
      cid_assign_ok [of "scid h" "unat (cid_len from')" "drop (7 + unat (cid_len to)) p"]
    by (simp add: parse_header_def parse_long_tail_def Let_def cid_view_def min_def flip: p_def)
qed

end
