(* ===== verification/Quic_Frames.thy ===== *)
theory Quic_Frames
  imports Quic_Packet Range_Set Wire_Codec "HOL-Library.Monad_Syntax"
begin

text \<open>
  QUIC frames (\<^verbatim>\<open>src/quic/frames.hpp\<close>): the types and the spaces that may carry them, the encoders
  and the reader. An encoder writes into \<open>[p, p + cap)\<close> and returns the bytes written, 0 when the
  frame does not fit: its model returns those bytes, \<open>[]\<close> for 0. The reader takes the bytes from
  \<open>p\<close> to \<open>end\<close> and the frame object, which the caller reuses from frame to frame, so that fields a
  frame does not have keep their old values; it returns the object with the bytes left, or, on a
  malformed frame, the type it had read, which is all the caller uses then.
\<close>

unbundle bit_operations_syntax

subsection \<open>Types\<close>

definition frame_padding :: u64 where "frame_padding = 0x00"
definition frame_ping :: u64 where "frame_ping = 0x01"
definition frame_ack :: u64 where "frame_ack = 0x02"
definition frame_ack_ecn :: u64 where "frame_ack_ecn = 0x03"
definition frame_reset_stream :: u64 where "frame_reset_stream = 0x04"
definition frame_stop_sending :: u64 where "frame_stop_sending = 0x05"
definition frame_crypto :: u64 where "frame_crypto = 0x06"
definition frame_new_token :: u64 where "frame_new_token = 0x07"
definition frame_stream :: u64 where "frame_stream = 0x08"
definition frame_stream_max :: u64 where "frame_stream_max = 0x0f"
definition frame_max_data :: u64 where "frame_max_data = 0x10"
definition frame_max_stream_data :: u64 where "frame_max_stream_data = 0x11"
definition frame_max_streams_bidi :: u64 where "frame_max_streams_bidi = 0x12"
definition frame_max_streams_uni :: u64 where "frame_max_streams_uni = 0x13"
definition frame_data_blocked :: u64 where "frame_data_blocked = 0x14"
definition frame_stream_data_blocked :: u64 where "frame_stream_data_blocked = 0x15"
definition frame_streams_blocked_bidi :: u64 where "frame_streams_blocked_bidi = 0x16"
definition frame_streams_blocked_uni :: u64 where "frame_streams_blocked_uni = 0x17"
definition frame_new_connection_id :: u64 where "frame_new_connection_id = 0x18"
definition frame_retire_connection_id :: u64 where "frame_retire_connection_id = 0x19"
definition frame_path_challenge :: u64 where "frame_path_challenge = 0x1a"
definition frame_path_response :: u64 where "frame_path_response = 0x1b"
definition frame_connection_close :: u64 where "frame_connection_close = 0x1c"
definition frame_connection_close_app :: u64 where "frame_connection_close_app = 0x1d"
definition frame_handshake_done :: u64 where "frame_handshake_done = 0x1e"

lemmas frame_type_defs =
  frame_padding_def frame_ping_def frame_ack_def frame_ack_ecn_def frame_reset_stream_def frame_stop_sending_def
  frame_crypto_def frame_new_token_def frame_stream_def frame_stream_max_def frame_max_data_def
  frame_max_stream_data_def frame_max_streams_bidi_def frame_max_streams_uni_def frame_data_blocked_def
  frame_stream_data_blocked_def frame_streams_blocked_bidi_def frame_streams_blocked_uni_def
  frame_new_connection_id_def frame_retire_connection_id_def frame_path_challenge_def frame_path_response_def
  frame_connection_close_def frame_connection_close_app_def frame_handshake_done_def

definition kMaxAckRanges :: nat where
  "kMaxAckRanges = 32"

definition frame_allowed :: "u64 \<Rightarrow> Space \<Rightarrow> bool" where
  "frame_allowed type space =
     (if space = sp_application then type \<le> frame_handshake_done
      else type \<in> {frame_padding, frame_ping, frame_ack, frame_ack_ecn, frame_crypto, frame_connection_close})"

definition probing_frame :: "u64 \<Rightarrow> bool" where
  "probing_frame type \<longleftrightarrow> type = frame_padding \<or> type = frame_path_challenge \<or> type = frame_path_response
     \<or> type = frame_new_connection_id"

definition ack_eliciting :: "u64 \<Rightarrow> bool" where
  "ack_eliciting type \<longleftrightarrow> type \<noteq> frame_padding \<and> type \<noteq> frame_ack \<and> type \<noteq> frame_ack_ecn
     \<and> type \<noteq> frame_connection_close \<and> type \<noteq> frame_connection_close_app"


subsection \<open>Encoders\<close>

definition put_ping :: "nat \<Rightarrow> bytes" where
  "put_ping cap = (if cap < 1 then [] else [ucast frame_ping])"

definition put_handshake_done :: "nat \<Rightarrow> bytes" where
  "put_handshake_done cap = (if cap < 1 then [] else [ucast frame_handshake_done])"

text \<open>The lambda \<open>put\<close> of \<open>put_ack\<close>, \<open>q\<close> the bytes written so far, and its loop.\<close>

definition put_v :: "nat \<Rightarrow> bytes \<Rightarrow> u64 \<Rightarrow> bytes option" where
  "put_v cap q v = (if cap - length q < varint_size v then None else Some (q @ write_varint v))"

fun put_ack_loop :: "nat \<Rightarrow> u64 \<Rightarrow> range list \<Rightarrow> bytes \<Rightarrow> bytes option" where
  "put_ack_loop cap prev_begin [] q = Some q"
| "put_ack_loop cap prev_begin (x # xs) q =
     do { q \<leftarrow> put_v cap q (prev_begin - snd x - 1);
          q \<leftarrow> put_v cap q (snd x - fst x - 1);
          put_ack_loop cap (fst x) xs q }"

definition put_ack :: "nat \<Rightarrow> range_set \<Rightarrow> u64 \<Rightarrow> bytes" where
  "put_ack cap r delay =
     (case rev r of
        [] \<Rightarrow> []
      | x # xs \<Rightarrow>
          if cap = 0 then []
          else let count = min (length r - 1) kMaxAckRanges in
            (case do { q \<leftarrow> put_v cap [ucast frame_ack] (snd x - 1);
                       q \<leftarrow> put_v cap q delay;
                       q \<leftarrow> put_v cap q (of_nat count);
                       q \<leftarrow> put_v cap q (snd x - fst x - 1);
                       put_ack_loop cap (fst x) (take count xs) q } of
               None \<Rightarrow> [] | Some q \<Rightarrow> q))"

definition put_crypto_header :: "nat \<Rightarrow> u64 \<Rightarrow> nat \<Rightarrow> bytes" where
  "put_crypto_header cap offs len =
     (if cap < 1 + varint_size offs + varint_size (of_nat len) then []
      else [ucast frame_crypto] @ write_varint offs @ write_varint (of_nat len))"

definition stream_header_size :: "u64 \<Rightarrow> u64 \<Rightarrow> nat \<Rightarrow> bool \<Rightarrow> nat" where
  "stream_header_size sid offs len with_length =
     1 + varint_size sid + (if offs \<noteq> 0 then varint_size offs else 0) + (if with_length then varint_size (of_nat len) else 0)"

definition put_stream_header :: "nat \<Rightarrow> u64 \<Rightarrow> u64 \<Rightarrow> nat \<Rightarrow> bool \<Rightarrow> bool \<Rightarrow> bytes" where
  "put_stream_header cap sid offs len fin with_length =
     (if cap < stream_header_size sid offs len with_length then []
      else [ucast (frame_stream OR (if offs \<noteq> 0 then 0x04 else 0) OR (if with_length then 0x02 else 0)
              OR (if fin then 0x01 else 0))]
        @ write_varint sid @ (if offs \<noteq> 0 then write_varint offs else [])
        @ (if with_length then write_varint (of_nat len) else []))"

definition put_varints1 :: "nat \<Rightarrow> u64 \<Rightarrow> u64 \<Rightarrow> bytes" where
  "put_varints1 cap type a =
     (if cap < varint_size type + varint_size a then [] else write_varint type @ write_varint a)"

definition put_varints2 :: "nat \<Rightarrow> u64 \<Rightarrow> u64 \<Rightarrow> u64 \<Rightarrow> bytes" where
  "put_varints2 cap type a b =
     (if cap < varint_size type + varint_size a + varint_size b then []
      else write_varint type @ write_varint a @ write_varint b)"

definition put_varints3 :: "nat \<Rightarrow> u64 \<Rightarrow> u64 \<Rightarrow> u64 \<Rightarrow> u64 \<Rightarrow> bytes" where
  "put_varints3 cap type a b c =
     (if cap < varint_size type + varint_size a + varint_size b + varint_size c then []
      else write_varint type @ write_varint a @ write_varint b @ write_varint c)"

definition put_max_data :: "nat \<Rightarrow> u64 \<Rightarrow> bytes" where
  "put_max_data cap v = put_varints1 cap frame_max_data v"

definition put_max_stream_data :: "nat \<Rightarrow> u64 \<Rightarrow> u64 \<Rightarrow> bytes" where
  "put_max_stream_data cap sid v = put_varints2 cap frame_max_stream_data sid v"

definition put_max_streams :: "nat \<Rightarrow> bool \<Rightarrow> u64 \<Rightarrow> bytes" where
  "put_max_streams cap bidi v = put_varints1 cap (if bidi then frame_max_streams_bidi else frame_max_streams_uni) v"

definition put_reset_stream :: "nat \<Rightarrow> u64 \<Rightarrow> u64 \<Rightarrow> u64 \<Rightarrow> bytes" where
  "put_reset_stream cap sid code final_size = put_varints3 cap frame_reset_stream sid code final_size"

definition put_stop_sending :: "nat \<Rightarrow> u64 \<Rightarrow> u64 \<Rightarrow> bytes" where
  "put_stop_sending cap sid code = put_varints2 cap frame_stop_sending sid code"

definition put_retire_connection_id :: "nat \<Rightarrow> u64 \<Rightarrow> bytes" where
  "put_retire_connection_id cap seq = put_varints1 cap frame_retire_connection_id seq"

definition put_data_blocked :: "nat \<Rightarrow> u64 \<Rightarrow> bytes" where
  "put_data_blocked cap v = put_varints1 cap frame_data_blocked v"

definition put_stream_data_blocked :: "nat \<Rightarrow> u64 \<Rightarrow> u64 \<Rightarrow> bytes" where
  "put_stream_data_blocked cap sid v = put_varints2 cap frame_stream_data_blocked sid v"

definition put_path_response :: "nat \<Rightarrow> bytes \<Rightarrow> bytes" where
  "put_path_response cap data = (if cap < 9 then [] else ucast frame_path_response # take 8 data)"

definition put_path_challenge :: "nat \<Rightarrow> bytes \<Rightarrow> bytes" where
  "put_path_challenge cap data = (if cap < 9 then [] else ucast frame_path_challenge # take 8 data)"

definition put_new_connection_id :: "nat \<Rightarrow> u64 \<Rightarrow> u64 \<Rightarrow> Cid \<Rightarrow> bytes \<Rightarrow> bytes" where
  "put_new_connection_id cap seq retire_prior_to cid tok =
     (if cap < 1 + varint_size seq + varint_size retire_prior_to + 1 + unat (cid_len cid) + 16 then []
      else [ucast frame_new_connection_id] @ write_varint seq @ write_varint retire_prior_to
        @ [cid_len cid] @ take (unat (cid_len cid)) (cid_bytes cid) @ take 16 tok)"

definition put_connection_close :: "nat \<Rightarrow> bool \<Rightarrow> u64 \<Rightarrow> u64 \<Rightarrow> bytes \<Rightarrow> bytes" where
  "put_connection_close cap app code frame_type reason =
     (if cap < 1 + varint_size code + (if app then 0 else varint_size frame_type)
            + varint_size (of_nat (length reason)) + length reason then []
      else [ucast (if app then frame_connection_close_app else frame_connection_close)] @ write_varint code
        @ (if app then [] else write_varint frame_type) @ write_varint (of_nat (length reason)) @ reason)"


subsection \<open>The reader\<close>

text \<open>\<open>ranges\<close> holds the kept ranges, highest first: \<open>range_count\<close> is its length.\<close>

record Frame =
  f_type :: u64
  stream_id :: u64
  f_offset :: u64
  f_length :: u64
  f_fin :: bool
  f_data :: bytes
  largest_ack :: u64
  ack_delay :: u64
  f_ranges :: "range list"
  f_value :: u64
  f_value2 :: u64
  f_cid :: Cid
  f_token :: bytes
  f_reason :: bytes

definition frame_new :: Frame where
  "frame_new = \<lparr>f_type = 0, stream_id = 0, f_offset = 0, f_length = 0, f_fin = False, f_data = [], largest_ack = 0,
     ack_delay = 0, f_ranges = [], f_value = 0, f_value2 = 0, f_cid = cid_new, f_token = [], f_reason = []\<rparr>"

text \<open>The lambda \<open>bytes\<close>.\<close>

definition read_bytes :: "nat \<Rightarrow> bytes \<Rightarrow> (bytes \<times> bytes) option" where
  "read_bytes n p = (if n > length p then None else Some (take n p, drop n p))"

fun read_ack_loop :: "nat \<Rightarrow> u64 \<Rightarrow> range list \<Rightarrow> bytes \<Rightarrow> (range list \<times> bytes) option" where
  "read_ack_loop 0 smallest rs p = Some (rs, p)"
| "read_ack_loop (Suc n) smallest rs p =
     do { (gap, p) \<leftarrow> read_varint p;
          (len, p) \<leftarrow> read_varint p;
          if gap + 2 > smallest then None
          else let largest = smallest - gap - 2 in
            if len > largest then None
            else let smallest = largest - len in
              read_ack_loop n smallest (if length rs \<le> kMaxAckRanges then rs @ [(smallest, largest + 1)] else rs) p }"

definition read_ack :: "bytes \<Rightarrow> Frame \<Rightarrow> (Frame \<times> bytes) option" where
  "read_ack p f =
     do { (largest, p) \<leftarrow> read_varint p;
          (delay, p) \<leftarrow> read_varint p;
          (count, p) \<leftarrow> read_varint p;
          (first, p) \<leftarrow> read_varint p;
          if first > largest then None
          else do {
            (rs, p) \<leftarrow> read_ack_loop (unat count) (largest - first) [(largest - first, largest + 1)] p;
            let f = f\<lparr>largest_ack := largest, ack_delay := delay, f_ranges := take kMaxAckRanges rs\<rparr>;
            if f_type f = frame_ack_ecn then
              do { (ect0, p) \<leftarrow> read_varint p; (ect1, p) \<leftarrow> read_varint p; (ce, p) \<leftarrow> read_varint p; Some (f, p) }
            else Some (f, p) } }"

definition read_new_connection_id :: "bytes \<Rightarrow> Frame \<Rightarrow> (Frame \<times> bytes) option" where
  "read_new_connection_id p f =
     do { (v, p) \<leftarrow> read_varint p;
          (v2, p) \<leftarrow> read_varint p;
          if v2 > v then None
          else case p of
            [] \<Rightarrow> None
          | l # p \<Rightarrow>
              if l < 1 \<or> unat l > kMaxCidLen then None
              else do { (c, p) \<leftarrow> read_bytes (unat l) p;
                        (tok, p) \<leftarrow> read_bytes 16 p;
                        Some (f\<lparr>f_value := v, f_value2 := v2, f_cid := cid_assign (f_cid f) c (unat l), f_token := tok\<rparr>, p) } }"

definition read_connection_close :: "bytes \<Rightarrow> Frame \<Rightarrow> (Frame \<times> bytes) option" where
  "read_connection_close p f =
     do { (v, p) \<leftarrow> read_varint p;
          (f, p) \<leftarrow> (if f_type f = frame_connection_close
                     then map_option (\<lambda>(v2, p). (f\<lparr>f_value := v, f_value2 := v2\<rparr>, p)) (read_varint p)
                     else Some (f\<lparr>f_value := v\<rparr>, p));
          (len, p) \<leftarrow> read_varint p;
          (r, p) \<leftarrow> read_bytes (unat len) p;
          Some (f\<lparr>f_reason := r\<rparr>, p) }"

definition read_stream :: "bytes \<Rightarrow> Frame \<Rightarrow> (Frame \<times> bytes) option" where
  "read_stream p f =
     do { (sid, p) \<leftarrow> read_varint p;
          (offs, p) \<leftarrow> (if f_type f AND 0x04 \<noteq> 0 then read_varint p else Some (0, p));
          (len, p) \<leftarrow> (if f_type f AND 0x02 \<noteq> 0 then read_varint p else Some (of_nat (length p), p));
          if offs + len > kVarintMax then None
          else do { (d, p) \<leftarrow> read_bytes (unat len) p;
                    Some (f\<lparr>f_fin := f_type f AND 0x01 \<noteq> 0, stream_id := sid, f_offset := offs, f_length := len, f_data := d\<rparr>, p) } }"

definition read_body :: "bytes \<Rightarrow> Frame \<Rightarrow> (Frame \<times> bytes) option" where
  "read_body p f =
     (let t = f_type f in
      if t = frame_padding then Some (f, dropWhile (\<lambda>b. b = 0) p)
      else if t = frame_ping \<or> t = frame_handshake_done then Some (f, p)
      else if t = frame_ack \<or> t = frame_ack_ecn then read_ack p f
      else if t = frame_reset_stream then
        do { (sid, p) \<leftarrow> read_varint p; (v, p) \<leftarrow> read_varint p; (v2, p) \<leftarrow> read_varint p;
             Some (f\<lparr>stream_id := sid, f_value := v, f_value2 := v2\<rparr>, p) }
      else if t = frame_stop_sending then
        do { (sid, p) \<leftarrow> read_varint p; (v, p) \<leftarrow> read_varint p; Some (f\<lparr>stream_id := sid, f_value := v\<rparr>, p) }
      else if t = frame_crypto then
        do { (offs, p) \<leftarrow> read_varint p; (len, p) \<leftarrow> read_varint p; (d, p) \<leftarrow> read_bytes (unat len) p;
             Some (f\<lparr>f_offset := offs, f_length := len, f_data := d\<rparr>, p) }
      else if t = frame_new_token then
        do { (len, p) \<leftarrow> read_varint p;
             if len > 0 then do { (d, p) \<leftarrow> read_bytes (unat len) p; Some (f\<lparr>f_length := len, f_data := d\<rparr>, p) }
             else None }
      else if t \<in> {frame_max_data, frame_max_streams_bidi, frame_max_streams_uni, frame_data_blocked,
          frame_streams_blocked_bidi, frame_streams_blocked_uni, frame_retire_connection_id} then
        do { (v, p) \<leftarrow> read_varint p; Some (f\<lparr>f_value := v\<rparr>, p) }
      else if t = frame_max_stream_data \<or> t = frame_stream_data_blocked then
        do { (sid, p) \<leftarrow> read_varint p; (v, p) \<leftarrow> read_varint p; Some (f\<lparr>stream_id := sid, f_value := v\<rparr>, p) }
      else if t = frame_new_connection_id then read_new_connection_id p f
      else if t = frame_path_challenge \<or> t = frame_path_response then
        do { (d, p) \<leftarrow> read_bytes 8 p; Some (f\<lparr>f_token := d\<rparr>, p) }
      else if t = frame_connection_close \<or> t = frame_connection_close_app then read_connection_close p f
      else if t \<ge> frame_stream \<and> t \<le> frame_stream_max then read_stream p f
      else None)"

definition read_frame :: "bytes \<Rightarrow> Frame \<Rightarrow> u64 + (Frame \<times> bytes)" where
  "read_frame p f =
     (case read_varint p of
        None \<Rightarrow> Inl (f_type f)
      | Some (t, p) \<Rightarrow>
          (case read_body p (f\<lparr>f_type := t\<rparr>) of None \<Rightarrow> Inl t | Some r \<Rightarrow> Inr r))"


subsection \<open>Reading what was written\<close>

lemma read_type_byte: "b < 64 \<Longrightarrow> read_varint (b # rest) = Some (ucast b, rest)" for b :: byte
proof -
  assume b: "b < 64"
  then have "unat (drop_bit 6 b) = 0" "take_bit 6 b = b" by (simp_all add: unat_drop_bit word_less_nat_alt take_bit_of_less)
  then show ?thesis by (simp add: read_varint_def byte_and_3f)
qed

lemma read_bytes_append [simp]: "read_bytes (length d) (d @ rest) = Some (d, rest)"
  by (simp add: read_bytes_def)

lemma unat_of_length: "n < 2 ^ 62 \<Longrightarrow> unat (of_nat n :: u64) = n"
  by (simp add: unsigned_of_nat take_bit_nat_eq_self)

lemma of_length_max: "n < 2 ^ 62 \<Longrightarrow> (of_nat n :: u64) \<le> kVarintMax"
  by (simp add: kVarintMax_less word_less_nat_alt unat_of_length)

text \<open>The values an ACK frame has after its first range, and the order of the ranges they need.\<close>

fun ack_values :: "u64 \<Rightarrow> range list \<Rightarrow> u64 list" where
  "ack_values prev [] = []"
| "ack_values prev (x # xs) = (prev - snd x - 1) # (snd x - fst x - 1) # ack_values (fst x) xs"

fun ranges_below :: "u64 \<Rightarrow> range list \<Rightarrow> bool" where
  "ranges_below prev [] = True"
| "ranges_below prev (x # xs) \<longleftrightarrow> fst x < snd x \<and> snd x < prev \<and> ranges_below (fst x) xs"

lemma put_ack_loop_Some:
  "put_ack_loop cap prev xs q = Some q' \<Longrightarrow> q' = q @ concat (map write_varint (ack_values prev xs))"
proof (induction xs arbitrary: prev q)
  case (Cons x xs)
  from Cons.prems Cons.IH [of "fst x" "(q @ write_varint (prev - snd x - 1)) @ write_varint (snd x - fst x - 1)"]
  show ?case by (auto simp: put_v_def split: if_splits Option.bind_splits)
qed simp

lemma unat_pred: "0 < unat w \<Longrightarrow> unat (w - 1) = unat w - 1" for w :: "'a::len word"
  by (rule unat_minus_one) auto

lemma ack_gap:
  fixes prev b e :: u64
  assumes "b < e" "e < prev"
  shows "\<not> prev < prev - e - 1 + 2" "prev - (prev - e - 1) - 2 = e - 1" "\<not> e - 1 < e - b - 1"
    "e - 1 - (e - b - 1) = b" "prev - e - 1 \<le> prev" "e - b - 1 \<le> prev"
proof -
  note u = assms [unfolded word_less_nat_alt]
  have e1: "unat (e - 1) = unat e - 1" using u by (intro unat_minus_one) auto
  have "unat (prev - e) = unat prev - unat e" "unat (e - b) = unat e - unat b"
    using u by (simp_all add: unat_sub word_le_nat_alt)
  moreover from this have "unat (prev - e - 1) = unat prev - unat e - 1" "unat (e - b - 1) = unat e - unat b - 1"
    using u by (simp_all add: unat_pred)
  moreover have "unat (prev - e - 1 + 2) = unat prev - unat e - 1 + 2"
    using u calculation unsigned_less [of prev, where 'a = nat] by (subst unat_add_less) auto
  ultimately show "\<not> prev < prev - e - 1 + 2" "\<not> e - 1 < e - b - 1" "prev - e - 1 \<le> prev" "e - b - 1 \<le> prev"
    using u e1 by (auto simp: word_less_nat_alt word_le_nat_alt)
qed simp_all

lemma read_ack_loop_values:
  "ranges_below prev xs \<Longrightarrow> prev \<le> kVarintMax \<Longrightarrow> length rs \<le> Suc kMaxAckRanges \<Longrightarrow>
   read_ack_loop (length xs) prev rs (concat (map write_varint (ack_values prev xs)) @ rest)
     = Some (take (Suc kMaxAckRanges) (rs @ xs), rest)"
proof (induction xs arbitrary: prev rs)
  case (Cons x xs)
  then have o: "fst x < snd x" "snd x < prev" "ranges_below (fst x) xs" by simp_all
  note g = ack_gap [OF o(1,2)]
  have m: "prev - snd x - 1 \<le> kVarintMax" "snd x - fst x - 1 \<le> kVarintMax" "fst x \<le> kVarintMax"
    using g(5,6) o Cons.prems(2) by (auto intro: order_trans)
  define rs' where "rs' = (if length rs \<le> kMaxAckRanges then rs @ [x] else rs)"
  have "length rs' \<le> Suc kMaxAckRanges" using Cons.prems(3) by (simp add: rs'_def)
  from Cons.IH [OF o(3) m(3) this]
  have "read_ack_loop (length xs) (fst x) rs' (concat (map write_varint (ack_values (fst x) xs)) @ rest)
      = Some (take (Suc kMaxAckRanges) (rs' @ xs), rest)" .
  moreover have "take (Suc kMaxAckRanges) (rs' @ xs) = take (Suc kMaxAckRanges) (rs @ x # xs)"
    using Cons.prems(3) by (auto simp: rs'_def take_Cons')
  ultimately have ih: "read_ack_loop (length xs) (fst x) rs' (concat (map write_varint (ack_values (fst x) xs)) @ rest)
      = Some (take (Suc kMaxAckRanges) (rs @ x # xs), rest)" by (simp only:)
  then show ?case
    using g m by (simp add: read_write_varint Let_def rs'_def del: take_append split: if_splits)
qed simp

lemma ranges_below_rev:
  "rs_inv r \<Longrightarrow> \<forall>x\<in>set r. snd x < prev \<Longrightarrow> ranges_below prev (rev r)"
proof (induction r arbitrary: prev rule: rev_induct)
  case (snoc x r)
  then show ?case by (auto simp: rs_inv_append)
qed simp

lemma ranges_below_take: "ranges_below prev xs \<Longrightarrow> ranges_below prev (take n xs)"
proof (induction xs arbitrary: prev n)
  case (Cons x xs)
  then show ?case by (cases n) auto
qed simp

text \<open>Of the ranges written, at most \<open>kMaxAckRanges\<close> after the first, the reader keeps the first \<open>kMaxAckRanges\<close>.\<close>

lemma read_put_ack:
  assumes inv: "rs_inv r" and m: "\<forall>x\<in>set r. snd x \<le> kVarintMax" "delay \<le> kVarintMax" and w: "put_ack cap r delay \<noteq> []"
  shows "read_frame (put_ack cap r delay @ rest) f
    = Inr (f\<lparr>f_type := frame_ack, largest_ack := rs_max r, ack_delay := delay, f_ranges := take kMaxAckRanges (rev r)\<rparr>, rest)"
proof -
  from w obtain x xs where r: "rev r = x # xs" by (auto simp: put_ack_def split: list.splits)
  then have r': "r = rev xs @ [x]" by (metis rev_rev_ident rev.simps(2))
  define n where "n = min (length xs) kMaxAckRanges"
  have n: "n \<le> 32" "n = length (take n xs)" by (simp_all add: n_def kMaxAckRanges_def)
  let ?vs = "[snd x - 1, delay, of_nat n, snd x - fst x - 1] @ ack_values (fst x) (take n xs)"
  have put: "put_ack cap r delay = ucast frame_ack # concat (map write_varint ?vs)"
    using w by (auto simp: put_ack_def r r' Let_def n_def put_v_def dest!: put_ack_loop_Some split: if_splits Option.bind_splits option.splits)
  have x: "fst x < snd x" "\<forall>y\<in>set xs. snd y < fst x" "rs_inv (rev xs)" using inv by (auto simp: r' rs_inv_append)
  have u: "unat (snd x - 1) = unat (snd x) - 1" using x by (intro unat_minus_one) auto
  have x1: "unat (snd x - fst x - 1) = unat (snd x) - unat (fst x) - 1"
  proof -
    have "unat (snd x - fst x) = unat (snd x) - unat (fst x)" using x by (simp add: unat_sub)
    with x show ?thesis by (simp add: unat_pred word_less_nat_alt)
  qed
  have ge: "unat (fst x) < unat (snd x)" using x by (simp add: word_less_nat_alt)
  have le: "snd x - 1 \<le> snd x" "snd x - fst x - 1 \<le> snd x - 1" "fst x \<le> snd x"
    using u x1 ge by (simp_all add: word_le_nat_alt)
  have b: "snd x \<le> kVarintMax" using m by (auto simp: r')
  have mx: "snd x - 1 \<le> kVarintMax" "of_nat n \<le> kVarintMax" "snd x - fst x - 1 \<le> kVarintMax" "fst x \<le> kVarintMax"
    using le b n of_length_max [of n] by (auto intro: order_trans)
  have below: "ranges_below (fst x) (take n xs)"
    using ranges_below_rev [OF x(3), of "fst x"] x by (intro ranges_below_take) auto
  have loop: "read_ack_loop n (fst x) [x] (concat (map write_varint (ack_values (fst x) (take n xs))) @ rest)
      = Some (take (Suc kMaxAckRanges) (x # take n xs), rest)"
    using read_ack_loop_values [OF below mx(4), of "[x]"] n by (simp add: kMaxAckRanges_def)
  have tk: "take kMaxAckRanges (take (Suc kMaxAckRanges) (x # take n xs)) = take kMaxAckRanges (x # xs)"
    by (simp add: n_def min_def take_Cons' kMaxAckRanges_def)
  have un: "unat (of_nat n :: u64) = n" using n by (intro unat_of_length) simp
  have first: "snd x - 1 - (snd x - fst x - 1) = fst x" by simp
  have "read_ack (concat (map write_varint ?vs) @ rest) (f\<lparr>f_type := frame_ack\<rparr>)
      = Some (f\<lparr>f_type := frame_ack, largest_ack := snd x - 1, ack_delay := delay, f_ranges := take kMaxAckRanges (x # xs)\<rparr>, rest)"
    using mx m(2) le(2) loop tk un first
    by (simp add: read_ack_def read_write_varint Let_def frame_ack_def frame_ack_ecn_def)
  moreover have "rs_max r = snd x - 1" by (simp add: rs_max_def r')
  ultimately show ?thesis
    by (simp add: put read_frame_def read_type_byte read_body_def frame_type_defs r Let_def)
qed

text \<open>
  The frames the server writes, as values: what an encoder is called with, and what the receiver
  reads out of its frame object by the type.
\<close>

datatype frame_value =
    Fr_ping | Fr_handshake_done | Fr_ack range_set u64 | Fr_crypto u64 bytes | Fr_stream u64 u64 bool bytes
  | Fr_max_data u64 | Fr_max_stream_data u64 u64 | Fr_max_streams bool u64 | Fr_reset_stream u64 u64 u64
  | Fr_stop_sending u64 u64 | Fr_retire_connection_id u64 | Fr_data_blocked u64 | Fr_stream_data_blocked u64 u64
  | Fr_path_response bytes | Fr_path_challenge bytes | Fr_new_connection_id u64 u64 bytes bytes
  | Fr_connection_close u64 u64 bytes | Fr_connection_close_app u64 bytes

text \<open>What the encoder writes, and the data the caller copies after a header.\<close>

fun frame_head :: "nat \<Rightarrow> frame_value \<Rightarrow> bytes" where
  "frame_head cap Fr_ping = put_ping cap"
| "frame_head cap Fr_handshake_done = put_handshake_done cap"
| "frame_head cap (Fr_ack r delay) = put_ack cap r delay"
| "frame_head cap (Fr_crypto offs d) = put_crypto_header cap offs (length d)"
| "frame_head cap (Fr_stream sid offs fin d) = put_stream_header cap sid offs (length d) fin True"
| "frame_head cap (Fr_max_data v) = put_max_data cap v"
| "frame_head cap (Fr_max_stream_data sid v) = put_max_stream_data cap sid v"
| "frame_head cap (Fr_max_streams bidi v) = put_max_streams cap bidi v"
| "frame_head cap (Fr_reset_stream sid code n) = put_reset_stream cap sid code n"
| "frame_head cap (Fr_stop_sending sid code) = put_stop_sending cap sid code"
| "frame_head cap (Fr_retire_connection_id seq) = put_retire_connection_id cap seq"
| "frame_head cap (Fr_data_blocked v) = put_data_blocked cap v"
| "frame_head cap (Fr_stream_data_blocked sid v) = put_stream_data_blocked cap sid v"
| "frame_head cap (Fr_path_response d) = put_path_response cap d"
| "frame_head cap (Fr_path_challenge d) = put_path_challenge cap d"
| "frame_head cap (Fr_new_connection_id seq r c tok) = put_new_connection_id cap seq r (cid_assign cid_new c (length c)) tok"
| "frame_head cap (Fr_connection_close code t reason) = put_connection_close cap False code t reason"
| "frame_head cap (Fr_connection_close_app code reason) = put_connection_close cap True code 0 reason"

fun frame_payload :: "frame_value \<Rightarrow> bytes" where
  "frame_payload (Fr_crypto offs d) = d"
| "frame_payload (Fr_stream sid offs fin d) = d"
| "frame_payload x = []"

definition frame_put :: "nat \<Rightarrow> frame_value \<Rightarrow> bytes" where
  "frame_put cap x = frame_head cap x @ frame_payload x"

fun frame_valid :: "frame_value \<Rightarrow> bool" where
  "frame_valid Fr_ping = True"
| "frame_valid Fr_handshake_done = True"
| "frame_valid (Fr_ack r delay) \<longleftrightarrow> rs_inv r \<and> list_all (\<lambda>x. snd x \<le> kVarintMax) r \<and> length r \<le> kMaxAckRanges \<and> delay \<le> kVarintMax"
| "frame_valid (Fr_crypto offs d) \<longleftrightarrow> offs \<le> kVarintMax \<and> length d < 2 ^ 62"
| "frame_valid (Fr_stream sid offs fin d) \<longleftrightarrow> sid \<le> kVarintMax \<and> unat offs + length d < 2 ^ 62"
| "frame_valid (Fr_max_data v) \<longleftrightarrow> v \<le> kVarintMax"
| "frame_valid (Fr_max_stream_data sid v) \<longleftrightarrow> sid \<le> kVarintMax \<and> v \<le> kVarintMax"
| "frame_valid (Fr_max_streams bidi v) \<longleftrightarrow> v \<le> kVarintMax"
| "frame_valid (Fr_reset_stream sid code n) \<longleftrightarrow> sid \<le> kVarintMax \<and> code \<le> kVarintMax \<and> n \<le> kVarintMax"
| "frame_valid (Fr_stop_sending sid code) \<longleftrightarrow> sid \<le> kVarintMax \<and> code \<le> kVarintMax"
| "frame_valid (Fr_retire_connection_id seq) \<longleftrightarrow> seq \<le> kVarintMax"
| "frame_valid (Fr_data_blocked v) \<longleftrightarrow> v \<le> kVarintMax"
| "frame_valid (Fr_stream_data_blocked sid v) \<longleftrightarrow> sid \<le> kVarintMax \<and> v \<le> kVarintMax"
| "frame_valid (Fr_path_response d) \<longleftrightarrow> length d = 8"
| "frame_valid (Fr_path_challenge d) \<longleftrightarrow> length d = 8"
| "frame_valid (Fr_new_connection_id seq r c tok) \<longleftrightarrow>
     seq \<le> kVarintMax \<and> r \<le> seq \<and> 1 \<le> length c \<and> length c \<le> kMaxCidLen \<and> length tok = 16"
| "frame_valid (Fr_connection_close code t reason) \<longleftrightarrow> code \<le> kVarintMax \<and> t \<le> kVarintMax \<and> length reason < 2 ^ 62"
| "frame_valid (Fr_connection_close_app code reason) \<longleftrightarrow> code \<le> kVarintMax \<and> length reason < 2 ^ 62"

definition frame_of :: "Frame \<Rightarrow> frame_value option" where
  "frame_of f =
     (let t = f_type f in
      if t = frame_ping then Some Fr_ping
      else if t = frame_handshake_done then Some Fr_handshake_done
      else if t = frame_ack then Some (Fr_ack (rev (f_ranges f)) (ack_delay f))
      else if t = frame_crypto then Some (Fr_crypto (f_offset f) (f_data f))
      else if frame_stream \<le> t \<and> t \<le> frame_stream_max then Some (Fr_stream (stream_id f) (f_offset f) (f_fin f) (f_data f))
      else if t = frame_max_data then Some (Fr_max_data (f_value f))
      else if t = frame_max_stream_data then Some (Fr_max_stream_data (stream_id f) (f_value f))
      else if t = frame_max_streams_bidi then Some (Fr_max_streams True (f_value f))
      else if t = frame_max_streams_uni then Some (Fr_max_streams False (f_value f))
      else if t = frame_reset_stream then Some (Fr_reset_stream (stream_id f) (f_value f) (f_value2 f))
      else if t = frame_stop_sending then Some (Fr_stop_sending (stream_id f) (f_value f))
      else if t = frame_retire_connection_id then Some (Fr_retire_connection_id (f_value f))
      else if t = frame_data_blocked then Some (Fr_data_blocked (f_value f))
      else if t = frame_stream_data_blocked then Some (Fr_stream_data_blocked (stream_id f) (f_value f))
      else if t = frame_path_response then Some (Fr_path_response (f_token f))
      else if t = frame_path_challenge then Some (Fr_path_challenge (f_token f))
      else if t = frame_new_connection_id then
        Some (Fr_new_connection_id (f_value f) (f_value2 f) (cid_view (f_cid f)) (f_token f))
      else if t = frame_connection_close then Some (Fr_connection_close (f_value f) (f_value2 f) (f_reason f))
      else if t = frame_connection_close_app then Some (Fr_connection_close_app (f_value f) (f_reason f))
      else None)"

definition reads_as :: "frame_value \<Rightarrow> bytes \<Rightarrow> Frame \<Rightarrow> bytes \<Rightarrow> bool" where
  "reads_as x p f rest \<longleftrightarrow>
     (case read_frame p f of Inl t \<Rightarrow> False | Inr (f', r) \<Rightarrow> r = rest \<and> frame_of f' = Some x \<and> cid_ok (f_cid f'))"

lemmas read_simps = read_frame_def read_body_def frame_of_def reads_as_def Let_def read_type_byte read_write_varint

lemma reads_simple:
  assumes "cid_ok (f_cid f)" "frame_head cap x \<noteq> []" "frame_valid x"
  shows "x = Fr_ping \<Longrightarrow> reads_as x (frame_put cap x @ rest) f rest"
    and "x = Fr_handshake_done \<Longrightarrow> reads_as x (frame_put cap x @ rest) f rest"
    and "x = Fr_path_response d \<Longrightarrow> reads_as x (frame_put cap x @ rest) f rest"
    and "x = Fr_path_challenge d \<Longrightarrow> reads_as x (frame_put cap x @ rest) f rest"
  using assms
  by (auto simp: frame_put_def read_simps frame_type_defs put_ping_def put_handshake_done_def put_path_response_def
    put_path_challenge_def read_bytes_def split: if_splits)

lemma write_type:
  "t < 64 \<Longrightarrow> write_varint t = [ucast t]"
  by (simp add: write_varint_def varint_size_def write_varint_fixed_def)

lemma reads_varints:
  assumes "cid_ok (f_cid f)" "frame_head cap x \<noteq> []" "frame_valid x"
  shows "x = Fr_max_data v \<Longrightarrow> reads_as x (frame_put cap x @ rest) f rest"
    and "x = Fr_retire_connection_id v \<Longrightarrow> reads_as x (frame_put cap x @ rest) f rest"
    and "x = Fr_data_blocked v \<Longrightarrow> reads_as x (frame_put cap x @ rest) f rest"
    and "x = Fr_max_streams bidi v \<Longrightarrow> reads_as x (frame_put cap x @ rest) f rest"
    and "x = Fr_max_stream_data sid v \<Longrightarrow> reads_as x (frame_put cap x @ rest) f rest"
    and "x = Fr_stop_sending sid v \<Longrightarrow> reads_as x (frame_put cap x @ rest) f rest"
    and "x = Fr_stream_data_blocked sid v \<Longrightarrow> reads_as x (frame_put cap x @ rest) f rest"
    and "x = Fr_reset_stream sid v n \<Longrightarrow> reads_as x (frame_put cap x @ rest) f rest"
  using assms
  by (cases bidi; auto simp: frame_put_def read_simps frame_type_defs write_type put_varints1_def put_varints2_def put_varints3_def
    put_max_data_def put_retire_connection_id_def put_data_blocked_def put_max_streams_def put_max_stream_data_def
    put_stop_sending_def put_stream_data_blocked_def put_reset_stream_def split: if_splits)+

lemma reads_data:
  assumes "cid_ok (f_cid f)" "frame_head cap x \<noteq> []" "frame_valid x"
  shows "x = Fr_crypto offs d \<Longrightarrow> reads_as x (frame_put cap x @ rest) f rest"
    and "x = Fr_connection_close v t reason \<Longrightarrow> reads_as x (frame_put cap x @ rest) f rest"
    and "x = Fr_connection_close_app v reason \<Longrightarrow> reads_as x (frame_put cap x @ rest) f rest"
  using assms
  by (auto simp: frame_put_def read_simps frame_type_defs put_crypto_header_def put_connection_close_def
    read_connection_close_def of_length_max unat_of_length split: if_splits)

lemma reads_stream:
  assumes "cid_ok (f_cid f)" "frame_head cap (Fr_stream sid offs fin d) \<noteq> []" "frame_valid (Fr_stream sid offs fin d)"
  shows "reads_as (Fr_stream sid offs fin d) (frame_put cap (Fr_stream sid offs fin d) @ rest) f rest"
proof -
  have n: "length d < 2 ^ 62" "offs \<le> kVarintMax" using assms by (auto simp: kVarintMax_less word_less_nat_alt)
  have s: "\<not> kVarintMax < offs + of_nat (length d)"
  proof -
    have "unat (offs + of_nat (length d)) = unat offs + length d"
      using assms by (subst unat_add_less) (auto simp: unat_of_length)
    then have "offs + of_nat (length d) < 2 ^ 62" using assms by (simp add: word_less_nat_alt)
    then show ?thesis unfolding not_less kVarintMax_less .
  qed
  show ?thesis
    using assms n s unat_of_length [OF n(1)]
    by (cases fin; cases "offs = 0") (auto simp: frame_put_def read_simps frame_type_defs put_stream_header_def
      read_stream_def of_length_max split: if_splits)
qed

lemma reads_new_connection_id:
  assumes "cid_ok (f_cid f)" "frame_head cap x \<noteq> []" "frame_valid x" and x: "x = Fr_new_connection_id seq r c tok"
  shows "reads_as x (frame_put cap x @ rest) f rest"
proof -
  have c: "1 \<le> length c" "length c \<le> 20" "length tok = 16" "r \<le> kVarintMax" "\<not> seq < r" "seq \<le> kVarintMax"
    using assms by (auto simp: kMaxCidLen_def intro: order_trans)
  have "cid_ok cid_new" by (simp add: cid_ok_def cid_new_def)
  note a = cid_assign_ok [OF this, of "length c" c] cid_assign_ok [OF assms(1), of "length c" c]
  have l: "cid_len (cid_assign cid_new c (length c)) = of_nat (length c)" using c by (simp add: cid_assign_def kMaxCidLen_def Let_def)
  have u: "unat (of_nat (length c) :: byte) = length c" using c by (simp add: unsigned_of_nat take_bit_nat_eq_self)
  have p1: "\<not> (of_nat (length c) :: byte) < 1" unfolding word_less_nat_alt u using c by auto
  have v: "take (length c) (cid_bytes (cid_assign cid_new c (length c))) = c"
    using a(2) l u c by (simp add: cid_view_def kMaxCidLen_def)
  have put: "frame_put cap x = 0x18 # write_varint seq @ write_varint r @ of_nat (length c) # c @ tok"
    using assms(2) c l u v by (auto simp: x frame_put_def put_new_connection_id_def frame_type_defs split: if_splits)
  show ?thesis
    unfolding put using a(3,4) c u p1
    by (simp add: read_simps frame_type_defs read_new_connection_id_def x read_bytes_def kMaxCidLen_def)
qed

text \<open>Every frame, whatever follows it and whatever the object held before.\<close>

lemma read_put_frame:
  assumes "cid_ok (f_cid f)" "frame_head cap x \<noteq> []" "frame_valid x"
  shows "reads_as x (frame_put cap x @ rest) f rest"
proof (cases x)
  case (Fr_ack r delay)
  with assms have "rs_inv r" "\<forall>x\<in>set r. snd x \<le> kVarintMax" "delay \<le> kVarintMax" "put_ack cap r delay \<noteq> []" "length r \<le> kMaxAckRanges"
    by (auto simp: list_all_iff)
  with read_put_ack [of r delay cap rest f] assms(1) Fr_ack show ?thesis
    by (simp add: reads_as_def frame_put_def frame_of_def frame_type_defs)
next
  case (Fr_stream sid offs fin d)
  with assms reads_stream show ?thesis by simp
qed (erule reads_simple [OF assms] reads_varints [OF assms] reads_data [OF assms] reads_new_connection_id [OF assms])+



subsection \<open>What a peer can send\<close>

lemma read_varint_max: "read_varint p = Some (v, r) \<Longrightarrow> v \<le> kVarintMax"
proof (erule read_varint_bounds_lemma)
  fix n :: nat assume "n \<in> {1, 2, 4, 8}" "v < 2 ^ (8 * n - 2)"
  then show "v \<le> kVarintMax" by (auto simp: kVarintMax_less word_less_nat_alt)
qed

lemma read_bytes_Some: "read_bytes n p = Some (d, r) \<Longrightarrow> length d = n \<and> p = d @ r"
  by (auto simp: read_bytes_def split: if_splits)

text \<open>The ranges of an ACK: highest first, disjoint, each with packets in it, none above the largest.\<close>

lemma ranges_below_snoc:
  assumes "ranges_below prev rs" "rs \<noteq> []" "b < e" "e < fst (last rs)"
  shows "ranges_below prev (rs @ [(b, e)])"
  using assms by (induction rs arbitrary: prev) (auto split: if_splits)

lemma ack_step:
  fixes smallest gap len :: u64
  assumes "\<not> smallest < gap + 2" "gap \<le> kVarintMax" "\<not> smallest - gap - 2 < len" "smallest \<le> kVarintMax"
  shows "smallest - gap - 2 - len < smallest - gap - 2 + 1" "smallest - gap - 2 + 1 < smallest"
    "smallest - gap - 2 - len \<le> kVarintMax"
proof -
  have u: "unat gap < 2 ^ 62" "unat smallest < 2 ^ 62"
    using assms(2,4) unfolding kVarintMax_less word_less_nat_alt by simp_all
  then have g: "unat (gap + 2) = unat gap + 2" by (subst unat_add_less) auto
  then have ge: "unat gap + 2 \<le> unat smallest" using assms(1) by (simp add: word_less_nat_alt)
  then have l: "unat (smallest - gap - 2) = unat smallest - unat gap - 2"
    using g by (simp add: diff_diff_eq unat_sub word_le_nat_alt)
  with assms(3) have s: "unat (smallest - gap - 2 - len) = unat smallest - unat gap - 2 - unat len"
    by (simp add: unat_sub word_le_nat_alt not_less)
  moreover have "unat (smallest - gap - 2 + 1) = unat smallest - unat gap - 1"
    using l ge u by (subst unat_add_less) auto
  ultimately show "smallest - gap - 2 - len < smallest - gap - 2 + 1" "smallest - gap - 2 + 1 < smallest"
    using ge by (simp_all add: word_less_nat_alt)
  have "unat (smallest - gap - 2 - len) < 2 ^ 62" using s u by simp
  then show "smallest - gap - 2 - len \<le> kVarintMax" unfolding kVarintMax_less word_less_nat_alt by simp
qed

lemma read_ack_loop_ranges:
  assumes "read_ack_loop n smallest rs p = Some (rs', r)" "rs \<noteq> []" "ranges_below prev rs"
    "smallest \<le> fst (last rs)" "smallest \<le> kVarintMax"
  shows "ranges_below prev rs' \<and> length r \<le> length p \<and> hd rs' = hd rs \<and> rs' \<noteq> []"
  using assms
proof (induction n arbitrary: smallest rs p)
  case (Suc n)
  from Suc.prems(1) obtain gap len p1 p2 where v: "read_varint p = Some (gap, p1)" "read_varint p1 = Some (len, p2)"
    and ok: "\<not> smallest < gap + 2" "\<not> smallest - gap - 2 < len"
    and go: "read_ack_loop n (smallest - gap - 2 - len)
      (if length rs \<le> kMaxAckRanges then rs @ [(smallest - gap - 2 - len, smallest - gap - 2 + 1)] else rs) p2 = Some (rs', r)"
    by (auto simp: Let_def split: Option.bind_splits if_splits)
  note st = ack_step [OF ok(1) read_varint_max [OF v(1)] ok(2) Suc.prems(5)]
  have lt: "smallest - gap - 2 - len \<le> fst (last rs)" "smallest - gap - 2 + 1 < fst (last rs)"
    using st(1,2) Suc.prems(4) by auto
  define rs1 where "rs1 = (if length rs \<le> kMaxAckRanges then rs @ [(smallest - gap - 2 - len, smallest - gap - 2 + 1)] else rs)"
  have "rs1 \<noteq> []" "ranges_below prev rs1" "smallest - gap - 2 - len \<le> fst (last rs1)" "hd rs1 = hd rs"
    using Suc.prems(2,3) lt ranges_below_snoc [OF Suc.prems(3,2) st(1) lt(2)] by (simp_all add: rs1_def)
  from Suc.IH [OF go [folded rs1_def] this(1-3) st(3)] this(4) read_varint_shorter [OF v(1)] read_varint_shorter [OF v(2)]
  show ?case by simp
qed simp

lemma rs_inv_rev_below: "ranges_below prev xs \<Longrightarrow> rs_inv (rev xs) \<and> (\<forall>x\<in>set xs. snd x < prev)"
proof (induction xs arbitrary: prev)
  case (Cons x xs)
  then have "rs_inv (rev xs)" "\<forall>y\<in>set xs. snd y < fst x" by auto
  with Cons.prems show ?case by (fastforce simp: rs_inv_append)
qed simp

definition ack_sound :: "Frame \<Rightarrow> bool" where
  "ack_sound f \<longleftrightarrow> f_ranges f \<noteq> [] \<and> length (f_ranges f) \<le> kMaxAckRanges \<and> rs_inv (rev (f_ranges f))
     \<and> rs_max (rev (f_ranges f)) = largest_ack f"

lemma read_ack_sound:
  assumes "read_ack p f = Some (f', r)"
  shows "ack_sound f' \<and> length r < length p \<and> f_type f' = f_type f"
proof -
  from assms obtain largest delay count first rs p1 p2 p3 p4 p5 where v: "read_varint p = Some (largest, p1)"
      "read_varint p1 = Some (delay, p2)" "read_varint p2 = Some (count, p3)" "read_varint p3 = Some (first, p4)"
    and fl: "\<not> largest < first"
    and loop: "read_ack_loop (unat count) (largest - first) [(largest - first, largest + 1)] p4 = Some (rs, p5)"
    and f': "f' = f\<lparr>largest_ack := largest, ack_delay := delay, f_ranges := take kMaxAckRanges rs\<rparr>"
    and r: "length r \<le> length p5"
    by (auto simp: read_ack_def Let_def split: Option.bind_splits if_splits dest!: read_varint_shorter)
  have m: "unat largest < 2 ^ 62"
    using read_varint_max [OF v(1)] unfolding kVarintMax_less word_less_nat_alt by simp
  then have u: "unat (largest + 1) = unat largest + 1" "unat (largest + 2) = unat largest + 2"
      "unat (largest - first) = unat largest - unat first"
    using fl by (auto simp: unat_add_less unat_sub)
  then have ok: "largest - first \<le> kVarintMax" "ranges_below (largest + 2) [(largest - first, largest + 1)]"
    using m unfolding kVarintMax_less by (simp_all add: word_less_nat_alt)
  from read_ack_loop_ranges [OF loop _ ok(2) _ ok(1)]
  have rs: "ranges_below (largest + 2) rs" "length p5 \<le> length p4" "hd rs = (largest - first, largest + 1)" "rs \<noteq> []" by auto
  have "take kMaxAckRanges rs \<noteq> []" "hd (take kMaxAckRanges rs) = hd rs" using rs(4) by (cases rs; simp add: kMaxAckRanges_def)+
  then have "ack_sound f'"
    using rs_inv_rev_below [OF ranges_below_take [OF rs(1)]] rs(3) by (simp add: ack_sound_def f' rs_max_def last_rev)
  moreover have "length r < length p" using r rs(2) v [THEN read_varint_shorter] by linarith
  ultimately show ?thesis by (simp add: f')
qed

lemma read_stream_sound:
  assumes "read_stream p f = Some (f', r)" and "length p < 2 ^ 62"
  shows "unat (f_offset f') + unat (f_length f') < 2 ^ 62 \<and> length (f_data f') = unat (f_length f')
    \<and> length r < length p \<and> f_type f' = f_type f"
proof -
  from assms obtain sid offs len d p1 p2 p3 where v: "read_varint p = Some (sid, p1)"
    and o: "(if f_type f AND 0x04 \<noteq> 0 then read_varint p1 else Some (0, p1)) = Some (offs, p2)"
    and l: "(if f_type f AND 0x02 \<noteq> 0 then read_varint p2 else Some (of_nat (length p2), p2)) = Some (len, p3)"
    and le: "\<not> kVarintMax < offs + len" and d: "read_bytes (unat len) p3 = Some (d, r)"
    and f': "f' = f\<lparr>f_fin := f_type f AND 0x01 \<noteq> 0, stream_id := sid, f_offset := offs, f_length := len, f_data := d\<rparr>"
    by (auto simp: read_stream_def simp del: if_split split: Option.bind_splits if_split_asm)
  have p1: "length p1 < length p" by (rule read_varint_shorter [OF v])
  have o': "length p2 \<le> length p1" "unat offs < 2 ^ 62"
    using o read_varint_max [of p1 offs p2] read_varint_shorter [of p1 offs p2]
    by (auto simp: kVarintMax_less word_less_nat_alt split: if_splits)
  have l': "length p3 \<le> length p2" "unat len < 2 ^ 62"
    using l o' p1 assms(2) read_varint_max [of p2 len p3] read_varint_shorter [of p2 len p3]
    by (auto simp: kVarintMax_less word_less_nat_alt unat_of_length split: if_splits)
  have "unat (offs + len) < 2 ^ 62" using le unfolding not_less kVarintMax_less by (simp add: word_less_nat_alt)
  moreover have "unat (offs + len) = unat offs + unat len" using o' l' by (subst unat_add_less) auto
  ultimately show ?thesis using read_bytes_Some [OF d] p1 o' l' by (auto simp: f')
qed

text \<open>Elimination rules for the reader's steps, so that each branch of a parser is one goal.\<close>

lemma bind_varintE:
  assumes "Option.bind (read_varint p) (\<lambda>(v, p). k v p) = Some y"
  obtains v p' where "read_varint p = Some (v, p')" "length p' < length p" "k v p' = Some y"
  using assms by (auto split: Option.bind_splits dest: read_varint_shorter)

lemma bind_bytesE:
  assumes "Option.bind (read_bytes n p) (\<lambda>(d, p). k d p) = Some y"
  obtains d p' where "length d = n" "length p' \<le> length p" "k d p' = Some y"
proof (cases "read_bytes n p")
  case (Some a)
  with assms read_bytes_Some [of n p "fst a" "snd a"] that [of "fst a" "snd a"] show ?thesis by (cases a) auto
qed (use assms in simp)

lemma bind_optionalE:
  assumes "Option.bind (if c then read_varint p else Some (x, p)) (\<lambda>(v, p). k v p) = Some y"
  obtains v p' where "length p' \<le> length p" "k v p' = Some y"
proof (cases c)
  case True
  with assms have "Option.bind (read_varint p) (\<lambda>(v, p). k v p) = Some y" by simp
  then show ?thesis
  proof (elim bind_varintE)
    fix v p' assume "length p' < length p" "k v p' = Some y"
    then show thesis by (intro that [of p' v]) auto
  qed
qed (use assms that [of p x] in simp)

lemma if_SomeE:
  assumes "(if c then a else b) = Some y"
  obtains "c" "a = Some y" | "\<not> c" "b = Some y"
  using assms by (auto split: if_splits)

lemmas read_elims = if_SomeE bind_varintE bind_bytesE bind_optionalE

lemma read_new_connection_id_shorter:
  assumes "read_new_connection_id p f = Some (f', r)"
  shows "length r \<le> length p \<and> f_type f' = f_type f"
  using assms unfolding read_new_connection_id_def
  by (elim read_elims) (auto split: list.splits elim!: read_elims)

lemma read_connection_close_shorter:
  assumes "read_connection_close p f = Some (f', r)"
  shows "length r \<le> length p \<and> f_type f' = f_type f"
  using assms unfolding read_connection_close_def
  by (elim read_elims) (auto split: if_splits Option.bind_splits elim!: read_elims dest!: read_varint_shorter read_bytes_Some)

lemma read_stream_shorter:
  assumes "read_stream p f = Some (f', r)"
  shows "length r \<le> length p \<and> f_type f' = f_type f"
  using assms unfolding read_stream_def
  by (elim read_elims) auto

lemma read_body_shorter:
  assumes "read_body p f = Some (f', r)"
  shows "length r \<le> length p \<and> f_type f' = f_type f"
  using assms unfolding read_body_def Let_def
  by (elim read_elims) (auto simp: length_dropWhile_le dest: read_ack_sound read_new_connection_id_shorter
      read_connection_close_shorter read_stream_shorter)

lemma read_frame_shorter: "read_frame p f = Inr (f', r) \<Longrightarrow> length r < length p"
  by (auto simp: read_frame_def split: option.splits dest!: read_body_shorter read_varint_shorter)

text \<open>
  C28. Whatever a peer sends, reading a frame makes progress and yields values the connection can
  use without further checks: at least one byte is consumed, an ACK has between one and
  \<open>kMaxAckRanges\<close> ranges which, lowest first, are a well-formed range set whose maximum is the largest
  acknowledged, and the data of a STREAM frame is as long as its length field and ends below
  \<open>2^62\<close>, so that no offset computed from it wraps.
\<close>

theorem read_frame_sound:
  assumes "read_frame p f = Inr (f', r)" and "length p < 2 ^ 62"
  shows "length r < length p
    \<and> (f_type f' \<in> {frame_ack, frame_ack_ecn} \<longrightarrow> ack_sound f')
    \<and> (f_type f' \<in> {frame_stream..frame_stream_max} \<longrightarrow>
         unat (f_offset f') + unat (f_length f') < 2 ^ 62 \<and> length (f_data f') = unat (f_length f'))"
proof -
  from assms(1) obtain t p1 where t: "read_varint p = Some (t, p1)" and b: "read_body p1 (f\<lparr>f_type := t\<rparr>) = Some (f', r)"
    by (auto simp: read_frame_def split: option.splits)
  have ty: "f_type f' = t" using read_body_shorter [OF b] by simp
  have a: "ack_sound f'" if "t \<in> {frame_ack, frame_ack_ecn}"
    using that b read_ack_sound by (auto simp: read_body_def frame_type_defs)
  have s: "read_stream p1 (f\<lparr>f_type := t\<rparr>) = Some (f', r)" if "t \<in> {frame_stream..frame_stream_max}"
    using b that by (auto simp: read_body_def Let_def frame_type_defs word_le_nat_alt split: if_splits)
  show ?thesis
    using read_frame_shorter [OF assms(1)] a s ty read_stream_sound [of p1 "f\<lparr>f_type := t\<rparr>" f' r]
      read_varint_shorter [OF t] assms(2) by auto
qed

lemma read_frame_sound_witness:
  "case read_frame [0x02, 10, 0, 1, 2, 3, 1] frame_new of Inl t \<Rightarrow> False
   | Inr (f, r) \<Rightarrow> ack_sound f \<and> f_ranges f = [(8, 11), (2, 4)] \<and> r = []"
proof -
  let ?r = "read_frame [0x02, 10, 0, 1, 2, 3, 1] frame_new"
  have "?r = Inr (frame_new\<lparr>f_type := 2, largest_ack := 10, ack_delay := 0, f_ranges := [(8, 11), (2, 4)]\<rparr>, [])" by code_simp
  with read_frame_sound [OF this] show ?thesis by (simp add: frame_type_defs)
qed

text \<open>The walk over a decrypted payload: \<open>while (p < end)\<close>, the frame object reused.\<close>

function read_frames :: "bytes \<Rightarrow> Frame \<Rightarrow> u64 + Frame list" where
  "read_frames p f =
     (if p = [] then Inr []
      else case read_frame p f of
        Inl t \<Rightarrow> Inl t
      | Inr (f', r) \<Rightarrow> (case read_frames r f' of Inl t \<Rightarrow> Inl t | Inr fs \<Rightarrow> Inr (f' # fs)))"
  by pat_completeness auto
termination
  by (relation "measure (length \<circ> fst)") (auto dest: read_frame_shorter)

declare read_frames.simps [simp del]

lemma frame_head_put: "frame_head cap x \<noteq> [] \<Longrightarrow> frame_put cap x \<noteq> []"
  by (simp add: frame_put_def)

lemma read_frames_put:
  "cid_ok (f_cid f) \<Longrightarrow> list_all (\<lambda>x. frame_valid x \<and> frame_head cap x \<noteq> []) xs \<Longrightarrow>
   \<exists>fs. read_frames (concat (map (frame_put cap) xs)) f = Inr fs \<and> map frame_of fs = map Some xs"
proof (induction xs arbitrary: f)
  case Nil
  then show ?case by (simp add: read_frames.simps)
next
  case (Cons x xs)
  let ?rest = "concat (map (frame_put cap) xs)"
  from Cons.prems read_put_frame [of f cap x ?rest] have "reads_as x (frame_put cap x @ ?rest) f ?rest" by simp
  then obtain f' where f': "read_frame (frame_put cap x @ ?rest) f = Inr (f', ?rest)" "frame_of f' = Some x" "cid_ok (f_cid f')"
    by (auto simp: reads_as_def split: sum.splits)
  from Cons.IH [OF f'(3)] Cons.prems obtain fs where "read_frames ?rest f' = Inr fs" "map frame_of fs = map Some xs" by auto
  then show ?case using f' Cons.prems by (simp add: read_frames.simps [of "frame_put cap x @ ?rest"] frame_head_put)
qed

text \<open>
  C13. A payload written by the encoders reads back: frames of every kind the server sends (an ACK with
  at most 32 ranges, as many as the reader keeps), put one after another wherever they fit, are read as exactly these frames in this order, with the frame
  object reused from one to the next.
\<close>

theorem quic_frames_roundtrip:
  assumes "list_all (\<lambda>x. frame_valid x \<and> frame_head cap x \<noteq> []) xs"
  shows "map_sum id (map frame_of) (read_frames (concat (map (frame_put cap) xs)) frame_new) = Inr (map Some xs)"
proof -
  have "cid_ok (f_cid frame_new)" by (simp add: frame_new_def cid_new_def cid_ok_def)
  from read_frames_put [OF this assms] show ?thesis by auto
qed

lemma quic_frames_roundtrip_witness:
  "map_sum id (map frame_of) (read_frames (concat (map (frame_put 1200)
     [Fr_ack [(0, 3), (5, 9)] 7, Fr_crypto 0 [1, 2, 3], Fr_stream 4 0 True [9, 9], Fr_handshake_done])) frame_new)
   = Inr (map Some [Fr_ack [(0, 3), (5, 9)] 7, Fr_crypto 0 [1, 2, 3], Fr_stream 4 0 True [9, 9], Fr_handshake_done])"
proof (rule quic_frames_roundtrip)
  have "put_ack 1200 [(0, 3), (5, 9)] 7 = [2, 8, 7, 1, 3, 1, 2]" by code_simp
  moreover have "(n :: u64) < 2 ^ 62 \<Longrightarrow> n \<le> kVarintMax" for n by (simp add: kVarintMax_less)
  ultimately show "list_all (\<lambda>x. frame_valid x \<and> frame_head 1200 x \<noteq> [])
     [Fr_ack [(0, 3), (5, 9)] 7, Fr_crypto 0 [1, 2, 3], Fr_stream 4 0 True [9, 9], Fr_handshake_done]"
    by (simp add: put_crypto_header_def put_stream_header_def put_handshake_done_def stream_header_size_def
      varint_size_def kMaxAckRanges_def)
qed

end
