(* ===== verification/Timer_Heap.thy ===== *)
theory Timer_Heap
  imports Prelude
begin

text \<open>
  The worker's deadline heap (\<^verbatim>\<open>src/quic/timer_heap.hpp\<close>): a binary heap of pointers to the
  connections' \<open>Timed\<close> objects, each of which stores its own index in the heap. The objects live in
  a store from addresses to \<open>Timed\<close>, part of the state here because the heap writes the indices
  into it; a \<open>steady_clock::time_point\<close> is its count as an \<open>int\<close> (only compared) and \<open>npos\<close> is
  \<open>None\<close>. \<open>schedule\<close> and \<open>unschedule\<close> of \<^verbatim>\<open>src/quic/udp.hpp\<close> are the only callers.
\<close>

subsection \<open>The code\<close>

record Timed =
  deadline :: int
  heap_index :: "nat option"

record TimerHeap =
  th_v :: "nat list"
  th_mem :: "nat \<Rightarrow> Timed"

definition time_max :: int where
  "time_max = 2 ^ 63 - 1"

definition th_empty :: "TimerHeap \<Rightarrow> bool" where
  "th_empty h \<longleftrightarrow> th_v h = []"

definition th_top :: "TimerHeap \<Rightarrow> nat option" where
  "th_top h = (case th_v h of [] \<Rightarrow> None | t # _ \<Rightarrow> Some t)"

definition th_earliest :: "TimerHeap \<Rightarrow> int" where
  "th_earliest h = (case th_v h of [] \<Rightarrow> time_max | t # _ \<Rightarrow> deadline (th_mem h t))"

text \<open>\<open>v_[i]->deadline\<close>, and the write of a heap index through a pointer.\<close>

definition th_key :: "TimerHeap \<Rightarrow> nat \<Rightarrow> int" where
  "th_key h i = deadline (th_mem h (th_v h ! i))"

definition set_index :: "nat \<Rightarrow> nat option \<Rightarrow> TimerHeap \<Rightarrow> TimerHeap" where
  "set_index t i h = h\<lparr>th_mem := (th_mem h)(t := th_mem h t\<lparr>heap_index := i\<rparr>)\<rparr>"

definition th_swap :: "TimerHeap \<Rightarrow> nat \<Rightarrow> nat \<Rightarrow> TimerHeap" where
  "th_swap h a b =
     (let v = (th_v h)[a := th_v h ! b, b := th_v h ! a] in
      set_index (v ! b) (Some b) (set_index (v ! a) (Some a) (h\<lparr>th_v := v\<rparr>)))"

function th_up_loop :: "TimerHeap \<Rightarrow> nat \<Rightarrow> bool \<Rightarrow> bool \<times> TimerHeap" where
  "th_up_loop h i moved =
     (if i > 0 then
        let parent = (i - 1) div 2 in
        if \<not> th_key h i < th_key h parent then (moved, h)
        else th_up_loop (th_swap h i parent) parent True
      else (moved, h))"
  by pat_completeness auto
termination by (relation "measure (\<lambda>(h, i, m). i)") auto

definition th_up :: "TimerHeap \<Rightarrow> nat \<Rightarrow> bool \<times> TimerHeap" where
  "th_up h i = th_up_loop h i False"

text \<open>The child \<open>down\<close> goes to, or the index itself.\<close>

definition down_child :: "TimerHeap \<Rightarrow> nat \<Rightarrow> nat" where
  "down_child h i =
     (let l = 2 * i + 1; r = l + 1; m = i;
          m = if l < length (th_v h) \<and> th_key h l < th_key h m then l else m in
      if r < length (th_v h) \<and> th_key h r < th_key h m then r else m)"

lemma down_child_gt: "down_child h i \<noteq> i \<Longrightarrow> i < down_child h i \<and> down_child h i < length (th_v h)"
  by (auto simp: down_child_def Let_def split: if_splits)

lemma length_th_swap [simp]: "length (th_v (th_swap h a b)) = length (th_v h)"
  by (simp add: th_swap_def set_index_def Let_def)

function th_down :: "TimerHeap \<Rightarrow> nat \<Rightarrow> TimerHeap" where
  "th_down h i = (let m = down_child h i in if m = i then h else th_down (th_swap h i m) m)"
  by pat_completeness auto
termination by (relation "measure (\<lambda>(h, i). length (th_v h) - i)") (auto dest!: down_child_gt)

declare th_up_loop.simps [simp del] th_down.simps [simp del]

definition th_fix :: "TimerHeap \<Rightarrow> nat \<Rightarrow> TimerHeap" where
  "th_fix h i = (case th_up h i of (moved, h) \<Rightarrow> if \<not> moved then th_down h i else h)"

definition th_update :: "TimerHeap \<Rightarrow> nat \<Rightarrow> TimerHeap" where
  "th_update h t =
     (case heap_index (th_mem h t) of
        None \<Rightarrow>
          let i = length (th_v h); h = set_index t (Some i) h in
          snd (th_up (h\<lparr>th_v := th_v h @ [t]\<rparr>) i)
      | Some i \<Rightarrow> th_fix h i)"

definition th_remove :: "TimerHeap \<Rightarrow> nat \<Rightarrow> TimerHeap" where
  "th_remove h t =
     (case heap_index (th_mem h t) of
        None \<Rightarrow> h
      | Some i \<Rightarrow>
          let h = set_index t None h; l = last (th_v h); h = h\<lparr>th_v := butlast (th_v h)\<rparr> in
          if i = length (th_v h) then h
          else th_fix (set_index l (Some i) (h\<lparr>th_v := (th_v h)[i := l]\<rparr>)) i)"

text \<open>The worker's \<open>schedule\<close> and \<open>unschedule\<close>.\<close>

definition set_deadline :: "nat \<Rightarrow> int \<Rightarrow> TimerHeap \<Rightarrow> TimerHeap" where
  "set_deadline t d h = h\<lparr>th_mem := (th_mem h)(t := th_mem h t\<lparr>deadline := d\<rparr>)\<rparr>"

definition th_schedule :: "TimerHeap \<Rightarrow> nat \<Rightarrow> int \<Rightarrow> TimerHeap" where
  "th_schedule h t d = (if d = time_max then th_remove h t else th_update (set_deadline t d h) t)"

definition th_unschedule :: "TimerHeap \<Rightarrow> nat \<Rightarrow> TimerHeap" where
  "th_unschedule h t = th_remove h t"


subsection \<open>The order of a heap with one misplaced key\<close>

abbreviation par :: "nat \<Rightarrow> nat" where
  "par j \<equiv> (j - 1) div 2"

definition heap_order :: "nat \<Rightarrow> (nat \<Rightarrow> int) \<Rightarrow> bool" where
  "heap_order n k \<longleftrightarrow> (\<forall>j. 0 < j \<and> j < n \<longrightarrow> k (par j) \<le> k j)"

text \<open>Every edge that does not touch \<open>i\<close> is in order, and so is the one from above \<open>i\<close> to below it.\<close>

definition near_heap :: "nat \<Rightarrow> (nat \<Rightarrow> int) \<Rightarrow> nat \<Rightarrow> bool" where
  "near_heap n k i \<longleftrightarrow> (\<forall>j. 0 < j \<and> j < n \<and> j \<noteq> i \<and> par j \<noteq> i \<longrightarrow> k (par j) \<le> k j)
     \<and> (\<forall>j. 0 < j \<and> j < n \<and> par j = i \<and> 0 < i \<longrightarrow> k (par i) \<le> k j)"

definition above_ok :: "(nat \<Rightarrow> int) \<Rightarrow> nat \<Rightarrow> bool" where
  "above_ok k i \<longleftrightarrow> (0 < i \<longrightarrow> k (par i) \<le> k i)"

definition below_ok :: "nat \<Rightarrow> (nat \<Rightarrow> int) \<Rightarrow> nat \<Rightarrow> bool" where
  "below_ok n k i \<longleftrightarrow> (\<forall>j. 0 < j \<and> j < n \<and> par j = i \<longrightarrow> k i \<le> k j)"

definition swapped :: "(nat \<Rightarrow> int) \<Rightarrow> nat \<Rightarrow> nat \<Rightarrow> nat \<Rightarrow> int" where
  "swapped k a b j = (if j = a then k b else if j = b then k a else k j)"

lemma heap_orderI: "near_heap n k i \<Longrightarrow> above_ok k i \<Longrightarrow> below_ok n k i \<Longrightarrow> heap_order n k"
  unfolding heap_order_def near_heap_def above_ok_def below_ok_def by metis

lemma heap_order_near:
  assumes "heap_order n k" and "\<And>j. j \<noteq> i \<Longrightarrow> k' j = k j"
  shows "near_heap n k' i"
proof -
  have "k' (par i) \<le> k' j" if "0 < j" "j < n" "par j = i" "0 < i" for j
  proof -
    have "k (par i) \<le> k i" "k i \<le> k j" using assms(1) that unfolding heap_order_def by auto
    moreover have "par i \<noteq> i" "j \<noteq> i" using that by auto
    ultimately show ?thesis using assms(2) by simp
  qed
  moreover have "k' (par j) \<le> k' j" if "0 < j" "j < n" "j \<noteq> i" "par j \<noteq> i" for j
    using assms that unfolding heap_order_def by simp
  ultimately show ?thesis unfolding near_heap_def by blast
qed

text \<open>One step up: the misplaced key moves to the parent, and everything below it is in order there.\<close>

lemma up_step:
  assumes nh: "near_heap n k i" and i: "0 < i" "i < n" and lt: "k i < k (par i)"
  shows "near_heap n (swapped k i (par i)) (par i)" and "below_ok n (swapped k i (par i)) (par i)"
proof -
  let ?p = "par i" and ?k = "swapped k i (par i)"
  have p: "?p < i" "?p \<noteq> i" using i by auto
  have sib: "k ?p \<le> k j" if "0 < j" "j < n" "par j = ?p" "j \<noteq> i" for j
    using nh that p unfolding near_heap_def by metis
  have below: "k ?p \<le> k j" if "0 < j" "j < n" "par j = i" for j using nh that i unfolding near_heap_def by blast
  have up: "k (par ?p) \<le> k ?p" if "0 < ?p"
    using nh that p i unfolding near_heap_def by (metis less_irrefl less_trans nat_neq_iff div_le_dividend diff_less less_one le_less_trans)
  show "below_ok n ?k ?p"
    unfolding below_ok_def swapped_def using sib lt p by (auto simp: less_imp_le intro: order_trans [OF less_imp_le])
  have 1: "?k (par j) \<le> ?k j" if j: "0 < j" "j < n" "j \<noteq> ?p" "par j \<noteq> ?p" for j
  proof -
    have "j \<noteq> i" using j by auto
    then show ?thesis using j nh below unfolding near_heap_def swapped_def by auto
  qed
  have 2: "?k (par ?p) \<le> ?k j" if j: "0 < j" "j < n" "par j = ?p" "0 < ?p" for j
  proof -
    have "par ?p < ?p" using j(4) by (metis diff_less div_le_dividend le_less_trans zero_less_one)
    then have "par ?p \<noteq> ?p" "par ?p \<noteq> i" using p by auto
    then show ?thesis using up [OF j(4)] sib [OF j(1-3)] j p by (auto simp: swapped_def intro: order_trans)
  qed
  show "near_heap n ?k ?p" unfolding near_heap_def using 1 2 by blast
qed

text \<open>One step down, to the smaller child.\<close>

lemma down_step:
  assumes nh: "near_heap n k i" and a: "above_ok k i"
    and m: "0 < m" "m < n" "par m = i" and lt: "k m < k i" and least: "\<And>j. 0 < j \<Longrightarrow> j < n \<Longrightarrow> par j = i \<Longrightarrow> k m \<le> k j"
  shows "near_heap n (swapped k i m) m" and "above_ok (swapped k i m) m"
proof -
  let ?k = "swapped k i m"
  have im: "i < m" "i \<noteq> m" using m by auto
  show "above_ok ?k m" using lt m im by (simp add: above_ok_def swapped_def)
  have 1: "?k (par j) \<le> ?k j" if j: "0 < j" "j < n" "j \<noteq> m" "par j \<noteq> m" for j
  proof (cases "j = i")
    case True
    then have "par j \<noteq> i" "par j \<noteq> m" using j im by auto
    moreover have "k (par i) \<le> k m" using nh m True j unfolding near_heap_def by blast
    ultimately show ?thesis using True by (simp add: swapped_def)
  next
    case False
    then show ?thesis using j least [OF j(1,2)] nh unfolding near_heap_def swapped_def by auto
  qed
  have 2: "?k (par m) \<le> ?k j" if j: "0 < j" "j < n" "par j = m" for j
  proof -
    have "j \<noteq> m" "j \<noteq> i" using j im by auto
    moreover have "k m \<le> k j" using nh j m im \<open>j \<noteq> i\<close> unfolding near_heap_def by metis
    ultimately show ?thesis using m by (simp add: swapped_def)
  qed
  show "near_heap n ?k m" unfolding near_heap_def using 1 2 by blast
qed

text \<open>A key appended at the end has nothing below it.\<close>

lemma near_heap_last:
  assumes "heap_order n k"
  shows "near_heap (Suc n) k n" and "below_ok (Suc n) k n"
proof -
  have "par j \<noteq> n" if "0 < j" "j < Suc n" for j using that by auto
  then have no: "\<not> (0 < j \<and> j < Suc n \<and> par j = n)" for j by blast
  then show "below_ok (Suc n) k n" unfolding below_ok_def by blast
  have "k (par j) \<le> k j" if "0 < j" "j < Suc n" "j \<noteq> n" for j
    using assms that unfolding heap_order_def by auto
  then show "near_heap (Suc n) k n" unfolding near_heap_def using no by blast
qed

text \<open>The root of an ordered heap has the least key.\<close>

lemma heap_root_least: "heap_order n k \<Longrightarrow> j < n \<Longrightarrow> k 0 \<le> k j"
proof (induction j rule: less_induct)
  case (less j)
  show ?case
  proof (cases "j = 0")
    case False
    then have "k 0 \<le> k (par j)" using less by auto
    also have "\<dots> \<le> k j" using less.prems False unfolding heap_order_def by simp
    finally show ?thesis .
  qed simp
qed



subsection \<open>The links between the heap and the objects\<close>

definition th_links :: "TimerHeap \<Rightarrow> bool" where
  "th_links h \<longleftrightarrow> (\<forall>i < length (th_v h). heap_index (th_mem h (th_v h ! i)) = Some i)
     \<and> (\<forall>a i. heap_index (th_mem h a) = Some i \<longrightarrow> i < length (th_v h) \<and> th_v h ! i = a)"

definition th_inv :: "TimerHeap \<Rightarrow> bool" where
  "th_inv h \<longleftrightarrow> th_links h \<and> heap_order (length (th_v h)) (th_key h)"

text \<open>What the heap stands for: the deadline of every scheduled object.\<close>

definition th_abs :: "TimerHeap \<Rightarrow> nat \<Rightarrow> int option" where
  "th_abs h a = (if heap_index (th_mem h a) = None then None else Some (deadline (th_mem h a)))"

lemma links_dom: "th_links h \<Longrightarrow> dom (th_abs h) = set (th_v h)"
  unfolding th_links_def th_abs_def dom_def by (auto simp: in_set_conv_nth split: if_splits) blast

lemma links_inj: "th_links h \<Longrightarrow> i < length (th_v h) \<Longrightarrow> j < length (th_v h) \<Longrightarrow> th_v h ! i = th_v h ! j \<longleftrightarrow> i = j"
  unfolding th_links_def by (metis option.inject)

lemma th_swap_links:
  assumes "th_links h" "a < length (th_v h)" "b < length (th_v h)" "a \<noteq> b"
  shows "th_links (th_swap h a b)" and "th_abs (th_swap h a b) = th_abs h"
    and "j < length (th_v h) \<Longrightarrow> th_key (th_swap h a b) j = swapped (th_key h) a b j"
proof -
  let ?v = "th_v h"
  have ne: "?v ! a \<noteq> ?v ! b" using links_inj assms by blast
  have mem: "th_mem (th_swap h a b) x =
      (if x = ?v ! a then th_mem h x\<lparr>heap_index := Some b\<rparr> else if x = ?v ! b then th_mem h x\<lparr>heap_index := Some a\<rparr> else th_mem h x)" for x
    using assms ne by (auto simp: th_swap_def set_index_def Let_def)
  have v: "th_v (th_swap h a b) ! j = (if j = a then ?v ! b else if j = b then ?v ! a else ?v ! j)" if "j < length ?v" for j
    using assms that by (auto simp: th_swap_def set_index_def Let_def nth_list_update)
  have hi: "heap_index (th_mem h (?v ! i)) = Some i" if "i < length ?v" for i using assms(1) that by (simp add: th_links_def)
  show "th_links (th_swap h a b)"
    unfolding th_links_def using assms hi v mem links_inj [OF assms(1)]
    by (auto simp: th_links_def split: if_splits)
  show "th_abs (th_swap h a b) = th_abs h" using hi assms by (auto simp: th_abs_def mem fun_eq_iff)
  show "th_key (th_swap h a b) j = swapped (th_key h) a b j" if "j < length ?v"
    using v [OF that] assms by (auto simp: th_key_def swapped_def mem)
qed

lemma order_cong:
  assumes "\<And>j. j < n \<Longrightarrow> k' j = k j" and "i < n"
  shows "near_heap n k' i \<longleftrightarrow> near_heap n k i" "above_ok k' i \<longleftrightarrow> above_ok k i" "below_ok n k' i \<longleftrightarrow> below_ok n k i"
    "heap_order n k' \<longleftrightarrow> heap_order n k"
proof -
  have "par j < n" if "j < n" for j using that by auto
  then show "near_heap n k' i \<longleftrightarrow> near_heap n k i" "above_ok k' i \<longleftrightarrow> above_ok k i" "below_ok n k' i \<longleftrightarrow> below_ok n k i"
    "heap_order n k' \<longleftrightarrow> heap_order n k"
    using assms unfolding near_heap_def above_ok_def below_ok_def heap_order_def by auto
qed

text \<open>\<open>up\<close> on a heap whose only fault is above \<open>i\<close>.\<close>

lemma th_up_loop_correct:
  assumes "th_links h" "i < length (th_v h)" "near_heap (length (th_v h)) (th_key h) i" "below_ok (length (th_v h)) (th_key h) i"
  shows "th_inv (snd (th_up_loop h i mv)) \<and> th_abs (snd (th_up_loop h i mv)) = th_abs h"
  using assms
proof (induction h i mv rule: th_up_loop.induct)
  case (1 h i mv)
  let ?n = "length (th_v h)"
  show ?case
  proof (cases "0 < i \<and> th_key h i < th_key h (par i)")
    case True
    let ?h = "th_swap h i (par i)"
    have p: "par i < ?n" "i \<noteq> par i" using True 1(3) by auto
    note sw = th_swap_links [OF 1(2) 1(3) p]
    note st = up_step [OF 1(4) _ 1(3), of]
    have "near_heap ?n (th_key ?h) (par i)" "below_ok ?n (th_key ?h) (par i)"
      using order_cong [where k' = "th_key ?h" and k = "swapped (th_key h) i (par i)", OF sw(3) p(1)] st True by auto
    then have "th_inv (snd (th_up_loop ?h (par i) True)) \<and> th_abs (snd (th_up_loop ?h (par i) True)) = th_abs ?h"
      using 1(1) [OF _ refl] True sw(1) p(1) by simp
    then show ?thesis using True sw(2) by (subst (1 2) th_up_loop.simps) (simp add: Let_def)
  next
    case False
    then have "above_ok (th_key h) i" by (auto simp: above_ok_def)
    then have "th_inv h" using 1 heap_orderI by (auto simp: th_inv_def)
    then show ?thesis using False by (subst (1 2) th_up_loop.simps) (auto simp: Let_def)
  qed
qed

lemma th_down_correct:
  assumes "th_links h" "i < length (th_v h)" "near_heap (length (th_v h)) (th_key h) i" "above_ok (th_key h) i"
  shows "th_inv (th_down h i) \<and> th_abs (th_down h i) = th_abs h"
  using assms
proof (induction h i rule: th_down.induct)
  case (1 h i)
  let ?n = "length (th_v h)" and ?m = "down_child h i"
  have kids: "0 < j \<Longrightarrow> par j = i \<Longrightarrow> j = 2 * i + 1 \<or> j = 2 * i + 2" for j by auto
  show ?case
  proof (cases "?m = i")
    case True
    then have "below_ok ?n (th_key h) i"
      by (auto simp: below_ok_def down_child_def Let_def split: if_splits dest!: kids)
    then have "th_inv h" using 1 heap_orderI by (auto simp: th_inv_def)
    then show ?thesis using True by (subst (1 2) th_down.simps) simp
  next
    case False
    let ?h = "th_swap h i ?m"
    have m: "0 < ?m" "?m < ?n" "par ?m = i" "th_key h ?m < th_key h i"
      using False by (auto simp: down_child_def Let_def split: if_splits)
    have least: "th_key h ?m \<le> th_key h j" if "0 < j" "j < ?n" "par j = i" for j
      using kids [OF that(1,3)] that by (auto simp: down_child_def Let_def)
    note sw = th_swap_links [OF 1(2,3) m(2) False [symmetric]]
    have "near_heap ?n (th_key ?h) ?m" "above_ok (th_key ?h) ?m"
      using order_cong [where k' = "th_key ?h" and k = "swapped (th_key h) i ?m", OF sw(3) m(2)] down_step [OF 1(4,5) m least] by auto
    then have "th_inv (th_down ?h ?m) \<and> th_abs (th_down ?h ?m) = th_abs ?h"
      using 1(1) [OF refl False] sw(1) m(2) by simp
    then show ?thesis using False sw(2) by (subst (1 2) th_down.simps) (simp add: Let_def)
  qed
qed

text \<open>\<open>if (!up(i)) down(i)\<close> on a heap with any key at \<open>i\<close>.\<close>

lemma th_up_moved:
  "fst (th_up_loop h i mv) \<longleftrightarrow> mv \<or> 0 < i \<and> th_key h i < th_key h (par i)"
proof -
  have "fst (th_up_loop h i True)" for h i
  proof (induction i arbitrary: h rule: less_induct)
    case (less i)
    then show ?case by (subst th_up_loop.simps) (auto simp: Let_def)
  qed
  then show ?thesis by (subst th_up_loop.simps) (auto simp: Let_def)
qed

lemma th_fix_correct:
  assumes l: "th_links h" "i < length (th_v h)" and nh: "near_heap (length (th_v h)) (th_key h) i"
  shows "th_inv (th_fix h i) \<and> th_abs (th_fix h i) = th_abs h"
proof (cases "0 < i \<and> th_key h i < th_key h (par i)")
  case True
  then have "below_ok (length (th_v h)) (th_key h) i"
    using nh unfolding near_heap_def below_ok_def by (auto intro: order_trans [OF less_imp_le])
  from th_up_loop_correct [OF l nh this, of False] True th_up_moved [of h i False]
  show ?thesis by (cases "th_up_loop h i False") (simp add: th_fix_def th_up_def)
next
  case False
  then have "th_up h i = (False, h)" unfolding th_up_def by (subst th_up_loop.simps) (auto simp: Let_def)
  moreover have "above_ok (th_key h) i" using False by (auto simp: above_ok_def)
  ultimately show ?thesis using th_down_correct [OF l nh] by (simp add: th_fix_def)
qed



subsection \<open>The operations\<close>

lemma th_inv_update:
  assumes "th_inv h"
  shows "th_inv (th_update (set_deadline t d h) t)" "th_abs (th_update (set_deadline t d h) t) = (th_abs h)(t \<mapsto> d)"
proof -
  let ?g = "set_deadline t d h"
  have l: "th_links h" and o: "heap_order (length (th_v h)) (th_key h)" using assms by (simp_all add: th_inv_def)
  have mem: "th_mem ?g x = (if x = t then th_mem h t\<lparr>deadline := d\<rparr> else th_mem h x)" for x by (simp add: set_deadline_def)
  have v: "th_v ?g = th_v h" by (simp add: set_deadline_def)
  have "th_inv (th_update ?g t) \<and> th_abs (th_update ?g t) = (th_abs h)(t \<mapsto> d)"
  proof (cases "heap_index (th_mem h t)")
    case (Some i)
    then have i: "i < length (th_v h)" "th_v h ! i = t" using l by (auto simp: th_links_def)
    have lg: "th_links ?g" using l by (auto simp: th_links_def mem v)
    have "th_key ?g j = th_key h j" if "j \<noteq> i" "j < length (th_v h)" for j
      using links_inj [OF l i(1) that(2)] that i by (simp add: th_key_def mem v)
    then have "near_heap (length (th_v ?g)) (th_key ?g) i"
      using heap_order_near [OF o, of i "\<lambda>j. if j < length (th_v h) then th_key ?g j else th_key h j"] i
        order_cong [where n = "length (th_v h)" and k' = "\<lambda>j. if j < length (th_v h) then th_key ?g j else th_key h j" and k = "th_key ?g" and i = i]
      by (auto simp: v)
    then have "th_inv (th_fix ?g i) \<and> th_abs (th_fix ?g i) = th_abs ?g" using th_fix_correct [OF lg] i by (simp add: v)
    moreover have "th_abs ?g = (th_abs h)(t \<mapsto> d)" using Some by (auto simp: th_abs_def mem fun_eq_iff)
    ultimately show ?thesis using Some by (simp add: th_update_def mem)
  next
    case None
    let ?n = "length (th_v h)" and ?h = "(set_index t (Some (length (th_v h))) ?g)\<lparr>th_v := th_v h @ [t]\<rparr>"
    have nin: "th_v h ! j \<noteq> t" if "j < ?n" for j using l None that by (auto simp: th_links_def)
    have lh: "th_links ?h" using l nin None by (auto simp: th_links_def mem v set_index_def nth_append less_Suc_eq)
    have "th_key ?h j = th_key h j" if "j < ?n" for j
      using nin [OF that] that by (simp add: th_key_def mem v set_index_def nth_append)
    moreover have "par j < ?n" if "j < ?n" for j using that by auto
    ultimately have "heap_order ?n (th_key ?h)" using o unfolding heap_order_def by simp
    note nh = near_heap_last [OF this]
    have a: "th_abs ?h = (th_abs h)(t \<mapsto> d)" by (auto simp: th_abs_def mem set_index_def fun_eq_iff)
    have "th_update ?g t = snd (th_up ?h ?n)"
      using None by (simp add: th_update_def mem v Let_def set_index_def)
    then show ?thesis using th_up_loop_correct [OF lh, of ?n False] nh a by (simp add: th_up_def)
  qed
  then show "th_inv (th_update ?g t)" "th_abs (th_update ?g t) = (th_abs h)(t \<mapsto> d)" by simp_all
qed

lemma th_inv_remove:
  assumes "th_inv h"
  shows "th_inv (th_remove h t)" "th_abs (th_remove h t) = (th_abs h)(t := None)"
proof -
  have l: "th_links h" and o: "heap_order (length (th_v h)) (th_key h)" using assms by (simp_all add: th_inv_def)
  have "th_inv (th_remove h t) \<and> th_abs (th_remove h t) = (th_abs h)(t := None)"
  proof (cases "heap_index (th_mem h t)")
    case None
    then have "(th_abs h)(t := None) = th_abs h" by (auto simp: th_abs_def)
    with None assms show ?thesis by (simp add: th_remove_def)
  next
    case (Some i)
    let ?n = "length (th_v h) - 1"
    have i: "i < length (th_v h)" "th_v h ! i = t" using l Some by (auto simp: th_links_def)
    then have ne: "th_v h \<noteq> []" and n: "length (th_v h) = Suc ?n" by auto
    have o': "heap_order ?n (th_key h)" using o unfolding heap_order_def by auto
    have pl: "par j < ?n" if "j < ?n" for j using that by auto
    have la: "last (th_v h) = th_v h ! ?n" using ne by (simp add: last_conv_nth)
    have inj: "th_v h ! j = th_v h ! k \<longleftrightarrow> j = k" if "j < Suc ?n" "k < Suc ?n" for j k using links_inj [OF l] that n by simp
    have hi: "heap_index (th_mem h (th_v h ! j)) = Some j" if "j < Suc ?n" for j using l that n by (simp add: th_links_def)
    have bk: "j < Suc ?n \<and> th_v h ! j = a" if "heap_index (th_mem h a) = Some j" for a j using l that n by (auto simp: th_links_def)
    let ?w = "butlast (th_v h)" and ?m = "(th_mem h)(t := th_mem h t\<lparr>heap_index := None\<rparr>)"
    have w: "length ?w = ?n" "\<And>j. j < ?n \<Longrightarrow> ?w ! j = th_v h ! j" by (simp_all add: nth_butlast)
    show ?thesis
    proof (cases "i = ?n")
      case True
      let ?g = "\<lparr>th_v = ?w, th_mem = ?m\<rparr>"
      have rm: "th_remove h t = ?g" using True Some by (simp add: th_remove_def set_index_def Let_def)
      have key: "th_key ?g j = th_key h j" if "j < ?n" for j
        using that inj [of j ?n] w True i by (simp add: th_key_def)
      have "th_links ?g"
        unfolding th_links_def
      proof (intro conjI allI impI)
        fix j assume "j < length (th_v ?g)"
        then show "heap_index (th_mem ?g (th_v ?g ! j)) = Some j" using w hi inj [of j ?n] True i by auto
      next
        fix a j assume a: "heap_index (th_mem ?g a) = Some j"
        then have "j \<noteq> ?n" using bk [of a j] True i by (auto split: if_splits)
        then show "j < length (th_v ?g)" "th_v ?g ! j = a" using a w bk [of a j] by (auto simp: less_Suc_eq split: if_splits)
      qed
      moreover have "heap_order ?n (th_key ?g)"
        using o' key pl unfolding heap_order_def by simp
      moreover have "th_abs ?g = (th_abs h)(t := None)" by (auto simp: th_abs_def fun_eq_iff)
      ultimately show ?thesis using w by (simp add: rm th_inv_def)
    next
      case False
      let ?l = "th_v h ! ?n"
      let ?g = "\<lparr>th_v = ?w[i := ?l], th_mem = ?m(?l := ?m ?l\<lparr>heap_index := Some i\<rparr>)\<rparr>"
      have i': "i < ?n" using False i by simp
      have lt: "?l \<noteq> t" using inj [of ?n i] i i' by auto
      have rm: "th_remove h t = th_fix ?g i"
        using False Some la lt by (cases h) (simp add: th_remove_def set_index_def Let_def)
      have key: "th_key ?g j = th_key h j" if "j < ?n" "j \<noteq> i" for j
        using that inj [of j ?n] inj [of j i] w i i' by (simp add: th_key_def)
      have "th_links ?g"
        unfolding th_links_def
      proof (intro conjI allI impI)
        fix j assume "j < length (th_v ?g)"
        then show "heap_index (th_mem ?g (th_v ?g ! j)) = Some j"
          using w hi inj [of j ?n] inj [of j i] i i' by (cases "j = i") auto
      next
        fix a j assume a: "heap_index (th_mem ?g a) = Some j"
        show "j < length (th_v ?g)" "th_v ?g ! j = a"
          using a w bk [of a j] inj [of j ?n] i i' lt by (auto simp: less_Suc_eq nth_list_update split: if_splits)
      qed
      moreover have "near_heap ?n (th_key ?g) i"
      proof -
        from heap_order_near [OF o', of i "\<lambda>j. if j < ?n then th_key ?g j else th_key h j"] key i'
          order_cong(1) [where n = ?n and k' = "\<lambda>j. if j < ?n then th_key ?g j else th_key h j" and k = "th_key ?g" and i = i]
        show ?thesis by auto
      qed
      moreover have "th_abs ?g = (th_abs h)(t := None)" using lt hi [of ?n] by (auto simp: th_abs_def fun_eq_iff)
      ultimately show ?thesis using th_fix_correct [of ?g i] w i' by (simp add: rm)
    qed
  qed
  then show "th_inv (th_remove h t)" "th_abs (th_remove h t) = (th_abs h)(t := None)" by simp_all
qed



subsection \<open>The contract the worker relies on\<close>

text \<open>
  A queue of deadlines: scheduling and unscheduling act on the map of deadlines as one expects, and
  \<open>earliest\<close> is the least of them. Whatever the sequence of calls, the queue then stands for the map
  that the calls describe.
\<close>

datatype timer_op = Schedule nat int | Unschedule nat

fun deadline_step :: "timer_op \<Rightarrow> (nat \<rightharpoonup> int) \<Rightarrow> (nat \<rightharpoonup> int)" where
  "deadline_step (Schedule t d) m = (if d = time_max then m(t := None) else m(t \<mapsto> d))"
| "deadline_step (Unschedule t) m = m(t := None)"

locale deadline_queue =
  fixes inv :: "'h \<Rightarrow> bool"
    and deadlines :: "'h \<Rightarrow> nat \<rightharpoonup> int"
    and schedule :: "'h \<Rightarrow> nat \<Rightarrow> int \<Rightarrow> 'h"
    and unschedule :: "'h \<Rightarrow> nat \<Rightarrow> 'h"
    and earliest :: "'h \<Rightarrow> int"
  assumes schedule_inv: "inv h \<Longrightarrow> inv (schedule h t d)"
    and schedule_deadlines: "inv h \<Longrightarrow> deadlines (schedule h t d) = deadline_step (Schedule t d) (deadlines h)"
    and unschedule_inv: "inv h \<Longrightarrow> inv (unschedule h t)"
    and unschedule_deadlines: "inv h \<Longrightarrow> deadlines (unschedule h t) = deadline_step (Unschedule t) (deadlines h)"
    and finite_deadlines: "inv h \<Longrightarrow> finite (dom (deadlines h))"
    and earliest_none: "inv h \<Longrightarrow> deadlines h = Map.empty \<Longrightarrow> earliest h = time_max"
    and earliest_least: "inv h \<Longrightarrow> deadlines h t = Some d \<Longrightarrow> earliest h \<le> d"
    and earliest_attained: "inv h \<Longrightarrow> deadlines h \<noteq> Map.empty \<Longrightarrow> earliest h \<in> ran (deadlines h)"
begin

fun step :: "timer_op \<Rightarrow> 'h \<Rightarrow> 'h" where
  "step (Schedule t d) h = schedule h t d"
| "step (Unschedule t) h = unschedule h t"

lemma run_deadlines: "inv h \<Longrightarrow> inv (fold step ops h) \<and> deadlines (fold step ops h) = fold deadline_step ops (deadlines h)"
proof (induction ops arbitrary: h)
  case (Cons p ops)
  then show ?case
    by (cases p) (simp_all add: schedule_inv schedule_deadlines unschedule_inv unschedule_deadlines del: deadline_step.simps)
qed simp

lemma earliest_Min:
  assumes "inv h"
  shows "earliest h = (if deadlines h = Map.empty then time_max else Min (ran (deadlines h)))"
proof (cases "deadlines h = Map.empty")
  case False
  have "finite (ran (deadlines h))" using finite_deadlines [OF assms] by (rule finite_ran)
  moreover have "earliest h \<le> d" if "d \<in> ran (deadlines h)" for d
    using that earliest_least [OF assms] by (auto simp: ran_def)
  ultimately have "Min (ran (deadlines h)) = earliest h"
    using earliest_attained [OF assms False] by (intro Min_eqI) auto
  then show ?thesis using False by simp
qed (simp add: earliest_none assms)

end

lemma th_inv_root:
  assumes "th_inv h" "th_abs h t = Some d"
  shows "th_v h \<noteq> [] \<and> th_key h 0 \<le> d"
proof -
  from assms obtain i where "i < length (th_v h)" "th_v h ! i = t" "deadline (th_mem h t) = d"
    by (auto simp: th_abs_def th_inv_def th_links_def split: if_splits)
  with heap_root_least [of "length (th_v h)" "th_key h" i] assms(1) show ?thesis
    by (auto simp: th_inv_def th_key_def)
qed

interpretation th: deadline_queue th_inv th_abs th_schedule th_unschedule th_earliest
proof
  fix h t d assume inv: "th_inv h"
  show "th_inv (th_schedule h t d)" using th_inv_update(1) [OF inv] th_inv_remove(1) [OF inv] by (simp add: th_schedule_def)
  show "th_abs (th_schedule h t d) = deadline_step (Schedule t d) (th_abs h)"
    using th_inv_update(2) [OF inv] th_inv_remove(2) [OF inv] by (simp add: th_schedule_def)
  show "th_inv (th_unschedule h t)" "th_abs (th_unschedule h t) = deadline_step (Unschedule t) (th_abs h)"
    using th_inv_remove [OF inv] by (simp_all add: th_unschedule_def)
  have d: "dom (th_abs h) = set (th_v h)" using inv links_dom by (simp add: th_inv_def)
  then show "finite (dom (th_abs h))" by simp
  show "th_abs h = Map.empty \<Longrightarrow> th_earliest h = time_max" using d by (simp add: th_earliest_def)
  show "th_earliest h \<le> d" if "th_abs h t = Some d"
    using th_inv_root [OF inv that] by (auto simp: th_earliest_def th_key_def neq_Nil_conv)
  show "th_earliest h \<in> ran (th_abs h)" if "th_abs h \<noteq> Map.empty"
  proof -
    have "th_v h \<noteq> []" using d that by auto
    then obtain a v where v: "th_v h = a # v" by (auto simp: neq_Nil_conv)
    then have "th_abs h a = Some (th_earliest h)" using d by (auto simp: th_abs_def th_earliest_def dom_def split: if_splits)
    then show ?thesis by (auto simp: ran_def)
  qed
qed

text \<open>The heap a worker starts with, no connection scheduled.\<close>

definition th_new :: TimerHeap where
  "th_new = \<lparr>th_v = [], th_mem = (\<lambda>t. \<lparr>deadline = 0, heap_index = None\<rparr>)\<rparr>"

lemma th_new_inv: "th_inv th_new" "th_abs th_new = Map.empty"
  by (simp_all add: th_new_def th_inv_def th_links_def heap_order_def th_abs_def fun_eq_iff)

fun timer_step :: "timer_op \<Rightarrow> TimerHeap \<Rightarrow> TimerHeap" where
  "timer_step (Schedule t d) h = th_schedule h t d"
| "timer_step (Unschedule t) h = th_unschedule h t"

lemma timer_step_th: "timer_step = th.step"
proof (intro ext)
  show "timer_step p h = th.step p h" for p h by (cases p) simp_all
qed

text \<open>
  C11. The deadline heap implements a map from connections to deadlines. After any sequence of
  schedule and unschedule calls its invariant holds (each object knows its own place, every parent is
  due no later than its children), the scheduled objects and their deadlines are those of the map, and
  \<open>earliest\<close>, to which the worker's one timer is armed, is the least of them, or the far future when
  nothing is scheduled.
\<close>

theorem timer_heap_refines:
  fixes ops :: "timer_op list"
  defines "h \<equiv> fold timer_step ops th_new" and "m \<equiv> fold deadline_step ops Map.empty"
  shows "th_inv h \<and> th_abs h = m \<and> th_earliest h = (if m = Map.empty then time_max else Min (ran m))"
proof -
  have "th_inv h \<and> th_abs h = m"
    using th.run_deadlines [OF th_new_inv(1), of ops] by (simp add: h_def m_def timer_step_th th_new_inv)
  then show ?thesis using th.earliest_Min [of h] by simp
qed



subsection \<open>The worker's one timer\<close>

text \<open>
  The endpoint of \<^verbatim>\<open>src/quic/udp.hpp\<close> arms one timer for all its connections; \<open>armed_\<close> is the time
  it is armed for, \<open>time_point::max()\<close> when it is not. \<open>fire\<close> runs when it expires: it takes every
  connection that is due out of the heap, and after the packets are sent each of these connections is
  retired or rescheduled, calls which are the argument \<open>ops\<close> here. The loop has the tolerance of 500
  microseconds of the code (the clock counts nanoseconds).
\<close>

record Worker =
  wk_timers :: TimerHeap
  wk_armed :: int

definition worker_new :: Worker where
  "worker_new = \<lparr>wk_timers = th_new, wk_armed = time_max\<rparr>"

definition arm_if_earlier :: "int \<Rightarrow> Worker \<Rightarrow> Worker" where
  "arm_if_earlier d w = (if wk_armed w \<noteq> time_max \<and> wk_armed w \<le> d then w else w\<lparr>wk_armed := d\<rparr>)"

definition wk_schedule :: "Worker \<Rightarrow> nat \<Rightarrow> int \<Rightarrow> Worker" where
  "wk_schedule w t d =
     (if d = time_max then w\<lparr>wk_timers := th_remove (wk_timers w) t\<rparr>
      else arm_if_earlier d (w\<lparr>wk_timers := th_update (set_deadline t d (wk_timers w)) t\<rparr>))"

definition wk_unschedule :: "Worker \<Rightarrow> nat \<Rightarrow> Worker" where
  "wk_unschedule w t = w\<lparr>wk_timers := th_remove (wk_timers w) t\<rparr>"

fun wk_step :: "timer_op \<Rightarrow> Worker \<Rightarrow> Worker" where
  "wk_step (Schedule t d) w = wk_schedule w t d"
| "wk_step (Unschedule t) w = wk_unschedule w t"

text \<open>
  The loop over the connections that are due; it ends because each pass removes one. \<open>on_timer\<close>, which schedules nothing, may as
  well run after it: the operations \<open>ops\<close> of the callback are those of \<open>produce\<close>, \<open>retire_shared\<close> and \<open>reschedule\<close>.
\<close>

partial_function (option) due_loop :: "int \<Rightarrow> nat list \<Rightarrow> TimerHeap \<Rightarrow> (nat list \<times> TimerHeap) option" where
  "due_loop now due h =
     (case th_top h of
        None \<Rightarrow> Some (due, h)
      | Some t \<Rightarrow>
          if deadline (th_mem h t) > now + 500000 then Some (due, h)
          else due_loop now (due @ [t]) (th_remove h t))"

definition fire :: "int \<Rightarrow> timer_op list \<Rightarrow> Worker \<Rightarrow> Worker option" where
  "fire now ops w =
     (case due_loop now [] (wk_timers w) of
        None \<Rightarrow> None
      | Some (due, h) \<Rightarrow>
          let w = fold wk_step ops \<lparr>wk_timers = h, wk_armed = time_max\<rparr> in
          Some (if th_empty (wk_timers w) then w else arm_if_earlier (th_earliest (wk_timers w)) w))"

lemma card_dom_remove:
  assumes "th_inv h" "th_top h = Some t"
  shows "card (dom (th_abs (th_remove h t))) < card (dom (th_abs h))"
proof -
  have "t \<in> set (th_v h)" using assms(2) by (auto simp: th_top_def split: list.splits)
  then have "t \<in> dom (th_abs h)" using links_dom assms(1) by (auto simp: th_inv_def)
  moreover have "finite (dom (th_abs h))" by (rule th.finite_deadlines [OF assms(1)])
  ultimately show ?thesis using th_inv_remove(2) [OF assms(1), of t] card_Diff1_less [of "dom (th_abs h)" t] by simp
qed

text \<open>It ends, with what it took out being exactly what was due.\<close>

lemma due_loop_correct:
  assumes "th_inv h"
  shows "\<exists>due' h'. due_loop now due h = Some (due @ due', h') \<and> th_inv h'
    \<and> th_abs h' = (\<lambda>t. case th_abs h t of Some d \<Rightarrow> if d \<le> now + 500000 then None else Some d | None \<Rightarrow> None)
    \<and> set due' = {t. \<exists>d. th_abs h t = Some d \<and> d \<le> now + 500000}"
  using assms
proof (induction "card (dom (th_abs h))" arbitrary: h due rule: less_induct)
  case less
  have dom: "dom (th_abs h) = set (th_v h)" using less.prems links_dom by (auto simp: th_inv_def)
  show ?case
  proof (cases "th_top h")
    case None
    then have "th_abs h = Map.empty" using dom by (auto simp: th_top_def split: list.splits)
    then show ?thesis using less.prems None by (subst due_loop.simps) auto
  next
    case (Some t)
    then have t: "th_abs h t = Some (deadline (th_mem h t))" "th_earliest h = deadline (th_mem h t)"
      using dom by (auto simp: th_top_def th_earliest_def th_abs_def dom_def split: list.splits if_splits)
    show ?thesis
    proof (cases "deadline (th_mem h t) > now + 500000")
      case True
      have "\<not> d \<le> now + 500000" if "th_abs h x = Some d" for x d using th.earliest_least [OF less.prems that] t True by simp
      then have "th_abs h x = (case th_abs h x of Some d \<Rightarrow> if d \<le> now + 500000 then None else Some d | None \<Rightarrow> None)"
        "\<not> (\<exists>d. th_abs h x = Some d \<and> d \<le> now + 500000)" for x
        by (auto split: option.splits)
      with True Some less.prems show ?thesis by (subst due_loop.simps) (auto intro!: exI [of _ "[]"])
    next
      case False
      let ?h = "th_remove h t"
      note rm = th_inv_remove [OF less.prems, of t]
      from less.hyps [OF card_dom_remove [OF less.prems Some] rm(1), of "due @ [t]"] obtain due' h' where
        r: "due_loop now (due @ [t]) ?h = Some ((due @ [t]) @ due', h')" "th_inv h'"
          "th_abs h' = (\<lambda>x. case th_abs ?h x of Some d \<Rightarrow> if d \<le> now + 500000 then None else Some d | None \<Rightarrow> None)"
          "set due' = {x. \<exists>d. th_abs ?h x = Some d \<and> d \<le> now + 500000}" by blast
      have "due_loop now due h = Some (due @ t # due', h')" using r(1) Some False by (subst due_loop.simps) simp
      moreover have "th_abs h' = (\<lambda>x. case th_abs h x of Some d \<Rightarrow> if d \<le> now + 500000 then None else Some d | None \<Rightarrow> None)"
        using r(3) rm(2) t(1) False by (auto simp: fun_eq_iff)
      moreover have "set (t # due') = {x. \<exists>d. th_abs h x = Some d \<and> d \<le> now + 500000}"
        using r(4) rm(2) t(1) False by (auto split: if_splits)
      ultimately show ?thesis using r(2) by blast
    qed
  qed
qed

text \<open>The worker's runs: calls of its connections, with representable times, and the timer.\<close>

fun op_time :: "timer_op \<Rightarrow> bool" where
  "op_time (Schedule t d) \<longleftrightarrow> d \<le> time_max"
| "op_time (Unschedule t) \<longleftrightarrow> True"

inductive wk_reach :: "Worker \<Rightarrow> bool" where
  start: "wk_reach worker_new"
| call: "wk_reach w \<Longrightarrow> op_time p \<Longrightarrow> wk_reach (wk_step p w)"
| expire: "wk_reach w \<Longrightarrow> list_all op_time ops \<Longrightarrow> fire now ops w = Some w' \<Longrightarrow> wk_reach w'"

definition wk_inv :: "Worker \<Rightarrow> bool" where
  "wk_inv w \<longleftrightarrow> th_inv (wk_timers w) \<and> (\<forall>d\<in>ran (th_abs (wk_timers w)). d < time_max)"

definition never_late :: "Worker \<Rightarrow> bool" where
  "never_late w \<longleftrightarrow> (\<forall>d\<in>ran (th_abs (wk_timers w)). wk_armed w \<le> d)"

lemma ran_remove: "d \<in> ran (m(t := None)) \<Longrightarrow> d \<in> ran m"
  by (auto simp: ran_def split: if_splits)

lemma ran_update: "d' \<in> ran (m(t \<mapsto> d)) \<Longrightarrow> d' = d \<or> d' \<in> ran m"
  by (auto simp: ran_def split: if_splits)

lemma arm_if_earlier_timers [simp]: "wk_timers (arm_if_earlier d w) = wk_timers w"
  by (simp add: arm_if_earlier_def)

lemma wk_step_inv:
  assumes "wk_inv w" "op_time p"
  shows "wk_inv (wk_step p w)"
proof -
  have i: "th_inv (wk_timers w)" using assms by (simp add: wk_inv_def)
  show ?thesis
  proof (cases p)
    case (Schedule t d)
    with assms show ?thesis
      by (auto simp: wk_inv_def wk_schedule_def th_inv_update [OF i] th_inv_remove [OF i] dest!: ran_remove ran_update)
  next
    case (Unschedule t)
    with assms show ?thesis by (auto simp: wk_inv_def wk_unschedule_def th_inv_remove [OF i] dest!: ran_remove)
  qed
qed

lemma wk_fold_inv: "wk_inv w \<Longrightarrow> list_all op_time ops \<Longrightarrow> wk_inv (fold wk_step ops w)"
  by (induction ops arbitrary: w) (auto simp: wk_step_inv)

lemma wk_step_never_late:
  assumes "wk_inv w" "never_late w"
  shows "never_late (wk_step p w)"
proof -
  have i: "th_inv (wk_timers w)" using assms by (simp add: wk_inv_def)
  have rm: "never_late (w\<lparr>wk_timers := th_remove (wk_timers w) t\<rparr>)" for t
    using assms(2) by (auto simp: never_late_def th_inv_remove [OF i] dest!: ran_remove)
  show ?thesis
  proof (cases p)
    case (Schedule t d)
    let ?h = "th_update (set_deadline t d (wk_timers w)) t"
    have r: "d' = d \<or> d' \<in> ran (th_abs (wk_timers w))" if "d' \<in> ran (th_abs ?h)" for d'
      using that th_inv_update(2) [OF i] by (auto dest: ran_update)
    have none: "wk_armed w = time_max \<Longrightarrow> d' \<notin> ran (th_abs (wk_timers w))" for d'
      using assms by (fastforce simp: wk_inv_def never_late_def)
    have "never_late (arm_if_earlier d (w\<lparr>wk_timers := ?h\<rparr>))"
    proof (cases "wk_armed w \<noteq> time_max \<and> wk_armed w \<le> d")
      case True
      then show ?thesis using r assms(2) by (auto simp: never_late_def arm_if_earlier_def)
    next
      case False
      then have "d \<le> d'" if "d' \<in> ran (th_abs ?h)" for d'
        using r [OF that] none [of d'] assms(2) by (auto simp: never_late_def)
      with False show ?thesis by (auto simp: never_late_def arm_if_earlier_def)
    qed
    with rm Schedule show ?thesis by (simp add: wk_schedule_def)
  next
    case (Unschedule t)
    with rm show ?thesis by (simp add: wk_unschedule_def)
  qed
qed

lemma fire_correct:
  assumes "wk_inv w" "list_all op_time ops"
  shows "\<exists>w'. fire now ops w = Some w' \<and> wk_inv w' \<and> never_late w'"
proof -
  from assms(1) have "th_inv (wk_timers w)" by (simp add: wk_inv_def)
  from due_loop_correct [OF this, of now "[]"] obtain due h where d: "due_loop now [] (wk_timers w) = Some (due, h)" "th_inv h"
    and a: "th_abs h = (\<lambda>t. case th_abs (wk_timers w) t of Some d \<Rightarrow> if d \<le> now + 500000 then None else Some d | None \<Rightarrow> None)"
    by auto
  have "ran (th_abs h) \<subseteq> ran (th_abs (wk_timers w))" unfolding a by (auto simp: ran_def split: option.splits if_splits)
  then have "wk_inv \<lparr>wk_timers = h, wk_armed = time_max\<rparr>" using assms(1) d(2) by (auto simp: wk_inv_def)
  note w1 = wk_fold_inv [OF this assms(2)]
  define w1 where "w1 = fold wk_step ops \<lparr>wk_timers = h, wk_armed = time_max\<rparr>"
  have i: "th_inv (wk_timers w1)" using w1 by (simp add: w1_def wk_inv_def)
  have dom: "dom (th_abs (wk_timers w1)) = set (th_v (wk_timers w1))" using i links_dom by (simp add: th_inv_def)
  have e: "th_earliest (wk_timers w1) \<le> d" if "d \<in> ran (th_abs (wk_timers w1))" for d
    using that th.earliest_least [OF i] by (auto simp: ran_def)
  define w2 where "w2 = (if th_empty (wk_timers w1) then w1 else arm_if_earlier (th_earliest (wk_timers w1)) w1)"
  have "fire now ops w = Some w2" by (simp add: fire_def d w1_def w2_def Let_def)
  moreover have "wk_inv w2" using w1 by (simp add: w2_def wk_inv_def flip: w1_def)
  moreover have "never_late w2"
  proof (cases "th_empty (wk_timers w1)")
    case True
    then have "ran (th_abs (wk_timers w1)) = {}" using dom by (auto simp: th_empty_def)
    then show ?thesis by (simp add: never_late_def w2_def True)
  next
    case False
    then show ?thesis using e by (auto simp: never_late_def w2_def arm_if_earlier_def intro: order_trans)
  qed
  ultimately show ?thesis by blast
qed

text \<open>
  C29. The worker never sleeps past a deadline, and its timer callback always ends. In every state
  reached by its connections' calls and by its timer, whatever is scheduled, the timer is armed for no
  later than the earliest deadline; and when the timer fires, the loop over the due connections ends,
  whatever is due, and leaves the worker in such a state again.
\<close>

theorem worker_never_late:
  assumes "wk_reach w" and "list_all op_time ops"
  shows "never_late w \<and> wk_inv w \<and> (\<exists>w'. fire now ops w = Some w' \<and> never_late w')"
proof -
  from assms(1) have "wk_inv w \<and> never_late w"
  proof induction
    case start
    then show ?case by (simp add: worker_new_def wk_inv_def never_late_def th_new_inv)
  next
    case (call w p)
    then show ?case by (simp add: wk_step_inv wk_step_never_late)
  next
    case (expire w ops now w')
    then show ?case using fire_correct by (metis option.inject)
  qed
  with fire_correct [OF _ assms(2)] show ?thesis by blast
qed

lemma worker_never_late_witness:
  "\<exists>w'. fire 90 [Schedule 1 300] (wk_step (Schedule 2 150) (wk_step (Schedule 1 100) worker_new)) = Some w' \<and> never_late w'"
proof -
  have "wk_reach (wk_step (Schedule 2 150) (wk_step (Schedule 1 100) worker_new))"
    by (intro wk_reach.intros) (simp_all add: time_max_def)
  from worker_never_late [OF this, of "[Schedule 1 300]"] show ?thesis by (simp add: time_max_def)
qed

end
