(* ===== verification/Http_Text.thy ===== *)
theory Http_Text
  imports Prelude
begin

text \<open>
  The text helpers every protocol uses: clamped slices, UTF-8 sequences and decimal numbers
  (\<^verbatim>\<open>src/core/strings.hpp\<close>), the field array with its case-insensitive lookup
  (\<^verbatim>\<open>src/core/headers.hpp\<close>), and the request with its methods (\<^verbatim>\<open>src/core/request.hpp\<close>). A view is the
  bytes it shows; \<open>Headers\<close> is the list of its first \<open>count_\<close> fields, its capacity a guard of \<open>add\<close>.
\<close>

unbundle bit_operations_syntax

subsection \<open>Strings\<close>

text \<open>\<open>slice(s, pos, len)\<close> and \<open>slice(s, pos)\<close>.\<close>

definition slice :: "bytes \<Rightarrow> nat \<Rightarrow> nat \<Rightarrow> bytes" where
  "slice s pos len = (if pos \<ge> length s then [] else take (min len (length s - pos)) (drop pos s))"

definition slice_from :: "bytes \<Rightarrow> nat \<Rightarrow> bytes" where
  "slice_from s pos = (if pos \<ge> length s then [] else drop pos s)"

definition utf8_at :: "bytes \<Rightarrow> nat \<Rightarrow> nat" where
  "utf8_at s k = (if k < length s then unat (s ! k) else 0x100)"

definition utf8_cont :: "bytes \<Rightarrow> nat \<Rightarrow> bool" where
  "utf8_cont s k \<longleftrightarrow> k < length s \<and> s ! k AND 0xC0 = 0x80"

definition utf8_sequence :: "bytes \<Rightarrow> nat \<Rightarrow> nat" where
  "utf8_sequence s i =
     (let c = utf8_at s i; c1 = utf8_at s (i + 1) in
      if c < 0x80 then 1
      else if c \<ge> 0xC2 \<and> c \<le> 0xDF then (if utf8_cont s (i + 1) then 2 else 0)
      else if c \<ge> 0xE0 \<and> c \<le> 0xEF then
        if \<not> utf8_cont s (i + 1) \<or> \<not> utf8_cont s (i + 2) then 0
        else if c = 0xE0 \<and> c1 < 0xA0 then 0
        else if c = 0xED \<and> c1 \<ge> 0xA0 then 0
        else 3
      else if c \<ge> 0xF0 \<and> c \<le> 0xF4 then
        if \<not> utf8_cont s (i + 1) \<or> \<not> utf8_cont s (i + 2) \<or> \<not> utf8_cont s (i + 3) then 0
        else if c = 0xF0 \<and> c1 < 0x90 then 0
        else if c = 0xF4 \<and> c1 \<ge> 0x90 then 0
        else 4
      else 0)"

text \<open>\<open>std::to_chars\<close> of an unsigned number, and the value of a run of digits.\<close>

fun decimal :: "nat \<Rightarrow> bytes" where
  "decimal n = (if n < 10 then [of_nat (48 + n)] else decimal (n div 10) @ [of_nat (48 + n mod 10)])"

declare decimal.simps [simp del]

definition append_number :: "bytes \<Rightarrow> u64 \<Rightarrow> bytes" where
  "append_number s v = s @ decimal (unat v)"

definition is_digit :: "byte \<Rightarrow> bool" where
  "is_digit c \<longleftrightarrow> 0x30 \<le> c \<and> c \<le> 0x39"

definition digits_value :: "bytes \<Rightarrow> nat" where
  "digits_value = foldl (\<lambda>n c. 10 * n + unat (c - 0x30)) 0"

definition lower :: "byte \<Rightarrow> byte" where
  "lower c = (if 0x41 \<le> c \<and> c \<le> 0x5a then c + 32 else c)"

definition iequals :: "bytes \<Rightarrow> bytes \<Rightarrow> bool" where
  "iequals a b \<longleftrightarrow> length a = length b \<and> list_all (\<lambda>(x, y). lower x = lower y) (zip a b)"

definition is_blank :: "byte \<Rightarrow> bool" where
  "is_blank c \<longleftrightarrow> c = c_space \<or> c = c_tab"

definition trim :: "bytes \<Rightarrow> bytes" where
  "trim s = rev (dropWhile is_blank (rev (dropWhile is_blank s)))"


subsection \<open>Fields and requests\<close>

type_synonym HeaderField = "bytes \<times> bytes"
type_synonym Headers = "HeaderField list"

definition kCapacity :: nat where
  "kCapacity = 100"

definition headers_add :: "Headers \<Rightarrow> bytes \<Rightarrow> bytes \<Rightarrow> Headers option" where
  "headers_add h name val = (if length h \<ge> kCapacity then None else Some (h @ [(name, val)]))"

definition headers_set_value :: "Headers \<Rightarrow> nat \<Rightarrow> bytes \<Rightarrow> Headers" where
  "headers_set_value h i val = (if i < length h then h[i := (fst (h ! i), val)] else h)"

text \<open>The loop that keeps the other fields in place; \<open>kept\<close> are those before \<open>to\<close>.\<close>

fun headers_remove_loop :: "bytes \<Rightarrow> Headers \<Rightarrow> Headers \<Rightarrow> Headers" where
  "headers_remove_loop name kept [] = kept"
| "headers_remove_loop name kept (f # fs) =
     headers_remove_loop name (if \<not> iequals (fst f) name then kept @ [f] else kept) fs"

definition headers_remove :: "Headers \<Rightarrow> bytes \<Rightarrow> Headers" where
  "headers_remove h name = headers_remove_loop name [] h"

fun headers_get :: "Headers \<Rightarrow> bytes \<Rightarrow> bytes" where
  "headers_get [] name = []"
| "headers_get (f # fs) name = (if iequals (fst f) name then snd f else headers_get fs name)"

fun headers_contains :: "Headers \<Rightarrow> bytes \<Rightarrow> bool" where
  "headers_contains [] name = False"
| "headers_contains (f # fs) name = (if iequals (fst f) name then True else headers_contains fs name)"

datatype Method = m_get | m_head | m_post | m_put | m_del | m_patch | m_options | m_trace | m_connect | m_other

fun method_code :: "Method \<Rightarrow> nat" where
  "method_code m_get = 0" | "method_code m_head = 1" | "method_code m_post = 2" | "method_code m_put = 3"
| "method_code m_del = 4" | "method_code m_patch = 5" | "method_code m_options = 6" | "method_code m_trace = 7"
| "method_code m_connect = 8" | "method_code m_other = 9"

type_synonym MethodSet = u16

definition method_bit :: "Method \<Rightarrow> MethodSet" where
  "method_bit m = push_bit (method_code m) 1"

definition kStaticMethods :: MethodSet where
  "kStaticMethods = method_bit m_get OR method_bit m_head OR method_bit m_options"

definition kMethods :: "(bytes \<times> Method) list" where
  "kMethods =
     [(bytes_of ''GET'', m_get), (bytes_of ''HEAD'', m_head), (bytes_of ''POST'', m_post),
      (bytes_of ''PUT'', m_put), (bytes_of ''DELETE'', m_del), (bytes_of ''PATCH'', m_patch),
      (bytes_of ''OPTIONS'', m_options), (bytes_of ''TRACE'', m_trace), (bytes_of ''CONNECT'', m_connect)]"

definition parse_method :: "bytes \<Rightarrow> Method option" where
  "parse_method name = map_of kMethods name"

fun allow_loop :: "MethodSet \<Rightarrow> bytes \<Rightarrow> (bytes \<times> Method) list \<Rightarrow> bytes" where
  "allow_loop ms out [] = out"
| "allow_loop ms out ((name, m) # rest) =
     allow_loop ms (if ms AND method_bit m = 0 then out
                    else (if out \<noteq> [] then out @ bytes_of '', '' else out) @ name) rest"

definition allow_header :: "MethodSet \<Rightarrow> bytes" where
  "allow_header ms = allow_loop ms [] kMethods"

record Request =
  rq_method :: Method
  rq_method_name :: bytes
  rq_target :: bytes
  rq_version_minor :: int
  rq_headers :: Headers
  rq_host :: bytes
  rq_connection :: bytes
  rq_if_none_match :: bytes
  rq_if_modified_since :: bytes
  rq_range :: bytes
  rq_if_range :: bytes
  rq_accept_encoding :: bytes
  rq_has_body :: bool
  rq_chunked :: bool
  rq_expect_continue :: bool
  rq_content_length :: u64
  rq_body :: "nat option"
  rq_keep_alive :: bool
  rq_length :: nat
  rq_protocol :: bytes

definition request_reset :: Request where
  "request_reset = \<lparr>rq_method = m_other, rq_method_name = [], rq_target = [], rq_version_minor = 1, rq_headers = [],
     rq_host = [], rq_connection = [], rq_if_none_match = [], rq_if_modified_since = [], rq_range = [], rq_if_range = [],
     rq_accept_encoding = [], rq_has_body = False, rq_chunked = False, rq_expect_continue = False, rq_content_length = 0,
     rq_body = None, rq_keep_alive = True, rq_length = 0, rq_protocol = []\<rparr>"


subsection \<open>Lemmas\<close>

lemma iequals_lower: "iequals a b \<longleftrightarrow> map lower a = map lower b"
proof -
  have "length a = length b \<Longrightarrow> list_all (\<lambda>(x, y). lower x = lower y) (zip a b) \<longleftrightarrow> map lower a = map lower b"
    by (induction a b rule: list_induct2) auto
  then show ?thesis unfolding iequals_def by (metis length_map)
qed

lemma headers_remove_filter: "headers_remove h name = filter (\<lambda>f. \<not> iequals (fst f) name) h"
proof -
  have "headers_remove_loop name kept h = kept @ filter (\<lambda>f. \<not> iequals (fst f) name) h" for kept
    by (induction h arbitrary: kept) auto
  then show ?thesis by (simp add: headers_remove_def)
qed

lemma headers_contains_iff: "headers_contains h name \<longleftrightarrow> (\<exists>f\<in>set h. iequals (fst f) name)"
  by (induction h) auto

lemma headers_get_none: "\<not> headers_contains h name \<Longrightarrow> headers_get h name = []"
  by (induction h) (auto split: if_splits)

text \<open>A removed field is gone under every spelling of its name; the others keep their values.\<close>

lemma headers_get_remove:
  "headers_get (headers_remove h name) other = (if iequals name other then [] else headers_get h other)"
  unfolding headers_remove_filter by (induction h) (auto simp: iequals_lower)

lemma headers_get_add: "headers_add h name val = Some h' \<Longrightarrow>
  headers_get h' other = (if headers_contains h other then headers_get h other else if iequals name other then val else [])"
proof -
  have "headers_get (h @ [(name, val)]) other
      = (if headers_contains h other then headers_get h other else if iequals name other then val else [])"
    by (induction h) auto
  then show "headers_add h name val = Some h' \<Longrightarrow> ?thesis" by (auto simp: headers_add_def split: if_splits)
qed

text \<open>Printing a number and reading it back.\<close>

lemma digit_of: "n < 10 \<Longrightarrow> is_digit (of_nat (48 + n)) \<and> unat (of_nat (48 + n) - 0x30 :: byte) = n"
proof -
  assume n: "n < 10"
  have "unat (of_nat (48 + n) :: byte) = 48 + n" unfolding unat_of_nat using n by simp
  moreover have "unat (of_nat (48 + n) - 0x30 :: byte) = n"
  proof -
    have "of_nat (48 + n) - 0x30 = (of_nat n :: byte)" by simp
    then show ?thesis using n by (simp only: unat_of_nat) simp
  qed
  ultimately show ?thesis using n by (simp add: is_digit_def word_le_nat_alt)
qed

lemma digits_value_snoc: "digits_value (s @ [c]) = 10 * digits_value s + unat (c - 0x30)"
  by (simp add: digits_value_def)

lemma decimal_roundtrip: "digits_value (decimal n) = n \<and> list_all is_digit (decimal n) \<and> decimal n \<noteq> []"
proof (induction n rule: decimal.induct)
  case (1 n)
  show ?case
  proof (cases "n < 10")
    case True
    then show ?thesis using digit_of [OF True] by (subst (1 2 3) decimal.simps) (simp add: digits_value_def)
  next
    case False
    have "n mod 10 < 10" by simp
    from digit_of [OF this] 1 [OF False] False show ?thesis
      by (subst (1 2 3) decimal.simps) (simp add: digits_value_snoc)
  qed
qed

text \<open>The value of a run of digits.\<close>

lemma unat_digit: "is_digit c \<Longrightarrow> unat (c - 0x30) < 10 \<and> (unat (c - 0x30) = 0 \<longleftrightarrow> c = 0x30)"
proof -
  assume d: "is_digit c"
  then have "unat (c - 0x30) = unat c - 0x30" by (simp add: is_digit_def unat_sub)
  with d show ?thesis by (auto simp: is_digit_def word_le_nat_alt word_unat_eq_iff)
qed

lemma digits_value_bound: "list_all is_digit v \<Longrightarrow> digits_value v < 10 ^ length v"
proof (induction v rule: rev_induct)
  case (snoc c v)
  then show ?case using unat_digit [of c] by (simp add: digits_value_snoc)
qed (simp add: digits_value_def)

lemma digits_value_zero: "list_all is_digit v \<Longrightarrow> digits_value v = 0 \<longleftrightarrow> \<not> list_ex (\<lambda>c. c \<noteq> 0x30) v"
proof (induction v rule: rev_induct)
  case (snoc c v)
  then show ?case using unat_digit [of c] by (auto simp: digits_value_snoc)
qed (simp add: digits_value_def)

lemma digits_value_Cons: "digits_value (c # s) = unat (c - 0x30) * 10 ^ length s + digits_value s"
proof -
  have step: "foldl (\<lambda>n c. 10 * n + unat (c - 0x30)) k s = k * 10 ^ length s + digits_value s" for k
  proof (induction s rule: rev_induct)
    case (snoc x xs)
    then show ?case by (simp add: digits_value_def)
  qed (simp add: digits_value_def)
  have "digits_value (c # s) = foldl (\<lambda>n c. 10 * n + unat (c - 0x30)) (unat (c - 0x30)) s" by (simp add: digits_value_def)
  then show ?thesis by (simp only: step)
qed

lemma length_decimal: "n < 10 ^ k \<Longrightarrow> 0 < k \<Longrightarrow> length (decimal n) \<le> k"
proof (induction k arbitrary: n)
  case (Suc k)
  show ?case
  proof (cases "n < 10")
    case True
    then show ?thesis by (subst decimal.simps) simp
  next
    case False
    then have "k \<noteq> 0" using Suc.prems by (cases k) auto
    moreover have "n div 10 < 10 ^ k" using Suc.prems by (intro less_mult_imp_div_less) (simp add: mult.commute)
    ultimately have "k \<noteq> 0" "n div 10 < 10 ^ k" by blast+
    with Suc.IH [of "n div 10"] False show ?thesis by (subst decimal.simps) simp
  qed
qed simp

text \<open>Nothing to trim.\<close>

lemma trim_id: "s = [] \<or> \<not> is_blank (hd s) \<and> \<not> is_blank (last s) \<Longrightarrow> trim s = s"
proof (cases "s = []")
  case False
  assume "s = [] \<or> \<not> is_blank (hd s) \<and> \<not> is_blank (last s)"
  with False have "dropWhile is_blank s = s" "dropWhile is_blank (rev s) = rev s"
    by (auto simp: neq_Nil_conv hd_rev dropWhile_eq_self_iff)
  then show ?thesis by (simp add: trim_def)
qed (simp add: trim_def)

lemma digit_chars: "is_digit c \<Longrightarrow> \<not> is_blank c \<and> c \<noteq> c_dash \<and> c \<noteq> c_comma"
  by (auto simp: is_digit_def is_blank_def)

lemma trim_digits: "list_all is_digit s \<Longrightarrow> trim s = s"
  by (rule trim_id) (auto simp: list_all_iff digit_chars)

end
