(* ===== verification/Http1_Parser.thy ===== *)
theory Http1_Parser
  imports Http_Text
begin

text \<open>
  The HTTP/1 request parser (\<^verbatim>\<open>src/http1/parser.cpp\<close>): the head of one request out of the receive
  buffer, line by line, with everything RFC 9112 has a server refuse. The request object is filled as
  the code fills it, also up to the point of an error; the loop's local variables are a record. The
  second half shows what the connection relies on: that reading more of the buffer never changes a
  verdict, and what a request that was accepted cannot be.
\<close>

unbundle bit_operations_syntax

datatype ParseStatus =
  ps_complete | ps_incomplete | ps_bad_request | ps_version_not_supported | ps_too_many_headers
  | ps_unsupported_transfer_encoding | ps_expectation_failed

definition kMaxHeaderCount :: nat where
  "kMaxHeaderCount = kCapacity"

definition kMaxContentLengthDigits :: nat where
  "kMaxContentLengthDigits = 19"

definition next_line :: "bytes \<Rightarrow> nat \<Rightarrow> (bytes \<times> nat) option" where
  "next_line buf pos =
     (case find_byte c_lf (drop pos buf) of
        None \<Rightarrow> None
      | Some k \<Rightarrow>
          let lf_idx = pos + k; e = if lf_idx > pos \<and> buf ! (lf_idx - 1) = c_cr then lf_idx - 1 else lf_idx in
          Some (slice buf pos (e - pos), lf_idx + 1))"

definition is_tchar :: "byte \<Rightarrow> bool" where
  "is_tchar c =
     (if 0x61 \<le> c \<and> c \<le> 0x7a then True
      else if 0x41 \<le> c \<and> c \<le> 0x5a then True
      else if 0x30 \<le> c \<and> c \<le> 0x39 then True
      else c \<in> {0x21, 0x23, 0x24, 0x25, 0x26, 0x27, 0x2a, 0x2b, 0x2d, 0x2e, 0x5e, 0x5f, 0x60, 0x7c, 0x7e})"

text \<open>The walk over a comma-separated list, from position \<open>i\<close>.\<close>

function has_token_from :: "bytes \<Rightarrow> bytes \<Rightarrow> nat \<Rightarrow> bool" where
  "has_token_from val tok i =
     (if i < length val then
        let j = (case find_from c_comma val i of None \<Rightarrow> length val | Some j \<Rightarrow> j) in
        if iequals (trim (slice val i (j - i))) tok then True
        else has_token_from val tok (j + 1)
      else False)"
  by pat_completeness auto
termination
  by (relation "measure (\<lambda>(v, t, i). length v - i)") (auto simp: find_from_def split: option.splits)

declare has_token_from.simps [simp del]

definition has_token :: "bytes \<Rightarrow> bytes \<Rightarrow> bool" where
  "has_token val tok = has_token_from val tok 0"

text \<open>The loop's variables; \<open>hs_out\<close> is the request being filled.\<close>

record HeadState =
  hs_out :: Request
  hs_seen_host :: bool
  hs_seen_content_length :: bool
  hs_seen_transfer_encoding :: bool
  hs_content_length :: bytes

definition field_char :: "byte \<Rightarrow> bool" where
  "field_char c \<longleftrightarrow> \<not> (c < 0x20 \<and> c \<noteq> c_tab \<or> c = 0x7f)"

definition host_char :: "byte \<Rightarrow> bool" where
  "host_char c \<longleftrightarrow> \<not> (c \<le> 0x20 \<or> c = c_slash \<or> c = c_bslash \<or> c = 0x22 \<or> c = 0x3c \<or> c = 0x3e)"

definition content_length_field :: "HeadState \<Rightarrow> bytes \<Rightarrow> (ParseStatus \<times> HeadState) + HeadState" where
  "content_length_field hs val =
     (if val = [] \<or> length val > kMaxContentLengthDigits then Inl (ps_bad_request, hs)
      else if \<not> list_all is_digit val then Inl (ps_bad_request, hs)
      else if hs_seen_content_length hs \<and> val \<noteq> hs_content_length hs then Inl (ps_bad_request, hs)
      else let hs = hs\<lparr>hs_seen_content_length := True, hs_content_length := val\<rparr> in
        if list_ex (\<lambda>c. c \<noteq> 0x30) val then
          let hs = hs\<lparr>hs_out := (hs_out hs)\<lparr>rq_has_body := True\<rparr>\<rparr> in
          if digits_value val \<ge> 2 ^ 64 then Inl (ps_bad_request, hs)
          else Inr (hs\<lparr>hs_out := (hs_out hs)\<lparr>rq_content_length := of_nat (digits_value val)\<rparr>\<rparr>)
        else Inr hs)"

definition host_field :: "HeadState \<Rightarrow> bytes \<Rightarrow> (ParseStatus \<times> HeadState) + HeadState" where
  "host_field hs val =
     (if hs_seen_host hs then Inl (ps_bad_request, hs)
      else let hs = hs\<lparr>hs_seen_host := True\<rparr> in
        if \<not> list_all host_char val then Inl (ps_bad_request, hs)
        else Inr (hs\<lparr>hs_out := (hs_out hs)\<lparr>rq_host := val\<rparr>\<rparr>))"

definition transfer_encoding_field :: "HeadState \<Rightarrow> bytes \<Rightarrow> (ParseStatus \<times> HeadState) + HeadState" where
  "transfer_encoding_field hs val =
     (if rq_version_minor (hs_out hs) = 0 then Inl (ps_bad_request, hs)
      else if hs_seen_transfer_encoding hs then Inl (ps_bad_request, hs)
      else let hs = hs\<lparr>hs_seen_transfer_encoding := True\<rparr> in
        if \<not> iequals val (bytes_of ''chunked'') then Inl (ps_unsupported_transfer_encoding, hs)
        else Inr (hs\<lparr>hs_out := (hs_out hs)\<lparr>rq_chunked := True, rq_has_body := True\<rparr>\<rparr>))"

definition known_field :: "HeadState \<Rightarrow> bytes \<Rightarrow> bytes \<Rightarrow> (ParseStatus \<times> HeadState) + HeadState" where
  "known_field hs name val =
     (let c = lower (name ! 0); out = hs_out hs in
      if c = ch CHR ''a'' then
        Inr (if iequals name (bytes_of ''accept-encoding'') then hs\<lparr>hs_out := out\<lparr>rq_accept_encoding := val\<rparr>\<rparr> else hs)
      else if c = ch CHR ''h'' then
        if iequals name (bytes_of ''host'') then host_field hs val else Inr hs
      else if c = ch CHR ''c'' then
        if iequals name (bytes_of ''connection'') then Inr (hs\<lparr>hs_out := out\<lparr>rq_connection := val\<rparr>\<rparr>)
        else if iequals name (bytes_of ''content-length'') then content_length_field hs val
        else Inr hs
      else if c = ch CHR ''e'' then
        if iequals name (bytes_of ''expect'') \<and> rq_version_minor out \<ge> 1 then
          if \<not> iequals val (bytes_of ''100-continue'') then Inl (ps_expectation_failed, hs)
          else Inr (hs\<lparr>hs_out := out\<lparr>rq_expect_continue := True\<rparr>\<rparr>)
        else Inr hs
      else if c = ch CHR ''i'' then
        Inr (if iequals name (bytes_of ''if-none-match'') then hs\<lparr>hs_out := out\<lparr>rq_if_none_match := val\<rparr>\<rparr>
             else if iequals name (bytes_of ''if-modified-since'') then hs\<lparr>hs_out := out\<lparr>rq_if_modified_since := val\<rparr>\<rparr>
             else if iequals name (bytes_of ''if-range'') then hs\<lparr>hs_out := out\<lparr>rq_if_range := val\<rparr>\<rparr>
             else hs)
      else if c = ch CHR ''r'' then
        Inr (if iequals name (bytes_of ''range'') then hs\<lparr>hs_out := out\<lparr>rq_range := val\<rparr>\<rparr> else hs)
      else if c = ch CHR ''t'' then
        if iequals name (bytes_of ''transfer-encoding'') then transfer_encoding_field hs val else Inr hs
      else Inr hs)"

definition header_line :: "HeadState \<Rightarrow> bytes \<Rightarrow> (ParseStatus \<times> HeadState) + HeadState" where
  "header_line hs line =
     (if line ! 0 = c_space \<or> line ! 0 = c_tab then Inl (ps_bad_request, hs)
      else if c_cr \<in> set line then Inl (ps_bad_request, hs)
      else case find_byte c_colon line of
        None \<Rightarrow> Inl (ps_bad_request, hs)
      | Some colon \<Rightarrow>
          if colon = 0 then Inl (ps_bad_request, hs)
          else let name = slice line 0 colon in
            if \<not> list_all is_tchar name then Inl (ps_bad_request, hs)
            else let val = trim (slice_from line (colon + 1)) in
              case headers_add (rq_headers (hs_out hs)) name val of
                None \<Rightarrow> Inl (ps_too_many_headers, hs)
              | Some h \<Rightarrow>
                  let hs = hs\<lparr>hs_out := (hs_out hs)\<lparr>rq_headers := h\<rparr>\<rparr> in
                  if \<not> list_all field_char val then Inl (ps_bad_request, hs)
                  else known_field hs name val)"

lemma next_line_pos: "next_line buf pos = Some (line, n) \<Longrightarrow> pos < n \<and> n \<le> length buf"
  by (auto simp: next_line_def Let_def split: option.splits dest!: find_byte_SomeD)

text \<open>The lines of the head, to the empty one; also the position where the loop stopped.\<close>

function head_loop :: "bytes \<Rightarrow> nat \<Rightarrow> nat \<Rightarrow> HeadState \<Rightarrow> ParseStatus \<times> HeadState \<times> nat" where
  "head_loop buf pos header_count hs =
     (case next_line buf pos of
        None \<Rightarrow> (ps_incomplete, hs, pos)
      | Some (line, n) \<Rightarrow>
          if line = [] then (ps_complete, hs, n)
          else if header_count + 1 > kMaxHeaderCount then (ps_too_many_headers, hs, n)
          else case header_line hs line of
            Inl (st, hs) \<Rightarrow> (st, hs, n)
          | Inr hs \<Rightarrow> head_loop buf n (header_count + 1) hs)"
  by pat_completeness auto
termination
  by (relation "measure (\<lambda>(b, p, c, h). length b - p)") (auto dest!: next_line_pos)

declare head_loop.simps [simp del]

text \<open>The request line, filled into the request.\<close>

definition request_line :: "Request \<Rightarrow> bytes \<Rightarrow> (ParseStatus \<times> Request) + Request" where
  "request_line out line =
     (case find_byte c_space line of
        None \<Rightarrow> Inl (ps_bad_request, out)
      | Some sp1 \<Rightarrow>
          if sp1 = 0 then Inl (ps_bad_request, out)
          else case find_from c_space line (sp1 + 1) of
            None \<Rightarrow> Inl (ps_bad_request, out)
          | Some sp2 \<Rightarrow>
              if sp2 = sp1 + 1 then Inl (ps_bad_request, out)
              else let out = out\<lparr>rq_method_name := slice line 0 sp1\<rparr> in
                if \<not> list_all is_tchar (rq_method_name out) then Inl (ps_bad_request, out)
                else let out = out\<lparr>rq_method := (case parse_method (rq_method_name out) of None \<Rightarrow> m_other | Some m \<Rightarrow> m),
                                   rq_target := slice line (sp1 + 1) (sp2 - sp1 - 1)\<rparr> in
                  if list_ex (\<lambda>c. c \<le> 0x20 \<or> c = 0x7f) (rq_target out) then Inl (ps_bad_request, out)
                  else let ver = slice_from line (sp2 + 1) in
                    if length ver \<noteq> 8 \<or> slice ver 0 5 \<noteq> bytes_of ''HTTP/'' \<or> ver ! 6 \<noteq> c_dot then Inl (ps_bad_request, out)
                    else if ver ! 5 \<noteq> ch CHR ''1'' then Inl (ps_version_not_supported, out)
                    else if ver ! 7 = ch CHR ''1'' then Inr (out\<lparr>rq_version_minor := 1\<rparr>)
                    else if ver ! 7 = ch CHR ''0'' then Inr (out\<lparr>rq_version_minor := 0\<rparr>)
                    else Inl (ps_version_not_supported, out))"

definition head_new :: "Request \<Rightarrow> HeadState" where
  "head_new out = \<lparr>hs_out = out, hs_seen_host = False, hs_seen_content_length = False,
     hs_seen_transfer_encoding = False, hs_content_length = []\<rparr>"

definition keeps_alive :: "Request \<Rightarrow> bool" where
  "keeps_alive out =
     (if rq_version_minor out = 1 then \<not> has_token (rq_connection out) (bytes_of ''close'')
      else has_token (rq_connection out) (bytes_of ''keep-alive''))"

definition parse_request :: "bytes \<Rightarrow> ParseStatus \<times> Request" where
  "parse_request buf =
     (let pos = length (takeWhile (\<lambda>c. c = c_cr \<or> c = c_lf) buf); out = request_reset in
      case next_line buf pos of
        None \<Rightarrow> (ps_incomplete, out)
      | Some (line, n) \<Rightarrow>
          (case request_line out line of
             Inl e \<Rightarrow> e
           | Inr out \<Rightarrow>
               (case head_loop buf n 0 (head_new out) of
                  (st, hs, pos) \<Rightarrow>
                    if st \<noteq> ps_complete then (st, hs_out hs)
                    else if hs_seen_content_length hs \<and> hs_seen_transfer_encoding hs then (ps_bad_request, hs_out hs)
                    else let out = hs_out hs in
                      (ps_complete, out\<lparr>rq_keep_alive := keeps_alive out, rq_length := pos\<rparr>))))"


subsection \<open>What a verdict depends on\<close>

text \<open>Two buffers that agree up to \<open>n\<close>.\<close>

definition agree :: "nat \<Rightarrow> bytes \<Rightarrow> bytes \<Rightarrow> bool" where
  "agree n b c \<longleftrightarrow> n \<le> length b \<and> n \<le> length c \<and> take n b = take n c"

lemma agree_nth: "agree n b c \<Longrightarrow> i < n \<Longrightarrow> b ! i = c ! i"
  by (metis agree_def nth_take)

lemma agree_take: "agree n b c \<Longrightarrow> m \<le> n \<Longrightarrow> take m (drop k b) = take m (drop k c) \<or> n < k + m"
proof -
  assume a: "agree n b c" "m \<le> n"
  have "take m (drop k b) = take m (drop k c)" if "k + m \<le> n"
  proof (rule nth_equalityI)
    show "length (take m (drop k b)) = length (take m (drop k c))" using a that by (auto simp: agree_def)
    show "take m (drop k b) ! i = take m (drop k c) ! i" if "i < length (take m (drop k b))" for i
      using that \<open>k + m \<le> n\<close> a agree_nth [OF a(1), of "k + i"] by (simp add: agree_def)
  qed
  then show ?thesis by linarith
qed

lemma agree_mono: "agree n b c \<Longrightarrow> m \<le> n \<Longrightarrow> agree m b c"
  by (auto simp: agree_def) (metis min.absorb1 take_take)

lemma next_line_agree:
  assumes "next_line b pos = Some (line, n)" and "agree n b c"
  shows "next_line c pos = Some (line, n)"
proof -
  from assms(1) obtain k where k: "find_byte c_lf (drop pos b) = Some k" and n: "n = pos + k + 1"
    and l: "line = slice b pos ((if pos + k > pos \<and> b ! (pos + k - 1) = c_cr then pos + k - 1 else pos + k) - pos)"
    by (auto simp: next_line_def Let_def split: option.splits)
  have kb: "k < length (drop pos b)" "drop pos b ! k = c_lf" "c_lf \<notin> set (take k (drop pos b))"
    using k by (auto simp: find_byte_Some_iff)
  have tk: "take j (drop pos b) = take j (drop pos c)" if "j \<le> k" for j using agree_take [OF assms(2), of j pos] that n by simp
  have lc: "n \<le> length c" using assms(2) by (simp add: agree_def)
  have "find_byte c_lf (drop pos c) = Some k"
    using kb tk [of k] agree_nth [OF assms(2), of "pos + k"] lc n by (simp add: find_byte_Some_iff)
  moreover have "b ! (pos + k - 1) = c ! (pos + k - 1)" using agree_nth [OF assms(2)] n by simp
  moreover have "slice b pos j = slice c pos j" if "j \<le> k" for j
    using tk [OF that] kb lc n that by (simp add: slice_def min_def)
  ultimately show ?thesis using l n by (simp add: next_line_def Let_def)
qed

lemma head_loop_line:
  assumes "next_line b pos = Some (line, n)"
  shows "head_loop b pos cnt hs =
      (if line = [] then (ps_complete, hs, n) else if cnt + 1 > kMaxHeaderCount then (ps_too_many_headers, hs, n)
       else case header_line hs line of Inl (st, hs) \<Rightarrow> (st, hs, n) | Inr hs \<Rightarrow> head_loop b n (cnt + 1) hs)"
  by (subst head_loop.simps) (simp add: assms)

lemma head_loop_complete:
  assumes "head_loop b pos cnt hs = (st, hs', q)" "st \<noteq> ps_incomplete"
  obtains line n where "next_line b pos = Some (line, n)"
  using assms by (subst (asm) head_loop.simps) (auto split: option.splits)

text \<open>The errors of a line never say "complete" or "incomplete".\<close>

lemma header_line_status:
  "header_line hs line = Inl (st, hs') \<Longrightarrow> st \<noteq> ps_complete \<and> st \<noteq> ps_incomplete"
  by (auto simp: header_line_def known_field_def host_field_def content_length_field_def transfer_encoding_field_def Let_def
    split: if_splits option.splits)

lemma head_loop_pos: "head_loop b pos cnt hs = (st, hs', q) \<Longrightarrow> st \<noteq> ps_incomplete \<Longrightarrow> pos < q \<and> q \<le> length b"
proof (induction b pos cnt hs rule: head_loop.induct)
  case (1 b pos cnt hs)
  from head_loop_complete [OF 1(2,3)] obtain line n where nl: "next_line b pos = Some (line, n)" .
  note p = next_line_pos [OF nl] and h = head_loop_line [OF nl, of cnt hs]
  show ?case
  proof (cases "line = [] \<or> cnt + 1 > kMaxHeaderCount")
    case True
    then show ?thesis using 1(2) p unfolding h by (auto split: if_splits)
  next
    case False
    then show ?thesis
    proof (cases "header_line hs line")
      case (Inl e)
      then show ?thesis using False 1(2) p unfolding h by (cases e) auto
    next
      case (Inr hs2)
      have "head_loop b n (cnt + 1) hs2 = (st, hs', q)" using False 1(2) Inr unfolding h by simp
      from 1(1) [OF nl refl _ _ Inr this 1(3)] False p show ?thesis by auto
    qed
  qed
qed

lemma head_loop_agree:
  "head_loop b pos cnt hs = (st, hs', q) \<Longrightarrow> st \<noteq> ps_incomplete \<Longrightarrow> agree q b c \<Longrightarrow> head_loop c pos cnt hs = (st, hs', q)"
proof (induction b pos cnt hs rule: head_loop.induct)
  case (1 b pos cnt hs)
  from head_loop_complete [OF 1(2,3)] obtain line n where nl: "next_line b pos = Some (line, n)" .
  note h = head_loop_line [OF nl, of cnt hs]
  have line: "next_line c pos = Some (line, n)" if "n \<le> q" using next_line_agree [OF nl] agree_mono [OF 1(4) that] by blast
  show ?case
  proof (cases "line = [] \<or> cnt + 1 > kMaxHeaderCount \<or> isl (header_line hs line)")
    case True
    then have "n = q" using 1(2) unfolding h by (auto split: if_splits sum.splits)
    then show ?thesis
      using 1(2) True unfolding h head_loop_line [OF line [OF eq_refl [OF \<open>n = q\<close>]], of cnt hs] by (auto split: if_splits sum.splits)
  next
    case False
    then obtain hs2 where Inr: "header_line hs line = Inr hs2" by (cases "header_line hs line") auto
    have go: "head_loop b n (cnt + 1) hs2 = (st, hs', q)" using False 1(2) Inr unfolding h by simp
    have "n \<le> q" using head_loop_pos [OF go 1(3)] by simp
    from 1(1) [OF nl refl _ _ Inr go 1(3,4)] False show ?thesis
      by (simp add: head_loop_line [OF line [OF \<open>n \<le> q\<close>], of cnt hs] Inr)
  qed
qed

text \<open>Every verdict but "incomplete" rests on a prefix of the buffer, for an accepted head exactly its length.\<close>

lemma request_line_status: "request_line out line = Inl e \<Longrightarrow> fst e \<noteq> ps_complete"
  by (auto simp: request_line_def Let_def split: option.splits if_splits)

lemma parse_request_agree:
  assumes "parse_request b = (st, r)" and "st \<noteq> ps_incomplete"
  obtains q where "q \<le> length b" "0 < q" "st = ps_complete \<Longrightarrow> rq_length r = q"
    "\<And>c. agree q b c \<Longrightarrow> parse_request c = (st, r)"
proof -
  let ?P = "\<lambda>c. c = c_cr \<or> c = c_lf"
  define p where "p = length (takeWhile ?P b)"
  from assms obtain line n where nl: "next_line b p = Some (line, n)"
    by (auto simp: parse_request_def Let_def p_def split: option.splits)
  note np = next_line_pos [OF nl]
  have skip: "length (takeWhile ?P c) = p" if "agree n b c" for c
  proof -
    have "?P (b ! i)" if "i < p" for i
    proof -
      have "takeWhile ?P b ! i \<in> set (takeWhile ?P b)" using that unfolding p_def by (rule nth_mem)
      moreover have "takeWhile ?P b ! i = b ! i" using that unfolding p_def by (rule takeWhile_nth)
      ultimately show ?thesis by (metis (mono_tags) set_takeWhileD)
    qed
    moreover have "\<not> ?P (b ! p)" unfolding p_def using np by (intro nth_length_takeWhile) (simp add: p_def)
    ultimately have "takeWhile ?P c = take p c"
      using agree_nth [OF that] np by (intro takeWhile_eq_take_P_nth) auto
    then show ?thesis using that np by (simp add: agree_def)
  qed
  have eq: "parse_request c = (case request_line request_reset line of Inl e \<Rightarrow> e
      | Inr out \<Rightarrow> (case head_loop c n 0 (head_new out) of (st, hs, pos) \<Rightarrow>
          if st \<noteq> ps_complete then (st, hs_out hs)
          else if hs_seen_content_length hs \<and> hs_seen_transfer_encoding hs then (ps_bad_request, hs_out hs)
          else let out = hs_out hs in (ps_complete, out\<lparr>rq_keep_alive := keeps_alive out, rq_length := pos\<rparr>)))"
    if "agree n b c" for c
    using skip [OF that] next_line_agree [OF nl that] by (simp add: parse_request_def Let_def)
  have bb: "agree n b b" using np by (simp add: agree_def)
  show ?thesis
  proof (cases "request_line request_reset line")
    case (Inl e)
    from request_line_status [OF Inl] show ?thesis using assms(1) eq [OF bb] eq Inl np by (intro that [of n]) auto
  next
    case (Inr out)
    obtain st1 hs q where h: "head_loop b n 0 (head_new out) = (st1, hs, q)" by (cases "head_loop b n 0 (head_new out)") auto
    have st1: "st1 \<noteq> ps_incomplete" using assms eq [OF bb] Inr h by (auto split: if_splits)
    note q = head_loop_pos [OF h st1]
    have "parse_request c = (st, r)" if "agree q b c" for c
      using eq [OF agree_mono [OF that]] q head_loop_agree [OF h st1 that] eq [OF bb] assms(1) Inr h by simp
    moreover have "st = ps_complete \<Longrightarrow> rq_length r = q"
      using assms(1) eq [OF bb] Inr h by (auto simp: Let_def split: if_splits)
    ultimately show ?thesis using q np by (intro that [of q]) auto
  qed
qed

text \<open>
  C30. Reading a request from a socket piece by piece is sound. A verdict on what has arrived, good or
  bad, is the verdict on it with anything more appended; an accepted head is consumed exactly: its
  length is within the buffer, the head alone gives the same request, and every shorter prefix of it
  is still incomplete, so that neither the following request nor the pace of arrival has any
  influence.
\<close>

theorem parse_request_incremental:
  assumes "parse_request buf = (st, r)" and "st \<noteq> ps_incomplete"
  shows "parse_request (buf @ rest) = (st, r)
    \<and> (st = ps_complete \<longrightarrow> rq_length r \<le> length buf \<and> parse_request (take (rq_length r) buf) = (st, r)
         \<and> (\<forall>n < rq_length r. fst (parse_request (take n buf)) = ps_incomplete))"
proof -
  from parse_request_agree [OF assms] obtain q where q: "q \<le> length buf" "0 < q" "st = ps_complete \<Longrightarrow> rq_length r = q"
    and same: "\<And>c. agree q buf c \<Longrightarrow> parse_request c = (st, r)" by blast
  have 1: "parse_request (buf @ rest) = (st, r)" using q by (intro same) (simp add: agree_def)
  have 2: "parse_request (take q buf) = (st, r)" using q by (intro same) (simp add: agree_def)
  have 3: "fst (parse_request (take n buf)) = ps_incomplete" if st: "st = ps_complete" and n: "n < q" for n
  proof (rule ccontr)
    assume c: "fst (parse_request (take n buf)) \<noteq> ps_incomplete"
    obtain st1 r1 where p1: "parse_request (take n buf) = (st1, r1)" by force
    with c have "st1 \<noteq> ps_incomplete" by simp
    from parse_request_agree [OF p1 this] obtain m where m: "m \<le> length (take n buf)" "st1 = ps_complete \<Longrightarrow> rq_length r1 = m"
      and same1: "\<And>c. agree m (take n buf) c \<Longrightarrow> parse_request c = (st1, r1)" by blast
    have "parse_request buf = (st1, r1)" using m q n by (intro same1) (simp add: agree_def min_def)
    with assms(1) st have "rq_length r = m" using m by simp
    with q st m n show False by simp
  qed
  show ?thesis using 1 2 3 q by auto
qed

definition sample_request :: bytes where
  "sample_request = bytes_of ''GET / HTTP/1.1'' @ [13, 10] @ bytes_of ''Host: a'' @ [13, 10, 13, 10]"

lemma sample_request_parses:
  "(case parse_request sample_request of (st, r) \<Rightarrow> st = ps_complete \<and> rq_length r = 27 \<and> rq_host r = bytes_of ''a'')"
  by code_simp

lemma parse_request_incremental_witness:
  "\<exists>r. parse_request (sample_request @ bytes_of ''GET'') = (ps_complete, r) \<and> rq_length r = 27
     \<and> fst (parse_request (take 26 sample_request)) = ps_incomplete"
proof -
  obtain st r where p: "parse_request sample_request = (st, r)" by force
  with sample_request_parses have "st = ps_complete" "rq_length r = 27" by simp_all
  with parse_request_incremental [OF p, of "bytes_of ''GET''"] show ?thesis by (intro exI [of _ r]) (simp del: bytes_of_Cons)
qed


subsection \<open>What an accepted request cannot be\<close>

abbreviation (input) "n_host \<equiv> bytes_of ''host''"
abbreviation (input) "n_length \<equiv> bytes_of ''content-length''"
abbreviation (input) "n_encoding \<equiv> bytes_of ''transfer-encoding''"

definition named :: "bytes \<Rightarrow> Headers \<Rightarrow> bytes list" where
  "named n h = map snd (filter (\<lambda>f. iequals (fst f) n) h)"

lemma named_snoc [simp]: "named n (h @ [(name, val)]) = named n h @ (if iequals name n then [val] else [])"
  by (simp add: named_def)

lemma named_Nil [simp]: "named n [] = []"
  by (simp add: named_def)

lemma named_contains: "headers_contains h n \<longleftrightarrow> named n h \<noteq> []"
  by (auto simp: headers_contains_iff named_def filter_empty_conv)

text \<open>A field as the parser lets it through, and the framing the fields determine.\<close>

definition field_ok :: "HeaderField \<Rightarrow> bool" where
  "field_ok f \<longleftrightarrow> fst f \<noteq> [] \<and> list_all is_tchar (fst f) \<and> list_all field_char (snd f)"

definition lengths_ok :: "bytes list \<Rightarrow> u64 \<Rightarrow> bool" where
  "lengths_ok ls n \<longleftrightarrow> (ls = [] \<and> n = 0)
     \<or> (\<exists>v. ls = replicate (length ls) v \<and> ls \<noteq> [] \<and> v \<noteq> [] \<and> list_all is_digit v \<and> unat n = digits_value v)"

definition framing_ok :: "Request \<Rightarrow> bool" where
  "framing_ok r \<longleftrightarrow> length (rq_headers r) \<le> kMaxHeaderCount \<and> list_all field_ok (rq_headers r)
     \<and> lengths_ok (named n_length (rq_headers r)) (rq_content_length r)
     \<and> (rq_chunked r \<longleftrightarrow> named n_encoding (rq_headers r) \<noteq> [])
     \<and> (rq_chunked r \<longrightarrow> length (named n_encoding (rq_headers r)) = 1 \<and> rq_version_minor r \<noteq> 0)
     \<and> list_all (\<lambda>v. iequals v (bytes_of ''chunked'')) (named n_encoding (rq_headers r))
     \<and> (rq_has_body r \<longleftrightarrow> rq_chunked r \<or> rq_content_length r \<noteq> 0)
     \<and> named n_host (rq_headers r) \<in> {[], [rq_host r]} \<and> list_all host_char (rq_host r)"

text \<open>The invariant of the loop: the same, with the loop's variables.\<close>

definition head_ok :: "HeadState \<Rightarrow> bool" where
  "head_ok hs \<longleftrightarrow> framing_ok (hs_out hs)
     \<and> (hs_seen_content_length hs \<longleftrightarrow> named n_length (rq_headers (hs_out hs)) \<noteq> [])
     \<and> (hs_seen_transfer_encoding hs \<longleftrightarrow> rq_chunked (hs_out hs))
     \<and> (hs_seen_host hs \<longleftrightarrow> named n_host (rq_headers (hs_out hs)) \<noteq> [])
     \<and> (hs_seen_content_length hs \<longrightarrow> hs_content_length hs = hd (named n_length (rq_headers (hs_out hs))))"

definition same_framing :: "HeadState \<Rightarrow> HeadState \<Rightarrow> bool" where
  "same_framing a b \<longleftrightarrow> rq_headers (hs_out a) = rq_headers (hs_out b) \<and> rq_content_length (hs_out a) = rq_content_length (hs_out b)
     \<and> rq_chunked (hs_out a) = rq_chunked (hs_out b) \<and> rq_version_minor (hs_out a) = rq_version_minor (hs_out b)
     \<and> rq_has_body (hs_out a) = rq_has_body (hs_out b) \<and> rq_host (hs_out a) = rq_host (hs_out b)
     \<and> hs_seen_content_length a = hs_seen_content_length b \<and> hs_seen_transfer_encoding a = hs_seen_transfer_encoding b
     \<and> hs_seen_host a = hs_seen_host b \<and> hs_content_length a = hs_content_length b"

lemma head_ok_same: "same_framing a b \<Longrightarrow> head_ok b \<Longrightarrow> head_ok a"
  by (simp add: same_framing_def head_ok_def framing_ok_def)

text \<open>The switch on the first letter picks the field whose name it is.\<close>

lemma iequals_first: "iequals name (c # cs) \<Longrightarrow> lower (name ! 0) = lower c"
  by (cases name) (auto simp: iequals_lower)

lemma known_field_cases:
  "iequals name n_host \<Longrightarrow> known_field hs name val = host_field hs val"
  "iequals name n_length \<Longrightarrow> known_field hs name val = content_length_field hs val"
  "iequals name n_encoding \<Longrightarrow> known_field hs name val = transfer_encoding_field hs val"
proof -
  have *: "lower (ch CHR ''h'') = ch CHR ''h''" "lower (ch CHR ''c'') = ch CHR ''c''" "lower (ch CHR ''t'') = ch CHR ''t''"
    by (simp_all add: lower_def)
  show "known_field hs name val = host_field hs val" if "iequals name n_host"
    using iequals_first [OF that [unfolded bytes_of_Cons]] that * by (simp add: known_field_def del: bytes_of_Cons)
  show "known_field hs name val = transfer_encoding_field hs val" if "iequals name n_encoding"
    using iequals_first [OF that [unfolded bytes_of_Cons]] that * by (simp add: known_field_def del: bytes_of_Cons)
  show "known_field hs name val = content_length_field hs val" if l: "iequals name n_length"
  proof -
    have "\<not> iequals name (bytes_of ''connection'')" using l by (auto simp: iequals_def)
    then show ?thesis using iequals_first [OF l [unfolded bytes_of_Cons]] l * by (simp add: known_field_def del: bytes_of_Cons)
  qed
qed

lemma known_field_other:
  assumes "known_field hs name val = Inr hs'"
    and "\<not> iequals name n_host" "\<not> iequals name n_length" "\<not> iequals name n_encoding"
  shows "same_framing hs' hs"
  using assms by (auto simp: known_field_def same_framing_def Let_def simp del: bytes_of_Cons split: if_splits)

abbreviation add_field :: "HeadState \<Rightarrow> bytes \<Rightarrow> bytes \<Rightarrow> HeadState" where
  "add_field hs name val \<equiv> hs\<lparr>hs_out := (hs_out hs)\<lparr>rq_headers := rq_headers (hs_out hs) @ [(name, val)]\<rparr>\<rparr>"

lemma names_apart:
  "iequals name n_host \<Longrightarrow> \<not> iequals name n_length \<and> \<not> iequals name n_encoding"
  "iequals name n_length \<Longrightarrow> \<not> iequals name n_host \<and> \<not> iequals name n_encoding"
  "iequals name n_encoding \<Longrightarrow> \<not> iequals name n_host \<and> \<not> iequals name n_length"
  by (auto simp: iequals_def)

text \<open>What adding a field needs, whichever it is.\<close>

definition room_ok :: "HeadState \<Rightarrow> bytes \<Rightarrow> bytes \<Rightarrow> bool" where
  "room_ok hs name val \<longleftrightarrow> length (rq_headers (hs_out hs)) < kMaxHeaderCount \<and> field_ok (name, val)"

lemma other_field_ok:
  assumes "head_ok hs" "room_ok hs name val"
    and "\<not> iequals name n_host" "\<not> iequals name n_length" "\<not> iequals name n_encoding"
  shows "head_ok (add_field hs name val)"
  using assms by (simp add: head_ok_def framing_ok_def room_ok_def del: bytes_of_Cons)

lemma host_field_ok:
  assumes ok: "head_ok hs" "room_ok hs name val" and n: "iequals name n_host" and f: "host_field (add_field hs name val) val = Inr hs'"
  shows "head_ok hs'"
proof -
  from f have v: "\<not> hs_seen_host hs" "list_all host_char val"
    and hs': "hs' = (add_field hs name val)\<lparr>hs_seen_host := True, hs_out := (hs_out (add_field hs name val))\<lparr>rq_host := val\<rparr>\<rparr>"
    by (auto simp: host_field_def Let_def split: if_splits)
  have "named n_host (rq_headers (hs_out hs)) = []" using ok(1) v by (simp add: head_ok_def del: bytes_of_Cons)
  then show ?thesis
    using ok v n names_apart(1) [OF n] by (simp add: hs' head_ok_def framing_ok_def room_ok_def del: bytes_of_Cons)
qed

lemma encoding_field_ok:
  assumes ok: "head_ok hs" "room_ok hs name val" and n: "iequals name n_encoding"
    and f: "transfer_encoding_field (add_field hs name val) val = Inr hs'"
  shows "head_ok hs'"
proof -
  from f have v: "\<not> hs_seen_transfer_encoding hs" "rq_version_minor (hs_out hs) \<noteq> 0" "iequals val (bytes_of ''chunked'')"
    and hs': "hs' = (add_field hs name val)\<lparr>hs_seen_transfer_encoding := True,
      hs_out := (hs_out (add_field hs name val))\<lparr>rq_chunked := True, rq_has_body := True\<rparr>\<rparr>"
    by (auto simp: transfer_encoding_field_def Let_def simp del: bytes_of_Cons split: if_splits)
  have "named n_encoding (rq_headers (hs_out hs)) = []" using ok(1) v(1) unfolding head_ok_def framing_ok_def by blast
  then show ?thesis
    using ok v n names_apart(3) [OF n] by (simp add: hs' head_ok_def framing_ok_def room_ok_def del: bytes_of_Cons)
qed

lemma lengths_ok_snoc:
  assumes l: "lengths_ok ls n" and v: "v \<noteq> []" "length v \<le> kMaxContentLengthDigits" "list_all is_digit v" "ls \<noteq> [] \<Longrightarrow> v = hd ls"
  shows "lengths_ok (ls @ [v]) (if list_ex (\<lambda>c. c \<noteq> 0x30) v then of_nat (digits_value v) else n)"
    and "of_nat (digits_value v) = (0 :: u64) \<longleftrightarrow> \<not> list_ex (\<lambda>c. c \<noteq> 0x30) v"
    and "\<not> list_ex (\<lambda>c. c \<noteq> 0x30) v \<Longrightarrow> n = 0"
proof -
  have "digits_value v < 10 ^ length v" by (rule digits_value_bound [OF v(3)])
  also have "\<dots> \<le> 10 ^ 19" using v(2) by (intro power_increasing) (auto simp: kMaxContentLengthDigits_def)
  finally have u: "unat (of_nat (digits_value v) :: u64) = digits_value v"
    by (simp add: unsigned_of_nat take_bit_nat_eq_self)
  then show z: "of_nat (digits_value v) = (0 :: u64) \<longleftrightarrow> \<not> list_ex (\<lambda>c. c \<noteq> 0x30) v"
    using digits_value_zero [OF v(3)] by (metis unat_eq_zero)
  have all: "ls @ [v] = replicate (length (ls @ [v])) v"
  proof (cases "ls = []")
    case False
    with l obtain u where "ls = replicate (length ls) u" by (auto simp: lengths_ok_def)
    moreover from this False have "u = v" using v(4) by (metis hd_replicate length_0_conv)
    ultimately show ?thesis by (metis length_append_singleton replicate_Suc replicate_append_same)
  qed simp
  have old: "unat n = digits_value v" if "ls \<noteq> []"
    using l v(4) that by (auto simp: lengths_ok_def) (metis hd_replicate length_0_conv)
  have n0: "n = 0" if "\<not> list_ex (\<lambda>c. c \<noteq> 0x30) v"
  proof (cases "ls = []")
    case False
    then show ?thesis using old digits_value_zero [OF v(3)] that by (metis unat_eq_zero)
  qed (use l in \<open>simp add: lengths_ok_def\<close>)
  then show "\<not> list_ex (\<lambda>c. c \<noteq> 0x30) v \<Longrightarrow> n = 0" .
  have "unat (if list_ex (\<lambda>c. c \<noteq> 0x30) v then of_nat (digits_value v) else n) = digits_value v"
    using u n0 digits_value_zero [OF v(3)] by auto
  then show "lengths_ok (ls @ [v]) (if list_ex (\<lambda>c. c \<noteq> 0x30) v then of_nat (digits_value v) else n)"
    unfolding lengths_ok_def using all v by blast
qed

lemma length_field_ok:
  assumes hs: "head_ok hs" "room_ok hs name val" "iequals name n_length"
    "content_length_field (add_field hs name val) val = Inr hs'"
  shows "head_ok hs'"
proof -
  let ?ls = "named n_length (rq_headers (hs_out hs))"
  from hs(4) have v: "val \<noteq> []" "length val \<le> kMaxContentLengthDigits" "list_all is_digit val"
    and dup: "hs_seen_content_length hs \<Longrightarrow> val = hs_content_length hs"
    by (auto simp: content_length_field_def Let_def split: if_splits)
  have "?ls \<noteq> [] \<Longrightarrow> val = hd ?ls" using dup hs(1) by (auto simp: head_ok_def)
  moreover have "lengths_ok ?ls (rq_content_length (hs_out hs))" using hs(1) by (simp add: head_ok_def framing_ok_def)
  ultimately have "?ls \<noteq> [] \<Longrightarrow> hd ?ls = val" and lk: "lengths_ok (?ls @ [val]) (if list_ex (\<lambda>c. c \<noteq> 0x30) val
        then of_nat (digits_value val) else rq_content_length (hs_out hs))"
      "of_nat (digits_value val) = (0 :: u64) \<longleftrightarrow> \<not> list_ex (\<lambda>c. c \<noteq> 0x30) val"
      "\<not> list_ex (\<lambda>c. c \<noteq> 0x30) val \<Longrightarrow> rq_content_length (hs_out hs) = 0"
    using lengths_ok_snoc [of ?ls "rq_content_length (hs_out hs)" val] v by auto
  then have hd: "hd (?ls @ [val]) = val" by (cases "?ls = []") auto
  define n where "n = (if list_ex (\<lambda>c. c \<noteq> 0x30) val then of_nat (digits_value val) else rq_content_length (hs_out hs))"
  define b where "b = (list_ex (\<lambda>c. c \<noteq> 0x30) val \<or> rq_has_body (hs_out hs))"
  have hs': "hs' = (add_field hs name val)\<lparr>hs_seen_content_length := True, hs_content_length := val,
      hs_out := (hs_out (add_field hs name val))\<lparr>rq_content_length := n, rq_has_body := b\<rparr>\<rparr>"
    using hs(4) by (auto simp: content_length_field_def Let_def n_def b_def split: if_splits)
  have n: "lengths_ok (?ls @ [val]) n" "n \<noteq> 0 \<longleftrightarrow> list_ex (\<lambda>c. c \<noteq> 0x30) val" using lk by (auto simp: n_def)
  have b: "b \<longleftrightarrow> rq_chunked (hs_out hs) \<or> n \<noteq> 0"
    using hs(1) lk(3) n(2) by (auto simp: b_def head_ok_def framing_ok_def)
  show ?thesis
    using hs(1-3) names_apart(2) [OF hs(3)] n(1) b hd by (simp add: hs' head_ok_def framing_ok_def room_ok_def del: bytes_of_Cons)
qed

lemma header_line_ok:
  assumes "head_ok hs" "header_line hs line = Inr hs'"
  shows "head_ok hs'"
proof -
  from assms(2) obtain colon where c: "find_byte c_colon line = Some colon" "0 < colon"
    and ok: "list_all is_tchar (slice line 0 colon)" "length (rq_headers (hs_out hs)) < kCapacity"
      "list_all field_char (trim (slice_from line (colon + 1)))"
    and k: "known_field (add_field hs (slice line 0 colon) (trim (slice_from line (colon + 1)))) (slice line 0 colon)
      (trim (slice_from line (colon + 1))) = Inr hs'"
    by (auto simp: header_line_def headers_add_def Let_def split: if_splits option.splits)
  define name val where "name = slice line 0 colon" and "val = trim (slice_from line (colon + 1))"
  note k = k [folded name_def val_def]
  have "name \<noteq> []" using find_byte_SomeD [OF c(1)] c(2) by (auto simp: name_def slice_def)
  then have r: "room_ok hs name val" using ok by (simp add: room_ok_def field_ok_def kMaxHeaderCount_def name_def val_def)
  show ?thesis
  proof (cases "iequals name n_host \<or> iequals name n_length \<or> iequals name n_encoding")
    case True
    then show ?thesis
      using k host_field_ok [OF assms(1) r] length_field_ok [OF assms(1) r] encoding_field_ok [OF assms(1) r] known_field_cases
      by metis
  next
    case False
    then show ?thesis using known_field_other [OF k] other_field_ok [OF assms(1) r] head_ok_same by blast
  qed
qed

lemma head_loop_ok: "head_loop b pos cnt hs = (ps_complete, hs', q) \<Longrightarrow> head_ok hs \<Longrightarrow> head_ok hs'"
proof (induction b pos cnt hs rule: head_loop.induct)
  case (1 b pos cnt hs)
  from head_loop_complete [OF 1(2)] obtain line n where nl: "next_line b pos = Some (line, n)" by auto
  note h = head_loop_line [OF nl, of cnt hs]
  show ?case
  proof (cases "header_line hs line")
    case (Inl e)
    then show ?thesis using 1(2,3) header_line_status [of hs line "fst e" "snd e"] unfolding h by (cases e) (auto split: if_splits)
  next
    case (Inr hs2)
    then show ?thesis using 1(2,3) header_line_ok [OF 1(3) Inr] 1(1) [OF nl refl _ _ Inr] unfolding h by (auto split: if_splits)
  qed
qed

lemma request_line_fresh:
  "request_line out line = Inr out' \<Longrightarrow> rq_headers out' = rq_headers out \<and> rq_content_length out' = rq_content_length out
     \<and> rq_chunked out' = rq_chunked out \<and> rq_has_body out' = rq_has_body out \<and> rq_host out' = rq_host out"
  by (auto simp: request_line_def Let_def split: option.splits if_splits)

text \<open>
  C6. The parser lets no ambiguous framing through (request smuggling). Of an accepted request: every
  field name is a token and every value free of control characters; all Content-Length fields are the
  same digits and their value is the request's; the body is chunked exactly when there is a
  Transfer-Encoding, which is then single, says "chunked" and nothing else, comes with HTTP/1.1, and
  never beside a Content-Length; there is a body exactly when one of the two says so; and at most one
  Host is there, the one the request is routed by.
\<close>

theorem parse_request_framing:
  assumes "parse_request buf = (ps_complete, r)"
  shows "framing_ok r \<and> (named n_length (rq_headers r) = [] \<or> named n_encoding (rq_headers r) = [])"
proof -
  from assms obtain line n out hs pos where rl: "request_line request_reset line = Inr out"
    and hl: "head_loop buf n 0 (head_new out) = (ps_complete, hs, pos)"
    and no: "\<not> (hs_seen_content_length hs \<and> hs_seen_transfer_encoding hs)"
    and r: "r = (hs_out hs)\<lparr>rq_keep_alive := keeps_alive (hs_out hs), rq_length := pos\<rparr>"
    by (auto simp: parse_request_def Let_def dest!: request_line_status split: option.splits sum.splits prod.splits if_splits)
  have "head_ok (head_new out)"
    using request_line_fresh [OF rl] by (simp add: head_ok_def framing_ok_def head_new_def request_reset_def lengths_ok_def)
  from head_loop_ok [OF hl this] have ok: "head_ok hs" .
  then have "framing_ok r" by (simp add: head_ok_def framing_ok_def r)
  moreover have "named n_length (rq_headers r) = [] \<or> named n_encoding (rq_headers r) = []"
    using ok no unfolding head_ok_def framing_ok_def r by simp
  ultimately show ?thesis by blast
qed

lemma parse_request_framing_witness:
  "framing_ok (snd (parse_request sample_request))"
proof -
  obtain st r where p: "parse_request sample_request = (st, r)" by force
  with sample_request_parses have "st = ps_complete" by simp
  with p parse_request_framing [of sample_request r] show ?thesis by simp
qed

end
