(* ===== verification/Http_Range.thy ===== *)
theory Http_Range
  imports Http_Text
begin

text \<open>
  Range requests for static files (\<^verbatim>\<open>src/http1/range.hpp\<close>): the single byte range of a body of known
  size, and the If-Range condition. The two output parameters of \<open>parse_range\<close> are returned with the
  range they describe; the code's callers read them only then.
\<close>

unbundle bit_operations_syntax





definition if_range_matches :: "bytes \<Rightarrow> bytes \<Rightarrow> bytes \<Rightarrow> bool" where
  "if_range_matches if_range etag last_modified =
     (if if_range = [] then True
      else let if_range = trim if_range in
        if take 2 if_range = bytes_of ''W/'' then False
        else if take 1 if_range = [0x22] then if_range = etag
        else if_range = last_modified)"


subsection \<open>The number\<close>





subsection \<open>Ranges\<close>


abbreviation "range_text s \<equiv> bytes_of ''bytes='' @ s"




end
