(* ===== verification/Quic_Recovery.thy ===== *)
theory Quic_Recovery
  imports Quic_Frames Timer_Heap "HOL-Library.Signed_Division"
begin

text \<open>
  Loss detection and congestion control (\<^verbatim>\<open>src/quic/recovery.hpp\<close>, RFC 9002): the ring of sent packets
  of a packet number space, the receiver's acknowledgement state, and the connection's recovery state
  with the RTT estimate, acknowledgement and loss processing, the probe timeout and NewReno. Times and
  durations are counts of nanoseconds, \<open>TimePoint{}\<close> is 0; integer division truncates as in C++
  (\<open>sdiv\<close>). Packet numbers, byte counts and windows are natural numbers: packet numbers stay below
  \<open>2^62\<close> and the counters of a connection below the bytes it ever sent. The \<open>acked\<close> and \<open>lost\<close>
  vectors are the lists of their items; a \<open>SentPacket&\<close> is its packet number.
\<close>

unbundle bit_operations_syntax

subsection \<open>The ring of sent packets\<close>

definition kGranularity :: int where "kGranularity = 1000000"
definition kInitialRtt :: int where "kInitialRtt = 333000000"
definition kPacketThreshold :: nat where "kPacketThreshold = 3"
definition kPersistentCongestionThreshold :: int where "kPersistentCongestionThreshold = 3"

datatype ItemKind =
  it_stream | it_crypto | it_handshake_done | it_new_cid | it_retire_cid | it_max_data | it_max_stream_data
  | it_max_streams_bidi | it_max_streams_uni | it_reset_stream | it_stop_sending | it_ping | it_path_response
  | it_padding | it_mtu_probe | it_path_challenge

record SentItem =
  si_kind :: ItemKind
  si_fin :: bool
  si_id :: u64
  si_offset :: u64
  si_len :: u32

record SentPacket =
  sp_pn :: nat
  sp_time :: int
  sp_bytes :: nat
  sp_ack_eliciting :: bool
  sp_in_flight :: bool
  sp_used :: bool
  sp_items :: "SentItem list"

definition sent_new :: SentPacket where
  "sent_new = \<lparr>sp_pn = 0, sp_time = 0, sp_bytes = 0, sp_ack_eliciting = False, sp_in_flight = False, sp_used = False, sp_items = []\<rparr>"

record AckState =
  ak_received :: range_set
  ak_any :: bool
  ak_largest :: u64
  ak_largest_time :: int
  ak_eliciting_unacked :: nat
  ak_ack_now :: bool
  ak_delay_deadline :: int

definition ack_new :: AckState where
  "ack_new = \<lparr>ak_received = [], ak_any = False, ak_largest = 0, ak_largest_time = 0, ak_eliciting_unacked = 0,
     ak_ack_now = False, ak_delay_deadline = 0\<rparr>"

definition wants_ack :: "AckState \<Rightarrow> bool" where
  "wants_ack a \<longleftrightarrow> ak_eliciting_unacked a > 0 \<and> ak_ack_now a"

record PnSpace =
  next_pn :: nat
  any_acked :: bool
  largest_acked :: nat
  loss_time :: int
  last_eliciting_sent :: int
  eliciting_in_flight :: nat
  ps_acks :: AckState
  discarded :: bool
  ps_ring :: "SentPacket list"
  ps_count :: nat
  ps_oldest :: nat

definition space_new :: PnSpace where
  "space_new = \<lparr>next_pn = 0, any_acked = False, largest_acked = 0, loss_time = 0, last_eliciting_sent = 0,
     eliciting_in_flight = 0, ps_acks = ack_new, discarded = False, ps_ring = replicate 64 sent_new, ps_count = 0, ps_oldest = 0\<rparr>"

definition ps_mask :: "PnSpace \<Rightarrow> nat" where
  "ps_mask s = length (ps_ring s) - 1"

text \<open>\<open>grow()\<close>: the used slots move into a ring of twice the size.\<close>

fun grow_loop :: "SentPacket list \<Rightarrow> SentPacket list \<Rightarrow> SentPacket list" where
  "grow_loop bigger [] = bigger"
| "grow_loop bigger (p # ps) =
     grow_loop (if sp_used p then bigger[sp_pn p AND (length bigger - 1) := p] else bigger) ps"

definition ps_grow :: "PnSpace \<Rightarrow> PnSpace" where
  "ps_grow s = s\<lparr>ps_ring := grow_loop (replicate (length (ps_ring s) * 2) sent_new) (ps_ring s)\<rparr>"

definition ps_record :: "PnSpace \<Rightarrow> nat \<Rightarrow> PnSpace" where
  "ps_record s num =
     (let s = if sp_used (ps_ring s ! (num AND ps_mask s)) then ps_grow s else s;
          i = num AND ps_mask s;
          s = s\<lparr>ps_ring := (ps_ring s)[i := (ps_ring s ! i)\<lparr>sp_used := True, sp_pn := num, sp_items := []\<rparr>]\<rparr>;
          s = if num < ps_oldest s then s\<lparr>ps_oldest := num\<rparr> else s;
          s = if ps_count s = 0 then s\<lparr>ps_oldest := num\<rparr> else s in
      s\<lparr>ps_count := ps_count s + 1\<rparr>)"

definition ps_find :: "PnSpace \<Rightarrow> nat \<Rightarrow> SentPacket option" where
  "ps_find s num =
     (let p = ps_ring s ! (num AND ps_mask s) in if sp_used p \<and> sp_pn p = num then Some p else None)"

function ps_skip :: "PnSpace \<Rightarrow> PnSpace" where
  "ps_skip s =
     (if ps_count s \<noteq> 0 \<and> ps_oldest s < next_pn s \<and> ps_find s (ps_oldest s) = None
      then ps_skip (s\<lparr>ps_oldest := ps_oldest s + 1\<rparr>) else s)"
  by pat_completeness auto
termination by (relation "measure (\<lambda>s. next_pn s - ps_oldest s)") auto

declare ps_skip.simps [simp del]

definition ps_forget :: "PnSpace \<Rightarrow> nat \<Rightarrow> PnSpace" where
  "ps_forget s num =
     (let i = num AND ps_mask s in
      ps_skip (s\<lparr>ps_ring := (ps_ring s)[i := (ps_ring s ! i)\<lparr>sp_used := False\<rparr>], ps_count := ps_count s - 1\<rparr>))"

definition ps_clear :: "PnSpace \<Rightarrow> PnSpace" where
  "ps_clear s = s\<lparr>ps_ring := map (\<lambda>p. p\<lparr>sp_used := False\<rparr>) (ps_ring s), ps_count := 0, ps_oldest := next_pn s\<rparr>"

text \<open>What the connection writes through the reference \<open>record\<close> gave it.\<close>

definition ps_fill :: "PnSpace \<Rightarrow> nat \<Rightarrow> nat \<Rightarrow> bool \<Rightarrow> bool \<Rightarrow> SentItem list \<Rightarrow> PnSpace" where
  "ps_fill s num bytes eliciting flight items =
     (let i = num AND ps_mask s in
      s\<lparr>ps_ring := (ps_ring s)[i := (ps_ring s ! i)\<lparr>sp_bytes := bytes, sp_ack_eliciting := eliciting, sp_in_flight := flight,
          sp_items := items\<rparr>]\<rparr>)"


subsection \<open>Recovery\<close>

record Recovery =
  rc_spaces :: "Space \<Rightarrow> PnSpace"
  rc_acked :: "SentItem list"
  rc_lost :: "SentItem list"
  rc_max_datagram :: nat
  rc_max_ack_delay :: int
  rc_ack_delay_exponent :: nat
  rc_probes :: "Space \<Rightarrow> nat"
  handshake_confirmed :: bool
  cwnd :: nat
  bytes_in_flight :: nat
  ssthresh :: nat
  recovery_start :: int
  latest_rtt :: int
  smoothed_rtt :: int
  rttvar :: int
  min_rtt :: int
  has_rtt :: bool
  pto_count :: nat

definition kNoThreshold :: nat where
  "kNoThreshold = 2 ^ 64 - 1"

definition minimum_window :: "Recovery \<Rightarrow> nat" where
  "minimum_window r = 2 * rc_max_datagram r"

definition reset_cwnd :: "Recovery \<Rightarrow> Recovery" where
  "reset_cwnd r = r\<lparr>cwnd := max (min (10 * rc_max_datagram r) 14720) (2 * rc_max_datagram r)\<rparr>"

definition recovery_new :: Recovery where
  "recovery_new = reset_cwnd \<lparr>rc_spaces = (\<lambda>sp. space_new), rc_acked = [], rc_lost = [], rc_max_datagram = 1200,
     rc_max_ack_delay = 25000000, rc_ack_delay_exponent = 3, rc_probes = (\<lambda>sp. 0), handshake_confirmed = False, cwnd = 0,
     bytes_in_flight = 0, ssthresh = kNoThreshold, recovery_start = 0, latest_rtt = 0, smoothed_rtt = kInitialRtt,
     rttvar = kInitialRtt sdiv 2, min_rtt = 0, has_rtt = False, pto_count = 0\<rparr>"

definition reset_rtt :: "Recovery \<Rightarrow> Recovery" where
  "reset_rtt r = r\<lparr>latest_rtt := 0, smoothed_rtt := kInitialRtt, rttvar := kInitialRtt sdiv 2, min_rtt := 0, has_rtt := False,
     ssthresh := kNoThreshold, recovery_start := 0\<rparr>"

definition upd_space :: "Space \<Rightarrow> (PnSpace \<Rightarrow> PnSpace) \<Rightarrow> Recovery \<Rightarrow> Recovery" where
  "upd_space sp f r = r\<lparr>rc_spaces := (rc_spaces r)(sp := f (rc_spaces r sp))\<rparr>"

definition upd_acks :: "Space \<Rightarrow> (AckState \<Rightarrow> AckState) \<Rightarrow> Recovery \<Rightarrow> Recovery" where
  "upd_acks sp f = upd_space sp (\<lambda>s. s\<lparr>ps_acks := f (ps_acks s)\<rparr>)"

definition on_packet_sent :: "Space \<Rightarrow> nat \<Rightarrow> int \<Rightarrow> Recovery \<Rightarrow> Recovery" where
  "on_packet_sent sp num now r =
     (let s = rc_spaces r sp; i = num AND ps_mask s; p = ps_ring s ! i;
          r = upd_space sp (\<lambda>s. s\<lparr>ps_ring := (ps_ring s)[i := p\<lparr>sp_time := now\<rparr>]\<rparr>) r in
      if sp_in_flight p then
        (if sp_ack_eliciting p
         then upd_space sp (\<lambda>s. s\<lparr>last_eliciting_sent := now, eliciting_in_flight := eliciting_in_flight s + 1\<rparr>) r
         else r)\<lparr>bytes_in_flight := bytes_in_flight r + sp_bytes p\<rparr>
      else r)"

definition cwnd_room :: "Recovery \<Rightarrow> nat" where
  "cwnd_room r = (if bytes_in_flight r \<ge> cwnd r then 0 else cwnd r - bytes_in_flight r)"

definition on_packet_received :: "Space \<Rightarrow> u64 \<Rightarrow> bool \<Rightarrow> int \<Rightarrow> int \<Rightarrow> Recovery \<Rightarrow> Recovery" where
  "on_packet_received sp n eliciting now our_max_ack_delay r =
     upd_acks sp (\<lambda>a.
       let out_of_order = ak_any a \<and> n < ak_largest a;
           gap = ak_any a \<and> n > ak_largest a + 1;
           a = a\<lparr>ak_received := rs_keep_highest (rs_add_point (ak_received a) n) (kMaxAckRanges + 1)\<rparr>;
           a = if \<not> ak_any a \<or> n > ak_largest a then a\<lparr>ak_any := True, ak_largest := n, ak_largest_time := now\<rparr> else a in
       if \<not> eliciting then a
       else let a = a\<lparr>ak_eliciting_unacked := ak_eliciting_unacked a + 1\<rparr> in
         if sp \<noteq> sp_application \<or> out_of_order \<or> gap \<or> ak_eliciting_unacked a \<ge> 2 then a\<lparr>ak_ack_now := True\<rparr>
         else if ak_eliciting_unacked a = 1 then a\<lparr>ak_delay_deadline := now + our_max_ack_delay\<rparr>
         else a) r"

definition on_ack_sent :: "Space \<Rightarrow> Recovery \<Rightarrow> Recovery" where
  "on_ack_sent sp r = upd_acks sp (\<lambda>a. a\<lparr>ak_eliciting_unacked := 0, ak_ack_now := False, ak_delay_deadline := 0\<rparr>) r"

definition cc_on_acked :: "nat \<Rightarrow> Recovery \<Rightarrow> Recovery" where
  "cc_on_acked bytes r =
     (if cwnd r < ssthresh r then r\<lparr>cwnd := cwnd r + bytes\<rparr>
      else r\<lparr>cwnd := cwnd r + rc_max_datagram r * bytes div cwnd r\<rparr>)"

definition cc_on_lost :: "int \<Rightarrow> int \<Rightarrow> int \<Rightarrow> Recovery \<Rightarrow> Recovery" where
  "cc_on_lost last_lost first_lost now r =
     (let r = if last_lost > recovery_start r
              then (let t = max (cwnd r div 2) (minimum_window r) in r\<lparr>recovery_start := now, ssthresh := t, cwnd := t\<rparr>)
              else r in
      if has_rtt r \<and> last_lost > first_lost then
        let span = last_lost - first_lost;
            threshold = (smoothed_rtt r + max (rttvar r * 4) kGranularity + rc_max_ack_delay r) * kPersistentCongestionThreshold in
        if span > threshold then r\<lparr>cwnd := minimum_window r\<rparr> else r
      else r)"

definition update_rtt :: "int \<Rightarrow> int \<Rightarrow> Recovery \<Rightarrow> Recovery" where
  "update_rtt sample ack_del r =
     (let r = r\<lparr>latest_rtt := sample\<rparr> in
      if \<not> has_rtt r then r\<lparr>has_rtt := True, min_rtt := sample, smoothed_rtt := sample, rttvar := sample sdiv 2\<rparr>
      else let r = r\<lparr>min_rtt := min (min_rtt r) sample\<rparr>;
               adjusted = if sample \<ge> min_rtt r + ack_del then sample - ack_del else sample;
               diff = if smoothed_rtt r > adjusted then smoothed_rtt r - adjusted else adjusted - smoothed_rtt r in
        r\<lparr>rttvar := rttvar r * 3 sdiv 4 + diff sdiv 4, smoothed_rtt := smoothed_rtt r * 7 sdiv 8 + adjusted sdiv 8\<rparr>)"

text \<open>A packet leaves the space: acknowledged, lost or dropped with the keys.\<close>

definition leave_flight :: "Space \<Rightarrow> SentPacket \<Rightarrow> Recovery \<Rightarrow> Recovery" where
  "leave_flight sp p r =
     (let r = r\<lparr>bytes_in_flight := bytes_in_flight r - min (bytes_in_flight r) (sp_bytes p)\<rparr> in
      if sp_ack_eliciting p \<and> eliciting_in_flight (rc_spaces r sp) \<noteq> 0
      then upd_space sp (\<lambda>s. s\<lparr>eliciting_in_flight := eliciting_in_flight s - 1\<rparr>) r else r)"

text \<open>
  The loop over one acknowledged range, from its end down; \<open>newly\<close> is the largest newly acknowledged
  packet with its time and whether it was ack-eliciting, \<open>None\<close> while there is none.
\<close>

fun ack_range_loop :: "Space \<Rightarrow> nat \<Rightarrow> nat \<Rightarrow> (nat \<times> int \<times> bool) option \<times> Recovery \<Rightarrow> (nat \<times> int \<times> bool) option \<times> Recovery" where
  "ack_range_loop sp b 0 (newly, r) = (newly, r)"
| "ack_range_loop sp b (Suc num) (newly, r) =
     (if \<not> num \<ge> b then (newly, r)
      else if num < ps_oldest (rc_spaces r sp) then (newly, r)
      else case ps_find (rc_spaces r sp) num of
        None \<Rightarrow> ack_range_loop sp b num (newly, r)
      | Some p \<Rightarrow>
          let newly = (case newly of
                         Some (l, x) \<Rightarrow> if num > l then Some (num, sp_time p, sp_ack_eliciting p) else Some (l, x)
                       | None \<Rightarrow> Some (num, sp_time p, sp_ack_eliciting p));
              r = if sp_in_flight p then
                    let r = leave_flight sp p r in
                    if sp_time p > recovery_start r then cc_on_acked (sp_bytes p) r else r
                  else r;
              r = r\<lparr>rc_acked := rc_acked r @ sp_items p\<rparr> in
          ack_range_loop sp b num (newly, upd_space sp (\<lambda>s. ps_forget s num) r))"

fun ack_ranges :: "Space \<Rightarrow> range list \<Rightarrow> (nat \<times> int \<times> bool) option \<times> Recovery \<Rightarrow> (nat \<times> int \<times> bool) option \<times> Recovery" where
  "ack_ranges sp [] st = st"
| "ack_ranges sp (x # xs) st = ack_ranges sp xs (ack_range_loop sp (unat (fst x)) (unat (snd x)) st)"

text \<open>Loss detection; \<open>span\<close> is the first and last send time of the packets lost so far.\<close>

definition loss_delay :: "Recovery \<Rightarrow> int" where
  "loss_delay r = max kGranularity (max (latest_rtt r) (smoothed_rtt r) * 9 sdiv 8)"

function detect_loop :: "Space \<Rightarrow> int \<Rightarrow> int \<Rightarrow> nat \<Rightarrow> nat \<Rightarrow> (int \<times> int) option \<times> Recovery \<Rightarrow> (int \<times> int) option \<times> Recovery" where
  "detect_loop sp lost_send_time delay largest num (span, r) =
     (if num < largest then
        case ps_find (rc_spaces r sp) num of
          None \<Rightarrow> detect_loop sp lost_send_time delay largest (num + 1) (span, r)
        | Some p \<Rightarrow>
            if sp_time p \<le> lost_send_time \<or> largest \<ge> num + kPacketThreshold then
              let span' = if sp_in_flight p then
                            (case span of
                               None \<Rightarrow> Some (sp_time p, sp_time p)
                             | Some (f, l) \<Rightarrow> Some (min f (sp_time p), max l (sp_time p)))
                          else span;
                  r = if sp_in_flight p then leave_flight sp p r else r;
                  r = r\<lparr>rc_lost := rc_lost r @ sp_items p\<rparr> in
              detect_loop sp lost_send_time delay largest (num + 1) (span', upd_space sp (\<lambda>s. ps_forget s num) r)
            else
              let t = sp_time p + delay in
              detect_loop sp lost_send_time delay largest (num + 1)
                (span, upd_space sp (\<lambda>s. if loss_time s = 0 \<or> t < loss_time s then s\<lparr>loss_time := t\<rparr> else s) r)
      else (span, r))"
  by pat_completeness auto
termination by (relation "measure (\<lambda>(sp, t, d, l, num, st). l - num)") auto

declare detect_loop.simps [simp del]

definition detect_lost :: "Space \<Rightarrow> int \<Rightarrow> Recovery \<Rightarrow> Recovery" where
  "detect_lost sp now r =
     (let r = upd_space sp (\<lambda>s. s\<lparr>loss_time := 0\<rparr>) r; s = rc_spaces r sp in
      if \<not> any_acked s then r
      else case detect_loop sp (now - loss_delay r) (loss_delay r) (largest_acked s) (ps_oldest s) (None, r) of
        (None, r) \<Rightarrow> r
      | (Some (lost_first, lost_last), r) \<Rightarrow> cc_on_lost lost_last lost_first now r)"

definition kDelayCap :: nat where
  "kDelayCap = 2 ^ 30"

definition ack_delay_of :: "Recovery \<Rightarrow> u64 \<Rightarrow> int" where
  "ack_delay_of r raw =
     (let raw = if unat raw > kDelayCap div 2 ^ rc_ack_delay_exponent r then kDelayCap else unat raw * 2 ^ rc_ack_delay_exponent r;
          d = int raw * 1000 in
      if handshake_confirmed r then min d (rc_max_ack_delay r) else d)"

definition on_ack_received :: "Space \<Rightarrow> Frame \<Rightarrow> int \<Rightarrow> Recovery \<Rightarrow> bool \<times> Recovery" where
  "on_ack_received sp f now r =
     (let r = r\<lparr>rc_acked := [], rc_lost := []\<rparr> in
      if unat (largest_ack f) \<ge> next_pn (rc_spaces r sp) then (False, r)
      else case ack_ranges sp (f_ranges f) (None, r) of
        (None, r) \<Rightarrow> (True, r)
      | (Some (largest_newly, newly_time, newly_eliciting), r) \<Rightarrow>
          let r = upd_space sp (\<lambda>s. if \<not> any_acked s \<or> unat (largest_ack f) > largest_acked s
                                   then s\<lparr>any_acked := True, largest_acked := unat (largest_ack f)\<rparr> else s) r;
              r = if largest_newly = unat (largest_ack f) \<and> newly_eliciting
                  then update_rtt (now - newly_time) (ack_delay_of r (ack_delay f)) r else r;
              r = detect_lost sp now r in
          (True, r\<lparr>pto_count := 0\<rparr>))"

definition all_spaces :: "Space list" where
  "all_spaces = [sp_initial, sp_handshake, sp_application]"

definition pto_duration :: "Recovery \<Rightarrow> Space \<Rightarrow> int" where
  "pto_duration r sp =
     (let d = smoothed_rtt r + max (rttvar r * 4) kGranularity;
          d = if sp = sp_application \<and> handshake_confirmed r then d + rc_max_ack_delay r else d in
      d * 2 ^ min (pto_count r) 12)"

fun loss_time_loop :: "Recovery \<Rightarrow> int \<Rightarrow> Space list \<Rightarrow> int" where
  "loss_time_loop r earliest [] = earliest"
| "loss_time_loop r earliest (sp # sps) =
     (let s = rc_spaces r sp in
      loss_time_loop r (if \<not> discarded s \<and> loss_time s \<noteq> 0 \<and> loss_time s < earliest then loss_time s else earliest) sps)"

text \<open>The earliest probe timeout and its space.\<close>

fun pto_loop :: "Recovery \<Rightarrow> int \<Rightarrow> Space option \<Rightarrow> Space list \<Rightarrow> int \<times> Space option" where
  "pto_loop r earliest which [] = (earliest, which)"
| "pto_loop r earliest which (sp # sps) =
     (let s = rc_spaces r sp; t = last_eliciting_sent s + pto_duration r sp in
      if discarded s \<or> eliciting_in_flight s = 0 then pto_loop r earliest which sps
      else if t < earliest then pto_loop r t (Some sp) sps
      else pto_loop r earliest which sps)"

definition loss_timer :: "Recovery \<Rightarrow> bool \<Rightarrow> int" where
  "loss_timer r at_amplification_limit =
     (let earliest = loss_time_loop r time_max all_spaces in
      if earliest \<noteq> time_max then earliest
      else if at_amplification_limit then time_max
      else fst (pto_loop r earliest None all_spaces))"

definition on_timeout :: "int \<Rightarrow> Recovery \<Rightarrow> Recovery" where
  "on_timeout now r =
     (case find (\<lambda>sp. \<not> discarded (rc_spaces r sp) \<and> loss_time (rc_spaces r sp) \<noteq> 0 \<and> loss_time (rc_spaces r sp) \<le> now) all_spaces of
        Some sp \<Rightarrow> detect_lost sp now r
      | None \<Rightarrow>
          (case snd (pto_loop r time_max None all_spaces) of
             None \<Rightarrow> r
           | Some sp \<Rightarrow> r\<lparr>rc_probes := (rc_probes r)(sp := 2), pto_count := pto_count r + 1\<rparr>))"

function discard_loop :: "Space \<Rightarrow> nat \<Rightarrow> nat \<Rightarrow> Recovery \<Rightarrow> Recovery" where
  "discard_loop sp lim num r =
     (if num < lim then
        discard_loop sp lim (num + 1)
          (case ps_find (rc_spaces r sp) num of
             None \<Rightarrow> r
           | Some p \<Rightarrow>
               upd_space sp (\<lambda>s. ps_forget s num)
                 (if sp_in_flight p then r\<lparr>bytes_in_flight := bytes_in_flight r - min (bytes_in_flight r) (sp_bytes p)\<rparr> else r))
      else r)"
  by pat_completeness auto
termination by (relation "measure (\<lambda>(sp, l, num, r). l - num)") auto

declare discard_loop.simps [simp del]

definition discard_space :: "Space \<Rightarrow> Recovery \<Rightarrow> Recovery" where
  "discard_space sp r =
     (let s = rc_spaces r sp; r = discard_loop sp (next_pn s) (ps_oldest s) r;
          r = upd_space sp (\<lambda>s. (ps_clear s)\<lparr>eliciting_in_flight := 0, loss_time := 0, discarded := True\<rparr>) r in
      r\<lparr>rc_probes := (rc_probes r)(sp := 0), pto_count := 0\<rparr>)"

text \<open>
  A packet goes out: the connection takes a slot for the next number, fills it, and reports it. A packet
  that turns out empty or cannot be sealed gives its slot back.
\<close>

definition send_packet :: "Space \<Rightarrow> nat \<Rightarrow> bool \<Rightarrow> bool \<Rightarrow> SentItem list \<Rightarrow> int \<Rightarrow> Recovery \<Rightarrow> Recovery" where
  "send_packet sp bytes eliciting flight items now r =
     (let num = next_pn (rc_spaces r sp);
          r = upd_space sp (\<lambda>s. ps_fill (ps_record s num) num bytes eliciting flight items) r;
          r = upd_space sp (\<lambda>s. s\<lparr>next_pn := num + 1\<rparr>) r in
      on_packet_sent sp num now r)"

definition abandon_packet :: "Space \<Rightarrow> Recovery \<Rightarrow> Recovery" where
  "abandon_packet sp r =
     (let num = next_pn (rc_spaces r sp) in upd_space sp (\<lambda>s. ps_forget (ps_record s num) num) r)"


subsection \<open>The ring implements a map from packet numbers to packets\<close>

lemma and_mask_nat: "n = 2 ^ k \<Longrightarrow> num AND (n - 1) = num mod n" for num n :: nat
  by (metis mask_eq_exp_minus_1 take_bit_eq_mask take_bit_eq_mod)

definition space_in :: "nat \<Rightarrow> PnSpace \<Rightarrow> bool" where
  "space_in l s \<longleftrightarrow> (\<exists>k. length (ps_ring s) = 2 ^ k)
     \<and> (\<forall>i < length (ps_ring s). sp_used (ps_ring s ! i) \<longrightarrow>
          sp_pn (ps_ring s ! i) mod length (ps_ring s) = i \<and> ps_oldest s \<le> sp_pn (ps_ring s ! i)
          \<and> sp_pn (ps_ring s ! i) < l \<and> l \<le> sp_pn (ps_ring s ! i) + length (ps_ring s))
     \<and> ps_count s = card (dom (ps_find s))"

lemma slot_mod:
  assumes "space_in l s"
  shows "num AND ps_mask s = num mod length (ps_ring s)" "num mod length (ps_ring s) < length (ps_ring s)"
proof -
  from assms obtain k where k: "length (ps_ring s) = 2 ^ k" by (auto simp: space_in_def)
  then show "num AND ps_mask s = num mod length (ps_ring s)" unfolding ps_mask_def by (rule and_mask_nat)
  show "num mod length (ps_ring s) < length (ps_ring s)" using k by simp
qed

lemma find_slot:
  assumes "space_in l s"
  shows "ps_find s q = (let p = ps_ring s ! (q mod length (ps_ring s)) in if sp_used p \<and> sp_pn p = q then Some p else None)"
  by (simp add: ps_find_def slot_mod [OF assms])

lemma find_Some:
  assumes "space_in l s" "ps_find s q = Some p"
  shows "ps_ring s ! (q mod length (ps_ring s)) = p" "sp_used p" "sp_pn p = q"
    "ps_oldest s \<le> q" "q < l" "l \<le> q + length (ps_ring s)"
proof -
  from assms show p: "ps_ring s ! (q mod length (ps_ring s)) = p" "sp_used p" "sp_pn p = q"
    by (auto simp: find_slot Let_def split: if_splits)
  then show "ps_oldest s \<le> q" "q < l" "l \<le> q + length (ps_ring s)"
    using assms(1) slot_mod [OF assms(1), of q] unfolding space_in_def by auto
qed

lemma finite_find: "space_in l s \<Longrightarrow> finite (dom (ps_find s))"
  by (rule finite_subset [of _ "{..<l}"]) (auto dest: find_Some)

text \<open>The numbers in flight are below \<open>l\<close>, the next number between packets.\<close>

abbreviation space_ok :: "PnSpace \<Rightarrow> bool" where
  "space_ok s \<equiv> space_in (next_pn s) s"

text \<open>The invariant from the map's side: enough for a ring that is changed slot by slot.\<close>

lemma space_inI:
  assumes "length (ps_ring s) = 2 ^ k"
    and "\<And>i. i < length (ps_ring s) \<Longrightarrow> sp_used (ps_ring s ! i) \<Longrightarrow>
      sp_pn (ps_ring s ! i) mod length (ps_ring s) = i \<and> ps_oldest s \<le> sp_pn (ps_ring s ! i)
      \<and> sp_pn (ps_ring s ! i) < l \<and> l \<le> sp_pn (ps_ring s ! i) + length (ps_ring s)"
    and "ps_count s = card (dom (ps_find s))"
  shows "space_in l s"
  using assms unfolding space_in_def by blast

lemma grow_loop_nth:
  "j < length bigger \<Longrightarrow>
   length (grow_loop bigger xs) = length bigger
   \<and> grow_loop bigger xs ! j =
       (case find (\<lambda>p. sp_used p \<and> sp_pn p AND (length bigger - 1) = j) (rev xs) of Some p \<Rightarrow> p | None \<Rightarrow> bigger ! j)"
proof (induction xs arbitrary: bigger)
  case (Cons x xs)
  have app: "find P (a @ [x]) = (case find P a of Some y \<Rightarrow> Some y | None \<Rightarrow> if P x then Some x else None)" for P and a :: "SentPacket list"
    by (induction a) auto
  show ?case
    using Cons by (auto simp: app nth_list_update split: option.splits)
qed simp

lemma find_used_unique:
  assumes "\<And>p. p \<in> set xs \<Longrightarrow> P p \<Longrightarrow> p = q"
  shows "find P xs = (if q \<in> set xs \<and> P q then Some q else None)"
  using assms by (induction xs) auto

text \<open>A slot of the doubled ring holds what the old one held for its numbers.\<close>

lemma grow_slot:
  assumes ok: "space_in l s" and j: "j < length (ps_ring s) * 2"
  shows "length (ps_ring (ps_grow s)) = length (ps_ring s) * 2"
    and "ps_ring (ps_grow s) ! j = (let p = ps_ring s ! (j mod length (ps_ring s)) in
           if sp_used p \<and> sp_pn p mod (length (ps_ring s) * 2) = j then p else sent_new)"
proof -
  let ?n = "length (ps_ring s)" and ?xs = "ps_ring s"
  from ok obtain k where k: "?n = 2 ^ k" by (auto simp: space_in_def)
  then have and_m: "x AND (?n * 2 - 1) = x mod (?n * 2)" for x by (intro and_mask_nat [of _ "Suc k"]) simp
  have n0: "0 < ?n" using k by simp
  let ?P = "\<lambda>p. sp_used p \<and> sp_pn p mod (?n * 2) = j"
  let ?q = "?xs ! (j mod ?n)"
  have mod: "x mod ?n = j mod ?n" if "x mod (?n * 2) = j" for x using that by (metis mod_mod_cancel dvd_triv_left)
  have uniq: "p = ?q" if "p \<in> set (rev ?xs)" "?P p" for p
  proof -
    from that obtain i where i: "i < ?n" "p = ?xs ! i" by (auto simp: in_set_conv_nth)
    then have "sp_pn p mod ?n = i" using ok that(2) unfolding space_in_def by auto
    then show ?thesis using mod that(2) i by auto
  qed
  have "?q \<in> set (rev ?xs)" using n0 by simp
  moreover have "find ?P (rev ?xs) = (if ?q \<in> set (rev ?xs) \<and> ?P ?q then Some ?q else None)"
    by (rule find_used_unique) (rule uniq)
  ultimately have "find ?P (rev ?xs) = (if ?P ?q then Some ?q else None)" by simp
  then show "length (ps_ring (ps_grow s)) = ?n * 2"
    "ps_ring (ps_grow s) ! j = (let p = ?xs ! (j mod ?n) in if sp_used p \<and> sp_pn p mod (?n * 2) = j then p else sent_new)"
    using grow_loop_nth [of j "replicate (?n * 2) sent_new" ?xs] j by (simp_all add: ps_grow_def and_m [unfolded One_nat_def] Let_def)
qed

lemma grow_ok:
  assumes ok: "space_in l s"
  shows "space_in l (ps_grow s)" and "ps_find (ps_grow s) = ps_find s"
proof -
  let ?n = "length (ps_ring s)" and ?g = "ps_grow s"
  from ok obtain k where k: "?n = 2 ^ k" by (auto simp: space_in_def)
  have n0: "0 < ?n" using k by simp
  have len: "length (ps_ring ?g) = ?n * 2" using grow_slot(1) [OF ok, of 0] n0 by simp
  have fields: "ps_oldest ?g = ps_oldest s" "ps_count ?g = ps_count s" by (simp_all add: ps_grow_def)
  have mask: "x AND ps_mask ?g = x mod (?n * 2)" for x
    unfolding ps_mask_def len by (rule and_mask_nat [of _ "Suc k"]) (simp add: k)
  show f: "ps_find ?g = ps_find s"
  proof
    fix q
    have "q mod (?n * 2) mod ?n = q mod ?n" by (metis mod_mod_cancel dvd_triv_left)
    then show "ps_find ?g q = ps_find s q"
      using n0 by (simp add: ps_find_def slot_mod(1) [OF ok] mask grow_slot(2) [OF ok] Let_def sent_new_def)
  qed
  show "space_in l ?g"
  proof (rule space_inI [of _ "Suc k"])
    show "length (ps_ring ?g) = 2 ^ Suc k" by (simp add: len k)
    show "ps_count ?g = card (dom (ps_find ?g))" using ok by (simp add: f fields space_in_def)
    fix i assume i: "i < length (ps_ring ?g)" "sp_used (ps_ring ?g ! i)"
    let ?p = "ps_ring s ! (i mod ?n)"
    have p: "ps_ring ?g ! i = ?p" "sp_used ?p" "sp_pn ?p mod (?n * 2) = i"
      using i grow_slot(2) [OF ok, of i] len by (auto simp: Let_def sent_new_def split: if_splits)
    moreover have "ps_oldest s \<le> sp_pn ?p" "sp_pn ?p < l" "l \<le> sp_pn ?p + ?n"
      using ok p(2) n0 unfolding space_in_def by auto
    ultimately show "sp_pn (ps_ring ?g ! i) mod length (ps_ring ?g) = i \<and> ps_oldest ?g \<le> sp_pn (ps_ring ?g ! i)
        \<and> sp_pn (ps_ring ?g ! i) < l \<and> l \<le> sp_pn (ps_ring ?g ! i) + length (ps_ring ?g)"
      by (simp add: len fields)
  qed
qed


text \<open>A used slot rewritten in place, its number kept.\<close>

lemma slot_update:
  assumes ok: "space_in l s" and p: "ps_find s q = Some p" and g: "sp_used p'" "sp_pn p' = q"
  defines "s' \<equiv> s\<lparr>ps_ring := (ps_ring s)[q AND ps_mask s := p']\<rparr>"
  shows "space_in l s'" and "ps_find s' = (ps_find s)(q \<mapsto> p')"
proof -
  let ?n = "length (ps_ring s)"
  note f = find_Some [OF ok p] and sl = slot_mod [OF ok]
  have len: "length (ps_ring s') = ?n" "ps_mask s' = ps_mask s" by (simp_all add: s'_def ps_mask_def)
  have nth: "ps_ring s' ! i = (if i = q mod ?n then p' else ps_ring s ! i)" if "i < ?n" for i
    using that sl by (simp add: s'_def nth_list_update)
  show m: "ps_find s' = (ps_find s)(q \<mapsto> p')"
  proof
    fix x
    have "ps_find s' x = (let p = ps_ring s' ! (x mod ?n) in if sp_used p \<and> sp_pn p = x then Some p else None)"
      by (simp add: ps_find_def len sl(1))
    then show "ps_find s' x = ((ps_find s)(q \<mapsto> p')) x"
      using nth [OF sl(2), of x] f(1-3) g find_slot [OF ok, of x]
      by (cases "x = q"; cases "x mod ?n = q mod ?n") (simp_all add: Let_def)
  qed
  have "dom (ps_find s') = dom (ps_find s)" using p by (auto simp: m)
  then show "space_in l s'"
    using ok nth f g unfolding space_in_def by (auto simp: len) (auto simp: s'_def)
qed

lemma skip_fields: "ps_ring (ps_skip s) = ps_ring s \<and> next_pn (ps_skip s) = next_pn s \<and> ps_count (ps_skip s) = ps_count s
   \<and> eliciting_in_flight (ps_skip s) = eliciting_in_flight s \<and> ps_acks (ps_skip s) = ps_acks s"
proof (induction s rule: ps_skip.induct)
  case (1 s)
  then show ?case by (subst (1 2 3 4 5) ps_skip.simps) simp
qed

lemma skip_find: "ps_find (ps_skip s) = ps_find s"
  using skip_fields [of s] by (simp add: ps_find_def ps_mask_def fun_eq_iff)

lemma find_oldest [simp]: "ps_find (s\<lparr>ps_oldest := n\<rparr>) = ps_find s"
  by (simp add: ps_find_def ps_mask_def fun_eq_iff)

lemma skip_oldest: "(\<And>q p. ps_find s q = Some p \<Longrightarrow> ps_oldest s \<le> q) \<Longrightarrow> ps_find s q = Some p \<Longrightarrow> ps_oldest (ps_skip s) \<le> q"
proof (induction s rule: ps_skip.induct)
  case (1 s)
  let ?s = "s\<lparr>ps_oldest := ps_oldest s + 1\<rparr>"
  show ?case
  proof (cases "ps_count s \<noteq> 0 \<and> ps_oldest s < next_pn s \<and> ps_find s (ps_oldest s) = None")
    case True
    have "ps_oldest ?s \<le> x" if "ps_find ?s x = Some y" for x y
      using that 1(2) [of x y] True by (cases "x = ps_oldest s") auto
    with 1(1) [OF True] 1(3) True show ?thesis by (subst ps_skip.simps) simp
  next
    case False
    then show ?thesis using 1(2,3) by (subst ps_skip.simps) auto
  qed
qed

lemma forget_ok:
  assumes ok: "space_in l s" and p: "ps_find s q = Some p"
  shows "space_in l (ps_forget s q)" and "ps_find (ps_forget s q) = (ps_find s)(q := None)"
    and "next_pn (ps_forget s q) = next_pn s" "eliciting_in_flight (ps_forget s q) = eliciting_in_flight s"
    "ps_acks (ps_forget s q) = ps_acks s"
proof -
  let ?n = "length (ps_ring s)"
  define t where "t = s\<lparr>ps_ring := (ps_ring s)[q AND ps_mask s := (ps_ring s ! (q AND ps_mask s))\<lparr>sp_used := False\<rparr>], ps_count := ps_count s - 1\<rparr>"
  have fg: "ps_forget s q = ps_skip t" by (simp add: ps_forget_def t_def Let_def)
  note f = find_Some [OF ok p] and sl = slot_mod [OF ok]
  have len: "length (ps_ring t) = ?n" "ps_mask t = ps_mask s" by (simp_all add: t_def ps_mask_def)
  have nth: "ps_ring t ! i = (if i = q mod ?n then p\<lparr>sp_used := False\<rparr> else ps_ring s ! i)" if "i < ?n" for i
    using that sl f by (simp add: t_def nth_list_update)
  have m: "ps_find t = (ps_find s)(q := None)"
  proof
    fix x
    have "ps_find t x = (let p = ps_ring t ! (x mod ?n) in if sp_used p \<and> sp_pn p = x then Some p else None)"
      by (simp add: ps_find_def len sl(1))
    then show "ps_find t x = ((ps_find s)(q := None)) x"
      using nth [OF sl(2), of x] f(1-3) find_slot [OF ok, of x]
      by (cases "x = q"; cases "x mod ?n = q mod ?n") (simp_all add: Let_def)
  qed
  note sk = skip_fields [of t]
  show m': "ps_find (ps_forget s q) = (ps_find s)(q := None)" by (simp add: fg skip_find m)
  show "next_pn (ps_forget s q) = next_pn s" "eliciting_in_flight (ps_forget s q) = eliciting_in_flight s"
    "ps_acks (ps_forget s q) = ps_acks s" using sk by (simp_all add: fg t_def)
  have old: "ps_oldest (ps_skip t) \<le> x" if "ps_find t x = Some y" for x y
  proof (rule skip_oldest [OF _ that])
    fix a b assume "ps_find t a = Some b"
    then have "ps_find s a = Some b" by (auto simp: m split: if_splits)
    then show "ps_oldest t \<le> a" using find_Some(4) [OF ok] by (simp add: t_def)
  qed
  from ok obtain k where k: "?n = 2 ^ k" by (auto simp: space_in_def)
  show "space_in l (ps_forget s q)"
  proof (rule space_inI [of _ k])
    show "length (ps_ring (ps_forget s q)) = 2 ^ k" using sk len k by (simp add: fg)
    have "card (dom (ps_find s) - {q}) = card (dom (ps_find s)) - 1" using p by (intro card_Diff_singleton) auto
    then show "ps_count (ps_forget s q) = card (dom (ps_find (ps_forget s q)))"
      using sk ok m' by (simp add: fg t_def space_in_def)
    fix i assume i: "i < length (ps_ring (ps_forget s q))" "sp_used (ps_ring (ps_forget s q) ! i)"
    then have i': "i < ?n" "i \<noteq> q mod ?n" "sp_used (ps_ring s ! i)" "ps_ring (ps_forget s q) ! i = ps_ring s ! i"
      using sk len nth by (auto simp: fg split: if_splits)
    then have c: "sp_pn (ps_ring s ! i) mod ?n = i" "sp_pn (ps_ring s ! i) < l" "l \<le> sp_pn (ps_ring s ! i) + ?n"
      using ok unfolding space_in_def by auto
    then have "ps_find t (sp_pn (ps_ring s ! i)) = Some (ps_ring s ! i)"
      using i' by (auto simp: m find_slot [OF ok] Let_def)
    from old [OF this] c i' show "sp_pn (ps_ring (ps_forget s q) ! i) mod length (ps_ring (ps_forget s q)) = i
        \<and> ps_oldest (ps_forget s q) \<le> sp_pn (ps_ring (ps_forget s q) ! i)
        \<and> sp_pn (ps_ring (ps_forget s q) ! i) < l
        \<and> l \<le> sp_pn (ps_ring (ps_forget s q) ! i) + length (ps_ring (ps_forget s q))"
      using sk len by (simp add: fg t_def)
  qed
qed

text \<open>
  Taking the slot of the next number: it is free, in the doubled ring if it was not before, because the
  numbers in flight span at most the ring.
\<close>

lemma record_room:
  assumes ok: "space_ok s"
  defines "t \<equiv> if sp_used (ps_ring s ! (next_pn s AND ps_mask s)) then ps_grow s else s"
  shows "space_ok t" "ps_find t = ps_find s" "next_pn t = next_pn s" "ps_count t = ps_count s" "ps_oldest t = ps_oldest s"
    "eliciting_in_flight t = eliciting_in_flight s" "ps_acks t = ps_acks s"
    "\<not> sp_used (ps_ring t ! (next_pn s mod length (ps_ring t)))"
    "i < length (ps_ring t) \<Longrightarrow> sp_used (ps_ring t ! i) \<Longrightarrow> next_pn s < sp_pn (ps_ring t ! i) + length (ps_ring t)"
proof -
  let ?n = "length (ps_ring s)" and ?q = "next_pn s"
  note sl = slot_mod [OF ok]
  have bound: "sp_pn (ps_ring s ! i) mod ?n = i \<and> sp_pn (ps_ring s ! i) < ?q \<and> ?q \<le> sp_pn (ps_ring s ! i) + ?n"
    if "i < ?n" "sp_used (ps_ring s ! i)" for i using ok that unfolding space_in_def by auto
  have "next_pn (ps_grow s) = next_pn s" by (simp add: ps_grow_def)
  then show "space_ok t" "ps_find t = ps_find s" using grow_ok [OF ok] ok by (simp_all add: t_def)
  show "next_pn t = next_pn s" "ps_count t = ps_count s" "ps_oldest t = ps_oldest s"
    "eliciting_in_flight t = eliciting_in_flight s" "ps_acks t = ps_acks s" by (simp_all add: t_def ps_grow_def)
  have "\<not> sp_used (ps_ring t ! (?q mod length (ps_ring t)))
      \<and> (\<forall>i < length (ps_ring t). sp_used (ps_ring t ! i) \<longrightarrow> ?q < sp_pn (ps_ring t ! i) + length (ps_ring t))"
  proof (cases "sp_used (ps_ring s ! (?q mod ?n))")
    case False
    then have t: "t = s" by (simp add: t_def sl)
    have "?q \<noteq> sp_pn (ps_ring s ! i) + ?n" if "i < ?n" "sp_used (ps_ring s ! i)" for i
      using bound [OF that] False that by auto
    then show ?thesis using False bound by (fastforce simp: t)
  next
    case True
    then have t: "t = ps_grow s" by (simp add: t_def sl)
    have n0: "0 < ?n" using sl(2) [of 0] by simp
    have len: "length (ps_ring t) = ?n * 2" using grow_slot(1) [OF ok, of 0] n0 by (simp add: t)
    have g: "ps_ring t ! j = (let p = ps_ring s ! (j mod ?n) in if sp_used p \<and> sp_pn p mod (?n * 2) = j then p else sent_new)"
      if "j < ?n * 2" for j using grow_slot(2) [OF ok that] by (simp add: t)
    let ?p = "ps_ring s ! (?q mod ?n)"
    have p: "sp_pn ?p mod ?n = ?q mod ?n" "sp_pn ?p < ?q" "?q \<le> sp_pn ?p + ?n" using bound [OF sl(2) True] by auto
    have q: "?q = sp_pn ?p + ?n"
    proof -
      have "?n dvd ?q - sp_pn ?p" using p(1,2) by (metis less_imp_le mod_eq_dvd_iff_nat)
      then have "?n \<le> ?q - sp_pn ?p" using p(2) by (intro dvd_imp_le) auto
      then show ?thesis using p(2,3) by linarith
    qed
    have "sp_pn ?p mod (?n * 2) \<noteq> ?q mod (?n * 2)"
    proof
      assume "sp_pn ?p mod (?n * 2) = ?q mod (?n * 2)"
      then have "?n * 2 dvd ?q - sp_pn ?p" using p(2) by (metis less_imp_le mod_eq_dvd_iff_nat)
      then have "?n * 2 \<le> ?q - sp_pn ?p" using p(2) by (intro dvd_imp_le) auto
      then show False using q n0 by linarith
    qed
    moreover have "?q mod (?n * 2) mod ?n = ?q mod ?n" by (metis mod_mod_cancel dvd_triv_left)
    ultimately have "\<not> sp_used (ps_ring t ! (?q mod length (ps_ring t)))"
      using g [of "?q mod (?n * 2)"] n0 by (simp add: len Let_def sent_new_def)
    moreover have "?q < sp_pn (ps_ring t ! i) + length (ps_ring t)" if "i < length (ps_ring t)" "sp_used (ps_ring t ! i)" for i
    proof -
      have "ps_ring t ! i = ps_ring s ! (i mod ?n)" "sp_used (ps_ring s ! (i mod ?n))"
        using that g [of i] by (auto simp: len Let_def sent_new_def split: if_splits)
      then show ?thesis using bound [of "i mod ?n"] n0 len by simp
    qed
    ultimately show ?thesis by blast
  qed
  then show "\<not> sp_used (ps_ring t ! (?q mod length (ps_ring t)))"
    "i < length (ps_ring t) \<Longrightarrow> sp_used (ps_ring t ! i) \<Longrightarrow> ?q < sp_pn (ps_ring t ! i) + length (ps_ring t)" by blast+
qed

lemma find_used:
  assumes "space_in l s" "i < length (ps_ring s)" "sp_used (ps_ring s ! i)"
  shows "ps_find s (sp_pn (ps_ring s ! i)) = Some (ps_ring s ! i)"
  using assms by (auto simp: find_slot [OF assms(1)] space_in_def Let_def)

lemma record_ok:
  assumes ok: "space_ok s"
  defines "q \<equiv> next_pn s" and "s' \<equiv> ps_record s (next_pn s)"
  obtains p where "space_in (Suc q) s'" "ps_find s' = (ps_find s)(q \<mapsto> p)" "sp_used p" "sp_pn p = q" "ps_find s q = None"
    "next_pn s' = q" "eliciting_in_flight s' = eliciting_in_flight s" "ps_acks s' = ps_acks s"
proof -
  define t where "t = (if sp_used (ps_ring s ! (next_pn s AND ps_mask s)) then ps_grow s else s)"
  note rm = record_room [OF ok, folded t_def q_def]
  let ?n = "length (ps_ring t)"
  note sl = slot_mod [OF rm(1)]
  define p where "p = (ps_ring t ! (q mod ?n))\<lparr>sp_used := True, sp_pn := q, sp_items := []\<rparr>"
  define old where "old = (if ps_count t = 0 then q else if q < ps_oldest t then q else ps_oldest t)"
  have s': "s' = t\<lparr>ps_ring := (ps_ring t)[q mod ?n := p], ps_oldest := old, ps_count := ps_count t + 1\<rparr>"
    unfolding s'_def ps_record_def Let_def t_def [symmetric]
    unfolding q_def [symmetric] sl(1) p_def [symmetric] by (simp add: old_def ps_mask_def [of t, symmetric] sl(1))
  have len: "length (ps_ring s') = ?n" "ps_mask s' = ps_mask t" by (simp_all add: s' ps_mask_def)
  have nth: "ps_ring s' ! i = (if i = q mod ?n then p else ps_ring t ! i)" if "i < ?n" for i
    using that by (simp add: s' nth_list_update)
  have none: "ps_find s q = None" using rm(2,8) find_slot [OF rm(1), of q] by (simp add: Let_def)
  have m: "ps_find s' = (ps_find s)(q \<mapsto> p)"
  proof
    fix x
    have "ps_find s' x = (let p = ps_ring s' ! (x mod ?n) in if sp_used p \<and> sp_pn p = x then Some p else None)"
      by (simp add: ps_find_def len sl(1))
    then show "ps_find s' x = ((ps_find s)(q \<mapsto> p)) x"
      using nth [OF sl(2), of x] rm(2,8) find_slot [OF rm(1), of x]
      by (cases "x = q"; cases "x mod ?n = q mod ?n") (simp_all add: Let_def p_def)
  qed
  from rm(1) obtain k where k: "?n = 2 ^ k" by (auto simp: space_in_def)
  have "space_in (Suc q) s'"
  proof (rule space_inI [of _ k])
    show "length (ps_ring s') = 2 ^ k" by (simp add: len k)
    have "q \<notin> dom (ps_find s)" using none by auto
    then show "ps_count s' = card (dom (ps_find s'))"
      using rm(1,2) finite_find [OF ok] unfolding m by (simp add: s' space_in_def)
    fix i assume i: "i < length (ps_ring s')" "sp_used (ps_ring s' ! i)"
    show "sp_pn (ps_ring s' ! i) mod length (ps_ring s') = i \<and> ps_oldest s' \<le> sp_pn (ps_ring s' ! i)
        \<and> sp_pn (ps_ring s' ! i) < Suc q \<and> Suc q \<le> sp_pn (ps_ring s' ! i) + length (ps_ring s')"
    proof (cases "i = q mod ?n")
      case True
      have "0 < ?n" "old \<le> q" using k by (auto simp: old_def)
      then show ?thesis using nth [of i] i True len by (simp add: p_def s' Suc_le_eq)
    next
      case False
      then have u: "i < ?n" "sp_used (ps_ring t ! i)" "ps_ring s' ! i = ps_ring t ! i" using i nth len by auto
      have "ps_find t (sp_pn (ps_ring t ! i)) \<noteq> None" using find_used [OF rm(1) u(1,2)] by simp
      then have "ps_count t \<noteq> 0" using rm(1) finite_find [OF rm(1)] by (auto simp: space_in_def)
      then have "old \<le> ps_oldest t" by (auto simp: old_def)
      moreover have "sp_pn (ps_ring t ! i) mod ?n = i" "ps_oldest t \<le> sp_pn (ps_ring t ! i)" "sp_pn (ps_ring t ! i) < q"
        using rm(1,3) u unfolding space_in_def by auto
      ultimately show ?thesis using u rm(9) [OF u(1,2)] len by (simp add: s')
    qed
  qed
  then show ?thesis using m none rm(3,6,7) by (intro that [of p]) (simp_all add: p_def s')
qed

text \<open>A packet sent is one more entry; one abandoned leaves none.\<close>

lemma send_ok:
  fixes s :: PnSpace and bytes :: nat and eliciting flight :: bool and items :: "SentItem list"
  assumes ok: "space_ok s"
  defines "q \<equiv> next_pn s"
  defines "s' \<equiv> (ps_fill (ps_record s q) q bytes eliciting flight items)\<lparr>next_pn := q + 1\<rparr>"
  obtains p where "space_ok s'" "ps_find s' = (ps_find s)(q \<mapsto> p)" "ps_find s q = None" "next_pn s' = q + 1"
    "eliciting_in_flight s' = eliciting_in_flight s" "ps_acks s' = ps_acks s"
    "sp_bytes p = bytes" "sp_ack_eliciting p = eliciting" "sp_in_flight p = flight" "sp_pn p = q"
proof -
  from record_ok [OF ok, folded q_def] obtain p where r: "space_in (Suc q) (ps_record s q)" "ps_find (ps_record s q) = (ps_find s)(q \<mapsto> p)"
    "sp_used p" "sp_pn p = q" "ps_find s q = None" "next_pn (ps_record s q) = q"
    "eliciting_in_flight (ps_record s q) = eliciting_in_flight s" "ps_acks (ps_record s q) = ps_acks s" by blast
  let ?r = "ps_record s q" and ?p = "p\<lparr>sp_bytes := bytes, sp_ack_eliciting := eliciting, sp_in_flight := flight, sp_items := items\<rparr>"
  have f: "ps_find ?r q = Some p" using r(2) by simp
  have slot: "ps_ring ?r ! (q AND ps_mask ?r) = p" using find_Some(1) [OF r(1) f] slot_mod [OF r(1)] by simp
  have fill: "ps_fill ?r q bytes eliciting flight items = ?r\<lparr>ps_ring := (ps_ring ?r)[q AND ps_mask ?r := ?p]\<rparr>"
    by (simp add: ps_fill_def Let_def slot)
  note up = slot_update [OF r(1) f, of ?p]
  have nx: "ps_find (x\<lparr>next_pn := n\<rparr>) = ps_find x" "space_in l (x\<lparr>next_pn := n\<rparr>) = space_in l x" for x n l
  proof -
    show "ps_find (x\<lparr>next_pn := n\<rparr>) = ps_find x" by (simp add: ps_find_def ps_mask_def fun_eq_iff)
    then show "space_in l (x\<lparr>next_pn := n\<rparr>) = space_in l x" by (simp add: space_in_def)
  qed
  show ?thesis
    using up r by (intro that [of ?p]) (simp_all add: s'_def fill nx)
qed

lemma abandon_ok:
  assumes ok: "space_ok s"
  defines "s' \<equiv> ps_forget (ps_record s (next_pn s)) (next_pn s)"
  shows "space_ok s'" "ps_find s' = ps_find s" "eliciting_in_flight s' = eliciting_in_flight s" "ps_acks s' = ps_acks s"
proof -
  let ?q = "next_pn s"
  from record_ok [OF ok] obtain p where r: "space_in (Suc ?q) (ps_record s ?q)" "ps_find (ps_record s ?q) = (ps_find s)(?q \<mapsto> p)"
    "ps_find s ?q = None" "next_pn (ps_record s ?q) = ?q"
    "eliciting_in_flight (ps_record s ?q) = eliciting_in_flight s" "ps_acks (ps_record s ?q) = ps_acks s" by blast
  have f: "ps_find (ps_record s ?q) ?q = Some p" using r(2) by simp
  note fg = forget_ok [OF r(1) f]
  show m: "ps_find s' = ps_find s" using fg(2) r(2,3) by (auto simp: s'_def)
  show "eliciting_in_flight s' = eliciting_in_flight s" "ps_acks s' = ps_acks s" using fg r by (simp_all add: s'_def)
  have "next_pn s' = ?q" using fg r by (simp add: s'_def)
  moreover have "space_in ?q s'"
  proof -
    have "sp_pn (ps_ring s' ! i) < ?q" if "i < length (ps_ring s')" "sp_used (ps_ring s' ! i)" for i
      using find_used [OF fg(1) that [unfolded s'_def]] m find_Some(5) [OF ok] by (auto simp: s'_def)
    then show ?thesis using fg(1) unfolding s'_def [symmetric] space_in_def by (auto dest: Suc_leD)
  qed
  ultimately show "space_ok s'" by simp
qed


subsection \<open>Accounting\<close>

text \<open>
  What the recovery code relies on of a store of sent packets: forgetting an entry removes it and
  nothing else. A sum over the entries then loses exactly that entry's share.
\<close>

locale sent_store =
  fixes inv :: "'s \<Rightarrow> bool"
    and lookup :: "'s \<Rightarrow> nat \<rightharpoonup> 'p"
    and forget :: "'s \<Rightarrow> nat \<Rightarrow> 's"
  assumes finite_lookup: "inv s \<Longrightarrow> finite (dom (lookup s))"
    and forget_inv: "inv s \<Longrightarrow> lookup s q = Some p \<Longrightarrow> inv (forget s q)"
    and forget_lookup: "inv s \<Longrightarrow> lookup s q = Some p \<Longrightarrow> lookup (forget s q) = (lookup s)(q := None)"
begin

lemma weight_forget:
  assumes "inv s" "lookup s q = Some p"
  shows "map_weight f (lookup s) = map_weight f (lookup (forget s q)) + f p"
  using map_weight_remove [OF finite_lookup [OF assms(1)] assms(2)] by (simp add: forget_lookup [OF assms])

end

interpretation ring: sent_store space_ok ps_find ps_forget
proof
  fix s q p assume "space_ok s"
  then show "finite (dom (ps_find s))" by (rule finite_find)
next
  fix s q p assume "space_ok s" "ps_find s q = Some p"
  from forget_ok [OF this] show "space_ok (ps_forget s q)" "ps_find (ps_forget s q) = (ps_find s)(q := None)" by simp_all
qed

definition flight_bytes :: "SentPacket \<Rightarrow> nat" where
  "flight_bytes p = (if sp_in_flight p then sp_bytes p else 0)"

definition flight_eliciting :: "SentPacket \<Rightarrow> nat" where
  "flight_eliciting p = (if sp_in_flight p \<and> sp_ack_eliciting p then 1 else 0)"

definition total_flight :: "(Space \<Rightarrow> PnSpace) \<Rightarrow> nat" where
  "total_flight ss = (\<Sum>sp\<leftarrow>all_spaces. map_weight flight_bytes (ps_find (ss sp)))"

lemma total_flight_upd:
  "total_flight (ss(sp := s)) + map_weight flight_bytes (ps_find (ss sp)) = total_flight ss + map_weight flight_bytes (ps_find s)"
  by (cases sp) (simp_all add: total_flight_def all_spaces_def)

definition accounts :: "Recovery \<Rightarrow> bool" where
  "accounts r \<longleftrightarrow> (\<forall>sp. space_ok (rc_spaces r sp)
       \<and> eliciting_in_flight (rc_spaces r sp) = map_weight flight_eliciting (ps_find (rc_spaces r sp))
       \<and> rs_inv (ak_received (ps_acks (rc_spaces r sp))))
     \<and> bytes_in_flight r = total_flight (rc_spaces r)"

text \<open>Only the spaces and the byte counter matter; of a space, only its ring, its counters and what it received.\<close>

lemma accounts_cong: "rc_spaces a = rc_spaces b \<Longrightarrow> bytes_in_flight a = bytes_in_flight b \<Longrightarrow> accounts a = accounts b"
  by (simp add: accounts_def)

definition same_flight :: "PnSpace \<Rightarrow> PnSpace \<Rightarrow> bool" where
  "same_flight s t \<longleftrightarrow> (space_ok s \<longrightarrow> space_ok t) \<and> ps_find t = ps_find s \<and> eliciting_in_flight t = eliciting_in_flight s
     \<and> (rs_inv (ak_received (ps_acks s)) \<longrightarrow> rs_inv (ak_received (ps_acks t)))"

lemma accounts_same:
  assumes "accounts r" "same_flight (rc_spaces r sp) (f (rc_spaces r sp))"
  shows "accounts (upd_space sp f r)"
proof -
  have "total_flight ((rc_spaces r)(sp := f (rc_spaces r sp))) = total_flight (rc_spaces r)"
    using total_flight_upd [of "rc_spaces r" sp "f (rc_spaces r sp)"] assms(2) by (simp add: same_flight_def)
  then show ?thesis using assms by (auto simp: accounts_def upd_space_def same_flight_def)
qed

lemma find_fields:
  "ps_find (s\<lparr>loss_time := t\<rparr>) = ps_find s" "ps_find (s\<lparr>any_acked := b\<rparr>) = ps_find s" "ps_find (s\<lparr>largest_acked := n\<rparr>) = ps_find s"
  "ps_find (s\<lparr>ps_acks := a\<rparr>) = ps_find s" "ps_find (s\<lparr>last_eliciting_sent := t\<rparr>) = ps_find s"
  "ps_find (s\<lparr>eliciting_in_flight := n\<rparr>) = ps_find s" "ps_find (s\<lparr>discarded := b\<rparr>) = ps_find s" "ps_find (s\<lparr>next_pn := n\<rparr>) = ps_find s"
  by (simp_all add: ps_find_def ps_mask_def fun_eq_iff)

lemma space_fields:
  "space_in l (s\<lparr>loss_time := t\<rparr>) = space_in l s" "space_in l (s\<lparr>any_acked := b\<rparr>) = space_in l s"
  "space_in l (s\<lparr>largest_acked := n\<rparr>) = space_in l s" "space_in l (s\<lparr>ps_acks := a\<rparr>) = space_in l s"
  "space_in l (s\<lparr>last_eliciting_sent := t\<rparr>) = space_in l s" "space_in l (s\<lparr>eliciting_in_flight := n\<rparr>) = space_in l s"
  "space_in l (s\<lparr>discarded := b\<rparr>) = space_in l s"
  by (simp_all add: space_in_def find_fields)

lemmas flight_fields = find_fields space_fields

text \<open>A packet leaves, acknowledged or lost: the counters lose its share, and none underflows.\<close>

lemma accounts_leave:
  assumes acc: "accounts r" and p: "ps_find (rc_spaces r sp) q = Some p"
    and spaces: "rc_spaces r' = rc_spaces (if sp_in_flight p then leave_flight sp p r else r)"
    and bytes: "bytes_in_flight r' = bytes_in_flight (if sp_in_flight p then leave_flight sp p r else r)"
  shows "accounts (upd_space sp (\<lambda>s. ps_forget s q) r')"
proof -
  let ?s = "rc_spaces r sp"
  have ok: "space_ok ?s" and el: "eliciting_in_flight ?s = map_weight flight_eliciting (ps_find ?s)"
    and rs: "rs_inv (ak_received (ps_acks ?s))" and b: "bytes_in_flight r = total_flight (rc_spaces r)"
    using acc by (auto simp: accounts_def)
  note wf = ring.weight_forget [OF ok p] and fg = forget_ok [OF ok p]
  define s1 where "s1 = rc_spaces r' sp"
  have s1: "s1 = (if sp_in_flight p \<and> sp_ack_eliciting p then ?s\<lparr>eliciting_in_flight := eliciting_in_flight ?s - 1\<rparr> else ?s)"
    using el wf [of flight_eliciting] by (auto simp: s1_def spaces leave_flight_def upd_space_def flight_eliciting_def Let_def)
  have others: "rc_spaces r' x = rc_spaces r x" if "x \<noteq> sp" for x
    using that by (auto simp: spaces leave_flight_def upd_space_def Let_def)
  have bt: "bytes_in_flight r' = bytes_in_flight r - flight_bytes p"
    by (auto simp: bytes leave_flight_def upd_space_def flight_bytes_def Let_def)
  have f1: "ps_find s1 = ps_find ?s" "space_ok s1" "ps_find s1 q = Some p" "ps_acks s1 = ps_acks ?s"
    using ok p by (auto simp: s1 flight_fields)
  note fg1 = forget_ok [OF f1(2,3)]
  have m: "ps_find (ps_forget s1 q) = ps_find (ps_forget ?s q)" using fg1(2) fg(2) f1(1) by simp
  have "eliciting_in_flight (ps_forget s1 q) = map_weight flight_eliciting (ps_find (ps_forget s1 q))"
    using fg1(4) el wf [of flight_eliciting] m by (auto simp: s1 flight_eliciting_def)
  moreover have "bytes_in_flight r - flight_bytes p = total_flight ((rc_spaces r')(sp := ps_forget s1 q))"
  proof -
    have "(rc_spaces r')(sp := ps_forget s1 q) = (rc_spaces r)(sp := ps_forget s1 q)" using others by (auto simp: fun_eq_iff)
    then show ?thesis
      using total_flight_upd [of "rc_spaces r" sp "ps_forget s1 q"] wf [of flight_bytes] m b by simp
  qed
  moreover have "space_ok (ps_forget s1 q)" "rs_inv (ak_received (ps_acks (ps_forget s1 q)))"
    using fg1 f1 rs by simp_all
  ultimately show ?thesis
    using acc others bt by (auto simp: accounts_def upd_space_def s1_def [symmetric])
qed

end
