(* ===== verification/Recovery_Accounts.thy ===== *)
theory Recovery_Accounts
  imports Quic_Recovery
begin

text \<open>
  The accounts of the recovery state hold across everything the connection does with it: the bytes in
  flight are those of the packets recorded as in flight, the count of ack-eliciting packets of each
  space is exact, the ring of each space is well formed, and the congestion window, which divides,
  is never zero.
\<close>

lemma accounts_space:
  assumes "accounts r"
  shows "space_ok (rc_spaces r sp)"
    "eliciting_in_flight (rc_spaces r sp) = map_weight flight_eliciting (ps_find (rc_spaces r sp))"
    "rs_inv (ak_received (ps_acks (rc_spaces r sp)))" "bytes_in_flight r = total_flight (rc_spaces r)"
  using assms by (auto simp: accounts_def)

lemma accounts_recovery_new: "accounts recovery_new"
proof -
  have f: "ps_find space_new = Map.empty"
  proof
    fix q :: nat
    have "q AND 63 < (64 :: nat)" using and_mask_nat [of 64 6 q] by simp
    then show "ps_find space_new q = None" by (simp add: ps_find_def ps_mask_def space_new_def sent_new_def)
  qed
  have "space_ok space_new"
  proof (rule space_inI [of _ 6])
    show "ps_count space_new = card (dom (ps_find space_new))" unfolding f by (simp add: space_new_def)
  qed (simp_all add: space_new_def sent_new_def)
  then show ?thesis
    by (simp add: accounts_def recovery_new_def reset_cwnd_def total_flight_def all_spaces_def f)
      (simp add: space_new_def ack_new_def)
qed

text \<open>A space replaced by one whose accounts hold.\<close>

lemma accounts_upd:
  assumes "accounts r" "space_ok t" "eliciting_in_flight t = map_weight flight_eliciting (ps_find t)"
    "rs_inv (ak_received (ps_acks t))" "rc_spaces r' = (rc_spaces r)(sp := t)"
    "bytes_in_flight r' + map_weight flight_bytes (ps_find (rc_spaces r sp)) = bytes_in_flight r + map_weight flight_bytes (ps_find t)"
  shows "accounts r'"
  using assms total_flight_upd [of "rc_spaces r" sp t] by (auto simp: accounts_def)

lemma accounts_send:
  assumes acc: "accounts r"
  shows "accounts (send_packet sp bytes eliciting flight items now r)"
proof -
  let ?s = "rc_spaces r sp"
  define q where "q = next_pn ?s"
  define s' where "s' = (ps_fill (ps_record ?s q) q bytes eliciting flight items)\<lparr>next_pn := q + 1\<rparr>"
  note sp = accounts_space [OF acc]
  obtain p where p: "space_ok s'" "ps_find s' = (ps_find ?s)(q \<mapsto> p)"
    "ps_find ?s q = None" "eliciting_in_flight s' = eliciting_in_flight ?s" "ps_acks s' = ps_acks ?s"
    "sp_bytes p = bytes" "sp_ack_eliciting p = eliciting" "sp_in_flight p = flight" "sp_pn p = q"
    by (rule send_ok [OF sp(1), of sp bytes eliciting flight items, folded q_def, folded s'_def]) (rule that)
  have f: "ps_find s' q = Some p" using p(2) by simp
  note fs = find_Some [OF p(1) f]
  have slot: "ps_ring s' ! (q AND ps_mask s') = p" using fs(1) slot_mod [OF p(1)] by simp
  define t where "t = s'\<lparr>ps_ring := (ps_ring s')[q AND ps_mask s' := p\<lparr>sp_time := now\<rparr>]\<rparr>"
  have t: "space_in (next_pn s') t" "ps_find t = (ps_find s')(q \<mapsto> p\<lparr>sp_time := now\<rparr>)"
    unfolding t_def by (rule slot_update [OF p(1) f]; use fs in simp)+
  then have tf: "ps_find t = (ps_find ?s)(q \<mapsto> p\<lparr>sp_time := now\<rparr>)" and tn: "space_ok t" by (simp_all add: p(2) t_def)
  have te: "eliciting_in_flight t = eliciting_in_flight ?s" "ps_acks t = ps_acks ?s" using p by (simp_all add: t_def)
  define u where "u = (if flight \<and> eliciting then t\<lparr>last_eliciting_sent := now, eliciting_in_flight := eliciting_in_flight t + 1\<rparr> else t)"
  let ?r = "send_packet sp bytes eliciting flight items now r"
  have su: "upd_space sp (\<lambda>s. s\<lparr>next_pn := q + 1\<rparr>) (upd_space sp (\<lambda>s. ps_fill (ps_record s q) q bytes eliciting flight items) r)
      = r\<lparr>rc_spaces := (rc_spaces r)(sp := s')\<rparr>"
    by (simp add: upd_space_def s'_def)
  have r': "?r = (if flight then r\<lparr>rc_spaces := (rc_spaces r)(sp := u), bytes_in_flight := bytes_in_flight r + bytes\<rparr>
                  else r\<lparr>rc_spaces := (rc_spaces r)(sp := u)\<rparr>)"
    unfolding send_packet_def Let_def q_def [symmetric] su
    by (simp add: on_packet_sent_def Let_def slot p u_def t_def upd_space_def)
  have uf: "ps_find u = (ps_find ?s)(q \<mapsto> p\<lparr>sp_time := now\<rparr>)" and un: "space_ok u" "ps_acks u = ps_acks ?s"
    using tf tn te by (simp_all add: u_def flight_fields)
  have w: "map_weight g (ps_find u) = map_weight g (ps_find ?s) + g (p\<lparr>sp_time := now\<rparr>)" for g
    unfolding uf using finite_find [OF sp(1)] p(3) by (rule map_weight_add)
  show ?thesis
  proof (rule accounts_upd [OF acc un(1)])
    show "eliciting_in_flight u = map_weight flight_eliciting (ps_find u)"
      unfolding w using sp(2) te p by (auto simp: u_def flight_eliciting_def)
    show "rs_inv (ak_received (ps_acks u))" using sp(3) un by simp
    show "rc_spaces ?r = (rc_spaces r)(sp := u)" by (simp add: r')
    show "bytes_in_flight ?r + map_weight flight_bytes (ps_find ?s) = bytes_in_flight r + map_weight flight_bytes (ps_find u)"
      unfolding w using p by (simp add: r' flight_bytes_def)
  qed
qed

lemma accounts_abandon: "accounts r \<Longrightarrow> accounts (abandon_packet sp r)"
  unfolding abandon_packet_def Let_def
  using abandon_ok [OF accounts_space(1), of r sp] by (intro accounts_same) (simp_all add: same_flight_def)

lemma accounts_acks:
  assumes "accounts r" "\<And>a. rs_inv (ak_received a) \<Longrightarrow> rs_inv (ak_received (f a))"
  shows "accounts (upd_acks sp f r)"
  unfolding upd_acks_def using assms by (intro accounts_same) (auto simp: same_flight_def flight_fields)

lemma accounts_received: "accounts r \<Longrightarrow> accounts (on_packet_received sp n eliciting now d r)"
  unfolding on_packet_received_def
  by (rule accounts_acks) (auto simp: Let_def rs_add_point_def intro!: rs_keep_highest_correct rs_add_correct)

lemma accounts_ack_sent: "accounts r \<Longrightarrow> accounts (on_ack_sent sp r)"
  unfolding on_ack_sent_def by (rule accounts_acks) auto

lemma cc_acked_fields: "rc_spaces (cc_on_acked n r) = rc_spaces r" "bytes_in_flight (cc_on_acked n r) = bytes_in_flight r"
  "rc_max_datagram (cc_on_acked n r) = rc_max_datagram r"
  by (auto simp: cc_on_acked_def)

lemma cc_lost_fields: "rc_spaces (cc_on_lost a b now r) = rc_spaces r" "bytes_in_flight (cc_on_lost a b now r) = bytes_in_flight r"
  "rc_max_datagram (cc_on_lost a b now r) = rc_max_datagram r"
  by (auto simp: cc_on_lost_def Let_def)

lemma rtt_fields: "rc_spaces (update_rtt a d r) = rc_spaces r" "bytes_in_flight (update_rtt a d r) = bytes_in_flight r"
  "rc_max_datagram (update_rtt a d r) = rc_max_datagram r" "cwnd (update_rtt a d r) = cwnd r"
  by (auto simp: update_rtt_def Let_def)

lemma leave_fields: "rc_max_datagram (leave_flight sp p r) = rc_max_datagram r" "cwnd (leave_flight sp p r) = cwnd r"
  by (auto simp: leave_flight_def upd_space_def Let_def)

lemma upd_fields: "rc_max_datagram (upd_space sp f r) = rc_max_datagram r" "cwnd (upd_space sp f r) = cwnd r"
  by (auto simp: upd_space_def)

lemmas kept_fields = cc_acked_fields cc_lost_fields rtt_fields leave_fields upd_fields

text \<open>The window stays positive; it divides in congestion avoidance.\<close>

definition rec_inv :: "Recovery \<Rightarrow> bool" where
  "rec_inv r \<longleftrightarrow> accounts r \<and> 0 < cwnd r \<and> 0 < rc_max_datagram r"

lemma window_positive:
  "0 < cwnd r \<Longrightarrow> 0 < cwnd (cc_on_acked n r)"
  "0 < rc_max_datagram r \<Longrightarrow> 0 < cwnd r \<Longrightarrow> 0 < cwnd (cc_on_lost a b now r)"
  by (auto simp: cc_on_acked_def cc_on_lost_def minimum_window_def Let_def)

text \<open>One packet acknowledged, as the loop over a range does it.\<close>

definition ack_one :: "Space \<Rightarrow> nat \<Rightarrow> SentPacket \<Rightarrow> Recovery \<Rightarrow> Recovery" where
  "ack_one sp num p r =
     (let r = if sp_in_flight p then
                let r = leave_flight sp p r in
                if sp_time p > recovery_start r then cc_on_acked (sp_bytes p) r else r
              else r;
          r = r\<lparr>rc_acked := rc_acked r @ sp_items p\<rparr> in
      upd_space sp (\<lambda>s. ps_forget s num) r)"

lemma ack_one_inv:
  assumes "rec_inv r" "ps_find (rc_spaces r sp) num = Some p"
  shows "rec_inv (ack_one sp num p r)"
proof -
  let ?r = "if sp_in_flight p then
              let r = leave_flight sp p r in
              if sp_time p > recovery_start r then cc_on_acked (sp_bytes p) r else r
            else r"
  have "accounts (upd_space sp (\<lambda>s. ps_forget s num) (?r\<lparr>rc_acked := rc_acked ?r @ sp_items p\<rparr>))"
    using assms by (intro accounts_leave [of r sp num p]) (auto simp: rec_inv_def kept_fields Let_def)
  moreover have "0 < cwnd ?r" "0 < rc_max_datagram ?r"
    using assms by (auto simp: rec_inv_def kept_fields Let_def window_positive)
  ultimately show ?thesis by (simp add: rec_inv_def ack_one_def Let_def kept_fields)
qed

lemma ack_one_find:
  assumes "rec_inv r" "ps_find (rc_spaces r sp) num = Some p"
  shows "ps_find (rc_spaces (ack_one sp num p r) sp) = (ps_find (rc_spaces r sp))(num := None)"
    and "next_pn (rc_spaces (ack_one sp num p r) sp) = next_pn (rc_spaces r sp)"
    and "x \<noteq> sp \<Longrightarrow> rc_spaces (ack_one sp num p r) x = rc_spaces r x"
    and "rc_acked (ack_one sp num p r) = rc_acked r @ sp_items p"
proof -
  let ?l = "leave_flight sp p r"
  have ok: "space_ok (rc_spaces r sp)" using assms(1) by (auto simp: rec_inv_def accounts_def)
  have l: "space_ok (rc_spaces ?l sp)" "ps_find (rc_spaces ?l sp) = ps_find (rc_spaces r sp)"
    "next_pn (rc_spaces ?l sp) = next_pn (rc_spaces r sp)" "rc_acked ?l = rc_acked r" "x \<noteq> sp \<Longrightarrow> rc_spaces ?l x = rc_spaces r x" for x
    using ok by (auto simp: leave_flight_def upd_space_def flight_fields Let_def)
  have c: "rc_acked (cc_on_acked n a) = rc_acked a" for n a by (simp add: cc_on_acked_def)
  from forget_ok [OF l(1), of num p] forget_ok [OF ok, of num p] assms(2) l
  show "ps_find (rc_spaces (ack_one sp num p r) sp) = (ps_find (rc_spaces r sp))(num := None)"
    "next_pn (rc_spaces (ack_one sp num p r) sp) = next_pn (rc_spaces r sp)"
    "x \<noteq> sp \<Longrightarrow> rc_spaces (ack_one sp num p r) x = rc_spaces r x"
    "rc_acked (ack_one sp num p r) = rc_acked r @ sp_items p"
    by (simp_all add: ack_one_def Let_def upd_space_def kept_fields c)
qed

lemma ack_range_loop_Suc:
  "ack_range_loop sp b (Suc num) (newly, r) =
     (if num < b \<or> num < ps_oldest (rc_spaces r sp) then (newly, r)
      else case ps_find (rc_spaces r sp) num of
        None \<Rightarrow> ack_range_loop sp b num (newly, r)
      | Some p \<Rightarrow> ack_range_loop sp b num
          (case newly of
             Some (l, x) \<Rightarrow> if num > l then Some (num, sp_time p, sp_ack_eliciting p) else Some (l, x)
           | None \<Rightarrow> Some (num, sp_time p, sp_ack_eliciting p), ack_one sp num p r))"
  by (auto simp: ack_one_def Let_def split: option.splits)

declare ack_range_loop.simps(2) [simp del]

text \<open>
  An acknowledged range empties its numbers and touches no other packet; the break at the oldest number
  loses none, for nothing is recorded below it.
\<close>

lemma ack_range_loop_inv:
  assumes "rec_inv r" "ack_range_loop sp b e (newly, r) = (newly', r')"
  shows "rec_inv r'" and "ps_find (rc_spaces r' sp) = (ps_find (rc_spaces r sp)) |` (- {b..<e})"
    and "newly' = None \<longleftrightarrow> newly = None \<and> dom (ps_find (rc_spaces r sp)) \<inter> {b..<e} = {}"
    and "next_pn (rc_spaces r' sp) = next_pn (rc_spaces r sp)" and "x \<noteq> sp \<Longrightarrow> rc_spaces r' x = rc_spaces r x"
proof -
  have "rec_inv r' \<and> ps_find (rc_spaces r' sp) = (ps_find (rc_spaces r sp)) |` (- {b..<e})
     \<and> (newly' = None \<longleftrightarrow> newly = None \<and> dom (ps_find (rc_spaces r sp)) \<inter> {b..<e} = {})
     \<and> next_pn (rc_spaces r' sp) = next_pn (rc_spaces r sp) \<and> (x \<noteq> sp \<longrightarrow> rc_spaces r' x = rc_spaces r x)"
    using assms
  proof (induction e arbitrary: newly r)
    case (Suc num)
    have step: "- {b..<Suc num} = - {b..<num} - {num}" if "b \<le> num" using that by auto
    consider "num < b" | "b \<le> num" "num < ps_oldest (rc_spaces r sp)"
      | "b \<le> num" "ps_oldest (rc_spaces r sp) \<le> num" "ps_find (rc_spaces r sp) num = None"
      | p where "b \<le> num" "ps_oldest (rc_spaces r sp) \<le> num" "ps_find (rc_spaces r sp) num = Some p"
      by (cases "num < b"; cases "num < ps_oldest (rc_spaces r sp)"; cases "ps_find (rc_spaces r sp) num") (auto simp: not_less)
    then show ?case
    proof cases
      case 1
      then show ?thesis using Suc.prems by (auto simp: ack_range_loop_Suc)
    next
      case 2
      have "ps_find (rc_spaces r sp) q = None" if "q \<le> num" for q
        using 2 that find_Some(4) [of "next_pn (rc_spaces r sp)" "rc_spaces r sp" q] Suc.prems(1)
        by (cases "ps_find (rc_spaces r sp) q") (auto simp: rec_inv_def accounts_def)
      then have "ps_find (rc_spaces r sp) = (ps_find (rc_spaces r sp)) |` (- {b..<Suc num})"
        "dom (ps_find (rc_spaces r sp)) \<inter> {b..<Suc num} = {}"
        by (auto simp: restrict_map_def fun_eq_iff less_Suc_eq_le)
      then show ?thesis using 2 Suc.prems by (simp add: ack_range_loop_Suc)
    next
      case 3
      have "(ps_find (rc_spaces r sp)) |` (- {b..<Suc num}) = (ps_find (rc_spaces r sp)) |` (- {b..<num})"
        using 3 by (auto simp: restrict_map_def fun_eq_iff less_Suc_eq)
      moreover have "dom (ps_find (rc_spaces r sp)) \<inter> {b..<Suc num} = dom (ps_find (rc_spaces r sp)) \<inter> {b..<num}"
        using 3 by (auto simp: less_Suc_eq)
      ultimately show ?thesis using Suc.IH [OF Suc.prems(1), of newly] Suc.prems(2) 3 by (simp add: ack_range_loop_Suc)
    next
      case 4
      note one = ack_one_inv [OF Suc.prems(1) 4(3)] and fd = ack_one_find [OF Suc.prems(1) 4(3)]
      have m: "((ps_find (rc_spaces r sp))(num := None)) |` (- {b..<num}) = (ps_find (rc_spaces r sp)) |` (- {b..<Suc num})"
        using 4 by (auto simp: restrict_map_def fun_eq_iff less_Suc_eq)
      have d: "dom (ps_find (rc_spaces r sp)) \<inter> {b..<Suc num} \<noteq> {}" using 4 by auto
      obtain n' where n: "ack_range_loop sp b num (Some n', ack_one sp num p r) = (newly', r')"
        using Suc.prems(2) 4 by (auto simp: ack_range_loop_Suc not_less split: option.splits if_splits)
      show ?thesis using Suc.IH [OF one n, unfolded fd(1,2) m] fd(3) d by auto
    qed
  qed (auto simp: restrict_map_def)
  then show "rec_inv r'" "ps_find (rc_spaces r' sp) = (ps_find (rc_spaces r sp)) |` (- {b..<e})"
    "newly' = None \<longleftrightarrow> newly = None \<and> dom (ps_find (rc_spaces r sp)) \<inter> {b..<e} = {}"
    "next_pn (rc_spaces r' sp) = next_pn (rc_spaces r sp)" "x \<noteq> sp \<Longrightarrow> rc_spaces r' x = rc_spaces r x" by blast+
qed

definition covered :: "range list \<Rightarrow> nat set" where
  "covered rs = (\<Union>x\<in>set rs. {unat (fst x)..<unat (snd x)})"

lemma ack_ranges_inv:
  assumes "rec_inv r" "ack_ranges sp rs (newly, r) = (newly', r')"
  shows "rec_inv r' \<and> ps_find (rc_spaces r' sp) = (ps_find (rc_spaces r sp)) |` (- covered rs)
    \<and> (newly' = None \<longleftrightarrow> newly = None \<and> dom (ps_find (rc_spaces r sp)) \<inter> covered rs = {})
    \<and> next_pn (rc_spaces r' sp) = next_pn (rc_spaces r sp) \<and> (\<forall>x. x \<noteq> sp \<longrightarrow> rc_spaces r' x = rc_spaces r x)"
  using assms
proof (induction rs arbitrary: newly r)
  case (Cons x rs)
  let ?R = "{unat (fst x)..<unat (snd x)}"
  obtain n1 r1 where l: "ack_range_loop sp (unat (fst x)) (unat (snd x)) (newly, r) = (n1, r1)" by fastforce
  note s = ack_range_loop_inv [OF Cons.prems(1) l]
  have "ack_ranges sp rs (n1, r1) = (newly', r')" using Cons.prems(2) l by simp
  note ih = Cons.IH [OF s(1) this]
  have c: "covered (x # rs) = ?R \<union> covered rs" by (simp add: covered_def)
  have "((ps_find (rc_spaces r sp)) |` (- ?R)) |` (- covered rs) = (ps_find (rc_spaces r sp)) |` (- covered (x # rs))"
    by (auto simp: restrict_map_def fun_eq_iff c)
  moreover have "D \<inter> ?R = {} \<and> (D \<inter> - ?R) \<inter> covered rs = {} \<longleftrightarrow> D \<inter> covered (x # rs) = {}" for D
    unfolding c by blast
  ultimately show ?case using ih [unfolded s(2,4) dom_restrict] s(3,5) by auto
qed (auto simp: covered_def restrict_map_def)

text \<open>
  Loss detection drops exactly the packets below the largest acknowledged that are old enough or
  \<open>kPacketThreshold\<close> behind.
\<close>

definition is_lost :: "int \<Rightarrow> nat \<Rightarrow> nat \<Rightarrow> SentPacket \<Rightarrow> bool" where
  "is_lost lost_send_time largest q p \<longleftrightarrow> q < largest \<and> (sp_time p \<le> lost_send_time \<or> largest \<ge> q + kPacketThreshold)"

definition drop_lost :: "int \<Rightarrow> nat \<Rightarrow> nat \<Rightarrow> (nat \<rightharpoonup> SentPacket) \<Rightarrow> nat \<rightharpoonup> SentPacket" where
  "drop_lost t largest from m = (\<lambda>q. case m q of Some p \<Rightarrow> if from \<le> q \<and> is_lost t largest q p then None else Some p | None \<Rightarrow> None)"

definition lose_one :: "Space \<Rightarrow> nat \<Rightarrow> SentPacket \<Rightarrow> Recovery \<Rightarrow> Recovery" where
  "lose_one sp num p r =
     (let r = if sp_in_flight p then leave_flight sp p r else r; r = r\<lparr>rc_lost := rc_lost r @ sp_items p\<rparr> in
      upd_space sp (\<lambda>s. ps_forget s num) r)"

definition arm_loss :: "Space \<Rightarrow> int \<Rightarrow> Recovery \<Rightarrow> Recovery" where
  "arm_loss sp t = upd_space sp (\<lambda>s. if loss_time s = 0 \<or> t < loss_time s then s\<lparr>loss_time := t\<rparr> else s)"

lemma detect_loop_unfold:
  "detect_loop sp t delay largest num (span, r) =
     (if num < largest then
        case ps_find (rc_spaces r sp) num of
          None \<Rightarrow> detect_loop sp t delay largest (num + 1) (span, r)
        | Some p \<Rightarrow>
            if is_lost t largest num p then
              detect_loop sp t delay largest (num + 1)
                (if sp_in_flight p then
                   (case span of None \<Rightarrow> Some (sp_time p, sp_time p)
                    | Some (f, l) \<Rightarrow> Some (min f (sp_time p), max l (sp_time p)))
                 else span, lose_one sp num p r)
            else detect_loop sp t delay largest (num + 1) (span, arm_loss sp (sp_time p + delay) r)
      else (span, r))"
  by (subst detect_loop.simps) (auto simp: is_lost_def lose_one_def arm_loss_def Let_def split: option.splits)

lemma lose_one_inv:
  assumes "rec_inv r" "ps_find (rc_spaces r sp) num = Some p"
  shows "rec_inv (lose_one sp num p r)"
    and "ps_find (rc_spaces (lose_one sp num p r) sp) = (ps_find (rc_spaces r sp))(num := None)"
    and "x \<noteq> sp \<Longrightarrow> rc_spaces (lose_one sp num p r) x = rc_spaces r x"
proof -
  let ?r = "if sp_in_flight p then leave_flight sp p r else r"
  have "accounts (upd_space sp (\<lambda>s. ps_forget s num) (?r\<lparr>rc_lost := rc_lost ?r @ sp_items p\<rparr>))"
    using assms by (intro accounts_leave [of r sp num p]) (auto simp: rec_inv_def)
  then show "rec_inv (lose_one sp num p r)" using assms(1) by (simp add: rec_inv_def lose_one_def Let_def kept_fields)
  have ok: "space_ok (rc_spaces r sp)" using assms(1) by (auto simp: rec_inv_def accounts_def)
  have l: "space_ok (rc_spaces ?r sp)" "ps_find (rc_spaces ?r sp) = ps_find (rc_spaces r sp)" "x \<noteq> sp \<Longrightarrow> rc_spaces ?r x = rc_spaces r x" for x
    using ok by (auto simp: leave_flight_def upd_space_def flight_fields Let_def)
  from forget_ok(2) [OF l(1), of num p] assms(2) l
  show "ps_find (rc_spaces (lose_one sp num p r) sp) = (ps_find (rc_spaces r sp))(num := None)"
    "x \<noteq> sp \<Longrightarrow> rc_spaces (lose_one sp num p r) x = rc_spaces r x"
    by (simp_all add: lose_one_def Let_def upd_space_def)
qed

lemma arm_loss_inv:
  "rec_inv r \<Longrightarrow> rec_inv (arm_loss sp t r)" "ps_find (rc_spaces (arm_loss sp t r) x) = ps_find (rc_spaces r x)"
  "x \<noteq> sp \<Longrightarrow> rc_spaces (arm_loss sp t r) x = rc_spaces r x"
proof -
  assume "rec_inv r"
  moreover from this have "accounts (arm_loss sp t r)"
    unfolding arm_loss_def by (intro accounts_same) (auto simp: rec_inv_def same_flight_def flight_fields)
  ultimately show "rec_inv (arm_loss sp t r)" by (simp add: rec_inv_def arm_loss_def kept_fields)
qed (auto simp: arm_loss_def upd_space_def flight_fields)

lemma detect_loop_inv:
  assumes "rec_inv r" "detect_loop sp t delay largest num (span, r) = (span', r')"
  shows "rec_inv r' \<and> ps_find (rc_spaces r' sp) = drop_lost t largest num (ps_find (rc_spaces r sp))
    \<and> (\<forall>x. x \<noteq> sp \<longrightarrow> rc_spaces r' x = rc_spaces r x)"
  using assms
proof (induction "largest - num" arbitrary: num span r)
  case 0
  then have "drop_lost t largest num (ps_find (rc_spaces r sp)) = ps_find (rc_spaces r sp)"
    by (auto simp: drop_lost_def is_lost_def fun_eq_iff split: option.splits)
  then show ?case using 0 by (simp add: detect_loop_unfold)
next
  case (Suc k)
  let ?m = "ps_find (rc_spaces r sp)"
  have k: "k = largest - (num + 1)" and lt: "num < largest" using Suc by auto
  note ih = Suc.hyps(1) [OF k]
  note prems = Suc.prems(2) [unfolded detect_loop_unfold [of sp t delay largest num], simplified lt if_True]
  show ?case
  proof (cases "?m num")
    case None
    then have "drop_lost t largest (num + 1) ?m = drop_lost t largest num ?m"
      by (auto simp: drop_lost_def fun_eq_iff Suc_le_eq le_eq_less_or_eq split: option.splits)
    then show ?thesis using ih [OF Suc.prems(1)] prems None by simp
  next
    case (Some p)
    show ?thesis
    proof (cases "is_lost t largest num p")
      case True
      note lo = lose_one_inv [OF Suc.prems(1) Some]
      have "drop_lost t largest (num + 1) (?m(num := None)) = drop_lost t largest num ?m"
        using Some True by (auto simp: drop_lost_def fun_eq_iff Suc_le_eq le_eq_less_or_eq split: option.splits)
      then show ?thesis using ih [OF lo(1)] prems Some True lo by simp
    next
      case False
      then have "drop_lost t largest (num + 1) ?m = drop_lost t largest num ?m"
        using Some by (auto simp: drop_lost_def fun_eq_iff Suc_le_eq le_eq_less_or_eq split: option.splits)
      then show ?thesis using ih [OF arm_loss_inv(1) [OF Suc.prems(1)]] prems Some False by (simp add: arm_loss_inv)
    qed
  qed
qed

lemma rec_inv_upd:
  assumes "rec_inv r" "same_flight (rc_spaces r sp) (f (rc_spaces r sp))"
  shows "rec_inv (upd_space sp f r)"
  using assms accounts_same [of r sp f] by (simp add: rec_inv_def kept_fields)

lemma rec_inv_cong:
  "rc_spaces a = rc_spaces b \<Longrightarrow> bytes_in_flight a = bytes_in_flight b \<Longrightarrow> cwnd a = cwnd b \<Longrightarrow>
   rc_max_datagram a = rc_max_datagram b \<Longrightarrow> rec_inv a = rec_inv b"
  using accounts_cong [of a b] by (simp add: rec_inv_def)

lemma rec_inv_lost: "rec_inv r \<Longrightarrow> rec_inv (cc_on_lost a b now r)"
  using accounts_cong [of "cc_on_lost a b now r" r] window_positive(2) [of r a b now] by (simp add: rec_inv_def kept_fields)

text \<open>Loss detection leaves the estimate and the largest acknowledged number alone.\<close>

definition estimate :: "Space \<Rightarrow> Recovery \<Rightarrow> int \<times> int \<times> bool \<times> nat" where
  "estimate sp r = (latest_rtt r, smoothed_rtt r, any_acked (rc_spaces r sp), largest_acked (rc_spaces r sp))"

lemma skip_acked: "any_acked (ps_skip s) = any_acked s \<and> largest_acked (ps_skip s) = largest_acked s"
proof (induction s rule: ps_skip.induct)
  case (1 s)
  then show ?case by (subst (1 2) ps_skip.simps) simp
qed

lemma estimate_kept:
  "estimate sp (lose_one sp num p r) = estimate sp r" "estimate sp (arm_loss sp t r) = estimate sp r"
  "estimate sp (cc_on_lost a b now r) = estimate sp r"
  by (auto simp: estimate_def lose_one_def arm_loss_def cc_on_lost_def upd_space_def leave_flight_def ps_forget_def skip_acked Let_def)

lemma detect_loop_estimate: "detect_loop sp t delay largest num (span, r) = (span', r') \<Longrightarrow> estimate sp r' = estimate sp r"
proof (induction "largest - num" arbitrary: num span r)
  case 0
  then show ?case by (simp add: detect_loop_unfold)
next
  case (Suc k)
  have "k = largest - (num + 1)" "num < largest" using Suc(2) by auto
  with Suc(1) [of "num + 1"] Suc(3) show ?case
    unfolding detect_loop_unfold [of sp t delay largest num] by (auto simp: estimate_kept split: option.splits if_splits)
qed

lemma detect_lost_inv:
  fixes sp :: Space and now :: int and r :: Recovery
  assumes inv: "rec_inv r"
  defines "r' \<equiv> detect_lost sp now r" and "s \<equiv> rc_spaces r sp"
  shows "rec_inv r'"
    and "ps_find (rc_spaces r' sp) = (if any_acked s then drop_lost (now - loss_delay r) (largest_acked s) 0 (ps_find s) else ps_find s)"
    and "x \<noteq> sp \<Longrightarrow> rc_spaces r' x = rc_spaces r x"
    and "estimate sp r' = estimate sp r"
proof -
  let ?r = "upd_space sp (\<lambda>s. s\<lparr>loss_time := 0\<rparr>) r"
  have i: "rec_inv ?r" using inv by (rule rec_inv_upd) (simp add: same_flight_def flight_fields)
  have e: "estimate sp ?r = estimate sp r" "loss_delay ?r = loss_delay r" "x \<noteq> sp \<Longrightarrow> rc_spaces ?r x = rc_spaces r x" for x
    by (simp_all add: estimate_def loss_delay_def upd_space_def)
  have s: "rc_spaces ?r sp = s\<lparr>loss_time := 0\<rparr>" by (simp add: upd_space_def s_def)
  have "rec_inv r' \<and> ps_find (rc_spaces r' sp) = (if any_acked s then drop_lost (now - loss_delay r) (largest_acked s) 0 (ps_find s) else ps_find s)
     \<and> (\<forall>x. x \<noteq> sp \<longrightarrow> rc_spaces r' x = rc_spaces r x) \<and> estimate sp r' = estimate sp r"
  proof (cases "any_acked s")
    case False
    then have "r' = ?r" by (simp add: r'_def detect_lost_def s Let_def)
    then show ?thesis using i e s False by (simp add: flight_fields)
  next
    case True
    obtain span r1 where l: "detect_loop sp (now - loss_delay r) (loss_delay r) (largest_acked s) (ps_oldest s) (None, ?r) = (span, r1)"
      by fastforce
    note li = detect_loop_inv [OF i l] and le = detect_loop_estimate [OF l]
    have r': "r' = (case span of None \<Rightarrow> r1 | Some (lost_first, lost_last) \<Rightarrow> cc_on_lost lost_last lost_first now r1)"
      using True l by (auto simp: r'_def detect_lost_def s e Let_def split: option.splits)
    have "ps_oldest s \<le> q" if "ps_find s q = Some p" for q p
      using inv that find_Some(4) [of "next_pn s" s q p] by (auto simp: rec_inv_def accounts_def s_def)
    then have "drop_lost t lg (ps_oldest s) (ps_find s) = drop_lost t lg 0 (ps_find s)" for t lg
      by (auto simp: drop_lost_def fun_eq_iff split: option.splits)
    with li le e s True show ?thesis
      by (cases span) (auto simp: r' flight_fields kept_fields rec_inv_lost estimate_kept)
  qed
  then show "rec_inv r'" "x \<noteq> sp \<Longrightarrow> rc_spaces r' x = rc_spaces r x" "estimate sp r' = estimate sp r"
    "ps_find (rc_spaces r' sp) = (if any_acked s then drop_lost (now - loss_delay r) (largest_acked s) 0 (ps_find s) else ps_find s)"
    by blast+
qed

lemma timeout_inv: "rec_inv r \<Longrightarrow> rec_inv (on_timeout now r)"
  unfolding on_timeout_def
  using rec_inv_cong [of "r\<lparr>rc_probes := P, pto_count := n\<rparr>" r for P n]
  by (auto split: option.splits intro: detect_lost_inv(1))

text \<open>Dropping the keys of a space empties it and takes its bytes out of flight.\<close>

definition bytes_ok :: "Recovery \<Rightarrow> bool" where
  "bytes_ok r \<longleftrightarrow> (\<forall>sp. space_ok (rc_spaces r sp)) \<and> bytes_in_flight r = total_flight (rc_spaces r)"

definition discard_one :: "Space \<Rightarrow> nat \<Rightarrow> SentPacket \<Rightarrow> Recovery \<Rightarrow> Recovery" where
  "discard_one sp num p r = upd_space sp (\<lambda>s. ps_forget s num)
     (if sp_in_flight p then r\<lparr>bytes_in_flight := bytes_in_flight r - min (bytes_in_flight r) (sp_bytes p)\<rparr> else r)"

lemma discard_one_ok:
  assumes "bytes_ok r" "ps_find (rc_spaces r sp) num = Some p"
  shows "bytes_ok (discard_one sp num p r)"
    and "rc_spaces (discard_one sp num p r) = (rc_spaces r)(sp := ps_forget (rc_spaces r sp) num)"
    and "cwnd (discard_one sp num p r) = cwnd r" "rc_max_datagram (discard_one sp num p r) = rc_max_datagram r"
proof -
  let ?s = "rc_spaces r sp"
  have ok: "space_ok ?s" and b: "bytes_in_flight r = total_flight (rc_spaces r)" using assms by (auto simp: bytes_ok_def)
  show sp: "rc_spaces (discard_one sp num p r) = (rc_spaces r)(sp := ps_forget ?s num)"
    "cwnd (discard_one sp num p r) = cwnd r" "rc_max_datagram (discard_one sp num p r) = rc_max_datagram r"
    by (simp_all add: discard_one_def upd_space_def)
  have "bytes_in_flight (discard_one sp num p r) = bytes_in_flight r - flight_bytes p"
    by (auto simp: discard_one_def upd_space_def flight_bytes_def)
  then have "bytes_in_flight (discard_one sp num p r) = total_flight ((rc_spaces r)(sp := ps_forget ?s num))"
    using total_flight_upd [of "rc_spaces r" sp "ps_forget ?s num"] ring.weight_forget [OF ok assms(2), of flight_bytes] b by simp
  then show "bytes_ok (discard_one sp num p r)"
    using assms(1) forget_ok [OF ok assms(2)] by (auto simp: bytes_ok_def sp)
qed

lemma discard_loop_ok:
  assumes "bytes_ok r"
  shows "bytes_ok (discard_loop sp lim num r)
    \<and> ps_find (rc_spaces (discard_loop sp lim num r) sp) = (ps_find (rc_spaces r sp)) |` (- {num..<lim})
    \<and> (\<forall>x. x \<noteq> sp \<longrightarrow> rc_spaces (discard_loop sp lim num r) x = rc_spaces r x)
    \<and> ps_acks (rc_spaces (discard_loop sp lim num r) sp) = ps_acks (rc_spaces r sp)
    \<and> next_pn (rc_spaces (discard_loop sp lim num r) sp) = next_pn (rc_spaces r sp)
    \<and> cwnd (discard_loop sp lim num r) = cwnd r \<and> rc_max_datagram (discard_loop sp lim num r) = rc_max_datagram r"
  using assms
proof (induction "lim - num" arbitrary: num r)
  case 0
  then show ?case by (simp add: discard_loop.simps restrict_map_def)
next
  case (Suc k)
  let ?m = "ps_find (rc_spaces r sp)"
  have k: "k = lim - (num + 1)" and lt: "num < lim" using Suc(2) by auto
  note ih = Suc.hyps(1) [OF k]
  have ok: "space_ok (rc_spaces r sp)" using Suc.prems by (simp add: bytes_ok_def)
  show ?case
  proof (cases "?m num")
    case None
    then have m: "?m |` (- {num + 1..<lim}) = ?m |` (- {num..<lim})"
      by (auto simp: restrict_map_def fun_eq_iff Suc_le_eq le_eq_less_or_eq)
    show ?thesis using ih [OF Suc.prems] None lt m by (subst (1 2 3 4 5 6 7) discard_loop.simps) simp
  next
    case (Some p)
    note d = discard_one_ok [OF Suc.prems Some] and fg = forget_ok [OF ok Some]
    have m: "(?m(num := None)) |` (- {num + 1..<lim}) = ?m |` (- {num..<lim})"
      using lt by (auto simp: restrict_map_def fun_eq_iff Suc_le_eq le_eq_less_or_eq)
    have "discard_loop sp lim num r = discard_loop sp lim (num + 1) (discard_one sp num p r)"
      using lt Some by (subst discard_loop.simps) (simp add: discard_one_def)
    then show ?thesis using ih [OF d(1)] fg d m by simp
  qed
qed

lemma clear_empty:
  assumes "space_in l s"
  shows "ps_find (ps_clear s) = Map.empty" and "space_ok (ps_clear s)"
proof -
  show f: "ps_find (ps_clear s) = Map.empty"
    using slot_mod [OF assms] by (simp add: ps_find_def ps_clear_def ps_mask_def fun_eq_iff)
  from assms obtain k where "length (ps_ring s) = 2 ^ k" by (auto simp: space_in_def)
  then show "space_ok (ps_clear s)"
    by (intro space_inI [of _ k]) (simp_all add: f, simp_all add: ps_clear_def)
qed

lemma discard_inv:
  assumes "rec_inv r"
  shows "rec_inv (discard_space sp r)" and "ps_find (rc_spaces (discard_space sp r) sp) = Map.empty"
    and "x \<noteq> sp \<Longrightarrow> rc_spaces (discard_space sp r) x = rc_spaces r x"
proof -
  let ?s = "rc_spaces r sp"
  define r1 where "r1 = discard_loop sp (next_pn ?s) (ps_oldest ?s) r"
  define t where "t = (ps_clear (rc_spaces r1 sp))\<lparr>eliciting_in_flight := 0, loss_time := 0, discarded := True\<rparr>"
  have b: "bytes_ok r" and acc: "accounts r" using assms by (auto simp: rec_inv_def accounts_def bytes_ok_def)
  note l = discard_loop_ok [OF b, of sp "next_pn ?s" "ps_oldest ?s", folded r1_def]
  have ok: "space_ok ?s" using b by (simp add: bytes_ok_def)
  have ok1: "space_ok (rc_spaces r1 sp)" using conjunct1 [OF l] by (simp add: bytes_ok_def)
  have e: "ps_find (rc_spaces r1 sp) = Map.empty"
  proof
    fix q show "ps_find (rc_spaces r1 sp) q = None"
      using l find_Some(4,5) [OF ok, of q] by (cases "ps_find ?s q") (auto simp: restrict_map_def)
  qed
  have tf: "ps_find t = Map.empty" "space_ok t" "ps_acks t = ps_acks ?s"
    using clear_empty [OF ok1] l by (auto simp: t_def flight_fields ps_clear_def)
  have d: "rc_spaces (discard_space sp r) = (rc_spaces r1)(sp := t)" "bytes_in_flight (discard_space sp r) = bytes_in_flight r1"
    "cwnd (discard_space sp r) = cwnd r1" "rc_max_datagram (discard_space sp r) = rc_max_datagram r1"
    by (simp_all add: discard_space_def Let_def r1_def t_def upd_space_def)
  show "ps_find (rc_spaces (discard_space sp r) sp) = Map.empty" "x \<noteq> sp \<Longrightarrow> rc_spaces (discard_space sp r) x = rc_spaces r x"
    using d tf l by simp_all
  have "total_flight ((rc_spaces r1)(sp := t)) = total_flight (rc_spaces r1)"
    using total_flight_upd [of "rc_spaces r1" sp t] by (simp add: e tf)
  moreover have "eliciting_in_flight t = 0" by (simp add: t_def)
  ultimately show "rec_inv (discard_space sp r)"
    using assms l tf acc unfolding rec_inv_def accounts_def bytes_ok_def d by (auto simp: tf)
qed

text \<open>
  An ACK frame processed. The first premise is the frame's own: \<open>newly\<close> is set when it covers a packet in
  flight.
\<close>

lemma ack_received_cases:
  assumes inv: "rec_inv r" and call: "on_ack_received sp f now r = (ok, r')"
  defines "m \<equiv> ps_find (rc_spaces r sp)" and "C \<equiv> covered (f_ranges f)"
  shows "rec_inv r'" and "ok \<longleftrightarrow> unat (largest_ack f) < next_pn (rc_spaces r sp)"
    and "x \<noteq> sp \<Longrightarrow> rc_spaces r' x = rc_spaces r x"
    and "ps_find (rc_spaces r' sp) =
      (if ok \<and> dom m \<inter> C \<noteq> {} then drop_lost (now - loss_delay r') (largest_acked (rc_spaces r' sp)) 0 (m |` (- C)) else m)"
proof -
  let ?r = "r\<lparr>rc_acked := [], rc_lost := []\<rparr>"
  have i: "rec_inv ?r" using inv by (subst rec_inv_cong [of _ r]) simp_all
  have "rec_inv r' \<and> (ok \<longleftrightarrow> unat (largest_ack f) < next_pn (rc_spaces r sp)) \<and> (\<forall>x. x \<noteq> sp \<longrightarrow> rc_spaces r' x = rc_spaces r x)
    \<and> ps_find (rc_spaces r' sp) =
      (if ok \<and> dom m \<inter> C \<noteq> {} then drop_lost (now - loss_delay r') (largest_acked (rc_spaces r' sp)) 0 (m |` (- C)) else m)"
  proof (cases "unat (largest_ack f) < next_pn (rc_spaces r sp)")
    case False
    then have "\<not> ok \<and> r' = ?r" using call by (simp add: on_ack_received_def Let_def)
    then show ?thesis using i False by (simp add: m_def)
  next
    case True
    obtain newly r1 where a: "ack_ranges sp (f_ranges f) (None, ?r) = (newly, r1)" by fastforce
    have r1: "rec_inv r1" "ps_find (rc_spaces r1 sp) = m |` (- C)" "newly = None \<longleftrightarrow> dom m \<inter> C = {}"
      "x \<noteq> sp \<Longrightarrow> rc_spaces r1 x = rc_spaces r x" for x
      using ack_ranges_inv [OF i a] by (simp_all add: m_def C_def)
    show ?thesis
    proof (cases newly)
      case None
      then have "m q = None" if "q \<in> C" for q using r1(3) that by blast
      then have "m |` (- C) = m" by (auto simp: restrict_map_def fun_eq_iff)
      then show ?thesis using call True None r1 a by (auto simp: on_ack_received_def Let_def)
    next
      case (Some nw)
      obtain ln lt le where nw: "nw = (ln, lt, le)" by (cases nw)
      define r2 where "r2 = upd_space sp (\<lambda>s. if \<not> any_acked s \<or> unat (largest_ack f) > largest_acked s
                                   then s\<lparr>any_acked := True, largest_acked := unat (largest_ack f)\<rparr> else s) r1"
      define r3 where "r3 = (if ln = unat (largest_ack f) \<and> le then update_rtt (now - lt) (ack_delay_of r2 (ack_delay f)) r2 else r2)"
      define r4 where "r4 = detect_lost sp now r3"
      have r': "ok" "r' = r4\<lparr>pto_count := 0\<rparr>"
        using call True Some a by (auto simp: on_ack_received_def nw r2_def r3_def r4_def Let_def)
      have i2: "rec_inv r2" unfolding r2_def using r1(1) by (rule rec_inv_upd) (simp add: same_flight_def flight_fields)
      have "rec_inv r3" using i2 by (subst rec_inv_cong [of _ r2]) (simp_all add: r3_def kept_fields)
      note d = detect_lost_inv [OF this, where sp = sp and now = now, folded r4_def]
      have r3: "rc_spaces r3 = rc_spaces r2" by (simp add: r3_def kept_fields)
      have r2: "ps_find (rc_spaces r2 sp) = m |` (- C)" "any_acked (rc_spaces r2 sp)" "x \<noteq> sp \<Longrightarrow> rc_spaces r2 x = rc_spaces r x" for x
        using r1 by (auto simp: r2_def upd_space_def flight_fields)
      have "loss_delay r' = loss_delay r3" "largest_acked (rc_spaces r' sp) = largest_acked (rc_spaces r2 sp)"
        using d(4) r3 by (simp_all add: r' estimate_def loss_delay_def)
      moreover have "rec_inv r'" using d(1) by (subst rec_inv_cong [of _ r4]) (simp_all add: r')
      moreover have "dom m \<inter> C \<noteq> {}" using r1(3) Some by simp
      ultimately show ?thesis using True d(2,3) r2 r'(1) by (simp add: r3) (simp add: r')
    qed
  qed
  then show "rec_inv r'" "ok \<longleftrightarrow> unat (largest_ack f) < next_pn (rc_spaces r sp)" "x \<noteq> sp \<Longrightarrow> rc_spaces r' x = rc_spaces r x"
    "ps_find (rc_spaces r' sp) =
      (if ok \<and> dom m \<inter> C \<noteq> {} then drop_lost (now - loss_delay r') (largest_acked (rc_spaces r' sp)) 0 (m |` (- C)) else m)"
    by blast+
qed

text \<open>
  Everything an open connection does with its recovery state. \<open>other\<close> stands for the fields it sets
  directly (the probes it sends, the peer's parameters, the confirmed handshake, the item lists it
  drains); \<open>resize\<close> for the datagram size, from the peer's parameters or a path probe.
\<close>

inductive rec_reach :: "Recovery \<Rightarrow> bool" where
  start: "rec_reach recovery_new"
| send: "rec_reach r \<Longrightarrow> rec_reach (send_packet sp bytes eliciting flight items now r)"
| abandon: "rec_reach r \<Longrightarrow> rec_reach (abandon_packet sp r)"
| receive: "rec_reach r \<Longrightarrow> rec_reach (on_packet_received sp n eliciting now delay r)"
| ack_sent: "rec_reach r \<Longrightarrow> rec_reach (on_ack_sent sp r)"
| ack: "rec_reach r \<Longrightarrow> rec_reach (snd (on_ack_received sp f now r))"
| timeout: "rec_reach r \<Longrightarrow> rec_reach (on_timeout now r)"
| discard: "rec_reach r \<Longrightarrow> rec_reach (discard_space sp r)"
| resize: "rec_reach r \<Longrightarrow> 0 < n \<Longrightarrow> rec_reach (r\<lparr>rc_max_datagram := n\<rparr>)"
| cwnd: "rec_reach r \<Longrightarrow> rec_reach (reset_cwnd r)"
| rtt: "rec_reach r \<Longrightarrow> rec_reach (reset_rtt r)"
| other: "rec_reach r \<Longrightarrow> rc_spaces r' = rc_spaces r \<Longrightarrow> bytes_in_flight r' = bytes_in_flight r \<Longrightarrow> cwnd r' = cwnd r \<Longrightarrow>
    rc_max_datagram r' = rc_max_datagram r \<Longrightarrow> rec_reach r'"

lemma rec_reach_inv: "rec_reach r \<Longrightarrow> rec_inv r"
proof (induction rule: rec_reach.induct)
  case start
  then show ?case by (simp add: rec_inv_def accounts_recovery_new) (simp add: recovery_new_def reset_cwnd_def)
next
  case (send r sp bytes eliciting flight items now)
  have "cwnd (send_packet sp bytes eliciting flight items now r) = cwnd r"
    "rc_max_datagram (send_packet sp bytes eliciting flight items now r) = rc_max_datagram r"
    by (simp_all add: send_packet_def on_packet_sent_def upd_space_def Let_def)
  then show ?case using send accounts_send by (simp add: rec_inv_def)
next
  case (ack r sp f now)
  then show ?case using ack_received_cases(1) [of r sp f now] by (cases "on_ack_received sp f now r") auto
next
  case (cwnd r)
  then show ?case using accounts_cong [of "reset_cwnd r" r] by (auto simp: rec_inv_def reset_cwnd_def)
next
  case (resize r n)
  then show ?case using accounts_cong [of "r\<lparr>rc_max_datagram := n\<rparr>" r] by (simp add: rec_inv_def)
next
  case (rtt r)
  then show ?case by (subst rec_inv_cong [of _ r]) (simp_all add: reset_rtt_def)
next
  case (other r r')
  then show ?case by (subst rec_inv_cong [of _ r]) simp_all
qed (simp_all add: rec_inv_def accounts_abandon accounts_received accounts_ack_sent timeout_inv [unfolded rec_inv_def] discard_inv [unfolded rec_inv_def],
     simp_all add: abandon_packet_def on_packet_received_def on_ack_sent_def upd_acks_def kept_fields Let_def)

text \<open>
  C3. The sender's accounts are exact. Whatever an open connection does, in any order, \<open>bytes_in_flight\<close> is the
  sum of the sizes of the packets that are recorded and in flight over all three packet number spaces,
  so none of the clamped subtractions ever clamps; each space's count of ack-eliciting packets is that of
  its record; every recorded number was sent; and the congestion window congestion avoidance divides by
  is never zero.
\<close>

theorem recovery_accounts:
  assumes "rec_reach r"
  shows "bytes_in_flight r = (\<Sum>sp\<leftarrow>all_spaces. map_weight flight_bytes (ps_find (rc_spaces r sp)))
    \<and> eliciting_in_flight (rc_spaces r sp) = map_weight flight_eliciting (ps_find (rc_spaces r sp))
    \<and> (\<forall>q p. ps_find (rc_spaces r sp) q = Some p \<longrightarrow> sp_pn p = q \<and> q < next_pn (rc_spaces r sp))
    \<and> 0 < cwnd r"
  using rec_reach_inv [OF assms] find_Some(3,5) [of "next_pn (rc_spaces r sp)" "rc_spaces r sp"]
  by (auto simp: rec_inv_def accounts_def total_flight_def)

lemma recovery_accounts_witness:
  "bytes_in_flight (send_packet sp_initial 1200 True True [] 7 recovery_new) = 1200
   \<and> 0 < cwnd (send_packet sp_initial 1200 True True [] 7 recovery_new)"
proof -
  let ?r = "send_packet sp_initial 1200 True True [] 7 recovery_new"
  have "rec_reach ?r" by (intro rec_reach.intros)
  from recovery_accounts [OF this] have "0 < cwnd ?r" by blast
  moreover have "bytes_in_flight ?r = 1200"
    by (simp add: send_packet_def on_packet_sent_def ps_record_def ps_fill_def ps_mask_def upd_space_def recovery_new_def
        reset_cwnd_def space_new_def sent_new_def Let_def)
  ultimately show ?thesis by simp
qed

text \<open>
  C32. What an ACK frame does. A frame that acknowledges a number never sent is refused and changes no packet.
  One that covers no packet in flight changes none either. Any other removes from its space exactly the
  packets it covers and those it shows to be lost (numbered below the largest acknowledged, and sent
  at least the loss delay ago or \<open>kPacketThreshold\<close> behind it): every other packet stays, in this space
  and in the others.
\<close>

theorem on_ack_received_effect:
  assumes "rec_reach r" and "on_ack_received sp f now r = (ok, r')"
  shows "(ok \<longleftrightarrow> unat (largest_ack f) < next_pn (rc_spaces r sp))
    \<and> (x \<noteq> sp \<longrightarrow> rc_spaces r' x = rc_spaces r x)
    \<and> ps_find (rc_spaces r' sp) q =
       (if \<not> ok \<or> dom (ps_find (rc_spaces r sp)) \<inter> covered (f_ranges f) = {} then ps_find (rc_spaces r sp) q
        else if q \<in> covered (f_ranges f) then None
        else case ps_find (rc_spaces r sp) q of
            None \<Rightarrow> None
          | Some p \<Rightarrow> if q < largest_acked (rc_spaces r' sp)
                        \<and> (sp_time p \<le> now - loss_delay r' \<or> largest_acked (rc_spaces r' sp) \<ge> q + kPacketThreshold)
                      then None else Some p)"
proof -
  note c = ack_received_cases [OF rec_reach_inv [OF assms(1)] assms(2)]
  show ?thesis unfolding c(4) using c(2) c(3) [of x]
    by (auto simp: drop_lost_def is_lost_def restrict_map_def split: option.splits)
qed

lemma on_ack_received_effect_witness:
  "\<exists>r'. on_ack_received sp_initial (frame_new\<lparr>f_ranges := [(0, 1)]\<rparr>) 50 (send_packet sp_initial 1200 True True [] 7 recovery_new) = (True, r')
     \<and> ps_find (rc_spaces r' sp_initial) 0 = None"
proof -
  let ?r = "send_packet sp_initial 1200 True True [] 7 recovery_new" and ?f = "frame_new\<lparr>f_ranges := [(0, 1)]\<rparr>"
  have reach: "rec_reach ?r" by (intro rec_reach.intros)
  obtain ok r' where call: "on_ack_received sp_initial ?f 50 ?r = (ok, r')" by fastforce
  have "next_pn (rc_spaces ?r sp_initial) = 1"
    by (simp add: send_packet_def on_packet_sent_def upd_space_def recovery_new_def reset_cwnd_def space_new_def Let_def)
  moreover have "0 \<in> covered (f_ranges ?f)" "largest_ack ?f = 0" by (simp_all add: covered_def frame_new_def)
  ultimately have "ok \<and> ps_find (rc_spaces r' sp_initial) 0 = None"
    using on_ack_received_effect [OF reach call, of sp_initial 0] by (auto split: if_splits)
  then show ?thesis using call by auto
qed

end
