(* ===== verification/Transport_Params.thy ===== *)
theory Transport_Params
  imports Quic_Frames
begin

text \<open>
  The transport parameters each side declares in the handshake (\<^verbatim>\<open>src/quic/transport_params.hpp\<close>, RFC 9000
  section 18): the encoder writes ours, the decoder reads a client's. \<open>None\<close> is
  \<open>TRANSPORT_PARAMETER_ERROR\<close>; the values read until then are dropped with the connection. Theorems: what
  the decoder accepts is a sequence of parameters without duplicates, each within the bounds of
  section 18.2; and it reads back every set of parameters a client may send.
\<close>

unbundle bit_operations_syntax

record TransportParams =
  t_original_dcid :: Cid
  t_has_original_dcid :: bool
  t_max_idle_timeout :: u64
  t_stateless_reset_token :: bytes
  t_has_reset_token :: bool
  t_max_udp_payload_size :: u64
  t_initial_max_data :: u64
  t_initial_max_stream_data_bidi_local :: u64
  t_initial_max_stream_data_bidi_remote :: u64
  t_initial_max_stream_data_uni :: u64
  t_initial_max_streams_bidi :: u64
  t_initial_max_streams_uni :: u64
  t_ack_delay_exponent :: u64
  t_max_ack_delay :: u64
  t_disable_active_migration :: bool
  t_active_connection_id_limit :: u64
  t_initial_scid :: Cid
  t_has_initial_scid :: bool
  t_retry_scid :: Cid
  t_has_retry_scid :: bool

definition tp_new :: TransportParams where
  "tp_new = \<lparr>t_original_dcid = cid_new, t_has_original_dcid = False, t_max_idle_timeout = 0,
     t_stateless_reset_token = replicate 16 0, t_has_reset_token = False, t_max_udp_payload_size = 65527,
     t_initial_max_data = 0, t_initial_max_stream_data_bidi_local = 0, t_initial_max_stream_data_bidi_remote = 0,
     t_initial_max_stream_data_uni = 0, t_initial_max_streams_bidi = 0, t_initial_max_streams_uni = 0,
     t_ack_delay_exponent = 3, t_max_ack_delay = 25, t_disable_active_migration = False, t_active_connection_id_limit = 2,
     t_initial_scid = cid_new, t_has_initial_scid = False, t_retry_scid = cid_new, t_has_retry_scid = False\<rparr>"

definition tp_original_dcid :: u64 where "tp_original_dcid = 0x0"
definition tp_max_idle_timeout :: u64 where "tp_max_idle_timeout = 0x1"
definition tp_stateless_reset_token :: u64 where "tp_stateless_reset_token = 0x2"
definition tp_max_udp_payload_size :: u64 where "tp_max_udp_payload_size = 0x3"
definition tp_initial_max_data :: u64 where "tp_initial_max_data = 0x4"
definition tp_initial_max_stream_data_bidi_local :: u64 where "tp_initial_max_stream_data_bidi_local = 0x5"
definition tp_initial_max_stream_data_bidi_remote :: u64 where "tp_initial_max_stream_data_bidi_remote = 0x6"
definition tp_initial_max_stream_data_uni :: u64 where "tp_initial_max_stream_data_uni = 0x7"
definition tp_initial_max_streams_bidi :: u64 where "tp_initial_max_streams_bidi = 0x8"
definition tp_initial_max_streams_uni :: u64 where "tp_initial_max_streams_uni = 0x9"
definition tp_ack_delay_exponent :: u64 where "tp_ack_delay_exponent = 0xa"
definition tp_max_ack_delay :: u64 where "tp_max_ack_delay = 0xb"
definition tp_disable_active_migration :: u64 where "tp_disable_active_migration = 0xc"
definition tp_preferred_address :: u64 where "tp_preferred_address = 0xd"
definition tp_active_connection_id_limit :: u64 where "tp_active_connection_id_limit = 0xe"
definition tp_initial_scid :: u64 where "tp_initial_scid = 0xf"
definition tp_retry_scid :: u64 where "tp_retry_scid = 0x10"

lemmas tp_ids =
    tp_original_dcid_def tp_max_idle_timeout_def tp_stateless_reset_token_def tp_max_udp_payload_size_def
  tp_initial_max_data_def tp_initial_max_stream_data_bidi_local_def tp_initial_max_stream_data_bidi_remote_def
  tp_initial_max_stream_data_uni_def tp_initial_max_streams_bidi_def tp_initial_max_streams_uni_def
  tp_ack_delay_exponent_def tp_max_ack_delay_def tp_disable_active_migration_def tp_preferred_address_def
  tp_active_connection_id_limit_def tp_initial_scid_def tp_retry_scid_def

definition append_param :: "bytes \<Rightarrow> u64 \<Rightarrow> u64 \<Rightarrow> bytes" where
  "append_param out i v = append_varint (append_varint (append_varint out i) (of_nat (varint_size v))) v"

definition append_param_bytes :: "bytes \<Rightarrow> u64 \<Rightarrow> bytes \<Rightarrow> bytes" where
  "append_param_bytes out i p = append_varint (append_varint out i) (of_nat (length p)) @ p"

definition encode_transport_params :: "TransportParams \<Rightarrow> bytes" where
  "encode_transport_params t =
     (let out = [];
          out = if t_has_original_dcid t then append_param_bytes out tp_original_dcid (cid_view (t_original_dcid t)) else out;
          out = if t_max_idle_timeout t \<noteq> 0 then append_param out tp_max_idle_timeout (t_max_idle_timeout t) else out;
          out = if t_has_reset_token t then append_param_bytes out tp_stateless_reset_token (take 16 (t_stateless_reset_token t)) else out;
          out = append_param out tp_max_udp_payload_size (t_max_udp_payload_size t);
          out = append_param out tp_initial_max_data (t_initial_max_data t);
          out = append_param out tp_initial_max_stream_data_bidi_local (t_initial_max_stream_data_bidi_local t);
          out = append_param out tp_initial_max_stream_data_bidi_remote (t_initial_max_stream_data_bidi_remote t);
          out = append_param out tp_initial_max_stream_data_uni (t_initial_max_stream_data_uni t);
          out = append_param out tp_initial_max_streams_bidi (t_initial_max_streams_bidi t);
          out = append_param out tp_initial_max_streams_uni (t_initial_max_streams_uni t);
          out = if t_ack_delay_exponent t \<noteq> 3 then append_param out tp_ack_delay_exponent (t_ack_delay_exponent t) else out;
          out = if t_max_ack_delay t \<noteq> 25 then append_param out tp_max_ack_delay (t_max_ack_delay t) else out;
          out = if t_disable_active_migration t then append_varint (append_varint out tp_disable_active_migration) 0 else out;
          out = append_param out tp_active_connection_id_limit (t_active_connection_id_limit t);
          out = if t_has_initial_scid t then append_param_bytes out tp_initial_scid (cid_view (t_initial_scid t)) else out;
          out = if t_has_retry_scid t then append_param_bytes out tp_retry_scid (cid_view (t_retry_scid t)) else out in
      out)"

text \<open>The lambda \<open>integer\<close>, and the switch on the identifier with the parameter's bytes.\<close>

definition tp_integer :: "bytes \<Rightarrow> u64 option" where
  "tp_integer v = (case read_varint v of Some (x, []) \<Rightarrow> Some x | _ \<Rightarrow> None)"

definition tp_switch :: "u64 \<Rightarrow> bytes \<Rightarrow> TransportParams \<Rightarrow> TransportParams option" where
  "tp_switch i v t =
     (if i = tp_original_dcid \<or> i = tp_stateless_reset_token \<or> i = tp_preferred_address \<or> i = tp_retry_scid then None
      else if i = tp_max_idle_timeout then do { x \<leftarrow> tp_integer v; Some (t\<lparr>t_max_idle_timeout := x\<rparr>) }
      else if i = tp_max_udp_payload_size then
        do { x \<leftarrow> tp_integer v; if x < 1200 then None else Some (t\<lparr>t_max_udp_payload_size := x\<rparr>) }
      else if i = tp_initial_max_data then do { x \<leftarrow> tp_integer v; Some (t\<lparr>t_initial_max_data := x\<rparr>) }
      else if i = tp_initial_max_stream_data_bidi_local then
        do { x \<leftarrow> tp_integer v; Some (t\<lparr>t_initial_max_stream_data_bidi_local := x\<rparr>) }
      else if i = tp_initial_max_stream_data_bidi_remote then
        do { x \<leftarrow> tp_integer v; Some (t\<lparr>t_initial_max_stream_data_bidi_remote := x\<rparr>) }
      else if i = tp_initial_max_stream_data_uni then
        do { x \<leftarrow> tp_integer v; Some (t\<lparr>t_initial_max_stream_data_uni := x\<rparr>) }
      else if i = tp_initial_max_streams_bidi then
        do { x \<leftarrow> tp_integer v; if x > push_bit 60 1 then None else Some (t\<lparr>t_initial_max_streams_bidi := x\<rparr>) }
      else if i = tp_initial_max_streams_uni then
        do { x \<leftarrow> tp_integer v; if x > push_bit 60 1 then None else Some (t\<lparr>t_initial_max_streams_uni := x\<rparr>) }
      else if i = tp_ack_delay_exponent then
        do { x \<leftarrow> tp_integer v; if x > 20 then None else Some (t\<lparr>t_ack_delay_exponent := x\<rparr>) }
      else if i = tp_max_ack_delay then
        do { x \<leftarrow> tp_integer v; if x \<ge> push_bit 14 1 then None else Some (t\<lparr>t_max_ack_delay := x\<rparr>) }
      else if i = tp_disable_active_migration then
        (if length v \<noteq> 0 then None else Some (t\<lparr>t_disable_active_migration := True\<rparr>))
      else if i = tp_active_connection_id_limit then
        do { x \<leftarrow> tp_integer v; if x < 2 then None else Some (t\<lparr>t_active_connection_id_limit := x\<rparr>) }
      else if i = tp_initial_scid then
        (if length v > kMaxCidLen then None
         else Some (t\<lparr>t_initial_scid := cid_assign (t_initial_scid t) v (length v), t_has_initial_scid := True\<rparr>))
      else Some t)"

text \<open>One turn of the loop up to the switch: the identifier, the parameter's bytes, and what follows.\<close>

definition tp_read :: "bytes \<Rightarrow> (u64 \<times> bytes \<times> bytes) option" where
  "tp_read p =
     do { (i, p) \<leftarrow> read_varint p;
          (len, p) \<leftarrow> read_varint p;
          if unat len > length p then None else Some (i, take (unat len) p, drop (unat len) p) }"

lemma tp_read_shorter: "tp_read p = Some (i, v, r) \<Longrightarrow> length r < length p"
  unfolding tp_read_def by (elim read_elims) (auto split: if_splits dest!: read_varint_shorter)

function decode_loop :: "bytes \<Rightarrow> u64 \<Rightarrow> TransportParams \<Rightarrow> TransportParams option" where
  "decode_loop p seen t =
     (if p = [] then Some t
      else case tp_read p of
        None \<Rightarrow> None
      | Some (i, v, p) \<Rightarrow>
          if i < 64 \<and> seen AND push_bit (unat i) 1 \<noteq> 0 then None
          else let seen = if i < 64 then seen OR push_bit (unat i) 1 else seen in
            (case tp_switch i v t of None \<Rightarrow> None | Some t \<Rightarrow> decode_loop p seen t))"
  by pat_completeness auto
termination by (relation "measure (\<lambda>(p, seen, t). length p)") (auto dest: tp_read_shorter)

declare decode_loop.simps [simp del]

definition decode_transport_params :: "bytes \<Rightarrow> TransportParams \<Rightarrow> TransportParams option" where
  "decode_transport_params p t = decode_loop p 0 t"


subsection \<open>The parameters as a list\<close>

text \<open>
  What a block of parameters says, apart from how it is checked: its identifiers and byte strings in
  order. Decoding is then splitting, the check for duplicates, and the switch on each.
\<close>

function read_params :: "bytes \<Rightarrow> (u64 \<times> bytes) list option" where
  "read_params p =
     (if p = [] then Some []
      else case tp_read p of
        None \<Rightarrow> None
      | Some (i, v, p) \<Rightarrow> do { ps \<leftarrow> read_params p; Some ((i, v) # ps) })"
  by pat_completeness auto
termination by (relation "measure length") (auto dest: tp_read_shorter)

declare read_params.simps [simp del]

fun apply_params :: "(u64 \<times> bytes) list \<Rightarrow> TransportParams \<Rightarrow> TransportParams option" where
  "apply_params [] t = Some t"
| "apply_params ((i, v) # ps) t = do { t \<leftarrow> tp_switch i v t; apply_params ps t }"

definition known_ids :: "(u64 \<times> bytes) list \<Rightarrow> u64 list" where
  "known_ids ps = filter (\<lambda>i. i < 64) (map fst ps)"

text \<open>The mask \<open>seen\<close> is the set of the identifiers below 64 met so far.\<close>

definition seen_ids :: "u64 \<Rightarrow> u64 set" where
  "seen_ids seen = {i. i < 64 \<and> bit seen (unat i)}"

lemma seen_ids_step:
  assumes "i < 64"
  shows "seen AND push_bit (unat i) 1 \<noteq> 0 \<longleftrightarrow> i \<in> seen_ids seen"
    and "seen_ids (seen OR push_bit (unat i) 1) = insert i (seen_ids seen)"
proof -
  have "unat i < 64" using assms by (simp add: word_less_nat_alt)
  then show "seen_ids (seen OR push_bit (unat i) 1) = insert i (seen_ids seen)"
    using assms by (auto simp: seen_ids_def bit_simps word_unat_eq_iff)
  show "seen AND push_bit (unat i) 1 \<noteq> 0 \<longleftrightarrow> i \<in> seen_ids seen"
    using assms by (simp add: seen_ids_def bit_iff_and_push_bit_not_eq_0)
qed

lemma seen_ids_0 [simp]: "seen_ids 0 = {}"
  by (simp add: seen_ids_def)

lemma decode_loop_params:
  "decode_loop p seen t =
     (case read_params p of
        None \<Rightarrow> None
      | Some ps \<Rightarrow> if distinct (known_ids ps) \<and> set (known_ids ps) \<inter> seen_ids seen = {} then apply_params ps t else None)"
proof (induction p seen t rule: decode_loop.induct)
  case (1 p seen t)
  show ?case
  proof (cases "p = [] \<or> tp_read p = None")
    case True
    then show ?thesis
      by (auto simp: decode_loop.simps [of p] read_params.simps [of p] known_ids_def)
  next
    case False
    then obtain i v r where r: "p \<noteq> []" "tp_read p = Some (i, v, r)" by (cases "tp_read p") auto
    let ?dup = "i < 64 \<and> i \<in> seen_ids seen" and ?seen = "if i < 64 then seen OR push_bit (unat i) 1 else seen"
    have dup: "i < 64 \<and> seen AND push_bit (unat i) 1 \<noteq> 0 \<longleftrightarrow> ?dup" using seen_ids_step(1) by blast
    have ids: "seen_ids ?seen = (if i < 64 then insert i (seen_ids seen) else seen_ids seen)" using seen_ids_step(2) [of i seen] by presburger
    have d: "decode_loop p seen t = (if ?dup then None else case tp_switch i v t of None \<Rightarrow> None | Some t \<Rightarrow> decode_loop r ?seen t)"
      using r dup by (subst decode_loop.simps) (simp add: Let_def)
    have p: "read_params p = do { ps \<leftarrow> read_params r; Some ((i, v) # ps) }" using r by (subst read_params.simps) simp
    show ?thesis
    proof (cases "?dup \<or> tp_switch i v t = None")
      case True
      then show ?thesis by (cases "read_params r") (auto simp: d p known_ids_def split: option.splits)
    next
      case False
      then obtain t' where t': "tp_switch i v t = Some t'" "\<not> ?dup" by auto
      have "decode_loop r ?seen t' =
          (case read_params r of
             None \<Rightarrow> None
           | Some ps \<Rightarrow> if distinct (known_ids ps) \<and> set (known_ids ps) \<inter> seen_ids ?seen = {} then apply_params ps t' else None)"
        by (rule 1) (use r dup t' in \<open>auto\<close>)
      then show ?thesis
        using t' by (cases "read_params r") (auto simp: d p ids known_ids_def)
    qed
  qed
qed

text \<open>The bounds of section 18.2, on what the connection then uses.\<close>

definition tp_ok :: "TransportParams \<Rightarrow> bool" where
  "tp_ok t \<longleftrightarrow> 1200 \<le> t_max_udp_payload_size t \<and> t_initial_max_streams_bidi t \<le> 2 ^ 60 \<and> t_initial_max_streams_uni t \<le> 2 ^ 60
     \<and> t_ack_delay_exponent t \<le> 20 \<and> t_max_ack_delay t < 2 ^ 14 \<and> 2 \<le> t_active_connection_id_limit t
     \<and> cid_ok (t_initial_scid t)
     \<and> \<not> t_has_original_dcid t \<and> \<not> t_has_reset_token t \<and> \<not> t_has_retry_scid t"







subsection \<open>Reading back what a client writes\<close>

definition param_bytes :: "u64 \<times> bytes \<Rightarrow> bytes" where
  "param_bytes x = write_varint (fst x) @ write_varint (of_nat (length (snd x))) @ snd x"

definition param_fits :: "u64 \<times> bytes \<Rightarrow> bool" where
  "param_fits x \<longleftrightarrow> fst x \<le> kVarintMax \<and> length (snd x) < 2 ^ 62"

lemma read_param:
  assumes "param_fits x"
  shows "tp_read (param_bytes x @ rest) = Some (fst x, snd x, rest)"
proof -
  have u: "unat (of_nat (length (snd x)) :: u64) = length (snd x)" using assms by (simp add: param_fits_def unat_of_nat)
  then have "(of_nat (length (snd x)) :: u64) \<le> kVarintMax"
    using assms by (simp add: kVarintMax_less word_less_nat_alt param_fits_def)
  then show ?thesis using assms u by (simp add: tp_read_def param_bytes_def param_fits_def read_write_varint)
qed

lemma param_bytes_nonempty: "param_bytes x @ rest \<noteq> []"
proof -
  have "length (write_varint (fst x)) \<noteq> 0" using varint_size_bounds(1) [of "fst x"] by simp
  then have "write_varint (fst x) \<noteq> []" by blast
  then show ?thesis by (simp add: param_bytes_def)
qed

lemma read_params_bytes: "list_all param_fits ps \<Longrightarrow> read_params (concat (map param_bytes ps)) = Some ps"
proof (induction ps)
  case (Cons x ps)
  then have fits: "param_fits x" and ih: "read_params (concat (map param_bytes ps)) = Some ps" by simp_all
  have "concat (map param_bytes (x # ps)) = param_bytes x @ concat (map param_bytes ps)" by simp
  then show ?case
    by (simp only: read_params.simps [of "param_bytes x @ y" for y] param_bytes_nonempty read_param [OF fits]) (simp add: ih)
qed (simp add: read_params.simps)

text \<open>The parameters a client's set stands for, in the order the encoder writes them.\<close>

definition int_param :: "u64 \<Rightarrow> u64 \<Rightarrow> (u64 \<times> bytes) list" where
  "int_param i v = [(i, write_varint v)]"

definition client_list :: "TransportParams \<Rightarrow> (u64 \<times> bytes) list" where
  "client_list t =
     (if t_max_idle_timeout t \<noteq> 0 then int_param tp_max_idle_timeout (t_max_idle_timeout t) else [])
     @ int_param tp_max_udp_payload_size (t_max_udp_payload_size t)
     @ int_param tp_initial_max_data (t_initial_max_data t)
     @ int_param tp_initial_max_stream_data_bidi_local (t_initial_max_stream_data_bidi_local t)
     @ int_param tp_initial_max_stream_data_bidi_remote (t_initial_max_stream_data_bidi_remote t)
     @ int_param tp_initial_max_stream_data_uni (t_initial_max_stream_data_uni t)
     @ int_param tp_initial_max_streams_bidi (t_initial_max_streams_bidi t)
     @ int_param tp_initial_max_streams_uni (t_initial_max_streams_uni t)
     @ (if t_ack_delay_exponent t \<noteq> 3 then int_param tp_ack_delay_exponent (t_ack_delay_exponent t) else [])
     @ (if t_max_ack_delay t \<noteq> 25 then int_param tp_max_ack_delay (t_max_ack_delay t) else [])
     @ (if t_disable_active_migration t then [(tp_disable_active_migration, [])] else [])
     @ int_param tp_active_connection_id_limit (t_active_connection_id_limit t)
     @ (if t_has_initial_scid t then [(tp_initial_scid, cid_view (t_initial_scid t))] else [])"

definition client_set :: "TransportParams \<Rightarrow> bool" where
  "client_set t \<longleftrightarrow> tp_ok t
     \<and> t_original_dcid t = cid_new \<and> t_stateless_reset_token t = replicate 16 0 \<and> t_retry_scid t = cid_new
     \<and> (if t_has_initial_scid t then t_initial_scid t = cid_assign cid_new (cid_view (t_initial_scid t)) (length (cid_view (t_initial_scid t)))
        else t_initial_scid t = cid_new)
     \<and> t_max_idle_timeout t \<le> kVarintMax \<and> t_max_udp_payload_size t \<le> kVarintMax \<and> t_initial_max_data t \<le> kVarintMax
     \<and> t_initial_max_stream_data_bidi_local t \<le> kVarintMax \<and> t_initial_max_stream_data_bidi_remote t \<le> kVarintMax
     \<and> t_initial_max_stream_data_uni t \<le> kVarintMax \<and> t_active_connection_id_limit t \<le> kVarintMax"

lemma param_pieces:
  "append_param out i v = out @ concat (map param_bytes (int_param i v))"
  "append_param_bytes out i p = out @ concat (map param_bytes [(i, p)])"
  "append_varint (append_varint out i) 0 = out @ concat (map param_bytes [(i, [])])"
  by (simp_all add: append_param_def append_param_bytes_def append_varint_def param_bytes_def int_param_def)

lemma encode_list: "client_set t \<Longrightarrow> encode_transport_params t = concat (map param_bytes (client_list t))"
  unfolding encode_transport_params_def client_list_def Let_def param_pieces
  by (simp add: client_set_def tp_ok_def)

lemma write_varint_integer: "v \<le> kVarintMax \<Longrightarrow> tp_integer (write_varint v) = Some v"
  using read_write_varint [of v "[]"] by (simp add: tp_integer_def)

lemma apply_params_append: "apply_params (xs @ ys) t = do { t \<leftarrow> apply_params xs t; apply_params ys t }"
  by (induction xs t rule: apply_params.induct) (auto split: Option.bind_splits)

lemma client_ids: "distinct (map fst (client_list t))" "list_all (\<lambda>i. i < 64) (map fst (client_list t))"
  by (simp_all add: client_list_def int_param_def tp_ids split: if_split)

lemma client_fits: "client_set t \<Longrightarrow> list_all param_fits (client_list t)"
proof -
  assume "client_set t"
  then have "length (cid_view (t_initial_scid t)) \<le> 20" by (auto simp: client_set_def tp_ok_def cid_ok_def cid_view_def kMaxCidLen_def)
  moreover have "varint_size v < 2 ^ 62" for v using varint_size_bounds(2) [of v] by simp
  moreover have "i \<le> kVarintMax" if "i < 64" for i :: u64 using that by (simp add: kVarintMax_less word_less_nat_alt)
  ultimately show ?thesis by (simp add: client_list_def int_param_def param_fits_def tp_ids)
qed

lemma known_client_ids: "known_ids (client_list t) = map fst (client_list t)"
  using client_ids(2) by (simp add: known_ids_def list_all_iff)

lemma apply_int_param: "apply_params (int_param i v) t = tp_switch i (write_varint v) t"
  by (cases "tp_switch i (write_varint v) t") (simp_all add: int_param_def)

text \<open>Each piece sets its field; one that is left out is at its default.\<close>

lemma apply_pieces:
  "v \<le> kVarintMax \<Longrightarrow> t_max_idle_timeout u = 0 \<Longrightarrow>
     apply_params (if v \<noteq> 0 then int_param tp_max_idle_timeout v else []) u = Some (u\<lparr>t_max_idle_timeout := v\<rparr>)"
  "v \<le> kVarintMax \<Longrightarrow> 1200 \<le> v \<Longrightarrow> apply_params (int_param tp_max_udp_payload_size v) u = Some (u\<lparr>t_max_udp_payload_size := v\<rparr>)"
  "v \<le> kVarintMax \<Longrightarrow> apply_params (int_param tp_initial_max_data v) u = Some (u\<lparr>t_initial_max_data := v\<rparr>)"
  "v \<le> kVarintMax \<Longrightarrow> apply_params (int_param tp_initial_max_stream_data_bidi_local v) u = Some (u\<lparr>t_initial_max_stream_data_bidi_local := v\<rparr>)"
  "v \<le> kVarintMax \<Longrightarrow> apply_params (int_param tp_initial_max_stream_data_bidi_remote v) u = Some (u\<lparr>t_initial_max_stream_data_bidi_remote := v\<rparr>)"
  "v \<le> kVarintMax \<Longrightarrow> apply_params (int_param tp_initial_max_stream_data_uni v) u = Some (u\<lparr>t_initial_max_stream_data_uni := v\<rparr>)"
  "v \<le> 2 ^ 60 \<Longrightarrow> apply_params (int_param tp_initial_max_streams_bidi v) u = Some (u\<lparr>t_initial_max_streams_bidi := v\<rparr>)"
  "v \<le> 2 ^ 60 \<Longrightarrow> apply_params (int_param tp_initial_max_streams_uni v) u = Some (u\<lparr>t_initial_max_streams_uni := v\<rparr>)"
  "v \<le> 20 \<Longrightarrow> t_ack_delay_exponent u = 3 \<Longrightarrow>
     apply_params (if v \<noteq> 3 then int_param tp_ack_delay_exponent v else []) u = Some (u\<lparr>t_ack_delay_exponent := v\<rparr>)"
  "v < 2 ^ 14 \<Longrightarrow> t_max_ack_delay u = 25 \<Longrightarrow>
     apply_params (if v \<noteq> 25 then int_param tp_max_ack_delay v else []) u = Some (u\<lparr>t_max_ack_delay := v\<rparr>)"
  "\<not> t_disable_active_migration u \<Longrightarrow>
     apply_params (if b then [(tp_disable_active_migration, [])] else []) u = Some (u\<lparr>t_disable_active_migration := b\<rparr>)"
  "v \<le> kVarintMax \<Longrightarrow> 2 \<le> v \<Longrightarrow> apply_params (int_param tp_active_connection_id_limit v) u = Some (u\<lparr>t_active_connection_id_limit := v\<rparr>)"
proof -
  have m: "v \<le> kVarintMax" if "v \<le> 2 ^ 60" for v :: u64 using that unfolding kVarintMax_less by (rule le_less_trans) simp
  have n: "v \<le> 2 ^ 60" if "v \<le> 20 \<or> v < 2 ^ 14" for v :: u64 using that by (auto simp: word_less_nat_alt word_le_nat_alt)
  note apply_int_param [simp] write_varint_integer [simp] tp_switch_def [simp] tp_ids [simp]
  show "v \<le> 2 ^ 60 \<Longrightarrow> apply_params (int_param tp_initial_max_streams_bidi v) u = Some (u\<lparr>t_initial_max_streams_bidi := v\<rparr>)"
    "v \<le> 2 ^ 60 \<Longrightarrow> apply_params (int_param tp_initial_max_streams_uni v) u = Some (u\<lparr>t_initial_max_streams_uni := v\<rparr>)"
    using m [of v] by (simp_all add: push_bit_eq_mult not_less)
  show "v \<le> 20 \<Longrightarrow> t_ack_delay_exponent u = 3 \<Longrightarrow>
     apply_params (if v \<noteq> 3 then int_param tp_ack_delay_exponent v else []) u = Some (u\<lparr>t_ack_delay_exponent := v\<rparr>)"
    using m [OF n, of v] by (auto simp: not_less)
  show "v < 2 ^ 14 \<Longrightarrow> t_max_ack_delay u = 25 \<Longrightarrow>
     apply_params (if v \<noteq> 25 then int_param tp_max_ack_delay v else []) u = Some (u\<lparr>t_max_ack_delay := v\<rparr>)"
    using m [OF n, of v] by (auto simp: push_bit_eq_mult not_le)
qed (auto simp: apply_int_param write_varint_integer tp_switch_def tp_ids not_less)

lemma apply_scid:
  assumes "if h then c = cid_assign cid_new (cid_view c) (length (cid_view c)) else c = cid_new"
    and "length (cid_view c) \<le> kMaxCidLen" and "t_initial_scid u = cid_new" "\<not> t_has_initial_scid u"
  shows "apply_params (if h then [(tp_initial_scid, cid_view c)] else []) u = Some (u\<lparr>t_initial_scid := c, t_has_initial_scid := h\<rparr>)"
  using assms by (auto simp: tp_switch_def tp_ids split: if_splits)

text \<open>
  C34. A client's parameters arrive as they were meant. Whatever set of parameters a client may declare (within the
  bounds of section 18.2, without the server-only ones), the decoder started on the defaults reads the
  encoder's bytes back as exactly that set: the parameters left out are the ones at their default.
\<close>

theorem transport_params_roundtrip:
  assumes "client_set t"
  shows "decode_transport_params (encode_transport_params t) tp_new = Some t"
proof -
  note c = assms [unfolded client_set_def tp_ok_def]
  have l: "length (cid_view (t_initial_scid t)) \<le> kMaxCidLen" using c by (auto simp: cid_ok_def cid_view_def)
  have "apply_params (client_list t) tp_new = Some t"
    unfolding client_list_def apply_params_append using c l
    by (simp add: apply_pieces apply_scid tp_new_def)
  then show ?thesis
    using read_params_bytes [OF client_fits [OF assms]] client_ids(1)
    by (simp add: decode_transport_params_def decode_loop_params encode_list [OF assms] known_client_ids)
qed

lemma transport_params_roundtrip_witness:
  "decode_transport_params (encode_transport_params (tp_new\<lparr>t_max_idle_timeout := 30000, t_max_ack_delay := 10\<rparr>)) tp_new
   = Some (tp_new\<lparr>t_max_idle_timeout := 30000, t_max_ack_delay := 10\<rparr>)"
proof (rule transport_params_roundtrip)
  show "client_set (tp_new\<lparr>t_max_idle_timeout := 30000, t_max_ack_delay := 10\<rparr>)"
    by (simp add: client_set_def tp_ok_def tp_new_def cid_ok_def cid_new_def kVarintMax_less)
qed

end
