(* ===== verification/Quic_Stream.thy ===== *)
theory Quic_Stream
  imports Quic_Frames
begin

text \<open>
  What arrives on a QUIC stream (\<^verbatim>\<open>src/quic/stream.hpp\<close> and the handlers of \<^verbatim>\<open>src/quic/connection.hpp\<close> that write
  it): the receive buffer with the ranges that arrived, the windows, and the table of the streams a
  client may open, with the bitmap of those already closed. A stream object is the record
  \<open>QuicStream\<close>, which has the fields of the receiving side; the connection's own fields are
  \<open>StreamConn\<close>, and the application's table of streams is the set of the ids it knows. A failure closes the
  connection, so what a handler changed before it is not kept. Theorems: the application reads exactly
  the bytes the client sent, in order, whatever the order the frames come in; and a closed stream is
  never opened again.
\<close>

unbundle bit_operations_syntax

definition kNoSize :: u64 where
  "kNoSize = NOT 0"

definition stream_is_bidi :: "u64 \<Rightarrow> bool" where
  "stream_is_bidi i \<longleftrightarrow> i AND 2 = 0"

definition stream_is_client :: "u64 \<Rightarrow> bool" where
  "stream_is_client i \<longleftrightarrow> i AND 1 = 0"

record QuicStream =
  qs_id :: u64
  qs_open :: bool
  rbuf :: bytes
  roff :: u64
  rpos :: nat
  rranges :: range_set
  qs_highest :: u64
  final_size :: u64
  fin_seen :: bool
  fin_delivered :: bool
  max_recv :: u64
  qs_window :: u64
  credit_due :: bool
  reset_received :: bool
  reset_code :: u64

definition reset_quic :: QuicStream where
  "reset_quic = \<lparr>qs_id = 0, qs_open = False, rbuf = [], roff = 0, rpos = 0, rranges = [], qs_highest = 0, final_size = kNoSize,
     fin_seen = False, fin_delivered = False, max_recv = 0, qs_window = 0, credit_due = False, reset_received = False, reset_code = 0\<rparr>"

definition qs_consumed :: "QuicStream \<Rightarrow> u64" where
  "qs_consumed s = roff s + of_nat (rpos s)"

definition qs_available :: "QuicStream \<Rightarrow> nat" where
  "qs_available s = (let c = qs_consumed s in unat (contiguous_from (rranges s) c - c))"

definition qs_data :: "QuicStream \<Rightarrow> bytes" where
  "qs_data s = drop (rpos s) (rbuf s)"

definition at_end :: "QuicStream \<Rightarrow> bool" where
  "at_end s \<longleftrightarrow> fin_seen s \<and> qs_consumed s = final_size s"

definition qs_consume :: "QuicStream \<Rightarrow> nat \<Rightarrow> QuicStream" where
  "qs_consume s n =
     (let s = s\<lparr>rpos := rpos s + n\<rparr> in
      if rpos s = length (rbuf s) then s\<lparr>roff := roff s + of_nat (rpos s), rbuf := [], rpos := 0\<rparr> else s)"

record StreamConn =
  our_max_data :: u64
  data_received :: u64
  data_consumed :: u64
  max_data_due :: bool
  lim_max_data :: u64
  credit_list :: "u64 list"

definition grant :: "QuicStream \<Rightarrow> u64 \<Rightarrow> StreamConn \<Rightarrow> QuicStream \<times> StreamConn" where
  "grant s limit c =
     (let s = s\<lparr>max_recv := limit\<rparr> in
      if \<not> credit_due s then (s\<lparr>credit_due := True\<rparr>, c\<lparr>credit_list := credit_list c @ [qs_id s]\<rparr>) else (s, c))"

definition stream_consumed :: "QuicStream \<Rightarrow> nat \<Rightarrow> StreamConn \<Rightarrow> QuicStream \<times> StreamConn" where
  "stream_consumed s n c =
     (let s = qs_consume s n;
          c = c\<lparr>data_consumed := data_consumed c + of_nat n\<rparr>;
          c = if data_consumed c + lim_max_data c - our_max_data c \<ge> lim_max_data c div 4
              then c\<lparr>our_max_data := data_consumed c + lim_max_data c, max_data_due := True\<rparr> else c in
      if \<not> fin_seen s \<and> qs_consumed s + qs_window s - max_recv s \<ge> qs_window s div 4
      then grant s (qs_consumed s + qs_window s) c else (s, c))"

definition stream_window :: "QuicStream \<Rightarrow> u64 \<Rightarrow> StreamConn \<Rightarrow> QuicStream \<times> StreamConn" where
  "stream_window s w c =
     (let s = s\<lparr>qs_window := w\<rparr> in
      if qs_consumed s + w > max_recv s then grant s (qs_consumed s + w) c else (s, c))"

text \<open>The failures that close the connection.\<close>

datatype StreamError = se_flow_control | se_final_size | se_stream_state | se_stream_limit | se_internal

text \<open>The bytes of a frame go into the buffer at their offset, those already consumed left out.\<close>

definition store_bytes :: "QuicStream \<Rightarrow> u64 \<Rightarrow> bytes \<Rightarrow> QuicStream" where
  "store_bytes s offs src =
     (let ende = offs + of_nat (length src); c = qs_consumed s in
      if ende > c then
        let src = if offs < c then drop (unat (c - offs)) src else src;
            frm = if offs < c then c else offs;
            rel = unat (frm - roff s);
            buf = if length (rbuf s) < rel + length src then rbuf s @ replicate (rel + length src - length (rbuf s)) 0 else rbuf s in
        s\<lparr>rbuf := overwrite buf rel src, rranges := rs_add (rranges s) frm (frm + of_nat (length src))\<rparr>
      else s)"

text \<open>\<open>on_stream_frame\<close>, the stream already found; the flag is whether the application is told to read.\<close>

definition on_stream_frame :: "Frame \<Rightarrow> QuicStream \<Rightarrow> StreamConn \<Rightarrow> StreamError + bool \<times> QuicStream \<times> StreamConn" where
  "on_stream_frame f s c =
     (let ende = f_offset f + f_length f in
      if ende > max_recv s then Inl se_flow_control
      else if fin_seen s \<and> (ende > final_size s \<or> f_fin f \<and> ende \<noteq> final_size s) then Inl se_final_size
      else if \<not> fin_seen s \<and> f_fin f \<and> ende < qs_highest s then Inl se_final_size
      else let s = if \<not> fin_seen s \<and> f_fin f then s\<lparr>fin_seen := True, final_size := ende\<rparr> else s;
               c = if ende > qs_highest s then c\<lparr>data_received := data_received c + (ende - qs_highest s)\<rparr> else c in
        if ende > qs_highest s \<and> data_received c > our_max_data c then Inl se_flow_control
        else let s = if ende > qs_highest s then s\<lparr>qs_highest := ende\<rparr> else s in
          if reset_received s then Inr (False, s, c)
          else let s = if f_length f \<noteq> 0 then store_bytes s (f_offset f) (f_data f) else s in
            Inr (qs_available s > 0 \<or> at_end s \<and> \<not> fin_delivered s, s, c))"

text \<open>RESET_STREAM, the stream already found; the flag is whether the application is told.\<close>

definition on_reset_stream :: "Frame \<Rightarrow> QuicStream \<Rightarrow> StreamConn \<Rightarrow> StreamError + bool \<times> QuicStream \<times> StreamConn" where
  "on_reset_stream f s c =
     (if fin_seen s \<and> final_size s \<noteq> f_value2 f then Inl se_final_size
      else if f_value2 f < qs_highest s then Inl se_final_size
      else if \<not> fin_seen s \<and> f_value2 f > max_recv s then Inl se_flow_control
      else let c = if \<not> fin_seen s then c\<lparr>data_received := data_received c + (f_value2 f - qs_highest s)\<rparr> else c;
               s = if \<not> fin_seen s then s\<lparr>qs_highest := f_value2 f, fin_seen := True, final_size := f_value2 f\<rparr> else s in
        if reset_received s then Inr (False, s, c)
        else Inr (True, s\<lparr>reset_received := True, reset_code := f_value f\<rparr>, c))"


subsection \<open>The streams a client may open\<close>

text \<open>One side of the table: the bidirectional streams, or the unidirectional ones.\<close>

record StreamSide =
  ss_advertised :: u64
  ss_opened :: u64
  ss_closed :: "1024 word"
  ss_closed_count :: u64
  ss_our_max :: u64
  ss_limit :: u64

definition kClosedWindow :: u64 where
  "kClosedWindow = 1024"

text \<open>
  \<open>incoming_stream\<close>: an error, no stream (closed already, or too old to tell), one the application has,
  or a new one. \<open>known\<close> is \<open>app_.find_stream\<close>, \<open>can_open\<close> whether \<open>app_.on_new_stream\<close> gives an object.
\<close>

datatype Incoming = in_error StreamError | in_none | in_known | in_new StreamSide

definition incoming_stream :: "bool \<Rightarrow> bool \<Rightarrow> u64 \<Rightarrow> StreamSide \<Rightarrow> Incoming" where
  "incoming_stream known can_open i side =
     (if \<not> stream_is_client i then in_error se_stream_state
      else let index = drop_bit 2 i in
        if index \<ge> ss_advertised side then in_error se_stream_limit
        else if known then in_known
        else let k = ss_opened side - 1 - index in
          if index < ss_opened side \<and> (k \<ge> kClosedWindow \<or> bit (ss_closed side) (unat k)) then in_none
          else if \<not> can_open then in_error se_internal
          else in_new
            (if index + 1 > ss_opened side then
               let shift = index + 1 - ss_opened side in
               side\<lparr>ss_closed := if shift \<ge> kClosedWindow then 0 else push_bit (unat shift) (ss_closed side), ss_opened := index + 1\<rparr>
             else side))"

definition new_stream :: "u64 \<Rightarrow> u64 \<Rightarrow> QuicStream" where
  "new_stream i w = reset_quic\<lparr>qs_id := i, qs_open := True, qs_window := w, max_recv := w\<rparr>"

text \<open>\<open>stream_closed\<close> on the side of the stream, a client's; the flag is whether MAX_STREAMS is due on its own.\<close>

definition stream_closed :: "u64 \<Rightarrow> StreamSide \<Rightarrow> bool \<times> StreamSide" where
  "stream_closed i side =
     (let index = drop_bit 2 i; opened = ss_opened side;
          side = if index < opened \<and> opened - 1 - index < kClosedWindow
                 then side\<lparr>ss_closed := ss_closed side OR push_bit (unat (opened - 1 - index)) 1\<rparr> else side;
          side = side\<lparr>ss_closed_count := ss_closed_count side + 1\<rparr>;
          side = side\<lparr>ss_our_max := ss_closed_count side + ss_limit side\<rparr> in
      (ss_advertised side - min (ss_advertised side) (ss_opened side) < ss_limit side div 4, side))"

text \<open>MAX_STREAMS goes out.\<close>

definition advertise :: "StreamSide \<Rightarrow> StreamSide" where
  "advertise side = side\<lparr>ss_advertised := ss_our_max side\<rparr>"


subsection \<open>The application reads what was sent\<close>

text \<open>
  \<open>B\<close> is the stream the client sends, byte by byte. What is buffered is \<open>B\<close> at the offsets that
  arrived; the buffer ends at the highest offset at most.
\<close>

definition recv_ok :: "(nat \<Rightarrow> byte) \<Rightarrow> QuicStream \<Rightarrow> bool" where
  "recv_ok B s \<longleftrightarrow> rs_inv (rranges s) \<and> rpos s \<le> length (rbuf s) \<and> unat (roff s) + length (rbuf s) \<le> unat (qs_highest s)
     \<and> unat (qs_highest s) < 2 ^ 62
     \<and> (\<forall>v\<in>rs_set (rranges s). unat (roff s) + rpos s \<le> unat v \<longrightarrow>
          unat v < unat (roff s) + length (rbuf s) \<and> rbuf s ! (unat v - unat (roff s)) = B (unat v))"

lemma u64_less: "unat (x :: u64) < 2 ^ 64"
  by (rule order.strict_trans2, rule unsigned_less) simp

lemma unat_add_nat: "unat (x :: u64) + n < 2 ^ 64 \<Longrightarrow> unat (x + of_nat n) = unat x + n"
  by (simp add: unat_word_ariths unat_of_nat take_bit_nat_eq_self)

lemma consumed_unat:
  assumes "recv_ok B s"
  shows "unat (qs_consumed s) = unat (roff s) + rpos s"
proof -
  have "unat (roff s) + rpos s < 2 ^ 62" using assms by (auto simp: recv_ok_def)
  then show ?thesis unfolding qs_consumed_def by (intro unat_add_nat) simp
qed

lemma available_reads:
  assumes ok: "recv_ok B s"
  shows "qs_available s \<le> length (qs_data s)"
    and "take (qs_available s) (qs_data s) = map B [unat (qs_consumed s)..<unat (qs_consumed s) + qs_available s]"
    and "unat (contiguous_from (rranges s) (qs_consumed s)) = unat (qs_consumed s) + qs_available s"
proof -
  let ?c = "qs_consumed s" and ?n = "qs_available s"
  let ?e = "contiguous_from (rranges s) ?c"
  have inv: "rs_inv (rranges s)" using ok by (simp add: recv_ok_def)
  note cf = contiguous_from_correct [OF inv, of ?c]
  show e: "unat ?e = unat ?c + ?n" using cf(1) by (simp add: qs_available_def Let_def unat_sub word_le_nat_alt)
  have at: "unat ?c + i < unat (roff s) + length (rbuf s) \<and> rbuf s ! (rpos s + i) = B (unat ?c + i)" if "i < ?n" for i
  proof -
    let ?v = "?c + of_nat i"
    have v: "unat ?v = unat ?c + i" using e that u64_less [of ?e] by (intro unat_add_nat) simp
    have "?v \<in> {?c..<?e}" using that e by (simp add: word_le_nat_alt word_less_nat_alt v)
    then have "?v \<in> rs_set (rranges s)" using cf(2) by blast
    then have "unat ?v < unat (roff s) + length (rbuf s) \<and> rbuf s ! (unat ?v - unat (roff s)) = B (unat ?v)"
      using ok consumed_unat [OF ok] v unfolding recv_ok_def by auto
    then show ?thesis using v consumed_unat [OF ok] by simp
  qed
  show le: "?n \<le> length (qs_data s)"
    using at [of "?n - 1"] consumed_unat [OF ok] by (cases "?n = 0") (auto simp: qs_data_def)
  show "take ?n (qs_data s) = map B [unat ?c..<unat ?c + ?n]"
    using at le by (intro nth_equalityI) (auto simp: qs_data_def)
qed

lemma nth_overwrite:
  "w + length xs \<le> length out \<Longrightarrow> i < length out \<Longrightarrow> overwrite out w xs ! i = (if w \<le> i \<and> i < w + length xs then xs ! (i - w) else out ! i)"
  by (auto simp: overwrite_def nth_append)

text \<open>A frame's bytes are stored at their place, and nothing that was there changes.\<close>

lemma store_ok:
  assumes ok: "recv_ok B s" and src: "src = map B [unat offs..<unat offs + length src]"
    and top: "unat offs + length src \<le> unat (qs_highest s)"
  defines "s' \<equiv> store_bytes s offs src"
  shows "recv_ok B s'" and "qs_consumed s' = qs_consumed s"
    and "rs_set (rranges s) \<subseteq> rs_set (rranges s')"
    and "unat offs \<le> k \<Longrightarrow> k < unat offs + length src \<Longrightarrow> k < unat (qs_consumed s) \<or> of_nat k \<in> rs_set (rranges s')"
proof -
  define R C ob L where "R = unat (roff s)" and "C = unat (qs_consumed s)" and "ob = unat offs" and "L = length src"
  have h: "unat (qs_highest s) < 2 ^ 62" and inv: "rs_inv (rranges s)" and rp: "rpos s \<le> length (rbuf s)"
    and len: "R + length (rbuf s) \<le> unat (qs_highest s)" using ok by (auto simp: recv_ok_def R_def)
  have c: "C = R + rpos s" using consumed_unat [OF ok] by (simp add: C_def R_def)
  have data: "unat v < R + length (rbuf s) \<and> rbuf s ! (unat v - R) = B (unat v)" if "v \<in> rs_set (rranges s)" "C \<le> unat v" for v
    using ok that c unfolding recv_ok_def R_def by auto
  have e: "unat (offs + of_nat (length src)) = ob + L" unfolding ob_def L_def using top h by (intro unat_add_nat) simp
  have "recv_ok B s' \<and> qs_consumed s' = qs_consumed s \<and> rs_set (rranges s) \<subseteq> rs_set (rranges s')
    \<and> (ob \<le> k \<longrightarrow> k < ob + L \<longrightarrow> k < C \<or> of_nat k \<in> rs_set (rranges s'))"
  proof (cases "ob + L > C")
    case False
    then have "s' = s" using e by (simp add: s'_def store_bytes_def Let_def word_less_nat_alt C_def)
    then show ?thesis using ok False by auto
  next
    case True
    define frm where "frm = (if offs < qs_consumed s then qs_consumed s else offs)"
    define src' where "src' = (if offs < qs_consumed s then drop (unat (qs_consumed s - offs)) src else src)"
    define rel where "rel = unat (frm - roff s)"
    define buf where "buf = (if length (rbuf s) < rel + length src' then rbuf s @ replicate (rel + length src' - length (rbuf s)) 0 else rbuf s)"
    have s': "s' = s\<lparr>rbuf := overwrite buf rel src', rranges := rs_add (rranges s) frm (frm + of_nat (length src'))\<rparr>"
      using True e by (simp add: s'_def store_bytes_def Let_def word_less_nat_alt C_def frm_def src'_def rel_def buf_def)
    have frm: "unat frm = max ob C" by (auto simp: frm_def ob_def C_def word_less_nat_alt max_def)
    have "roff s \<le> frm" using frm c by (simp add: word_le_nat_alt R_def)
    then have rel: "rel = max ob C - R" by (simp add: rel_def unat_sub frm R_def)
    have Rle: "R \<le> max ob C" using c by simp
    have dl: "src' = drop (max ob C - ob) src"
    proof (cases "offs < qs_consumed s")
      case lt: True
      then have "unat (qs_consumed s - offs) = C - ob" by (simp add: unat_sub word_le_nat_alt word_less_nat_alt C_def ob_def)
      then show ?thesis using lt by (simp add: src'_def word_less_nat_alt C_def ob_def max_def)
    qed (simp add: src'_def word_less_nat_alt C_def ob_def max_def)
    have ls: "max ob C + length src' = ob + L" using True by (auto simp: dl L_def)
    have fe: "unat (frm + of_nat (length src')) = ob + L"
      using ls frm top h by (subst unat_add_nat) (simp_all add: ob_def L_def)
    have sb: "src' ! i = B (max ob C + i)" if "i < length src'" for i
    proof -
      have "src ! (max ob C - ob + i) = B (ob + (max ob C - ob + i))"
        using that by (subst src) (auto simp: dl ob_def)
      then show ?thesis using that by (simp add: dl)
    qed
    have bl: "length buf = max (length (rbuf s)) (rel + length src')" by (auto simp: buf_def max_def)
    have bn: "buf ! i = rbuf s ! i" if "i < length (rbuf s)" for i using that by (simp add: buf_def nth_append)
    have ol: "length (overwrite buf rel src') = length buf" using bl by simp
    have set: "rs_set (rranges s') = rs_set (rranges s) \<union> {frm..<frm + of_nat (length src')}"
      by (simp add: s' rs_add_correct [OF inv])
    have "unat v < R + length (rbuf s') \<and> rbuf s' ! (unat v - R) = B (unat v)" if v: "v \<in> rs_set (rranges s')" "C \<le> unat v" for v
    proof (cases "v \<in> {frm..<frm + of_nat (length src')}")
      case in_new: True
      then have "max ob C \<le> unat v" "unat v < max ob C + length src'"
        using frm fe ls by (auto simp: word_le_nat_alt word_less_nat_alt)
      then have "rel \<le> unat v - R" "unat v - R < rel + length src'" "max ob C + (unat v - R - rel) = unat v" using rel Rle by linarith+
      then show ?thesis using sb [of "unat v - R - rel"] ol bl c v(2) by (simp add: s' nth_overwrite)
    next
      case out: False
      then have "v \<in> rs_set (rranges s)" using v(1) set by blast
      note old = data [OF this v(2)]
      have "\<not> (rel \<le> unat v - R \<and> unat v - R < rel + length src')"
        using out rel Rle frm fe ls c v(2) by (auto simp: word_le_nat_alt word_less_nat_alt)
      then show ?thesis using old ol bl bn [of "unat v - R"] c v(2) by (auto simp: s' nth_overwrite)
    qed
    moreover have "R + length (rbuf s') \<le> unat (qs_highest s)"
      using len ls top rel Rle by (simp add: s' ol bl ob_def L_def)
    ultimately have "recv_ok B s'"
      using h rp c bl unfolding recv_ok_def by (auto simp: s' rs_add_correct [OF inv] ol R_def)
    moreover have "of_nat k \<in> rs_set (rranges s')" if "ob \<le> k" "k < ob + L" "\<not> k < C"
    proof -
      have "unat (of_nat k :: u64) = k" using that top h by (simp add: unat_of_nat take_bit_nat_eq_self ob_def L_def)
      then show ?thesis using that set frm fe by (simp add: word_le_nat_alt word_less_nat_alt)
    qed
    moreover have "qs_consumed s' = qs_consumed s" by (simp add: s' qs_consumed_def)
    ultimately show ?thesis using set by blast
  qed
  then show "recv_ok B s'" "qs_consumed s' = qs_consumed s" "rs_set (rranges s) \<subseteq> rs_set (rranges s')"
    "unat offs \<le> k \<Longrightarrow> k < unat offs + length src \<Longrightarrow> k < unat (qs_consumed s) \<or> of_nat k \<in> rs_set (rranges s')"
    by (simp_all add: ob_def L_def C_def)
qed

lemma consume_ok:
  assumes ok: "recv_ok B s" and n: "n \<le> qs_available s"
  shows "recv_ok B (qs_consume s n)" and "unat (qs_consumed (qs_consume s n)) = unat (qs_consumed s) + n"
    and "rranges (qs_consume s n) = rranges s"
proof -
  have "rpos s \<le> length (rbuf s)" using ok by (simp add: recv_ok_def)
  then have le: "rpos s + n \<le> length (rbuf s)" using available_reads(1) [OF ok] n by (simp add: qs_data_def)
  have h: "unat (roff s) + length (rbuf s) < 2 ^ 62" using ok by (auto simp: recv_ok_def)
  have ro: "unat (roff s + of_nat (rpos s + n)) = unat (roff s) + (rpos s + n)" using h le by (intro unat_add_nat) simp
  show r: "rranges (qs_consume s n) = rranges s" by (simp add: qs_consume_def Let_def)
  show k: "recv_ok B (qs_consume s n)"
    using ok le ro unfolding recv_ok_def by (auto simp: qs_consume_def Let_def simp del: of_nat_add)
  show "unat (qs_consumed (qs_consume s n)) = unat (qs_consumed s) + n"
    unfolding consumed_unat [OF k] consumed_unat [OF ok] using ro by (auto simp: qs_consume_def Let_def simp del: of_nat_add)
qed

text \<open>What the handlers change besides the buffer does not matter here.\<close>

definition same_buffer :: "QuicStream \<Rightarrow> QuicStream \<Rightarrow> bool" where
  "same_buffer s t \<longleftrightarrow> rbuf s = rbuf t \<and> roff s = roff t \<and> rpos s = rpos t \<and> rranges s = rranges t"

lemma same_buffer_ok:
  assumes "same_buffer s t" "recv_ok B t" "unat (qs_highest t) \<le> unat (qs_highest s)" "unat (qs_highest s) < 2 ^ 62"
  shows "recv_ok B s" "qs_consumed s = qs_consumed t" "qs_available s = qs_available t" "qs_data s = qs_data t"
  using assms by (auto simp: same_buffer_def recv_ok_def qs_consumed_def qs_available_def qs_data_def)

text \<open>
  A stream's life: frames that carry the client's bytes, a reset, and the application reading and
  widening its window. \<open>got\<close> collects the offsets of the frames stored, \<open>d\<close> the bytes the application took.
\<close>

inductive recv_reach :: "(nat \<Rightarrow> byte) \<Rightarrow> QuicStream \<Rightarrow> StreamConn \<Rightarrow> nat set \<Rightarrow> bytes \<Rightarrow> bool" for B where
  start: "recv_reach B (new_stream i w) c {} []"
| frame: "recv_reach B s c got d \<Longrightarrow> on_stream_frame f s c = Inr (rd, s', c') \<Longrightarrow>
    f_length f = of_nat (length (f_data f)) \<Longrightarrow> unat (f_offset f) + length (f_data f) < 2 ^ 62 \<Longrightarrow>
    f_data f = map B [unat (f_offset f)..<unat (f_offset f) + length (f_data f)] \<Longrightarrow>
    recv_reach B s' c' (if reset_received s then got else got \<union> {unat (f_offset f)..<unat (f_offset f) + length (f_data f)}) d"
| reset: "recv_reach B s c got d \<Longrightarrow> on_reset_stream f s c = Inr (rd, s', c') \<Longrightarrow> f_value2 f \<le> kVarintMax \<Longrightarrow> recv_reach B s' c' got d"
| read: "recv_reach B s c got d \<Longrightarrow> n \<le> qs_available s \<Longrightarrow> stream_consumed s n c = (s', c') \<Longrightarrow>
    recv_reach B s' c' got (d @ take n (qs_data s))"
| widen: "recv_reach B s c got d \<Longrightarrow> stream_window s w c = (s', c') \<Longrightarrow> recv_reach B s' c' got d"

definition reach_ok :: "(nat \<Rightarrow> byte) \<Rightarrow> QuicStream \<Rightarrow> nat set \<Rightarrow> bytes \<Rightarrow> bool" where
  "reach_ok B s got d \<longleftrightarrow> recv_ok B s \<and> d = map B [0..<length d] \<and> unat (qs_consumed s) = length d
     \<and> (\<forall>k\<in>got. k < 2 ^ 62 \<and> (k < length d \<or> of_nat k \<in> rs_set (rranges s)))"

lemma reach_ok_same:
  assumes "reach_ok B t got d" "same_buffer s t" "unat (qs_highest t) \<le> unat (qs_highest s)" "unat (qs_highest s) < 2 ^ 62"
  shows "reach_ok B s got d"
  using assms same_buffer_ok [OF assms(2) _ assms(3,4)] by (auto simp: reach_ok_def same_buffer_def)

lemma grant_same: "grant s l c = (s', c') \<Longrightarrow> same_buffer s' s \<and> qs_highest s' = qs_highest s"
  by (auto simp: grant_def same_buffer_def Let_def split: if_splits)

lemma frame_store:
  assumes "on_stream_frame f s c = Inr (rd, s', c')"
  obtains t where "same_buffer t s" "qs_highest t = max (qs_highest s) (f_offset f + f_length f)" "reset_received t = reset_received s"
    "s' = (if reset_received s \<or> f_length f = 0 then t else store_bytes t (f_offset f) (f_data f))"
proof -
  define t0 where "t0 = (if \<not> fin_seen s \<and> f_fin f then s\<lparr>fin_seen := True, final_size := f_offset f + f_length f\<rparr> else s)"
  define t where "t = (if f_offset f + f_length f > qs_highest t0 then t0\<lparr>qs_highest := f_offset f + f_length f\<rparr> else t0)"
  have t: "same_buffer t s" "qs_highest t = max (qs_highest s) (f_offset f + f_length f)" "reset_received t = reset_received s"
    by (auto simp: t_def t0_def same_buffer_def max_def)
  have "s' = (if reset_received t then t else if f_length f \<noteq> 0 then store_bytes t (f_offset f) (f_data f) else t)"
    using assms unfolding on_stream_frame_def Let_def t0_def [symmetric] t_def [symmetric] by (simp split: if_splits)
  then show ?thesis using t that [of t] by auto
qed

lemma frame_reach:
  assumes ok: "reach_ok B s got d" and step: "on_stream_frame f s c = Inr (rd, s', c')"
    and len: "f_length f = of_nat (length (f_data f))" "unat (f_offset f) + length (f_data f) < 2 ^ 62"
    and data: "f_data f = map B [unat (f_offset f)..<unat (f_offset f) + length (f_data f)]"
  shows "reach_ok B s' (if reset_received s then got else got \<union> {unat (f_offset f)..<unat (f_offset f) + length (f_data f)}) d"
proof -
  obtain t where t: "same_buffer t s" "qs_highest t = max (qs_highest s) (f_offset f + f_length f)"
    "s' = (if reset_received s \<or> f_length f = 0 then t else store_bytes t (f_offset f) (f_data f))"
    using frame_store [OF step] by metis
  have e: "unat (f_offset f + f_length f) = unat (f_offset f) + length (f_data f)" unfolding len(1) using len(2) by (intro unat_add_nat) simp
  have m: "unat (max a b) = max (unat a) (unat b)" for a b :: u64 by (simp add: max_def word_le_nat_alt)
  have top: "unat (qs_highest s) \<le> unat (qs_highest t)" "unat (qs_highest t) < 2 ^ 62"
    "unat (f_offset f) + length (f_data f) \<le> unat (qs_highest t)"
    using ok len(2) e t(2) by (auto simp: reach_ok_def recv_ok_def m)
  have okt: "reach_ok B t got d" by (rule reach_ok_same [OF ok t(1) top(1,2)])
  have l0: "f_data f = []" if "f_length f = 0"
  proof -
    have "unat (f_length f) = length (f_data f)" unfolding len(1) using len(2) by (simp add: unat_of_nat take_bit_nat_eq_self)
    then show ?thesis using that by simp
  qed
  show ?thesis
  proof (cases "reset_received s \<or> f_length f = 0")
    case True
    then show ?thesis using okt t(3) l0 by auto
  next
    case False
    have rt: "recv_ok B t" using okt by (simp add: reach_ok_def)
    note st = store_ok [OF rt data top(3)]
    have "k < 2 ^ 62 \<and> (k < length d \<or> of_nat k \<in> rs_set (rranges (store_bytes t (f_offset f) (f_data f))))"
      if "k \<in> got \<union> {unat (f_offset f)..<unat (f_offset f) + length (f_data f)}" for k
      using that okt st(3) st(4) [of k] len(2) by (auto simp: reach_ok_def)
    then show ?thesis using False t(3) okt st(1,2) by (simp add: reach_ok_def)
  qed
qed

lemma recv_reach_ok: "recv_reach B s c got d \<Longrightarrow> reach_ok B s got d"
proof (induction rule: recv_reach.induct)
  case (start i w c)
  then show ?case by (simp add: reach_ok_def recv_ok_def new_stream_def reset_quic_def qs_consumed_def)
next
  case (frame s c got d f rd s' c')
  then show ?case by (intro frame_reach)
next
  case (reset s c got d f rd s' c')
  have "same_buffer s' s" "qs_highest s' = qs_highest s \<or> qs_highest s' = f_value2 f \<and> qs_highest s \<le> f_value2 f"
    using reset(2) by (auto simp: on_reset_stream_def same_buffer_def Let_def not_less split: if_splits)
  moreover have "unat (f_value2 f) < 2 ^ 62" using reset(3) by (simp add: kVarintMax_less word_less_nat_alt)
  ultimately show ?case using reset(4) by (intro reach_ok_same [OF reset(4)]) (auto simp: word_le_nat_alt reach_ok_def recv_ok_def)
next
  case (read s c got d n s' c')
  have ok: "recv_ok B s" using read by (simp add: reach_ok_def)
  have same: "same_buffer s' (qs_consume s n)" "qs_highest s' = qs_highest (qs_consume s n)"
    using read(3) by (auto simp: stream_consumed_def same_buffer_def Let_def split: if_splits dest!: grant_same)
  have d: "d = map B [0..<length d]" "unat (qs_consumed s) = length d" using read(4) by (auto simp: reach_ok_def)
  have tk: "take n (qs_data s) = map B [length d..<length d + n]"
  proof -
    have "take n (qs_data s) = take n (take (qs_available s) (qs_data s))" using read(2) by (simp add: min_def)
    then show ?thesis using available_reads(2) [OF ok] read(2) d(2) by (simp add: take_map)
  qed
  have "d @ take n (qs_data s) = map B [0..<length d + n]"
    unfolding tk upt_add_eq_append [of 0 "length d" n, simplified] map_append by (rule arg_cong2 [OF d(1) refl])
  moreover have "length (d @ take n (qs_data s)) = length d + n" by (simp add: tk)
  moreover note co = consume_ok [OF ok read(2)]
  moreover have "k < 2 ^ 62 \<and> (k < length d + n \<or> of_nat k \<in> rs_set (rranges (qs_consume s n)))" if "k \<in> got" for k
    using read(4) that unfolding reach_ok_def co(3) by auto
  ultimately have r: "reach_ok B (qs_consume s n) got (d @ take n (qs_data s))" using d(2) unfolding reach_ok_def by simp
  then have "unat (qs_highest s') < 2 ^ 62" using same(2) by (simp add: reach_ok_def recv_ok_def)
  then show ?case by (intro reach_ok_same [OF r same(1)]) (simp_all add: same(2))
next
  case (widen s c got d w s' c')
  have "same_buffer s' s \<and> qs_highest s' = qs_highest s"
    using widen(2) by (auto simp: stream_window_def Let_def same_buffer_def split: if_splits dest!: grant_same)
  then show ?case using widen(3) by (intro reach_ok_same [OF widen(3)]) (auto simp: reach_ok_def recv_ok_def)
qed

text \<open>
  C9. The application reads what the client sent. Whatever the order the stream's frames arrive in, repeated,
  overlapping, with gaps, and however the application reads in between, the bytes it has taken are the
  first bytes of the client's stream, the bytes offered to it are the ones that follow, and everything
  received without a gap is offered: no byte is lost, doubled or moved.
\<close>

theorem quic_stream_exact:
  assumes "recv_reach B s c got d"
  shows "d = map B [0..<length d] \<and> unat (qs_consumed s) = length d
    \<and> take (qs_available s) (qs_data s) = map B [length d..<length d + qs_available s]
    \<and> (\<forall>m. {..<m} \<subseteq> got \<longrightarrow> m \<le> length d + qs_available s)"
proof -
  from recv_reach_ok [OF assms] have ok: "recv_ok B s" and d: "d = map B [0..<length d]" "unat (qs_consumed s) = length d"
    and got: "\<And>k. k \<in> got \<Longrightarrow> k < 2 ^ 62 \<and> (k < length d \<or> of_nat k \<in> rs_set (rranges s))" by (auto simp: reach_ok_def)
  have inv: "rs_inv (rranges s)" using ok by (simp add: recv_ok_def)
  let ?e = "contiguous_from (rranges s) (qs_consumed s)"
  have "m \<le> length d + qs_available s" if "{..<m} \<subseteq> got" for m
  proof (rule ccontr)
    assume "\<not> m \<le> length d + qs_available s"
    then have "length d + qs_available s \<in> got" using that by auto
    from got [OF this] have "of_nat (length d + qs_available s) \<in> rs_set (rranges s)" by simp
    moreover have "length d + qs_available s = unat ?e" using available_reads(3) [OF ok] d(2) by simp
    then have "of_nat (length d + qs_available s) = (of_nat (unat ?e) :: u64)" by (simp only:)
    then have "of_nat (length d + qs_available s) = ?e" by simp
    ultimately show False using contiguous_from_correct(3) [OF inv] by (simp only:)
  qed
  then show ?thesis using d available_reads(2) [OF ok] by simp
qed

definition stream_conn_new :: "u64 \<Rightarrow> StreamConn" where
  "stream_conn_new limit = \<lparr>our_max_data = limit, data_received = 0, data_consumed = 0, max_data_due = False, lim_max_data = limit, credit_list = []\<rparr>"

lemma quic_stream_exact_witness:
  "let s0 = new_stream 4 100; c0 = stream_conn_new 1000;
       f1 = frame_new\<lparr>f_offset := 2, f_length := 3, f_data := [2, 3, 4]\<rparr>; f2 = frame_new\<lparr>f_length := 3, f_data := [0, 1, 2]\<rparr> in
   \<exists>s1 c1 s2 c2. on_stream_frame f1 s0 c0 = Inr (False, s1, c1) \<and> on_stream_frame f2 s1 c1 = Inr (True, s2, c2)
     \<and> 5 \<le> qs_available s2 \<and> take (qs_available s2) (qs_data s2) = map of_nat [0..<qs_available s2]"
proof -
  define s0 c0 f1 f2 where "s0 = new_stream 4 100" and "c0 = stream_conn_new 1000"
    and "f1 = frame_new\<lparr>f_offset := 2, f_length := 3, f_data := [2, 3, 4]\<rparr>" and "f2 = frame_new\<lparr>f_length := 3, f_data := [0, 1, 2]\<rparr>"
  note defs = s0_def c0_def f1_def f2_def
  define s1 where "s1 = fst (snd (projr (on_stream_frame f1 s0 c0)))"
  define c1 where "c1 = snd (snd (projr (on_stream_frame f1 s0 c0)))"
  define s2 where "s2 = fst (snd (projr (on_stream_frame f2 s1 c1)))"
  define c2 where "c2 = snd (snd (projr (on_stream_frame f2 s1 c1)))"
  have 1: "on_stream_frame f1 s0 c0 = Inr (False, s1, c1)" and 2: "on_stream_frame f2 s1 c1 = Inr (True, s2, c2)"
    and r: "\<not> reset_received s0" "\<not> reset_received s1"
    unfolding s2_def c2_def s1_def c1_def defs by code_simp+
  have "recv_reach of_nat s0 c0 {} []" unfolding s0_def by (rule recv_reach.start)
  from recv_reach.frame [OF this 1] have "recv_reach of_nat s1 c1 {2..<5} []" using r by (simp add: f1_def frame_new_def upt_rec)
  from recv_reach.frame [OF this 2] have "recv_reach of_nat s2 c2 ({2..<5} \<union> {0..<3}) []" using r by (simp add: f2_def frame_new_def upt_rec numeral_3_eq_3)
  from quic_stream_exact [OF this] have "take (qs_available s2) (qs_data s2) = map of_nat [0..<qs_available s2]"
    "{..<5} \<subseteq> {2..<5} \<union> {0..<3} \<longrightarrow> 5 \<le> qs_available s2" by auto
  moreover have "{..<5} \<subseteq> {2..<5} \<union> {0..<3::nat}" by auto
  ultimately show ?thesis using 1 2 unfolding defs Let_def by blast
qed


subsection \<open>A closed stream stays closed\<close>

text \<open>
  The indices opened and closed so far, and what the bitmap says of them. A stream the application
  knows is one opened and not closed.
\<close>

inductive side_reach :: "StreamSide \<Rightarrow> nat set \<Rightarrow> nat set \<Rightarrow> bool" where
  start: "side_reach \<lparr>ss_advertised = n, ss_opened = 0, ss_closed = 0, ss_closed_count = 0, ss_our_max = n, ss_limit = n\<rparr> {} {}"
| opens: "side_reach side op cl \<Longrightarrow> incoming_stream known can i side = in_new side' \<Longrightarrow> known \<longleftrightarrow> unat (drop_bit 2 i) \<in> op - cl \<Longrightarrow>
    side_reach side' (insert (unat (drop_bit 2 i)) op) cl"
| closes: "side_reach side op cl \<Longrightarrow> unat (drop_bit 2 i) \<in> op - cl \<Longrightarrow>
    side_reach (snd (stream_closed i side)) op (insert (unat (drop_bit 2 i)) cl)"
| advertises: "side_reach side op cl \<Longrightarrow> side_reach (advertise side) op cl"

definition side_ok :: "StreamSide \<Rightarrow> nat set \<Rightarrow> nat set \<Rightarrow> bool" where
  "side_ok side op cl \<longleftrightarrow> unat (ss_opened side) \<le> 2 ^ 62 \<and> cl \<subseteq> op \<and> (\<forall>j\<in>op. j < unat (ss_opened side))
     \<and> (\<forall>k<1024. bit (ss_closed side) k \<longleftrightarrow> k < unat (ss_opened side) \<and> unat (ss_opened side) - 1 - k \<in> cl)"

lemma index_less: "unat (drop_bit 2 (i :: u64)) < 2 ^ 62"
  using u64_less [of i] by (simp add: unat_drop_bit)

lemma back_unat:
  assumes "(index :: u64) < opened"
  shows "unat (opened - 1 - index) = unat opened - 1 - unat index"
proof -
  have "unat index < unat opened" using assms by (simp add: word_less_nat_alt)
  then have "unat (opened - 1) = unat opened - 1" by (subst unat_sub) (simp_all add: word_le_nat_alt)
  moreover from this have "index \<le> opened - 1" using \<open>unat index < unat opened\<close> by (simp add: word_le_nat_alt)
  ultimately show ?thesis by (simp add: unat_sub)
qed

lemma opens_ok:
  assumes ok: "side_ok side op cl" and new: "incoming_stream known can i side = in_new side'"
  shows "side_ok side' (insert (unat (drop_bit 2 i)) op) cl"
proof -
  define x where "x = unat (drop_bit 2 i)"
  let ?o = "unat (ss_opened side)"
  have x: "x < 2 ^ 62" unfolding x_def by (rule index_less)
  have x1: "unat (drop_bit 2 i + 1) = x + 1" using unat_add_nat [of "drop_bit 2 i" 1] x by (simp add: x_def)
  have side': "side' = (if drop_bit 2 i + 1 > ss_opened side then
      let shift = drop_bit 2 i + 1 - ss_opened side in
      side\<lparr>ss_closed := if shift \<ge> kClosedWindow then 0 else push_bit (unat shift) (ss_closed side), ss_opened := drop_bit 2 i + 1\<rparr>
    else side)"
    using new by (auto simp: incoming_stream_def Let_def split: if_splits)
  show ?thesis
  proof (cases "x + 1 > ?o")
    case False
    then have "side' = side" using side' x1 by (simp add: word_less_nat_alt)
    then show ?thesis using ok False unfolding side_ok_def x_def [symmetric] by auto
  next
    case True
    define sh where "sh = x + 1 - ?o"
    have "unat (drop_bit 2 i + 1 - ss_opened side) = sh" using True x1 by (simp add: unat_sub word_le_nat_alt sh_def)
    then have o': "unat (ss_opened side') = x + 1"
      and cl': "ss_closed side' = (if sh \<ge> 1024 then 0 else push_bit sh (ss_closed side))"
      using side' True x1 by (auto simp: word_less_nat_alt word_le_nat_alt kClosedWindow_def Let_def)
    have cl: "j < ?o" if "j \<in> cl" for j using ok that by (auto simp: side_ok_def)
    have bits: "bit (ss_closed side) k \<longleftrightarrow> k < ?o \<and> ?o - 1 - k \<in> cl" if "k < 1024" for k using ok that by (simp add: side_ok_def)
    have "bit (ss_closed side') k \<longleftrightarrow> k < x + 1 \<and> x + 1 - 1 - k \<in> cl" if k: "k < 1024" for k
    proof (cases "sh \<le> k")
      case le: True
      then have "bit (ss_closed side') k \<longleftrightarrow> bit (ss_closed side) (k - sh)" using k by (simp add: cl' bit_simps)
      also have "\<dots> \<longleftrightarrow> k - sh < ?o \<and> ?o - 1 - (k - sh) \<in> cl" using bits k by simp
      also have "\<dots> \<longleftrightarrow> k < x + 1 \<and> x + 1 - 1 - k \<in> cl"
      proof -
        have "k - sh < ?o \<longleftrightarrow> k < x + 1" "k < x + 1 \<Longrightarrow> ?o - 1 - (k - sh) = x + 1 - 1 - k" using le True unfolding sh_def by linarith+
        then show ?thesis by metis
      qed
      finally show ?thesis .
    next
      case gt: False
      then have "\<not> bit (ss_closed side') k" using k by (simp add: cl' bit_simps)
      moreover have "x + 1 - 1 - k \<notin> cl" using gt cl [of "x + 1 - 1 - k"] True unfolding sh_def by linarith
      ultimately show ?thesis by simp
    qed
    then show ?thesis using ok x o' True unfolding side_ok_def x_def [symmetric] by auto
  qed
qed

lemma closes_ok:
  assumes ok: "side_ok side op cl" and i: "unat (drop_bit 2 i) \<in> op - cl"
  shows "side_ok (snd (stream_closed i side)) op (insert (unat (drop_bit 2 i)) cl)"
proof -
  define x where "x = unat (drop_bit 2 i)"
  let ?o = "unat (ss_opened side)" and ?s = "snd (stream_closed i side)"
  have xo: "x < ?o" using ok i by (auto simp: side_ok_def x_def)
  then have lt: "drop_bit 2 i < ss_opened side" by (simp add: word_less_nat_alt x_def)
  note bk = back_unat [OF lt, folded x_def]
  have o: "ss_opened ?s = ss_opened side" by (simp add: stream_closed_def Let_def)
  have c: "ss_closed ?s = (if ?o - 1 - x < 1024 then ss_closed side OR push_bit (?o - 1 - x) 1 else ss_closed side)"
    using lt bk by (simp add: stream_closed_def Let_def word_less_nat_alt kClosedWindow_def)
  have "bit (ss_closed ?s) k \<longleftrightarrow> k < ?o \<and> ?o - 1 - k \<in> insert x cl" if k: "k < 1024" for k
  proof -
    have "k < ?o \<and> ?o - 1 - k = x \<longleftrightarrow> k = ?o - 1 - x" using xo by linarith
    then show ?thesis using ok k c xo by (auto simp: side_ok_def bit_simps)
  qed
  then show ?thesis using ok i unfolding side_ok_def x_def [symmetric] o by auto
qed

lemma side_reach_ok: "side_reach side op cl \<Longrightarrow> side_ok side op cl"
proof (induction rule: side_reach.induct)
  case (opens side op cl known can i side')
  then show ?case using opens_ok by blast
next
  case (closes side op cl i)
  then show ?case using closes_ok by blast
next
  case (advertises side op cl)
  then show ?case by (simp add: side_ok_def advertise_def)
qed (simp add: side_ok_def)

text \<open>
  C17. A stream is opened once. Whatever streams a client opens and the application closes, in any order: a
  frame for a closed stream never opens it again, and a stream not opened yet, among the last 1,024
  indices below the highest, or above it, is opened for the first frame that names it, however late it
  comes.
\<close>

theorem closed_streams_stay_closed:
  assumes "side_reach side op cl" and "stream_is_client i"
  shows "(unat (drop_bit 2 i) \<in> cl \<longrightarrow> (\<forall>side'. incoming_stream False can i side \<noteq> in_new side'))
    \<and> (unat (drop_bit 2 i) \<notin> op \<longrightarrow> drop_bit 2 i < ss_advertised side \<longrightarrow> unat (ss_opened side) \<le> unat (drop_bit 2 i) + 1024 \<longrightarrow>
        (\<exists>side'. incoming_stream False True i side = in_new side'))"
proof -
  define x where "x = unat (drop_bit 2 i)"
  let ?o = "unat (ss_opened side)"
  have ok: "side_ok side op cl" by (rule side_reach_ok [OF assms(1)])
  have lt: "drop_bit 2 i < ss_opened side \<longleftrightarrow> x < ?o" by (simp add: word_less_nat_alt x_def)
  have bk: "unat (ss_opened side - 1 - drop_bit 2 i) = ?o - 1 - x" if "x < ?o" using back_unat [of "drop_bit 2 i"] that lt by (simp add: x_def)
  have old: "drop_bit 2 i < ss_opened side \<and> (ss_opened side - 1 - drop_bit 2 i \<ge> kClosedWindow \<or> bit (ss_closed side) (unat (ss_opened side - 1 - drop_bit 2 i)))
      \<longleftrightarrow> x < ?o \<and> (1024 \<le> ?o - 1 - x \<or> x \<in> cl)"
  proof (cases "x < ?o")
    case True
    then have "?o - 1 - (?o - 1 - x) = x" "?o - 1 - x < ?o" by linarith+
    then have "?o - 1 - x < 1024 \<Longrightarrow> bit (ss_closed side) (?o - 1 - x) \<longleftrightarrow> x \<in> cl" using ok by (simp add: side_ok_def)
    moreover have "kClosedWindow \<le> ss_opened side - 1 - drop_bit 2 i \<longleftrightarrow> 1024 \<le> ?o - 1 - x"
      using bk [OF True] by (simp add: word_le_nat_alt kClosedWindow_def)
    ultimately show ?thesis using lt bk [OF True] True by auto
  qed (simp add: lt)
  have "x \<in> cl \<Longrightarrow> x < ?o" using ok by (auto simp: side_ok_def)
  moreover have "x \<notin> op \<Longrightarrow> x \<notin> cl" using ok by (auto simp: side_ok_def)
  ultimately show ?thesis
    using assms(2) unfolding x_def [symmetric] incoming_stream_def Let_def old by (auto split: if_splits)
qed

lemma closed_streams_stay_closed_witness:
  "\<exists>side side'. incoming_stream False True 8 \<lparr>ss_advertised = 100, ss_opened = 0, ss_closed = 0, ss_closed_count = 0, ss_our_max = 100, ss_limit = 100\<rparr> = in_new side
     \<and> incoming_stream False True 8 (snd (stream_closed 8 side)) = in_none \<and> incoming_stream False True 4 (snd (stream_closed 8 side)) = in_new side'"
proof -
  define start where "start = \<lparr>ss_advertised = 100, ss_opened = 0, ss_closed = 0, ss_closed_count = 0, ss_our_max = 100, ss_limit = (100::u64)\<rparr>"
  define side where "side = start\<lparr>ss_opened := 3\<rparr>"
  have new: "incoming_stream False True 8 start = in_new side" unfolding side_def start_def by code_simp
  have idx: "unat (drop_bit 2 (8 :: u64)) = 2" "unat (drop_bit 2 (4 :: u64)) = 1" "stream_is_client 8" "stream_is_client 4" by code_simp+
  have "side_reach start {} {}" unfolding start_def by (rule side_reach.start)
  from side_reach.opens [OF this new] have "side_reach side {2} {}" by (simp add: idx)
  from side_reach.closes [OF this, of 8] have r: "side_reach (snd (stream_closed 8 side)) {2} {2}" by (simp add: idx)
  have adv: "ss_advertised (snd (stream_closed 8 side)) = 100" "ss_opened (snd (stream_closed 8 side)) = 3" unfolding side_def start_def by code_simp+
  from closed_streams_stay_closed [OF r idx(4)] obtain side' where "incoming_stream False True 4 (snd (stream_closed 8 side)) = in_new side'"
    using adv idx by auto
  moreover from closed_streams_stay_closed [OF r idx(3), of True] have "\<forall>side'. incoming_stream False True 8 (snd (stream_closed 8 side)) \<noteq> in_new side'"
    using idx by simp
  then have "incoming_stream False True 8 (snd (stream_closed 8 side)) = in_none"
    using adv idx by (auto simp: incoming_stream_def Let_def split: if_splits)
  ultimately show ?thesis using new unfolding start_def by blast
qed


subsection \<open>A window that shrinks\<close>

text \<open>A window that only grows never lowers the limit.\<close>

lemma window_never_lowered:
  assumes "unat (max_recv s) \<le> unat (qs_consumed (qs_consume s n) + qs_window s)"
  shows "max_recv s \<le> max_recv (fst (stream_consumed s n c))"
  using assms by (auto simp: stream_consumed_def grant_def qs_consume_def qs_consumed_def Let_def word_le_nat_alt split: if_splits)

text \<open>
  A window that shrinks takes credit back. \<open>stream_window\<close> may set a window below the one the stream began
  with (a site's body limit below the header limit). The next read then compares unsigned numbers that went below zero,
  and the limit already advertised is lowered: on a stream that began with 16,384 bytes of credit and whose window
  was set to 1,000, after 100 bytes were read the limit is 1,100, and 5,000 more bytes, which the client was allowed
  to send, are answered with a flow control error.
\<close>

theorem shrunk_window_refuses_credit:
  "let s = fst (stream_window (new_stream 0 16384) 1000 (stream_conn_new 1000000)); c = stream_conn_new 1000000;
       head = frame_new\<lparr>f_length := 100, f_data := replicate 100 0\<rparr>; body = frame_new\<lparr>f_offset := 100, f_length := 5000, f_data := replicate 5000 0\<rparr> in
   case on_stream_frame head s c of
     Inr (_, s, c) \<Rightarrow>
       (case stream_consumed s 100 c of
          (s', c) \<Rightarrow> max_recv s = 16384 \<and> max_recv s' = 1100 \<and> on_stream_frame body s' c = Inl se_flow_control)
   | Inl _ \<Rightarrow> False"
  by code_simp

end
