(* ===== verification/Quic_Ready.thy ===== *)
theory Quic_Ready
  imports Quic_Stream Quic_Recovery "HOL-Library.Monad_Syntax"
begin

text \<open>
  The sending half of a QUIC stream (\<^verbatim>\<open>src/quic/stream.hpp\<close>) and the list of the streams that have something
  to send (\<open>enqueue\<close>, \<open>dequeue\<close>, \<open>rotate\<close> of \<^verbatim>\<open>src/quic/connection.hpp\<close>). The list is linked through the
  stream objects, which the application takes from a pool and gives back, so objects are kept in a store, by
  their address, and the connection holds the addresses of the head and the tail. The walk of \<open>dequeue\<close> may not end
  on a list that is not one: it is a partial function. Theorem: on a proper list the three operations are
  append, removal and rotation, and they keep it proper.
\<close>

unbundle bit_operations_syntax

type_synonym sref = nat

record 'f SendStream =
  sd_id :: u64
  sd_open :: bool
  sd_head :: bytes
  sd_head_base :: u64
  sd_trim_head :: bool
  sd_mem :: bytes
  sd_file :: "'f option"
  sd_file_offset :: u64
  sd_file_len :: u64
  sd_chunk :: bytes
  sd_chunk_off :: u64
  sd_fin :: bool
  sd_total :: u64
  sd_next :: u64
  sd_lost :: range_set
  sd_acked :: range_set
  sd_fin_sent :: bool
  sd_fin_acked :: bool
  sd_max_send :: u64
  sd_blocked_reported :: bool
  sd_ready :: bool
  sd_next_ready :: "sref option"
  sd_reset_sent :: bool
  sd_reset_send_code :: u64
  sd_reset_due :: bool
  sd_stop_due :: bool
  sd_stop_send_code :: u64
  sd_send_done :: bool

definition sd_new :: "'f SendStream" where
  "sd_new = \<lparr>sd_id = 0, sd_open = False, sd_head = [], sd_head_base = 0, sd_trim_head = False, sd_mem = [], sd_file = None,
     sd_file_offset = 0, sd_file_len = 0, sd_chunk = [], sd_chunk_off = 0, sd_fin = False, sd_total = 0, sd_next = 0,
     sd_lost = [], sd_acked = [], sd_fin_sent = False, sd_fin_acked = False, sd_max_send = 0, sd_blocked_reported = False,
     sd_ready = False, sd_next_ready = None, sd_reset_sent = False, sd_reset_send_code = 0, sd_reset_due = False,
     sd_stop_due = False, sd_stop_send_code = 0, sd_send_done = False\<rparr>"

definition has_unsent :: "'f SendStream \<Rightarrow> bool" where
  "has_unsent s \<longleftrightarrow> sd_lost s \<noteq> [] \<or> sd_next s < sd_total s \<or> sd_fin s \<and> \<not> sd_fin_sent s"

definition head_end :: "'f SendStream \<Rightarrow> u64" where
  "head_end s = sd_head_base s + of_nat (length (sd_head s))"

text \<open>The objects, the application's table of them, and what the connection keeps.\<close>

record 'f SendConn =
  sc_obj :: "sref \<Rightarrow> 'f SendStream"
  sc_all :: "sref list"
  sc_head :: "sref option"
  sc_tail :: "sref option"
  sc_control :: "sref list"
  peer_max_data :: u64
  data_sent :: u64

definition sc_upd :: "sref \<Rightarrow> ('f SendStream \<Rightarrow> 'f SendStream) \<Rightarrow> 'f SendConn \<Rightarrow> 'f SendConn" where
  "sc_upd p f c = c\<lparr>sc_obj := (sc_obj c)(p := f (sc_obj c p))\<rparr>"

definition find_stream :: "u64 \<Rightarrow> 'f SendConn \<Rightarrow> sref option" where
  "find_stream i c = find (\<lambda>p. sd_open (sc_obj c p) \<and> sd_id (sc_obj c p) = i) (sc_all c)"

definition enqueue :: "sref \<Rightarrow> 'f SendConn \<Rightarrow> 'f SendConn" where
  "enqueue p c =
     (if sd_ready (sc_obj c p) \<or> \<not> sd_open (sc_obj c p) then c
      else let c = sc_upd p (\<lambda>s. s\<lparr>sd_ready := True, sd_next_ready := None\<rparr>) c;
               c = (case sc_tail c of
                      Some t \<Rightarrow> sc_upd t (\<lambda>s. s\<lparr>sd_next_ready := Some p\<rparr>) c
                    | None \<Rightarrow> c\<lparr>sc_head := Some p\<rparr>) in
        c\<lparr>sc_tail := Some p\<rparr>)"

partial_function (option) unlink :: "sref \<Rightarrow> sref option \<Rightarrow> sref option \<Rightarrow> 'f SendConn \<Rightarrow> 'f SendConn option" where
  "unlink s prev p c =
     (case p of
        None \<Rightarrow> Some c
      | Some q \<Rightarrow>
          if q \<noteq> s then unlink s p (sd_next_ready (sc_obj c q)) c
          else let c = (case prev of
                          Some r \<Rightarrow> sc_upd r (\<lambda>x. x\<lparr>sd_next_ready := sd_next_ready (sc_obj c q)\<rparr>) c
                        | None \<Rightarrow> c\<lparr>sc_head := sd_next_ready (sc_obj c q)\<rparr>) in
            Some (if sc_tail c = Some q then c\<lparr>sc_tail := prev\<rparr> else c))"

declare unlink.simps [code]

definition dequeue :: "sref \<Rightarrow> 'f SendConn \<Rightarrow> 'f SendConn option" where
  "dequeue s c =
     (if \<not> sd_ready (sc_obj c s) then Some c
      else map_option (sc_upd s (\<lambda>x. x\<lparr>sd_ready := False, sd_next_ready := None\<rparr>)) (unlink s None (sc_head c) c))"

definition rotate_q :: "'f SendConn \<Rightarrow> 'f SendConn" where
  "rotate_q c =
     (case sc_head c of
        None \<Rightarrow> c
      | Some h \<Rightarrow>
          if sc_head c = sc_tail c then c
          else let c = c\<lparr>sc_head := sd_next_ready (sc_obj c h)\<rparr>;
                   c = sc_upd h (\<lambda>s. s\<lparr>sd_next_ready := None\<rparr>) c;
                   c = (case sc_tail c of Some t \<Rightarrow> sc_upd t (\<lambda>s. s\<lparr>sd_next_ready := Some h\<rparr>) c | None \<Rightarrow> c) in
            c\<lparr>sc_tail := Some h\<rparr>)"

definition wake_blocked :: "'f SendConn \<Rightarrow> 'f SendConn" where
  "wake_blocked c =
     foldl (\<lambda>c p. let s = sc_obj c p in
              if sd_open s \<and> has_unsent s \<and> \<not> sd_ready s \<and> \<not> sd_reset_sent s
              then enqueue p (sc_upd p (\<lambda>s. s\<lparr>sd_blocked_reported := False\<rparr>) c) else c) c (sc_all c)"

definition stream_reset :: "sref \<Rightarrow> u64 \<Rightarrow> 'f SendConn \<Rightarrow> 'f SendConn" where
  "stream_reset p code c =
     (if sd_reset_sent (sc_obj c p) \<or> sd_reset_due (sc_obj c p) then c
      else (sc_upd p (\<lambda>s. s\<lparr>sd_reset_due := True, sd_reset_send_code := code, sd_ready := False\<rparr>) c)
             \<lparr>sc_control := sc_control c @ [p]\<rparr>)"

definition stream_stop_sending :: "sref \<Rightarrow> u64 \<Rightarrow> 'f SendConn \<Rightarrow> 'f SendConn" where
  "stream_stop_sending p code c =
     (if sd_stop_due (sc_obj c p) then c
      else (sc_upd p (\<lambda>s. s\<lparr>sd_stop_due := True, sd_stop_send_code := code\<rparr>) c)\<lparr>sc_control := sc_control c @ [p]\<rparr>)"


subsection \<open>A proper list\<close>

fun linked :: "('f SendConn) \<Rightarrow> sref option \<Rightarrow> sref list \<Rightarrow> bool" where
  "linked c p [] \<longleftrightarrow> p = None"
| "linked c p (x # xs) \<longleftrightarrow> p = Some x \<and> linked c (sd_next_ready (sc_obj c x)) xs"

definition ready_list :: "'f SendConn \<Rightarrow> sref list \<Rightarrow> bool" where
  "ready_list c xs \<longleftrightarrow> linked c (sc_head c) xs \<and> distinct xs \<and> sc_tail c = (if xs = [] then None else Some (last xs))
     \<and> (\<forall>p. sd_ready (sc_obj c p) \<longleftrightarrow> p \<in> set xs)"

lemma sc_upd_simps [simp]:
  "sc_obj (sc_upd p f c) = (sc_obj c)(p := f (sc_obj c p))" "sc_all (sc_upd p f c) = sc_all c"
  "sc_head (sc_upd p f c) = sc_head c" "sc_tail (sc_upd p f c) = sc_tail c" "sc_control (sc_upd p f c) = sc_control c"
  "peer_max_data (sc_upd p f c) = peer_max_data c" "data_sent (sc_upd p f c) = data_sent c"
  by (simp_all add: sc_upd_def)

lemma linked_cong: "(\<And>x. x \<in> set xs \<Longrightarrow> sd_next_ready (sc_obj c x) = sd_next_ready (sc_obj d x)) \<Longrightarrow> linked c p xs = linked d p xs"
  by (induction xs arbitrary: p) auto

lemma linked_snoc:
  "xs \<noteq> [] \<Longrightarrow> linked c p xs \<Longrightarrow> distinct xs \<Longrightarrow> y \<notin> set xs \<Longrightarrow>
   sd_next_ready (sc_obj d y) = None \<Longrightarrow> sd_next_ready (sc_obj d (last xs)) = Some y \<Longrightarrow>
   (\<And>x. x \<in> set (butlast xs) \<Longrightarrow> sd_next_ready (sc_obj d x) = sd_next_ready (sc_obj c x)) \<Longrightarrow> linked d p (xs @ [y])"
proof (induction xs arbitrary: p)
  case (Cons x xs)
  then show ?case by (cases "xs = []") auto
qed simp

lemma linked_remove:
  "linked c p xs \<Longrightarrow> distinct xs \<Longrightarrow> xs = as @ q # bs \<Longrightarrow> as \<noteq> [] \<Longrightarrow>
   (\<And>x. x \<in> set xs \<Longrightarrow> x \<noteq> last as \<Longrightarrow> sd_next_ready (sc_obj d x) = sd_next_ready (sc_obj c x)) \<Longrightarrow>
   sd_next_ready (sc_obj d (last as)) = sd_next_ready (sc_obj c q) \<Longrightarrow> linked d p (as @ bs)"
proof (induction as arbitrary: p xs)
  case (Cons a as)
  note prems = Cons.prems
  have r: "linked c (sd_next_ready (sc_obj c a)) (as @ q # bs)" and p: "p = Some a" and d: "distinct (a # as @ q # bs)"
    using prems(1,2,3) by auto
  show ?case
  proof (cases "as = []")
    case True
    have "linked d p' bs = linked c p' bs" for p' using prems(2,3,5) True by (intro linked_cong) auto
    then show ?thesis using r p True prems(6) by simp
  next
    case False
    then have "a \<noteq> last as" using d last_in_set [of as] by auto
    then have "sd_next_ready (sc_obj d a) = sd_next_ready (sc_obj c a)" using prems(3,5) False by simp
    moreover have "linked d (sd_next_ready (sc_obj c a)) (as @ bs)"
      using r d False prems(3,5,6) by (intro Cons.IH [of _ "as @ q # bs"]) auto
    ultimately show ?thesis using p by simp
  qed
qed simp

text \<open>The walk finds the object and takes it out.\<close>

lemma unlink_finds:
  assumes "linked c p (bs @ q # cs)" and "q \<notin> set bs"
  shows "unlink q prev p c = unlink q (if bs = [] then prev else Some (last bs)) (Some q) c"
  using assms
proof (induction bs arbitrary: p prev)
  case (Cons b bs)
  then have "unlink q prev p c = unlink q (Some b) (sd_next_ready (sc_obj c b)) c" by (subst unlink.simps) auto
  then show ?case using Cons by auto
qed simp

lemma enqueue_ready:
  assumes "ready_list c xs"
  shows "ready_list (enqueue p c) (if p \<in> set xs \<or> \<not> sd_open (sc_obj c p) then xs else xs @ [p])"
proof (cases "p \<in> set xs \<or> \<not> sd_open (sc_obj c p)")
  case True
  then show ?thesis using assms by (auto simp: enqueue_def ready_list_def)
next
  case False
  have nr: "\<not> sd_ready (sc_obj c p)" and d: "distinct xs" and l: "linked c (sc_head c) xs" using assms False by (auto simp: ready_list_def)
  let ?d = "enqueue p c"
  have "linked ?d (sc_head ?d) (xs @ [p])"
  proof (cases "xs = []")
    case True
    then show ?thesis using assms False nr by (simp add: enqueue_def ready_list_def Let_def)
  next
    case ne: False
    then have t: "sc_tail c = Some (last xs)" using assms by (simp add: ready_list_def)
    have "last xs \<noteq> p" using ne False last_in_set by metis
    moreover have "x \<noteq> last xs" "x \<noteq> p" if "x \<in> set (butlast xs)" for x
      using that d ne False in_set_butlastD [OF that] by (metis append_butlast_last_id disjoint_iff distinct_append list.set_intros(1), auto)
    moreover have "sc_head ?d = sc_head c" using nr False t by (simp add: enqueue_def Let_def)
    ultimately show ?thesis using ne l d False nr t
      by (intro linked_snoc [of xs c]) (auto simp: enqueue_def Let_def)
  qed
  moreover have "sd_ready (sc_obj ?d q) \<longleftrightarrow> q \<in> set (xs @ [p])" for q
    using assms nr False by (auto simp: enqueue_def ready_list_def Let_def split: option.split)
  moreover have "sc_tail ?d = Some p" using nr False by (simp add: enqueue_def Let_def)
  ultimately show ?thesis using d False by (auto simp: ready_list_def)
qed

lemma dequeue_ready:
  assumes "ready_list c xs"
  obtains d where "dequeue p c = Some d" "ready_list d (remove1 p xs)"
    "\<And>q. (sc_obj d q)\<lparr>sd_ready := False, sd_next_ready := None\<rparr> = (sc_obj c q)\<lparr>sd_ready := False, sd_next_ready := None\<rparr>"
    "sc_all d = sc_all c" "sc_control d = sc_control c" "peer_max_data d = peer_max_data c" "data_sent d = data_sent c"
proof (cases "p \<in> set xs")
  case False
  then have "\<not> sd_ready (sc_obj c p)" using assms by (simp add: ready_list_def)
  then show ?thesis using that [of c] assms False by (simp add: dequeue_def remove1_idem)
next
  case True
  obtain bs cs where xs: "xs = bs @ p # cs" "p \<notin> set bs" using split_list_first [OF True] by blast
  have l: "linked c (sc_head c) xs" and d: "distinct xs" and r: "\<And>q. sd_ready (sc_obj c q) \<longleftrightarrow> q \<in> set xs"
    and t: "sc_tail c = Some (last xs)" using assms xs by (auto simp: ready_list_def)
  define e where "e = (case if bs = [] then None else Some (last bs) of
      Some r \<Rightarrow> sc_upd r (\<lambda>x. x\<lparr>sd_next_ready := sd_next_ready (sc_obj c p)\<rparr>) c
    | None \<Rightarrow> c\<lparr>sc_head := sd_next_ready (sc_obj c p)\<rparr>)"
  define e' where "e' = (if sc_tail e = Some p then e\<lparr>sc_tail := if bs = [] then None else Some (last bs)\<rparr> else e)"
  define d' where "d' = sc_upd p (\<lambda>x. x\<lparr>sd_ready := False, sd_next_ready := None\<rparr>) e'"
  have "unlink p None (sc_head c) c = Some e'"
    using unlink_finds [OF l [unfolded xs(1)] xs(2), of None] by (subst (asm) (2) unlink.simps) (simp add: e_def e'_def Let_def)
  then have deq: "dequeue p c = Some d'" using r [of p] True by (simp add: dequeue_def d'_def)
  have rm: "remove1 p xs = bs @ cs" using xs by (simp add: remove1_append)
  have lb: "bs \<noteq> [] \<Longrightarrow> last bs \<noteq> p" using xs(2) last_in_set by metis
  have obj: "sc_obj e' = sc_obj e" "sc_head e' = sc_head e" by (simp_all add: e'_def)
  have "linked d' (sc_head d') (bs @ cs)"
  proof (cases "bs = []")
    case True
    then have "linked c (sd_next_ready (sc_obj c p)) cs" using l xs by simp
    moreover have "sc_head d' = sd_next_ready (sc_obj c p)" using True by (simp add: d'_def obj e_def)
    moreover have "linked d' x cs = linked c x cs" for x using d xs True by (intro linked_cong) (auto simp: d'_def obj e_def)
    ultimately show ?thesis using True by simp
  next
    case False
    have "linked e (sc_head c) (bs @ cs)" using False by (intro linked_remove [OF l d xs(1)]) (auto simp: e_def)
    moreover have "sc_head d' = sc_head c" using False by (simp add: d'_def obj e_def)
    moreover have "linked d' x (bs @ cs) = linked e x (bs @ cs)" for x using d xs by (intro linked_cong) (auto simp: d'_def obj)
    ultimately show ?thesis by simp
  qed
  moreover have "sc_tail d' = (if bs @ cs = [] then None else Some (last (bs @ cs)))"
  proof -
    have "sc_tail e = Some p \<longleftrightarrow> cs = []" using t xs d by (auto simp: e_def)
    then show ?thesis using t xs by (auto simp: d'_def e'_def e_def)
  qed
  moreover have "sd_ready (sc_obj d' q) \<longleftrightarrow> q \<in> set (bs @ cs)" for q
  proof -
    have "sd_ready (sc_obj e q) = sd_ready (sc_obj c q)" by (auto simp: e_def)
    then show ?thesis using r d xs by (auto simp: d'_def obj)
  qed
  ultimately have "ready_list d' (remove1 p xs)" using d xs rm by (auto simp: ready_list_def)
  moreover have "(sc_obj d' q)\<lparr>sd_ready := False, sd_next_ready := None\<rparr> = (sc_obj c q)\<lparr>sd_ready := False, sd_next_ready := None\<rparr>" for q
    by (auto simp: d'_def obj e_def)
  moreover have "sc_all d' = sc_all c" "sc_control d' = sc_control c" "peer_max_data d' = peer_max_data c" "data_sent d' = data_sent c"
    by (auto simp: d'_def e'_def e_def)
  ultimately show ?thesis using that [OF deq] by blast
qed

lemma rotate_ready:
  assumes "ready_list c xs"
  shows "ready_list (rotate_q c) (rotate1 xs)"
proof (cases xs)
  case Nil
  then show ?thesis using assms by (simp add: ready_list_def rotate_q_def)
next
  case (Cons x ys)
  have l: "linked c (sc_head c) xs" and d: "distinct xs" and r: "\<And>q. sd_ready (sc_obj c q) \<longleftrightarrow> q \<in> set xs"
    and t: "sc_tail c = Some (last xs)" using assms Cons by (auto simp: ready_list_def)
  show ?thesis
  proof (cases "ys = []")
    case True
    then show ?thesis using assms Cons by (simp add: ready_list_def rotate_q_def)
  next
    case False
    have h: "sc_head c = Some x" and lys: "linked c (sd_next_ready (sc_obj c x)) ys" using l Cons by auto
    have lx: "last ys \<noteq> x" using d Cons False last_in_set [OF False] by auto
    have ne: "sc_head c \<noteq> sc_tail c" using h t Cons False lx by simp
    let ?d = "rotate_q c"
    have d': "sc_head ?d = sd_next_ready (sc_obj c x)" "sc_tail ?d = Some x"
      "sc_obj ?d = (sc_obj c)(x := (sc_obj c x)\<lparr>sd_next_ready := None\<rparr>, last ys := (sc_obj c (last ys))\<lparr>sd_next_ready := Some x\<rparr>)"
      using h t ne Cons False lx by (auto simp: rotate_q_def Let_def)
    have bl: "y \<noteq> last ys" if "y \<in> set (butlast ys)" for y
      using that d Cons False by (metis append_butlast_last_id disjoint_iff distinct.simps(2) distinct_append list.set_intros(1))
    have "linked ?d (sc_head ?d) (ys @ [x])"
      using lys d Cons False lx bl in_set_butlastD [of _ ys] by (intro linked_snoc [of ys c]) (auto simp: d')
    moreover have "sd_ready (sc_obj ?d q) \<longleftrightarrow> q \<in> set (ys @ [x])" for q using r Cons by (auto simp: d')
    ultimately show ?thesis using d Cons d'(2) by (auto simp: ready_list_def)
  qed
qed


subsection \<open>The contract of the list\<close>

datatype 'p QueueOp = q_enqueue 'p | q_dequeue 'p | q_rotate

fun list_op :: "('p \<Rightarrow> bool) \<Rightarrow> 'p list \<Rightarrow> 'p QueueOp \<Rightarrow> 'p list" where
  "list_op admits xs (q_enqueue p) = (if p \<in> set xs \<or> \<not> admits p then xs else xs @ [p])"
| "list_op admits xs (q_dequeue p) = remove1 p xs"
| "list_op admits xs q_rotate = rotate1 xs"

text \<open>
  What the packetiser relies on: a queue of the streams that have something to send, each at most once. \<open>admits\<close> is
  whether a stream may enter, which no operation of the queue changes.
\<close>

locale ready_queue =
  fixes represents :: "'c \<Rightarrow> 'p list \<Rightarrow> bool" and admits :: "'c \<Rightarrow> 'p \<Rightarrow> bool"
    and enq :: "'p \<Rightarrow> 'c \<Rightarrow> 'c" and deq :: "'p \<Rightarrow> 'c \<Rightarrow> 'c option" and rot :: "'c \<Rightarrow> 'c" and front :: "'c \<Rightarrow> 'p option"
  assumes enq_law: "represents c xs \<Longrightarrow> represents (enq p c) (list_op (admits c) xs (q_enqueue p)) \<and> admits (enq p c) = admits c"
    and deq_law: "represents c xs \<Longrightarrow> \<exists>d. deq p c = Some d \<and> represents d (list_op (admits c) xs (q_dequeue p)) \<and> admits d = admits c"
    and rot_law: "represents c xs \<Longrightarrow> represents (rot c) (list_op (admits c) xs q_rotate) \<and> admits (rot c) = admits c"
    and front_law: "represents c xs \<Longrightarrow> front c = (if xs = [] then None else Some (hd xs))"
begin

primrec run :: "'p QueueOp list \<Rightarrow> 'c \<Rightarrow> 'c option" where
  "run [] c = Some c"
| "run (a # as) c = Option.bind (case a of q_enqueue p \<Rightarrow> Some (enq p c) | q_dequeue p \<Rightarrow> deq p c | q_rotate \<Rightarrow> Some (rot c)) (run as)"

lemma run_represents:
  "represents c xs \<Longrightarrow> \<exists>d. run as c = Some d \<and> represents d (foldl (list_op (admits c)) xs as) \<and> admits d = admits c"
proof (induction as arbitrary: c xs)
  case (Cons a as)
  have "\<exists>d. (case a of q_enqueue p \<Rightarrow> Some (enq p c) | q_dequeue p \<Rightarrow> deq p c | q_rotate \<Rightarrow> Some (rot c)) = Some d
      \<and> represents d (list_op (admits c) xs a) \<and> admits d = admits c"
    using enq_law [OF Cons.prems] deq_law [OF Cons.prems] rot_law [OF Cons.prems] by (cases a) auto
  then obtain d where d: "(case a of q_enqueue p \<Rightarrow> Some (enq p c) | q_dequeue p \<Rightarrow> deq p c | q_rotate \<Rightarrow> Some (rot c)) = Some d"
    "represents d (list_op (admits c) xs a)" "admits d = admits c" by blast
  then show ?case using Cons.IH [OF d(2)] by simp
qed simp

lemma turns:
  "represents c xs \<Longrightarrow> represents ((rot ^^ k) c) ((rotate1 ^^ k) xs)"
proof (induction k)
  case (Suc k)
  then show ?case using rot_law [of "(rot ^^ k) c"] by simp
qed simp

lemma turn_front:
  assumes "represents c xs" and "xs \<noteq> []"
  shows "front ((rot ^^ k) c) = Some (xs ! (k mod length xs))"
proof -
  have "(rotate1 ^^ k) xs = List.rotate k xs" by (simp add: rotate_def)
  then have "front ((rot ^^ k) c) = Some (hd (List.rotate k xs))" using front_law [OF turns [OF assms(1), of k]] assms(2) by simp
  then show ?thesis using assms(2) by (simp add: hd_rotate_conv_nth)
qed

end

lemma open_kept:
  "sd_open (sc_obj (enqueue p c) q) = sd_open (sc_obj c q)" "sd_open (sc_obj (rotate_q c) q) = sd_open (sc_obj c q)"
  by (auto simp: enqueue_def rotate_q_def Let_def split: option.split)

interpretation rq: ready_queue ready_list "\<lambda>c p. sd_open (sc_obj c p)" enqueue dequeue rotate_q sc_head
proof
  fix c :: "'a SendConn" and xs p
  assume r: "ready_list c xs"
  show "ready_list (enqueue p c) (list_op (\<lambda>p. sd_open (sc_obj c p)) xs (q_enqueue p)) \<and> (\<lambda>q. sd_open (sc_obj (enqueue p c) q)) = (\<lambda>p. sd_open (sc_obj c p))"
    using enqueue_ready [OF r, of p] by (simp add: open_kept)
  show "ready_list (rotate_q c) (list_op (\<lambda>p. sd_open (sc_obj c p)) xs q_rotate) \<and> (\<lambda>p. sd_open (sc_obj (rotate_q c) p)) = (\<lambda>p. sd_open (sc_obj c p))"
    using rotate_ready [OF r] by (simp add: open_kept)
  show "sc_head c = (if xs = [] then None else Some (hd xs))" using r by (cases xs) (auto simp: ready_list_def)
  obtain d where d: "dequeue p c = Some d" "ready_list d (remove1 p xs)"
    "\<And>q. (sc_obj d q)\<lparr>sd_ready := False, sd_next_ready := None\<rparr> = (sc_obj c q)\<lparr>sd_ready := False, sd_next_ready := None\<rparr>"
    using dequeue_ready [OF r] by metis
  have "sd_open (sc_obj d q) = sd_open (sc_obj c q)" for q using arg_cong [OF d(3) [of q], of sd_open] by simp
  then show "\<exists>d. dequeue p c = Some d \<and> ready_list d (list_op (\<lambda>p. sd_open (sc_obj c p)) xs (q_dequeue p)) \<and> (\<lambda>q. sd_open (sc_obj d q)) = (\<lambda>p. sd_open (sc_obj c p))"
    using d by auto
qed

text \<open>The calls on a connection, one after another.\<close>

primrec run_ready :: "sref QueueOp list \<Rightarrow> 'f SendConn \<Rightarrow> 'f SendConn option" where
  "run_ready [] c = Some c"
| "run_ready (a # as) c =
     Option.bind (case a of q_enqueue p \<Rightarrow> Some (enqueue p c) | q_dequeue p \<Rightarrow> dequeue p c | q_rotate \<Rightarrow> Some (rotate_q c)) (run_ready as)"

lemma run_ready_eq: "run_ready as = rq.run as"
  by (induction as) (auto intro!: ext)

text \<open>
  C16. The ready list takes turns. From a connection with no stream ready, any sequence of \<open>enqueue\<close>, \<open>dequeue\<close> and
  \<open>rotate\<close> ends, and leaves the objects linked as the list that appending at the end, removing and rotating
  give, an open stream at most once; and turning it \<open>k\<close> times brings each stream to the front in its turn.
\<close>

theorem ready_list_round_robin:
  assumes "ready_list c []"
  shows "\<exists>d. run_ready as c = Some d
    \<and> (let xs = foldl (list_op (\<lambda>p. sd_open (sc_obj c p))) [] as in
        ready_list d xs \<and> (xs \<noteq> [] \<longrightarrow> sc_head ((rotate_q ^^ k) d) = Some (xs ! (k mod length xs))))"
proof -
  obtain d where d: "run_ready as c = Some d" "ready_list d (foldl (list_op (\<lambda>p. sd_open (sc_obj c p))) [] as)"
    using rq.run_represents [OF assms, of as] by (auto simp: run_ready_eq)
  then show ?thesis using rq.turn_front [OF d(2)] by (auto simp: Let_def)
qed

definition conn_of :: "'f SendStream list \<Rightarrow> 'f SendConn" where
  "conn_of ss = \<lparr>sc_obj = (\<lambda>p. if p < length ss then ss ! p else sd_new), sc_all = [0..<length ss], sc_head = None, sc_tail = None,
     sc_control = [], peer_max_data = 0, data_sent = 0\<rparr>"

lemma ready_list_round_robin_witness:
  "\<exists>d. run_ready [q_enqueue 0, q_enqueue 1, q_enqueue 0, q_enqueue 2, q_dequeue 1] (conn_of (replicate 3 (sd_new\<lparr>sd_open := True\<rparr>))) = Some d
     \<and> ready_list (d :: unit SendConn) [0, 2] \<and> sc_head (rotate_q d) = Some 2"
proof -
  let ?c = "conn_of (replicate 3 (sd_new\<lparr>sd_open := True\<rparr>)) :: unit SendConn"
  have r: "ready_list ?c []" by (simp add: conn_of_def ready_list_def sd_new_def nth_replicate)
  have o: "sd_open (sc_obj ?c p) \<longleftrightarrow> p < 3" for p by (simp add: conn_of_def sd_new_def)
  show ?thesis
    using ready_list_round_robin [OF r, of "[q_enqueue 0, q_enqueue 1, q_enqueue 0, q_enqueue 2, q_dequeue 1]" 1] by (simp add: o)
qed

end
