(* ===== verification/H3_Frame.thy ===== *)
theory H3_Frame
  imports Varint
begin

text \<open>
  The frames of HTTP/3 (\<^verbatim>\<open>src/http3/frame.hpp\<close>): the reserved types and the header of a frame, which
  the answers of the transport and the HEADERS frames both write.
\<close>

definition h3_reserved :: "u64 \<Rightarrow> bool" where
  "h3_reserved t \<longleftrightarrow> t \<ge> 0x21 \<and> (t - 0x21) mod 0x1f = 0"

definition append_h3_header :: "bytes \<Rightarrow> u64 \<Rightarrow> u64 \<Rightarrow> bytes" where
  "append_h3_header out ty len = append_varint (append_varint out ty) len"

lemma length_append_h3_header: "length (append_h3_header out ty len) \<le> length out + 16"
  using varint_size_bounds [of ty] varint_size_bounds [of len] by (simp add: append_h3_header_def append_varint_def length_write_varint)

end
