(* ===== verification/Quic_Send.thy ===== *)
theory Quic_Send
  imports Quic_Ready H3_Frame "HOL-Library.Multiset"
begin

text \<open>
  What a QUIC connection sends on its streams (\<^verbatim>\<open>src/quic/connection.hpp\<close>): \<open>copy_stream_bytes\<close> over the head, the memory
  body or the file of an answer; the part of \<open>build_packet\<close> that fills a packet with STREAM frames; what an
  acknowledgement and a loss do to a stream; credit, reset and close. Reading a file is a parameter. Callbacks to the
  application are the flags the definitions return. Theorems: a frame carries the bytes of the answer at its offset;
  whatever the peer acknowledges and the network loses, no byte is forgotten, no limit of the peer is
  exceeded, and a stream that is not in the ready list waits for credit; and two ways in which a stream is lost.
\<close>

unbundle bit_operations_syntax

subsection \<open>The bytes of an answer\<close>

lemma word_in_span:
  assumes "(b :: u64) \<le> a" and "a < b + of_nat n"
  shows "unat (a - b) < n"
proof (cases "unat b + n < 2 ^ 64")
  case True
  then show ?thesis using assms unat_add_nat [OF True] by (simp add: unat_sub word_less_nat_alt word_le_nat_alt)
next
  case False
  show ?thesis
  proof (cases "n < 2 ^ 64")
    case True
    have "unat (b + of_nat n) = (unat b + n) mod 2 ^ 64" using True by (simp add: unat_word_ariths unat_of_nat take_bit_nat_eq_self)
    also have "\<dots> = unat b + n - 2 ^ 64" using False True u64_less [of b] by (simp add: mod_if)
    finally have "unat (b + of_nat n) < unat b" using True False by simp
    then show ?thesis using assms by (simp add: word_less_nat_alt word_le_nat_alt)
  next
    case False
    then show ?thesis using u64_less [of "a - b"] by simp
  qed
qed

text \<open>
  \<open>File::read_at\<close> repeats \<open>pread\<close> while a signal interrupts it. What the system answers to the calls of one read, in order,
  is a parameter of the model; the result is \<open>None\<close> for \<open>-1\<close> and \<open>Some []\<close> for \<open>0\<close>, the end of the file.
\<close>

datatype PRead = pr_interrupted | pr_error | pr_bytes bytes

type_synonym 'f pread = "'f \<Rightarrow> nat \<Rightarrow> u64 \<Rightarrow> PRead list"

fun read_at :: "PRead list \<Rightarrow> bytes option" where
  "read_at (pr_interrupted # rs) = read_at rs"
| "read_at (pr_bytes bs # rs) = Some bs"
| "read_at (pr_error # rs) = None"
| "read_at [] = None"

text \<open>The bytes in the buffer after the read: none exactly when the result was not positive.\<close>

definition file_read :: "'f pread \<Rightarrow> 'f \<Rightarrow> nat \<Rightarrow> u64 \<Rightarrow> bytes" where
  "file_read rd f n offs = (case read_at (rd f n offs) of None \<Rightarrow> [] | Some bs \<Rightarrow> bs)"

function copy_loop :: "'f pread \<Rightarrow> 'f SendStream \<Rightarrow> u64 \<Rightarrow> nat \<Rightarrow> bytes \<Rightarrow> bytes option \<times> 'f SendStream" where
  "copy_loop rd s offs len dst =
     (if length dst \<ge> len then (Some dst, s)
      else let at = offs + of_nat (length dst); want = len - length dst in
        if at < head_end s then
          (if at < sd_head_base s then (None, s)
           else let rel = unat (at - sd_head_base s) in
             copy_loop rd s offs len (dst @ take (min want (length (sd_head s) - rel)) (drop rel (sd_head s))))
        else let body_at = at - head_end s in
          if sd_mem s \<noteq> [] then
            (if unat body_at \<ge> length (sd_mem s) then (None, s)
             else copy_loop rd s offs len (dst @ take (min want (length (sd_mem s) - unat body_at)) (drop (unat body_at) (sd_mem s))))
          else
            (case sd_file s of
               None \<Rightarrow> (None, s)
             | Some f \<Rightarrow>
                 if body_at \<ge> sd_file_len s then (None, s)
                 else let held = body_at \<ge> sd_chunk_off s \<and> body_at < sd_chunk_off s + of_nat (length (sd_chunk s));
                          r = file_read rd f (min 65536 (unat (sd_file_len s - body_at))) (sd_file_offset s + body_at) in
                   if \<not> held \<and> r = [] then (None, s)
                   else let s = if held then s else s\<lparr>sd_chunk_off := body_at, sd_chunk := r\<rparr>;
                            rel = unat (body_at - sd_chunk_off s) in
                     copy_loop rd s offs len (dst @ take (min want (length (sd_chunk s) - rel)) (drop rel (sd_chunk s)))))"
  by pat_completeness auto
termination
proof (relation "measure (\<lambda>(rd, s, offs, len, dst). len - length dst)", goal_cases)
  case (2 rd s offs len dst x xa xb)
  then have "xb < length (sd_head s)" using word_in_span [of "sd_head_base s" x "length (sd_head s)"] by (simp add: head_end_def)
  then show ?case using 2 by auto
next
  case (3 rd s offs len dst x xa xb)
  then show ?case by auto
next
  case (4 rd s offs len dst x xa xb f held r s' rel)
  have "rel < length (sd_chunk s')" using 4 word_in_span [of "sd_chunk_off s" xb "length (sd_chunk s)"] by auto
  then show ?case using 4 by auto
qed simp

declare copy_loop.simps [simp del]

definition copy_stream_bytes :: "'f pread \<Rightarrow> 'f SendStream \<Rightarrow> u64 \<Rightarrow> nat \<Rightarrow> bytes option \<times> 'f SendStream" where
  "copy_stream_bytes rd s offs len = copy_loop rd s offs len []"


subsection \<open>Filling a packet\<close>

text \<open>The payload so far, the items its record will hold, and whether it elicits an acknowledgement.\<close>

record SendOut =
  so_bytes :: bytes
  so_items :: "SentItem list"
  so_eliciting :: bool

text \<open>What the front stream does next: lost bytes first, then new ones within the credit, then a bare FIN.\<close>

datatype SendPlan = sp_send u64 nat bool | sp_blocked u64 | sp_idle

definition send_plan :: "nat \<Rightarrow> 'f SendConn \<Rightarrow> 'f SendStream \<Rightarrow> SendPlan" where
  "send_plan avail c s =
     (if sd_lost s \<noteq> [] then
        let b = fst (hd (sd_lost s)) in sp_send b (unat (min (snd (hd (sd_lost s)) - b) (of_nat avail))) True
      else if sd_next s < sd_total s then
        let conn_room = (if peer_max_data c > data_sent c then peer_max_data c - data_sent c else 0);
            stream_room = (if sd_max_send s > sd_next s then sd_max_send s - sd_next s else 0);
            allowed = min (min conn_room stream_room) (sd_total s - sd_next s) in
        if allowed = 0 then sp_blocked stream_room else sp_send (sd_next s) (unat (min allowed (of_nat avail))) False
      else if sd_fin s \<and> \<not> sd_fin_sent s then sp_send (sd_total s) 0 False
      else sp_idle)"

datatype 'x Turn = t_break | t_next 'x

text \<open>What a frame of the bytes from \<open>b\<close> on changes.\<close>

definition frame_sent :: "sref \<Rightarrow> u64 \<Rightarrow> nat \<Rightarrow> bool \<Rightarrow> bool \<Rightarrow> 'f SendConn \<Rightarrow> 'f SendConn" where
  "frame_sent p b len resend fin c =
     (let c = (if resend then sc_upd p (\<lambda>s. s\<lparr>sd_lost := rs_remove (sd_lost s) b (b + of_nat len)\<rparr>) c
               else if len \<noteq> 0 then (sc_upd p (\<lambda>s. s\<lparr>sd_next := b + of_nat len\<rparr>) c)\<lparr>data_sent := data_sent c + of_nat len\<rparr>
               else c) in
      if fin then sc_upd p (\<lambda>s. s\<lparr>sd_fin_sent := True\<rparr>) c else c)"

definition send_frame :: "'f pread \<Rightarrow> nat \<Rightarrow> sref \<Rightarrow> u64 \<Rightarrow> nat \<Rightarrow> bool \<Rightarrow> SendOut \<Rightarrow> 'f SendConn \<Rightarrow> (SendOut \<times> 'f SendConn) Turn option" where
  "send_frame rd room p b len resend out c =
     (let s = sc_obj c p;
          fin = (sd_fin s \<and> b + of_nat len = sd_total s);
          hdr = put_stream_header (room - length (so_bytes out)) (sd_id s) b len fin True in
      if hdr = [] then Some t_break
      else let (d, s) = (if len = 0 then (Some [], s) else copy_stream_bytes rd s b len);
               c = sc_upd p (\<lambda>_. s) c in
        case d of
          None \<Rightarrow> map_option (\<lambda>c. t_next (out, c)) (dequeue p (stream_reset p 0x102 c))
        | Some d \<Rightarrow>
            let out = out\<lparr>so_bytes := so_bytes out @ hdr @ d,
                        so_items := so_items out @ [\<lparr>si_kind = it_stream, si_fin = fin, si_id = sd_id s, si_offset = b, si_len = of_nat len\<rparr>],
                        so_eliciting := True\<rparr>;
                c = frame_sent p b len resend fin c in
            if has_unsent (sc_obj c p) then Some (t_next (out, rotate_q c))
            else map_option (\<lambda>c. t_next (out, c)) (dequeue p c))"

text \<open>One turn of the front stream \<open>p\<close>. \<open>None\<close>: the walk of \<open>dequeue\<close> does not end.\<close>

definition stream_turn :: "'f pread \<Rightarrow> nat \<Rightarrow> sref \<Rightarrow> SendOut \<Rightarrow> 'f SendConn \<Rightarrow> (SendOut \<times> 'f SendConn) Turn option" where
  "stream_turn rd room p out c =
     (let s = sc_obj c p; w = length (so_bytes out);
          hdr_max = stream_header_size (sd_id s) (sd_total s) 65535 True in
      if room - w \<le> hdr_max + 1 then Some t_break
      else case send_plan (room - w - hdr_max) c s of
        sp_blocked stream_room \<Rightarrow>
          let out = (if sd_blocked_reported s then out
                     else out\<lparr>so_bytes := so_bytes out @ (if stream_room = 0 then put_stream_data_blocked (room - w) (sd_id s) (sd_max_send s)
                                                         else put_data_blocked (room - w) (peer_max_data c)),
                              so_eliciting := True\<rparr>);
              c = sc_upd p (\<lambda>s. s\<lparr>sd_blocked_reported := True\<rparr>) c in
          map_option (\<lambda>c. t_next (out, c)) (dequeue p c)
      | sp_idle \<Rightarrow> map_option (\<lambda>c. t_next (out, c)) (dequeue p c)
      | sp_send b len resend \<Rightarrow> send_frame rd room p b len resend out c)"

primrec send_loop :: "'f pread \<Rightarrow> nat \<Rightarrow> nat \<Rightarrow> SendOut \<Rightarrow> 'f SendConn \<Rightarrow> (SendOut \<times> 'f SendConn) option" where
  "send_loop rd room 0 out c = Some (out, c)"
| "send_loop rd room (Suc n) out c =
     (case sc_head c of
        None \<Rightarrow> Some (out, c)
      | Some p \<Rightarrow>
          Option.bind (stream_turn rd room p out c)
            (\<lambda>t. case t of t_break \<Rightarrow> Some (out, c) | t_next (out, c) \<Rightarrow> send_loop rd room n out c))"

text \<open>\<open>may_send\<close>: the congestion window has room for a datagram, or a probe is due.\<close>

definition send_streams :: "'f pread \<Rightarrow> bool \<Rightarrow> nat \<Rightarrow> SendOut \<Rightarrow> 'f SendConn \<Rightarrow> (SendOut \<times> 'f SendConn) option" where
  "send_streams rd may_send room out c = (if may_send then send_loop rd room 64 out c else Some (out, c))"

text \<open>
  One round of the loop over the streams with a RESET_STREAM or STOP_SENDING due: \<open>None\<close> for the break, else whether
  the application is told that the sending half is over.
\<close>

definition put_item :: "ItemKind \<Rightarrow> u64 \<Rightarrow> bytes \<Rightarrow> SendOut \<Rightarrow> SendOut" where
  "put_item k i bs out =
     out\<lparr>so_bytes := so_bytes out @ bs, so_items := so_items out @ [\<lparr>si_kind = k, si_fin = False, si_id = i, si_offset = 0, si_len = 0\<rparr>],
         so_eliciting := True\<rparr>"

definition control_frames :: "nat \<Rightarrow> SendOut \<Rightarrow> 'f SendConn \<Rightarrow> bool \<times> bool \<times> SendOut \<times> 'f SendConn" where
  "control_frames room out c =
     (let p = last (sc_control c); s = sc_obj c p;
          n = put_reset_stream (room - length (so_bytes out)) (sd_id s) (sd_reset_send_code s) (sd_total s);
          reset_now = (sd_reset_due s \<and> n \<noteq> []);
          fits = (sd_reset_due s \<longrightarrow> n \<noteq> []);
          out = (if reset_now then put_item it_reset_stream (sd_id s) n out else out);
          c = (if reset_now then sc_upd p (\<lambda>s. s\<lparr>sd_reset_due := False, sd_reset_sent := True\<rparr>) c else c);
          m = put_stop_sending (room - length (so_bytes out)) (sd_id s) (sd_stop_send_code s);
          stop_now = (fits \<and> sd_stop_due s \<and> m \<noteq> []);
          fits = (fits \<and> (sd_stop_due s \<longrightarrow> m \<noteq> []));
          out = (if stop_now then put_item it_stop_sending (sd_id s) m out else out);
          c = (if stop_now then sc_upd p (\<lambda>s. s\<lparr>sd_stop_due := False\<rparr>) c else c) in
      (reset_now, fits, out, c))"

definition control_step :: "nat \<Rightarrow> SendOut \<Rightarrow> 'f SendConn \<Rightarrow> (bool option \<times> SendOut \<times> 'f SendConn) option" where
  "control_step room out c =
     (let p = last (sc_control c); (reset_now, fits, out, c) = control_frames room out c in
      if \<not> fits then Some (None, out, c)
      else let c = c\<lparr>sc_control := butlast (sc_control c)\<rparr> in
        if reset_now \<and> \<not> sd_send_done (sc_obj c p) then
          map_option (\<lambda>c. (Some True, out, c)) (dequeue p (sc_upd p (\<lambda>s. s\<lparr>sd_send_done := True\<rparr>) c))
        else Some (Some False, out, c))"


subsection \<open>Acknowledged, lost, closed\<close>

text \<open>An acknowledged item of a stream; the flag is whether the application is told that all was sent.\<close>

definition trim_acked :: "'f SendStream \<Rightarrow> 'f SendStream" where
  "trim_acked s =
     (let upt = contiguous_from (sd_acked s) (sd_head_base s) in
      if upt > sd_head_base s + 16384 \<and> upt \<le> head_end s
      then s\<lparr>sd_head := drop (unat (upt - sd_head_base s)) (sd_head s), sd_head_base := upt, sd_acked := rs_remove_below (sd_acked s) upt\<rparr>
      else s)"

definition acked_stream :: "SentItem \<Rightarrow> 'f SendStream \<Rightarrow> bool \<times> 'f SendStream" where
  "acked_stream it s =
     (let s = (if si_len it \<noteq> 0 then s\<lparr>sd_acked := rs_add (sd_acked s) (si_offset it) (si_offset it + ucast (si_len it))\<rparr> else s);
          s = (if si_fin it then s\<lparr>sd_fin_acked := True\<rparr> else s) in
      if sd_trim_head s then (False, trim_acked s)
      else if \<not> sd_send_done s \<and> sd_fin_acked s \<and> (sd_total s = 0 \<or> rs_contains (sd_acked s) 0 (sd_total s))
        then (True, s\<lparr>sd_send_done := True\<rparr>)
      else (False, s))"

definition ack_item :: "SentItem \<Rightarrow> 'f SendConn \<Rightarrow> bool \<times> 'f SendConn" where
  "ack_item it c =
     (case find_stream (si_id it) c of
        None \<Rightarrow> (False, c)
      | Some p \<Rightarrow>
          if \<not> sd_open (sc_obj c p) then (False, c)
          else let (told, s) = acked_stream it (sc_obj c p) in (told, sc_upd p (\<lambda>_. s) c))"

definition lost_stream :: "SentItem \<Rightarrow> 'f SendStream \<Rightarrow> 'f SendStream" where
  "lost_stream it s =
     (let s = (if si_len it \<noteq> 0 then s\<lparr>sd_lost := rs_add (sd_lost s) (si_offset it) (si_offset it + ucast (si_len it))\<rparr> else s) in
      if si_fin it then s\<lparr>sd_fin_sent := False\<rparr> else s)"

definition lost_item :: "SentItem \<Rightarrow> 'f SendConn \<Rightarrow> 'f SendConn" where
  "lost_item it c =
     (case find_stream (si_id it) c of
        None \<Rightarrow> c
      | Some p \<Rightarrow>
          let s = sc_obj c p in
          if \<not> sd_open s \<or> sd_send_done s \<or> sd_reset_sent s then c
          else let c = sc_upd p (lost_stream it) c in
            if has_unsent (sc_obj c p) then enqueue p c else c)"

definition on_max_data :: "u64 \<Rightarrow> 'f SendConn \<Rightarrow> 'f SendConn" where
  "on_max_data v c = (if v > peer_max_data c then wake_blocked (c\<lparr>peer_max_data := v\<rparr>) else c)"

text \<open>MAX_STREAM_DATA, the stream already found.\<close>

definition on_max_stream_data :: "sref \<Rightarrow> u64 \<Rightarrow> 'f SendConn \<Rightarrow> 'f SendConn" where
  "on_max_stream_data p v c =
     (if v > sd_max_send (sc_obj c p) then
        let c = sc_upd p (\<lambda>s. s\<lparr>sd_max_send := v, sd_blocked_reported := False\<rparr>) c in
        if has_unsent (sc_obj c p) then enqueue p c else c
      else c)"

text \<open>The connection's part of \<open>stream_closed\<close>, then the object goes back to the pool, reset.\<close>

definition close_send :: "sref \<Rightarrow> 'f SendConn \<Rightarrow> 'f SendConn option" where
  "close_send p c = map_option (\<lambda>c. sc_upd p (\<lambda>s. s\<lparr>sd_open := False\<rparr>) (c\<lparr>sc_control := filter (\<lambda>q. q \<noteq> p) (sc_control c)\<rparr>)) (dequeue p c)"

definition release :: "sref \<Rightarrow> 'f SendConn \<Rightarrow> 'f SendConn" where
  "release p c = (sc_upd p (\<lambda>_. sd_new) c)\<lparr>sc_all := filter (\<lambda>q. q \<noteq> p) (sc_all c)\<rparr>"

text \<open>A stream of a client, with its object from the pool; the answer of a request; more on a stream of our own.\<close>

definition open_send :: "sref \<Rightarrow> u64 \<Rightarrow> u64 \<Rightarrow> bool \<Rightarrow> 'f SendConn \<Rightarrow> 'f SendConn" where
  "open_send p i credit trim c =
     (sc_upd p (\<lambda>_. sd_new\<lparr>sd_id := i, sd_open := True, sd_max_send := credit, sd_trim_head := trim\<rparr>) c)\<lparr>sc_all := sc_all c @ [p]\<rparr>"

datatype 'f RBody = rb_none | rb_mem bytes | rb_file 'f u64 u64 | rb_stream

definition rb_length :: "'f RBody \<Rightarrow> u64" where
  "rb_length body = (case body of rb_mem bs \<Rightarrow> of_nat (length bs) | rb_file f offs len \<Rightarrow> len | _ \<Rightarrow> 0)"

definition put_body :: "'f RBody \<Rightarrow> 'f SendStream \<Rightarrow> 'f SendStream" where
  "put_body body s =
     (case body of
        rb_mem bs \<Rightarrow> s\<lparr>sd_mem := bs\<rparr>
      | rb_file f offs len \<Rightarrow> s\<lparr>sd_file := Some f, sd_file_offset := offs, sd_file_len := len\<rparr>
      | _ \<Rightarrow> s)"

text \<open>
  \<open>respond\<close> on a stream that is open and not answered yet: \<open>head\<close> is what \<open>build_head\<close> wrote and \<open>is_head\<close> whether the request was a
  HEAD. A streamed body is not supported: the stream is reset with its head already built.
\<close>

definition respond :: "sref \<Rightarrow> bytes \<Rightarrow> bool \<Rightarrow> 'f RBody \<Rightarrow> 'f SendConn \<Rightarrow> 'f SendConn" where
  "respond p head is_head body c =
     (let s = (sc_obj c p)\<lparr>sd_head := head\<rparr>; body = (if is_head then rb_none else body) in
      case body of
        rb_stream \<Rightarrow> stream_reset p 0x102 (sc_upd p (\<lambda>_. s) c)
      | _ \<Rightarrow>
        let s = put_body body s; body_len = rb_length body;
            s = (if body_len \<noteq> 0 then s\<lparr>sd_head := append_h3_header (sd_head s) 0 body_len\<rparr> else s) in
        enqueue p (sc_upd p (\<lambda>_. s\<lparr>sd_total := of_nat (length (sd_head s)) + body_len, sd_fin := True\<rparr>) c))"

definition append_head :: "sref \<Rightarrow> bytes \<Rightarrow> 'f SendConn \<Rightarrow> 'f SendConn" where
  "append_head p bs c =
     (let s = sc_obj c p; s = s\<lparr>sd_head := sd_head s @ bs\<rparr> in
      enqueue p (sc_upd p (\<lambda>_. s\<lparr>sd_total := head_end s\<rparr>) c))"


subsection \<open>A frame carries the bytes of the answer\<close>

text \<open>
  \<open>fc\<close> gives the content of a file; a read that succeeds returns bytes of it from the offset on, no more than asked. The
  bytes of a stream are its head and its body.
\<close>

definition reads_ok :: "'f pread \<Rightarrow> ('f \<Rightarrow> bytes) \<Rightarrow> bool" where
  "reads_ok rd fc \<longleftrightarrow> (\<forall>f n offs bs. read_at (rd f n offs) = Some bs \<longrightarrow> bs = take (length bs) (drop (unat offs) (fc f)) \<and> length bs \<le> n)"

lemma file_read_ok:
  assumes "reads_ok rd fc"
  shows "file_read rd f n offs = take (length (file_read rd f n offs)) (drop (unat offs) (fc f))" and "length (file_read rd f n offs) \<le> n"
  using assms by (cases "read_at (rd f n offs)"; auto simp: reads_ok_def file_read_def)+

text \<open>A read of the region of the file that was asked for bytes and gave none.\<close>

definition read_fails :: "'f pread \<Rightarrow> 'f SendStream \<Rightarrow> bool" where
  "read_fails rd s \<longleftrightarrow> (\<exists>f b n. sd_file s = Some f \<and> b < sd_file_len s \<and> 0 < n \<and> n \<le> unat (sd_file_len s - b)
     \<and> read_at (rd f n (sd_file_offset s + b)) \<in> {None, Some []})"

definition body_bytes :: "('f \<Rightarrow> bytes) \<Rightarrow> 'f SendStream \<Rightarrow> bytes" where
  "body_bytes fc s =
     (if sd_mem s \<noteq> [] then sd_mem s
      else case sd_file s of None \<Rightarrow> [] | Some f \<Rightarrow> take (unat (sd_file_len s)) (drop (unat (sd_file_offset s)) (fc f)))"

definition sd_bytes :: "('f \<Rightarrow> bytes) \<Rightarrow> 'f SendStream \<Rightarrow> bytes" where
  "sd_bytes fc s = sd_head s @ body_bytes fc s"

text \<open>The file region lies in the file, offsets do not wrap, and what was read ahead is of the region.\<close>

definition source_ok :: "('f \<Rightarrow> bytes) \<Rightarrow> 'f SendStream \<Rightarrow> bool" where
  "source_ok fc s \<longleftrightarrow> unat (sd_head_base s) + length (sd_bytes fc s) < 2 ^ 62
     \<and> (sd_mem s = [] \<longrightarrow> (\<forall>f. sd_file s = Some f \<longrightarrow> unat (sd_file_offset s) + unat (sd_file_len s) \<le> length (fc f) \<and> length (fc f) < 2 ^ 63
          \<and> unat (sd_chunk_off s) + length (sd_chunk s) \<le> unat (sd_file_len s)
          \<and> sd_chunk s = take (length (sd_chunk s)) (drop (unat (sd_chunk_off s)) (body_bytes fc s))))"

definition same_source :: "'f SendStream \<Rightarrow> 'f SendStream \<Rightarrow> bool" where
  "same_source s s' \<longleftrightarrow> s' = s\<lparr>sd_chunk_off := sd_chunk_off s', sd_chunk := sd_chunk s'\<rparr>"

lemma same_source_refl [simp]: "same_source s s"
  by (simp add: same_source_def)

lemma same_source_trans: "same_source s s' \<Longrightarrow> same_source s' s'' \<Longrightarrow> same_source s s''"
  by (cases s; cases s'; cases s'') (simp add: same_source_def)

lemma piece_step:
  assumes "dst = take (length dst) (drop k B)" and "drop (k + length dst) B = xs @ ys" and "n \<le> length xs"
  shows "dst @ take n xs = take (length (dst @ take n xs)) (drop k B)"
proof -
  have "take (length dst + n) (drop k B) = take (length dst) (drop k B) @ take n (drop (length dst) (drop k B))" by (rule take_add)
  also have "drop (length dst) (drop k B) = xs @ ys" using assms(2) by (simp add: add.commute)
  finally show ?thesis using assms by simp
qed

text \<open>What the stream has read ahead, or reads now, continues the body.\<close>

lemma chunk_step:
  assumes ok: "source_ok fc s" and rd: "reads_ok rd fc" and f: "sd_mem s = []" "sd_file s = Some f" and b: "b < sd_file_len s"
    and r: "r = file_read rd f (min 65536 (unat (sd_file_len s - b))) (sd_file_offset s + b)"
    and got: "b \<ge> sd_chunk_off s \<and> b < sd_chunk_off s + of_nat (length (sd_chunk s)) \<or> r \<noteq> []"
  defines "held \<equiv> b \<ge> sd_chunk_off s \<and> b < sd_chunk_off s + of_nat (length (sd_chunk s))"
  defines "s' \<equiv> if held then s else s\<lparr>sd_chunk_off := b, sd_chunk := r\<rparr>"
  shows "source_ok fc s'" and "same_source s s'"
    and "\<exists>ys. drop (unat b) (body_bytes fc s) = drop (unat (b - sd_chunk_off s')) (sd_chunk s') @ ys"
proof -
  let ?o = "unat (sd_file_offset s)" and ?l = "unat (sd_file_len s)"
  have len: "?o + ?l \<le> length (fc f)" "length (fc f) < 2 ^ 63" and ch: "unat (sd_chunk_off s) + length (sd_chunk s) \<le> ?l"
      "sd_chunk s = take (length (sd_chunk s)) (drop (unat (sd_chunk_off s)) (body_bytes fc s))"
    using ok f by (auto simp: source_ok_def)
  have b': "unat b < ?l" using b by (simp add: word_less_nat_alt)
  have ob: "unat (sd_file_offset s + b) = ?o + unat b" using unat_add_nat [of "sd_file_offset s" "unat b"] len b' by simp
  have lb: "unat (sd_file_len s - b) = ?l - unat b" using b by (simp add: unat_sub)
  have rr: "r = take (length r) (drop (?o + unat b) (fc f))" "length r \<le> min 65536 (?l - unat b)"
    using file_read_ok [OF rd, of f "min 65536 (unat (sd_file_len s - b))" "sd_file_offset s + b"] unfolding r ob lb by simp_all
  have body: "body_bytes fc s = take ?l (drop ?o (fc f))" using f by (simp add: body_bytes_def)
  have r2: "r = take (length r) (drop (unat b) (body_bytes fc s))"
  proof -
    have "take (length r) (drop (unat b) (body_bytes fc s)) = take (length r) (drop (?o + unat b) (fc f))"
      using rr(2) by (simp add: body drop_take min.absorb1 add.commute)
    then show ?thesis using rr(1) by simp
  qed
  show same: "same_source s s'" by (simp add: s'_def same_source_def)
  have bb: "body_bytes fc s' = body_bytes fc s" "sd_bytes fc s' = sd_bytes fc s" by (auto simp: s'_def body_bytes_def sd_bytes_def split: option.split)
  have okc: "unat (sd_chunk_off s') + length (sd_chunk s') \<le> ?l \<and> sd_chunk s' = take (length (sd_chunk s')) (drop (unat (sd_chunk_off s')) (body_bytes fc s))"
    using ch rr(2) r2 b' by (auto simp: s'_def)
  show "source_ok fc s'" using ok okc f unfolding source_ok_def bb by (auto simp: s'_def)
  have le: "sd_chunk_off s' \<le> b" by (simp add: s'_def held_def)
  then have "unat (b - sd_chunk_off s') = unat b - unat (sd_chunk_off s')" "unat (sd_chunk_off s') \<le> unat b" by (simp_all add: unat_sub word_le_nat_alt)
  moreover have "drop (unat (sd_chunk_off s')) (body_bytes fc s) = sd_chunk s' @ drop (length (sd_chunk s')) (drop (unat (sd_chunk_off s')) (body_bytes fc s))"
    using okc by (metis append_take_drop_id)
  moreover have rel: "unat (b - sd_chunk_off s') < length (sd_chunk s')"
    using word_in_span [of "sd_chunk_off s" b "length (sd_chunk s)"] got by (auto simp: s'_def held_def)
  ultimately show "\<exists>ys. drop (unat b) (body_bytes fc s) = drop (unat (b - sd_chunk_off s')) (sd_chunk s') @ ys"
    by (metis (no_types, opaque_lifting) drop_append drop_drop le_add_diff_inverse2 less_imp_le diff_is_0_eq drop0)
qed

text \<open>Each round takes some more of the bytes, or there are none left.\<close>

lemma copy_round:
  assumes rd: "reads_ok rd fc" and ok: "source_ok fc s" and base: "sd_head_base s \<le> offs" and top: "unat offs + len < 2 ^ 63" and less: "length dst < len"
  defines "k \<equiv> unat offs - unat (sd_head_base s) + length dst"
  shows "(\<exists>s' n xs ys. copy_loop rd s offs len dst = copy_loop rd s' offs len (dst @ take n xs) \<and> drop k (sd_bytes fc s) = xs @ ys \<and> n \<le> length xs
      \<and> 0 < n \<and> n \<le> len - length dst \<and> same_source s s' \<and> source_ok fc s')
    \<or> (length (sd_bytes fc s) \<le> k \<or> read_fails rd s) \<and> copy_loop rd s offs len dst = (None, s)"
proof -
  define pos where "pos = offs + of_nat (length dst)"
  let ?hb = "unat (sd_head_base s)" and ?n = "len - length dst" and ?h = "length (sd_head s)"
  have hb: "?hb \<le> unat offs" using base by (simp add: word_le_nat_alt)
  have sz: "?hb + ?h + length (body_bytes fc s) < 2 ^ 62" using ok by (simp add: source_ok_def sd_bytes_def)
  have pos: "unat pos = ?hb + k" using unat_add_nat [of offs "length dst"] top less hb by (simp add: pos_def k_def)
  have he: "unat (head_end s) = ?hb + ?h" unfolding head_end_def using sz by (intro unat_add_nat) simp
  note unf = copy_loop.simps [of rd s offs len dst, folded pos_def]
  show ?thesis
  proof (cases "pos < head_end s")
    case True
    then have kh: "k < ?h" using pos he by (simp add: word_less_nat_alt)
    have rel: "unat (pos - sd_head_base s) = k" "\<not> pos < sd_head_base s"
      using pos unat_sub [of "sd_head_base s" pos] by (simp_all add: word_le_nat_alt word_less_nat_alt)
    have "copy_loop rd s offs len dst = copy_loop rd s offs len (dst @ take (min ?n (?h - k)) (drop k (sd_head s)))"
      using less True rel by (subst unf) (simp add: Let_def)
    moreover have "drop k (sd_bytes fc s) = drop k (sd_head s) @ body_bytes fc s" using kh by (simp add: sd_bytes_def)
    moreover have "min ?n (?h - k) \<le> length (drop k (sd_head s))" "0 < min ?n (?h - k)" "min ?n (?h - k) \<le> ?n" using kh less by auto
    ultimately show ?thesis using ok same_source_refl by blast
  next
    case False
    define b where "b = pos - head_end s"
    have kh: "?h \<le> k" using False pos he by (simp add: word_less_nat_alt)
    have b: "unat b = k - ?h" using False pos he by (simp add: b_def unat_sub word_less_nat_alt word_le_nat_alt)
    have body: "drop k (sd_bytes fc s) = drop (unat b) (body_bytes fc s)" using kh b by (simp add: sd_bytes_def)
    show ?thesis
    proof (cases "sd_mem s \<noteq> []")
      case True
      note m = True
      then have bm: "body_bytes fc s = sd_mem s" by (simp add: body_bytes_def)
      show ?thesis
      proof (cases "unat b \<ge> length (sd_mem s)")
        case True
        then have "copy_loop rd s offs len dst = (None, s)" using less False m by (subst unf) (simp add: Let_def b_def [symmetric])
        moreover have "length (sd_bytes fc s) \<le> k" using True b kh by (simp add: sd_bytes_def bm)
        ultimately show ?thesis by blast
      next
        case lt: False
        let ?m = "min ?n (length (sd_mem s) - unat b)"
        have "copy_loop rd s offs len dst = copy_loop rd s offs len (dst @ take ?m (drop (unat b) (sd_mem s)))"
          using less False m lt by (subst unf) (simp add: Let_def b_def [symmetric])
        moreover have "drop k (sd_bytes fc s) = drop (unat b) (sd_mem s) @ []" using body bm by simp
        moreover have "?m \<le> length (drop (unat b) (sd_mem s))" "0 < ?m" "?m \<le> ?n" using lt less by auto
        ultimately show ?thesis using ok same_source_refl by blast
      qed
    next
      case mem: False
      show ?thesis
      proof (cases "sd_file s")
        case None
        then have "copy_loop rd s offs len dst = (None, s)" using less False mem by (subst unf) (simp add: Let_def)
        then show ?thesis using None mem kh by (simp add: sd_bytes_def body_bytes_def)
      next
        case (Some f)
        have bl: "length (body_bytes fc s) = unat (sd_file_len s)" using ok mem Some by (auto simp: source_ok_def body_bytes_def)
        show ?thesis
        proof (cases "b \<ge> sd_file_len s")
          case True
          then have "copy_loop rd s offs len dst = (None, s)" using less False mem Some by (subst unf) (simp add: Let_def b_def [symmetric])
          moreover have "length (sd_bytes fc s) \<le> k" using True b kh bl by (simp add: sd_bytes_def word_le_nat_alt)
          ultimately show ?thesis by blast
        next
          case lt: False
          define r where "r = file_read rd f (min 65536 (unat (sd_file_len s - b))) (sd_file_offset s + b)"
          define held where "held \<longleftrightarrow> b \<ge> sd_chunk_off s \<and> b < sd_chunk_off s + of_nat (length (sd_chunk s))"
          define s' where "s' = (if held then s else s\<lparr>sd_chunk_off := b, sd_chunk := r\<rparr>)"
          define rel where "rel = unat (b - sd_chunk_off s')"
          have m': "sd_mem s = []" and lt': "b < sd_file_len s" using mem lt by auto
          show ?thesis
          proof (cases "held \<or> r \<noteq> []")
            case True
            note ch = chunk_step [OF ok rd m' Some lt' r_def True [unfolded held_def], folded held_def, folded s'_def]
            have "copy_loop rd s offs len dst = copy_loop rd s' offs len (dst @ take (min ?n (length (sd_chunk s') - rel)) (drop rel (sd_chunk s')))"
              using less False mem Some lt True
              by (subst unf) (auto simp: Let_def b_def [symmetric] r_def [symmetric] held_def [symmetric] s'_def [symmetric] rel_def [symmetric])
            moreover obtain ys where "drop k (sd_bytes fc s) = drop rel (sd_chunk s') @ ys" using ch(3) body by (auto simp: rel_def)
            moreover have "rel < length (sd_chunk s')"
              using word_in_span [of "sd_chunk_off s" b "length (sd_chunk s)"] True by (auto simp: rel_def s'_def held_def)
            then have "min ?n (length (sd_chunk s') - rel) \<le> length (drop rel (sd_chunk s'))" "0 < min ?n (length (sd_chunk s') - rel)"
              "min ?n (length (sd_chunk s') - rel) \<le> ?n" using less by auto
            ultimately show ?thesis using ch(1,2) by blast
          next
            case none: False
            then have "copy_loop rd s offs len dst = (None, s)" using less False mem Some lt
              by (subst unf) (simp add: Let_def b_def [symmetric] r_def [symmetric] held_def [symmetric])
            moreover have "0 < min 65536 (unat (sd_file_len s - b))" using lt' unat_sub [of b "sd_file_len s"] by (simp add: word_less_nat_alt word_le_nat_alt)
            then have "read_fails rd s" unfolding read_fails_def using Some lt' none r_def
              by (intro exI [of _ f] exI [of _ b] exI [of _ "min 65536 (unat (sd_file_len s - b))"]) (auto simp: file_read_def split: option.splits)
            ultimately show ?thesis by blast
          qed
        qed
      qed
    qed
  qed
qed

lemma same_source_bytes:
  assumes "same_source s s'"
  shows "sd_bytes fc s' = sd_bytes fc s" "sd_head_base s' = sd_head_base s" "read_fails rd s' = read_fails rd s"
  by (subst assms [unfolded same_source_def], simp add: sd_bytes_def body_bytes_def read_fails_def split: option.split)+

lemma copy_loop_exact:
  assumes rd: "reads_ok rd fc" and top: "unat offs + len < 2 ^ 63"
  shows "source_ok fc s \<Longrightarrow> sd_head_base s \<le> offs \<Longrightarrow> 0 < len \<Longrightarrow>
    dst = take (length dst) (drop (unat offs - unat (sd_head_base s)) (sd_bytes fc s)) \<Longrightarrow> length dst \<le> len \<Longrightarrow>
    \<exists>r s'. copy_loop rd s offs len dst = (r, s') \<and> same_source s s' \<and> source_ok fc s' \<and>
      (r = (if unat offs - unat (sd_head_base s) + len \<le> length (sd_bytes fc s)
            then Some (take len (drop (unat offs - unat (sd_head_base s)) (sd_bytes fc s))) else None)
       \<or> r = None \<and> read_fails rd s)"
proof (induction "len - length dst" arbitrary: s dst rule: less_induct)
  case less
  define B where "B = sd_bytes fc s"
  define k where "k = unat offs - unat (sd_head_base s)"
  have d: "dst = take (length dst) (drop k B)" using less.prems(4) by (simp add: B_def k_def)
  then have ld: "length dst \<le> length B - k" by (metis length_drop length_take min.cobounded1 min.commute)
  show ?case
  proof (cases "length dst < len")
    case False
    then have l: "length dst = len" using less.prems(5) by simp
    then have "copy_loop rd s offs len dst = (Some dst, s)" by (simp add: copy_loop.simps)
    moreover have "dst = take len (drop k B)" "k + len \<le> length B" using d l ld less.prems(3) by auto
    ultimately show ?thesis using less.prems(1) unfolding B_def k_def by (auto intro: same_source_refl)
  next
    case True
    from copy_round [OF rd less.prems(1,2) top True] show ?thesis
    proof (elim disjE exE conjE, goal_cases)
      case (1 s' n xs ys)
      note b = same_source_bytes(1) [OF 1(6), of fc] same_source_bytes(2) [OF 1(6)] same_source_bytes(3) [OF 1(6), of rd]
      define dst' where "dst' = dst @ take n xs"
      have l: "length dst' = length dst + n" using 1(3) by (simp add: dst'_def)
      have d': "dst' = take (length dst') (drop k B)"
        unfolding dst'_def using 1(2,3) d by (intro piece_step [of dst k B xs ys n]) (simp_all add: B_def k_def)
      have "\<exists>r s''. copy_loop rd s' offs len dst' = (r, s'') \<and> same_source s' s'' \<and> source_ok fc s'' \<and>
          (r = (if k + len \<le> length B then Some (take len (drop k B)) else None) \<or> r = None \<and> read_fails rd s)"
        unfolding B_def k_def b [symmetric]
      proof (rule less.hyps)
        show "len - length dst' < len - length dst" "length dst' \<le> len" using l 1(4,5) True by simp_all
        show "dst' = take (length dst') (drop (unat offs - unat (sd_head_base s')) (sd_bytes fc s'))" using d' by (simp only: b B_def k_def)
      qed (use 1 less.prems b in simp_all)
      then obtain r s'' where "copy_loop rd s offs len dst = (r, s'')" "same_source s' s''" "source_ok fc s''"
        "r = (if k + len \<le> length B then Some (take len (drop k B)) else None) \<or> r = None \<and> read_fails rd s"
        using 1(1) dst'_def by auto
      moreover have "same_source s s''" using 1(6) \<open>same_source s' s''\<close> by (rule same_source_trans)
      ultimately show ?thesis unfolding B_def k_def by blast
    next
      case 2
      then have "\<not> k + len \<le> length B" using True by (simp add: B_def k_def)
      then show ?thesis using 2 less.prems(1) unfolding B_def k_def by (intro exI [of _ None] exI [of _ s]) simp
    next
      case 3
      then show ?thesis using less.prems(1) by (intro exI [of _ None] exI [of _ s]) simp
    qed
  qed
qed

text \<open>
  C12. A frame carries the bytes of the answer. \<open>copy_stream_bytes\<close> for the bytes from \<open>offs\<close> on gives exactly these
  bytes of the stream, its head followed by the memory body or the region of the file, in how many pieces ever the
  file is read and whatever was read ahead. It fails when they go past the end or begin
  below what was trimmed from the head, and otherwise only when a read within the region of the file
  returned an error or nothing; it never gives other bytes, and nothing of the stream changes but what is read ahead.
\<close>

theorem copy_stream_bytes_exact:
  assumes "reads_ok rd fc" and "source_ok fc s" and "0 < len" and "unat offs + len < 2 ^ 63"
  shows "\<exists>r s'. copy_stream_bytes rd s offs len = (r, s') \<and> s' = s\<lparr>sd_chunk_off := sd_chunk_off s', sd_chunk := sd_chunk s'\<rparr> \<and> source_ok fc s'
    \<and> (r = (if sd_head_base s \<le> offs \<and> unat offs + len \<le> unat (sd_head_base s) + length (sd_bytes fc s)
            then Some (take len (drop (unat offs - unat (sd_head_base s)) (sd_bytes fc s))) else None)
       \<or> r = None \<and> read_fails rd s)"
proof (cases "sd_head_base s \<le> offs")
  case True
  then have "unat (sd_head_base s) \<le> unat offs" by (simp add: word_le_nat_alt)
  then have "unat offs - unat (sd_head_base s) + len \<le> length (sd_bytes fc s) \<longleftrightarrow> unat offs + len \<le> unat (sd_head_base s) + length (sd_bytes fc s)"
    by linarith
  then show ?thesis using copy_loop_exact [OF assms(1,4,2) True assms(3), of "[]"] True by (simp add: copy_stream_bytes_def same_source_def)
next
  case False
  have "unat (sd_head_base s) + length (sd_head s) < 2 ^ 62" using assms(2) by (simp add: source_ok_def sd_bytes_def)
  then have "unat (head_end s) = unat (sd_head_base s) + length (sd_head s)" unfolding head_end_def by (intro unat_add_nat) simp
  then have "offs < head_end s" using False by (simp add: word_less_nat_alt word_le_nat_alt)
  then have "copy_stream_bytes rd s offs len = (None, s)"
    using False assms(3) unfolding copy_stream_bytes_def by (subst copy_loop.simps) (simp add: Let_def not_le)
  then have "copy_stream_bytes rd s offs len = (None, s) \<and> same_source s s \<and> source_ok fc s" using assms(2) by simp
  then show ?thesis unfolding same_source_def using False by (simp only: if_False simp_thms) blast
qed

text \<open>A system that gives three bytes at a time and interrupts every read once.\<close>

definition sample_file :: "unit \<Rightarrow> bytes" where
  "sample_file f = map of_nat [0..<20]"

definition sample_read :: "unit pread" where
  "sample_read f n offs = [pr_interrupted, pr_bytes (take (min n 3) (drop (unat offs) (sample_file f)))]"

lemma copy_stream_bytes_exact_witness:
  "fst (copy_stream_bytes sample_read (sd_new\<lparr>sd_head := [100, 101], sd_file := Some (), sd_file_offset := 5, sd_file_len := 10\<rparr>) 1 8)
   = Some [101, 5, 6, 7, 8, 9, 10, 11]"
proof -
  let ?s = "sd_new\<lparr>sd_head := [100, 101], sd_file := Some (), sd_file_offset := 5, sd_file_len := 10\<rparr>"
  have r: "reads_ok sample_read sample_file" by (auto simp: reads_ok_def sample_read_def min_def)
  have nf: "\<not> read_fails sample_read ?s"
  proof
    assume "read_fails sample_read ?s"
    then obtain b :: u64 and n where n: "b < 10" "0 < n" "take (min n 3) (drop (unat (5 + b)) (sample_file ())) = []"
      by (auto simp: read_fails_def sample_read_def)
    have "unat b < 10" using n(1) by (simp add: word_less_nat_alt)
    then have "unat (5 + b) = 5 + unat b" by (simp add: unat_word_ariths)
    then show False using n(2,3) \<open>unat b < 10\<close> by (simp add: sample_file_def)
  qed
  have b: "sd_bytes sample_file ?s = [100, 101, 5, 6, 7, 8, 9, 10, 11, 12, 13, 14]" by code_simp
  have s: "source_ok sample_file ?s" by (auto simp: source_ok_def b) (simp_all add: sd_new_def sample_file_def)
  have h: "sd_head_base ?s = 0" by (simp add: sd_new_def)
  from copy_stream_bytes_exact [OF r s, of 8 1] nf show ?thesis by (auto simp: b h)
qed


subsection \<open>A reset while the stream is ready\<close>

definition out_new :: SendOut where
  "out_new = \<lparr>so_bytes = [], so_items = [], so_eliciting = False\<rparr>"

text \<open>A front that has nothing to send and is not marked as ready never leaves the list.\<close>

lemma stuck_front:
  assumes "sc_head c = Some p" and "\<not> sd_ready (sc_obj c p)" and "\<not> has_unsent (sc_obj c p)"
  shows "send_streams rd may_send room out c = Some (out, c)"
proof -
  have "send_plan avail c (sc_obj c p) = sp_idle" for avail using assms(3) by (auto simp: send_plan_def has_unsent_def)
  then have "stream_turn rd room p out c \<in> {Some t_break, Some (t_next (out, c))}"
    using assms(2) by (auto simp: stream_turn_def dequeue_def Let_def)
  then have "send_loop rd room n out c = Some (out, c)" for n using assms(1) by (induction n) auto
  then show ?thesis by (simp add: send_streams_def)
qed

lemma reset_kept:
  assumes "\<not> sd_reset_sent (sc_obj c p)" and "\<not> sd_reset_due (sc_obj c p)"
    and "control_step room out (stream_reset p code c) = Some (Some True, out', c')" and "close_send p c' = Some d"
  shows "sc_head (release p d) = sc_head c" and "sc_obj (release p d) = (sc_obj c)(p := sd_new)" and "sc_tail (release p d) = sc_tail c"
proof -
  let ?r = "stream_reset p code c"
  have r: "sc_head ?r = sc_head c \<and> sc_tail ?r = sc_tail c" "\<And>q. q \<noteq> p \<Longrightarrow> sc_obj ?r q = sc_obj c q" "\<not> sd_ready (sc_obj ?r p)" "last (sc_control ?r) = p"
    using assms(1,2) by (auto simp: stream_reset_def)
  have "sc_head c' = sc_head ?r \<and> sc_tail c' = sc_tail ?r \<and> (\<forall>q. q \<noteq> p \<longrightarrow> sc_obj c' q = sc_obj ?r q) \<and> \<not> sd_ready (sc_obj c' p)"
    using assms(3) r(3,4) by (auto simp: control_step_def control_frames_def dequeue_def Let_def split: if_splits)
  then have "sc_head d = sc_head c" "sc_tail d = sc_tail c" "\<And>q. q \<noteq> p \<Longrightarrow> sc_obj d q = sc_obj c q" using assms(4) r by (auto simp: close_send_def dequeue_def)
  then show "sc_head (release p d) = sc_head c" "sc_obj (release p d) = (sc_obj c)(p := sd_new)" "sc_tail (release p d) = sc_tail c" by (auto simp: release_def fun_eq_iff)
qed

text \<open>An object at the front of the list that belongs to no stream and never leaves its place.\<close>

definition stuck :: "sref \<Rightarrow> 'f SendConn \<Rightarrow> bool" where
  "stuck p c \<longleftrightarrow> sc_head c = Some p \<and> sc_tail c \<noteq> None \<and> \<not> sd_ready (sc_obj c p) \<and> \<not> has_unsent (sc_obj c p)
     \<and> p \<notin> set (sc_all c) \<and> p \<notin> set (sc_control c)"

text \<open>What a connection does while the object \<open>p\<close> stays in the pool: packets, answers, acknowledgements, losses, credit, resets, new and closed streams.\<close>

inductive elsewhere :: "'f pread \<Rightarrow> sref \<Rightarrow> 'f SendConn \<Rightarrow> 'f SendConn \<Rightarrow> bool" for rd p c where
  here: "elsewhere rd p c c"
| opens: "elsewhere rd p c d \<Longrightarrow> q \<noteq> p \<Longrightarrow> elsewhere rd p c (open_send q i credit trim d)"
| responds: "elsewhere rd p c d \<Longrightarrow> q \<in> set (sc_all d) \<Longrightarrow> elsewhere rd p c (respond q head is_head body d)"
| appends: "elsewhere rd p c d \<Longrightarrow> q \<in> set (sc_all d) \<Longrightarrow> elsewhere rd p c (append_head q bs d)"
| packets: "elsewhere rd p c d \<Longrightarrow> send_streams rd may_send room out d = Some (out', d') \<Longrightarrow> elsewhere rd p c d'"
| acks: "elsewhere rd p c d \<Longrightarrow> elsewhere rd p c (snd (ack_item it d))"
| losses: "elsewhere rd p c d \<Longrightarrow> elsewhere rd p c (lost_item it d)"
| max_data: "elsewhere rd p c d \<Longrightarrow> elsewhere rd p c (on_max_data v d)"
| max_stream_data: "elsewhere rd p c d \<Longrightarrow> q \<in> set (sc_all d) \<Longrightarrow> elsewhere rd p c (on_max_stream_data q v d)"
| resets: "elsewhere rd p c d \<Longrightarrow> q \<in> set (sc_all d) \<Longrightarrow> elsewhere rd p c (stream_reset q code d)"
| stops: "elsewhere rd p c d \<Longrightarrow> q \<in> set (sc_all d) \<Longrightarrow> elsewhere rd p c (stream_stop_sending q code d)"
| controls: "elsewhere rd p c d \<Longrightarrow> sc_control d \<noteq> [] \<Longrightarrow> control_step room out d = Some (r, out', d') \<Longrightarrow> elsewhere rd p c d'"
| closes: "elsewhere rd p c d \<Longrightarrow> q \<in> set (sc_all d) \<Longrightarrow> close_send q d = Some d' \<Longrightarrow> elsewhere rd p c (release q d')"

lemma stuck_upd: "q \<noteq> p \<Longrightarrow> stuck p (sc_upd q f c) = stuck p c"
  by (simp add: stuck_def)

lemma stuck_all: "stuck p c \<Longrightarrow> q \<in> set (sc_all c) \<Longrightarrow> q \<noteq> p"
  by (auto simp: stuck_def)

lemma stuck_find: "stuck p c \<Longrightarrow> find_stream i c = Some q \<Longrightarrow> q \<noteq> p"
  by (auto simp: stuck_def find_stream_def find_Some_iff)

lemma stuck_next: "stuck p (sc_upd q (\<lambda>s. s\<lparr>sd_next_ready := x\<rparr>) c) = stuck p c"
  by (auto simp: stuck_def has_unsent_def)

lemma stuck_enqueue:
  assumes "stuck p c" and "q \<noteq> p"
  shows "stuck p (enqueue q c)"
proof -
  obtain t where t: "sc_tail c = Some t" using assms(1) by (auto simp: stuck_def)
  let ?c = "sc_upd q (\<lambda>s. s\<lparr>sd_ready := True, sd_next_ready := None\<rparr>) c"
  have "stuck p (sc_upd t (\<lambda>s. s\<lparr>sd_next_ready := Some q\<rparr>) ?c)" using assms by (simp add: stuck_next stuck_upd)
  then have "stuck p ((sc_upd t (\<lambda>s. s\<lparr>sd_next_ready := Some q\<rparr>) ?c)\<lparr>sc_tail := Some q\<rparr>)" by (simp add: stuck_def)
  then show ?thesis using assms t by (simp add: enqueue_def Let_def)
qed

lemma stuck_unlink:
  assumes "unlink q prev x c = Some d" and "prev \<noteq> None" and "stuck p c"
  shows "stuck p d"
proof -
  have "prev \<noteq> None \<longrightarrow> stuck p c \<longrightarrow> stuck p d"
  proof (rule unlink.raw_induct [where P = "\<lambda>s prev x c d. prev \<noteq> None \<longrightarrow> stuck p c \<longrightarrow> stuck p d", OF _ assms(1)], goal_cases)
    case (1 unlink s prev x c d)
    have tail: "stuck p c' \<Longrightarrow> stuck p (c'\<lparr>sc_tail := Some r\<rparr>)" for c' r by (simp add: stuck_def)
    show ?case using 1 by (fastforce simp: Let_def stuck_next intro: tail split: option.splits if_splits)
  qed
  then show ?thesis using assms by simp
qed

lemma stuck_dequeue:
  assumes "stuck p c" and "q \<noteq> p" and "dequeue q c = Some d"
  shows "stuck p d"
proof (cases "sd_ready (sc_obj c q)")
  case True
  have h: "sc_head c = Some p" using assms(1) by (simp add: stuck_def)
  obtain e where e: "unlink q None (sc_head c) c = Some e" "d = sc_upd q (\<lambda>x. x\<lparr>sd_ready := False, sd_next_ready := None\<rparr>) e"
    using assms(3) True by (auto simp: dequeue_def)
  have "unlink q (Some p) (sd_next_ready (sc_obj c p)) c = Some e" using e(1) assms(2) by (simp add: h unlink.simps [of q None "Some p"])
  from stuck_unlink [OF this _ assms(1)] show ?thesis using assms(2) by (simp add: e(2) stuck_upd)
qed (use assms in \<open>simp add: dequeue_def\<close>)

lemma stuck_wake: "stuck p c \<Longrightarrow> stuck p (wake_blocked c)"
proof -
  let ?f = "\<lambda>c p. let s = sc_obj c p in
              if sd_open s \<and> has_unsent s \<and> \<not> sd_ready s \<and> \<not> sd_reset_sent s
              then enqueue p (sc_upd p (\<lambda>s. s\<lparr>sd_blocked_reported := False\<rparr>) c) else c"
  have "stuck p c \<Longrightarrow> p \<notin> set qs \<Longrightarrow> stuck p (foldl ?f c qs)" for qs and c :: "'a SendConn"
  proof (induction qs arbitrary: c)
    case (Cons q qs)
    then have "stuck p (?f c q)" by (auto simp: Let_def stuck_upd intro!: stuck_enqueue)
    then show ?case using Cons by simp
  qed simp
  then show "stuck p c \<Longrightarrow> stuck p (wake_blocked c)" by (auto simp: wake_blocked_def stuck_def)
qed

lemma stuck_reset: "stuck p c \<Longrightarrow> q \<noteq> p \<Longrightarrow> stuck p (stream_reset q code c)"
  by (auto simp: stuck_def stream_reset_def)

lemma stuck_control:
  assumes "stuck p c" and "sc_control c \<noteq> []" and "control_step room out c = Some (r, out', d)"
  shows "stuck p d"
proof -
  let ?q = "last (sc_control c)"
  have q: "?q \<noteq> p" using assms(1,2) by (metis last_in_set stuck_def)
  obtain rn fits out1 c1 where f: "control_frames room out c = (rn, fits, out1, c1)" using prod_cases4 by blast
  then have 1: "stuck p c1" using assms(1) q by (auto simp: control_frames_def Let_def stuck_upd split: if_splits)
  have "p \<notin> set (butlast (sc_control c1))" using 1 by (auto simp: stuck_def dest: in_set_butlastD)
  then have 2: "stuck p (c1\<lparr>sc_control := butlast (sc_control c1)\<rparr>)" using 1 by (simp add: stuck_def)
  note st = assms(3) [unfolded control_step_def f Let_def prod.case]
  show ?thesis
  proof (cases "fits \<and> rn \<and> \<not> sd_send_done (sc_obj c1 ?q)")
    case True
    then have "dequeue ?q (sc_upd ?q (\<lambda>s. s\<lparr>sd_send_done := True\<rparr>) (c1\<lparr>sc_control := butlast (sc_control c1)\<rparr>)) = Some d" using st by auto
    from stuck_dequeue [OF _ q this] 2 show ?thesis using q by (simp add: stuck_upd)
  next
    case False
    then have "d = c1 \<or> d = c1\<lparr>sc_control := butlast (sc_control c1)\<rparr>" using st by (auto split: if_splits)
    then show ?thesis using 1 2 by blast
  qed
qed

lemma stuck_respond: "stuck p c \<Longrightarrow> q \<noteq> p \<Longrightarrow> stuck p (respond q head is_head body c)"
  by (auto simp: respond_def Let_def stuck_upd stuck_reset intro!: stuck_enqueue split: RBody.split)

lemma elsewhere_stuck: "elsewhere rd p c d \<Longrightarrow> stuck p c \<Longrightarrow> stuck p d"
proof (induction rule: elsewhere.induct)
  case (packets d may_send room out out' d')
  then have "stuck p d" by simp
  then have "send_streams rd may_send room out d = Some (out, d)" by (intro stuck_front [of _ p]) (simp_all add: stuck_def)
  then show ?case using packets by simp
next
  case (closes d q d')
  then have st: "stuck p d" "q \<noteq> p" by (auto dest: stuck_all)
  obtain e where e: "dequeue q d = Some e" "d' = sc_upd q (\<lambda>s. s\<lparr>sd_open := False\<rparr>) (e\<lparr>sc_control := filter (\<lambda>r. r \<noteq> q) (sc_control e)\<rparr>)"
    using closes.hyps(3) by (auto simp: close_send_def)
  show ?case using stuck_dequeue [OF st e(1)] st(2) by (auto simp: e(2) release_def stuck_def)
next
  case (acks d it)
  then have "q \<noteq> p" if "find_stream (si_id it) d = Some q" for q using that stuck_find by blast
  then show ?case using acks by (auto simp: ack_item_def stuck_upd split: option.splits prod.splits)
next
  case (losses d it)
  then have "q \<noteq> p" if "find_stream (si_id it) d = Some q" for q using that stuck_find by blast
  then show ?case using losses by (auto simp: lost_item_def Let_def stuck_upd intro!: stuck_enqueue split: option.splits)
next
  case (max_stream_data d q v)
  then have "q \<noteq> p" using stuck_all by blast
  then show ?case using max_stream_data by (auto simp: on_max_stream_data_def Let_def stuck_upd intro!: stuck_enqueue)
next
  case (max_data d v)
  then have "stuck p (d\<lparr>peer_max_data := v\<rparr>)" by (simp add: stuck_def)
  then show ?case using max_data by (simp add: on_max_data_def stuck_wake)
next
  case (opens d q i credit trim)
  then show ?case by (simp add: open_send_def stuck_def)
next
  case (appends d q bs)
  then have "q \<noteq> p" using stuck_all by blast
  then show ?case using appends by (auto simp: append_head_def Let_def stuck_upd intro!: stuck_enqueue)
next
  case (stops d q code)
  then show ?case by (auto simp: stream_stop_sending_def stuck_def)
next
  case (controls d room out r out' d')
  then show ?case using stuck_control by blast
qed (auto dest: stuck_all intro!: stuck_respond stuck_reset)

text \<open>
  C37. A reset takes the streams behind it out of the ready list. \<open>stream_reset\<close> clears the flag of a stream that is in the list
  without taking it out, so \<open>dequeue\<close> does nothing once the RESET_STREAM has gone out, and the object goes back to the
  pool while the list still begins with it. Let the first stream of the list be reset, told as sent, closed and
  released. The list is then the pooled object alone, and the streams behind it, still marked as ready, are
  not put in the list by \<open>enqueue\<close>. Until the pool hands the object out again, whatever packets, answers, acknowledgements, credit, resets, new and closed
  streams follow, a packet carries no STREAM frame, whatever the room and credit.
\<close>

theorem reset_loses_ready_streams:
  assumes "ready_list c (p # xs)" and "\<not> sd_reset_sent (sc_obj c p)" and "\<not> sd_reset_due (sc_obj c p)"
    and "control_step room out (stream_reset p code c) = Some (Some True, out', c')" and "close_send p c' = Some d"
    and "elsewhere rd p (release p d) e"
  shows "(let f = release p d in
      sc_head f = Some p \<and> \<not> sd_open (sc_obj f p) \<and> sd_next_ready (sc_obj f p) = None
      \<and> (\<forall>q\<in>set xs. sc_obj f q = sc_obj c q \<and> enqueue q f = f))
    \<and> send_streams rd may_send room' out'' e = Some (out'', e)"
proof -
  note k = reset_kept [OF assms(2-5)]
  have h: "sc_head c = Some p" and xs: "\<And>q. q \<in> set xs \<Longrightarrow> sd_ready (sc_obj c q) \<and> q \<noteq> p" and t: "sc_tail c \<noteq> None"
    using assms(1) by (auto simp: ready_list_def)
  have "p \<notin> set (sc_control d)" using assms(5) by (auto simp: close_send_def)
  then have "stuck p (release p d)" using k h t by (simp add: stuck_def sd_new_def has_unsent_def) (simp add: release_def)
  from elsewhere_stuck [OF assms(6) this] have "send_streams rd may_send room' out'' e = Some (out'', e)"
    by (intro stuck_front [of _ p]) (simp_all add: stuck_def)
  then show ?thesis using k h xs by (auto simp: Let_def enqueue_def sd_new_def)
qed

text \<open>Two answers are ready; the client stops the first.\<close>

definition two_answers :: "unit SendConn" where
  "two_answers =
     (let c = (conn_of [])\<lparr>peer_max_data := 100000\<rparr>;
          c = open_send 1 0 100000 False c; c = open_send 2 4 100000 False c;
          c = respond 1 [1] False (rb_mem [1, 1]) c in
      respond 2 [2] False (rb_mem [2, 2]) c)"

lemma reset_loses_ready_streams_witness:
  "\<exists>out c d. control_step 100 out_new (stream_reset 1 0x10c two_answers) = Some (Some True, out, c) \<and> close_send 1 c = Some d
     \<and> has_unsent (sc_obj (release 1 d) 2) \<and> send_streams (\<lambda>_ _ _. []) True 1200 out_new (release 1 d) = Some (out_new, release 1 d)
     \<and> send_streams (\<lambda>_ _ _. []) True 1200 out_new (on_max_data 200000 (open_send 3 8 100 False (release 1 d)))
       = Some (out_new, on_max_data 200000 (open_send 3 8 100 False (release 1 d)))"
proof -
  define c1 where "c1 = the (control_step 100 out_new (stream_reset 1 0x10c two_answers))"
  define d where "d = the (close_send 1 (snd (snd c1)))"
  have "fst c1 = Some True \<and> control_step 100 out_new (stream_reset 1 0x10c two_answers) \<noteq> None" unfolding c1_def by code_simp
  then have 1: "control_step 100 out_new (stream_reset 1 0x10c two_answers) = Some (Some True, fst (snd c1), snd (snd c1))"
    by (metis c1_def option.collapse prod.collapse)
  have "close_send 1 (snd (snd c1)) \<noteq> None" unfolding c1_def by code_simp
  then have 2: "close_send 1 (snd (snd c1)) = Some d" by (simp add: d_def)
  have r: "ready_list two_answers [1, 2]"
    by (auto simp: ready_list_def two_answers_def conn_of_def open_send_def respond_def enqueue_def sd_new_def Let_def put_body_def rb_length_def)
  have f: "\<not> sd_reset_sent (sc_obj two_answers 1)" "\<not> sd_reset_due (sc_obj two_answers 1)" "has_unsent (sc_obj two_answers 2)" by code_simp+
  let ?e = "on_max_data 200000 (open_send 3 8 100 False (release 1 d))"
  note lost = reset_loses_ready_streams [OF r f(1,2) 1 2, where rd = "\<lambda>_ _ _. []" and may_send = True and room' = 1200 and out'' = out_new]
  have "send_streams (\<lambda>_ _ _. []) True 1200 out_new (release 1 d) = Some (out_new, release 1 d)" "sc_obj (release 1 d) 2 = sc_obj two_answers 2"
    using lost [OF elsewhere.here] by (simp_all add: Let_def)
  moreover have "elsewhere (\<lambda>_ _ _. []) 1 (release 1 d) ?e" by (intro elsewhere.max_data elsewhere.opens elsewhere.here) simp
  from lost [OF this] have "send_streams (\<lambda>_ _ _. []) True 1200 out_new ?e = Some (out_new, ?e)" by simp
  ultimately show ?thesis using f(3) by (intro exI [of _ "fst (snd c1)"] exI [of _ "snd (snd c1)"] exI [of _ d] conjI 1 2) simp_all
qed


subsection \<open>A second copy of trimmed bytes\<close>

lemma varint_size_mono: "v \<le> w \<Longrightarrow> varint_size v \<le> varint_size w"
  by (auto simp: varint_size_def word_less_nat_alt word_le_nat_alt)

text \<open>The room kept for the header is enough for the header.\<close>

lemma stream_header_fits:
  assumes "b \<le> tot" and "len \<le> 65535" and "stream_header_size sid tot 65535 True \<le> cap"
  shows "put_stream_header cap sid b len fin True \<noteq> []"
proof -
  have "unat (of_nat len :: u64) = len" using assms(2) by (simp add: unat_of_nat take_bit_nat_eq_self)
  then have "varint_size (of_nat len) \<le> varint_size (of_nat 65535)" using assms(2) by (intro varint_size_mono) (simp add: word_le_nat_alt)
  moreover have "b \<noteq> 0 \<Longrightarrow> tot \<noteq> 0" using assms(1) by (metis word_le_0_iff)
  moreover have "varint_size b \<le> varint_size tot" by (rule varint_size_mono [OF assms(1)])
  ultimately have "stream_header_size sid b len True \<le> stream_header_size sid tot 65535 True"
    by (auto simp: stream_header_size_def)
  then show ?thesis using assms(3) by (simp add: put_stream_header_def)
qed

lemma lost_below_head_resets:
  assumes s: "sc_obj c p = s" "\<not> sd_reset_sent s" "\<not> sd_reset_due s"
    and lost: "sd_lost s = (b, e) # r" "b < e" "b < sd_head_base s" "sd_head_base s \<le> head_end s" "b \<le> sd_total s"
    and room: "stream_header_size (sd_id s) (sd_total s) 65535 True + 1 < room - length (so_bytes out)" "room \<le> 65535"
  shows "\<exists>c'. stream_turn rd room p out c = Some (t_next (out, c')) \<and> sd_reset_due (sc_obj c' p) \<and> sd_reset_send_code (sc_obj c' p) = 0x102"
proof -
  define avail where "avail = room - length (so_bytes out) - stream_header_size (sd_id s) (sd_total s) 65535 True"
  define n where "n = unat (min (e - b) (of_nat avail))"
  have av: "0 < avail" "avail \<le> 65535" using room by (auto simp: avail_def)
  then have ua: "unat (of_nat avail :: u64) = avail" by (simp add: unat_of_nat take_bit_nat_eq_self)
  have "0 < unat (e - b)" using lost(2) unat_sub [of b e] by (simp add: word_less_nat_alt word_le_nat_alt)
  then have n: "0 < n" "n \<le> 65535" using av ua by (auto simp: n_def min_def word_le_nat_alt)
  have plan: "send_plan avail c s = sp_send b n True" using lost(1) by (simp add: send_plan_def n_def Let_def)
  have hdr: "put_stream_header (room - length (so_bytes out)) (sd_id s) b n fin True \<noteq> []" for fin
    using n room by (intro stream_header_fits [OF lost(5)]) auto
  have copy: "copy_stream_bytes rd s b n = (None, s)"
    using n lost(3,4) unfolding copy_stream_bytes_def by (subst copy_loop.simps) (auto simp: Let_def)
  have "stream_turn rd room p out c = send_frame rd room p b n True out c"
    using s(1) room(1) plan [unfolded avail_def] by (simp add: stream_turn_def Let_def)
  moreover have "send_frame rd room p b n True out c = Some (t_next (out, stream_reset p 0x102 (sc_upd p (\<lambda>_. s) c)))"
    using s hdr copy n(1) by (simp add: send_frame_def Let_def stream_reset_def dequeue_def)
  ultimately show ?thesis using s by (simp add: stream_reset_def)
qed

text \<open>
  A probe may reset a stream of our own. A probe timeout sends the oldest bytes in flight again and keeps the first
  packet recorded. On a QPACK stream, whose head is trimmed once 16,384 bytes are acknowledged: when the copy is
  acknowledged and the head trimmed past it, and the first packet is then found lost, the bytes are queued to be sent
  again although they are gone, and the next frame for the stream, whatever the packet has room for, resets the stream with
  H3_INTERNAL_ERROR, which for a peer is the loss of a critical stream.
\<close>

theorem probe_resets_trimmed_stream:
  fixes s :: "'f SendStream" and it :: SentItem
  defines "stop \<equiv> si_offset it + ucast (si_len it)"
  assumes p: "find_stream (si_id it) c = Some p" "sc_obj c p = s" "sd_open s" "sd_trim_head s" "\<not> sd_send_done s" "\<not> sd_reset_sent s" "\<not> sd_reset_due s"
    and it: "sd_lost s = []" "si_len it \<noteq> 0" "si_offset it < stop" "stop \<le> sd_total s"
    and trim: "contiguous_from (rs_add (sd_acked s) (si_offset it) stop) (sd_head_base s) = stop" "sd_head_base s + 16384 < stop"
      "sd_head_base s \<le> stop" "stop \<le> head_end s" "unat (sd_head_base s) + length (sd_head s) < 2 ^ 62"
    and room: "stream_header_size (sd_id s) (sd_total s) 65535 True + 1 < room - length (so_bytes out)" "room \<le> 65535"
  shows "\<exists>d. stream_turn rd room p out (lost_item it (snd (ack_item it c))) = Some (t_next (out, d))
    \<and> sd_reset_due (sc_obj d p) \<and> sd_reset_send_code (sc_obj d p) = 0x102"
proof -
  define s1 where "s1 = snd (acked_stream it s)"
  have s1: "sd_head_base s1 = stop" "sd_head s1 = drop (unat (stop - sd_head_base s)) (sd_head s)" "sd_lost s1 = []" "sd_total s1 = sd_total s"
    "sd_id s1 = sd_id s" "sd_open s1" "\<not> sd_send_done s1" "\<not> sd_reset_sent s1" "\<not> sd_reset_due s1"
    using p it trim by (auto simp: s1_def acked_stream_def trim_acked_def head_end_def stop_def [symmetric] Let_def)
  define c1 where "c1 = snd (ack_item it c)"
  have c1: "c1 = sc_upd p (\<lambda>_. s1) c" using p by (simp add: c1_def ack_item_def s1_def split: prod.split)
  have "find_stream (si_id it) c1 = Some p"
  proof -
    have "(\<lambda>q. sd_open (sc_obj c1 q) \<and> sd_id (sc_obj c1 q) = si_id it) = (\<lambda>q. sd_open (sc_obj c q) \<and> sd_id (sc_obj c q) = si_id it)"
      using p(2,3) s1 by (auto simp: c1 fun_eq_iff)
    then show ?thesis using p(1) by (simp add: find_stream_def c1)
  qed
  then have d: "lost_item it c1 = enqueue p (sc_upd p (lost_stream it) c1)"
    using s1 it by (auto simp: lost_item_def c1 lost_stream_def has_unsent_def rs_add_def stop_def Let_def)
  define s2 where "s2 = sc_obj (lost_item it c1) p"
  have s2: "sd_lost s2 = [(si_offset it, stop)]" "sd_head_base s2 = stop" "sd_head s2 = sd_head s1" "sd_total s2 = sd_total s" "sd_id s2 = sd_id s"
    "\<not> sd_reset_sent s2" "\<not> sd_reset_due s2"
    unfolding s2_def d using s1 it
    by (auto simp: enqueue_def c1 lost_stream_def rs_add_def stop_def [symmetric] Let_def split: option.split)
  have he: "unat (head_end s) = unat (sd_head_base s) + length (sd_head s)" unfolding head_end_def using trim(5) by (intro unat_add_nat) simp
  have "unat stop + length (sd_head s1) < 2 ^ 62" using trim(3,4,5) he s1(2) by (simp add: unat_sub word_le_nat_alt)
  then have "unat (head_end s2) = unat stop + length (sd_head s1)" unfolding head_end_def s2(2,3) by (intro unat_add_nat) simp
  then have "sd_head_base s2 \<le> head_end s2" using s2(2) by (simp add: word_le_nat_alt)
  moreover have "si_offset it \<le> sd_total s" using it(3,4) by simp
  ultimately show ?thesis
    using lost_below_head_resets [OF s2_def [symmetric] s2(6,7,1) it(3), of room out rd] room it(3) s2 by (simp add: c1_def)
qed

lemma probe_resets_trimmed_stream_witness:
  "\<exists>s :: unit SendStream. \<exists>it d. sd_acked s = [(0, 16300)] \<and> si_offset it = 16300 \<and> si_len it = 200
    \<and> stream_turn (\<lambda>_ _ _. []) 1200 0 out_new (lost_item it (snd (ack_item it (conn_of [s])))) = Some (t_next (out_new, d))
    \<and> sd_reset_due (sc_obj d 0)"
proof -
  define hd where "hd = replicate 17000 (0 :: byte)"
  have hd: "length hd = 17000" unfolding hd_def by (rule length_replicate)
  define s :: "unit SendStream" where "s = sd_new\<lparr>sd_id := 3, sd_open := True, sd_trim_head := True, sd_head := hd, sd_total := 17000,
    sd_next := 16500, sd_acked := [(0, 16300)]\<rparr>"
  define it where "it = \<lparr>si_kind = it_stream, si_fin = False, si_id = 3, si_offset = 16300, si_len = 200\<rparr>"
  have f: "find_stream (si_id it) (conn_of [s]) = Some 0" "sc_obj (conn_of [s]) 0 = s"
    by (simp_all add: find_stream_def conn_of_def s_def sd_new_def it_def)
  have i: "si_offset it + ucast (si_len it) = 16500" by (simp add: it_def)
  have h: "head_end s = 17000" by (simp add: head_end_def s_def sd_new_def hd)
  have r: "contiguous_from (rs_add (sd_acked s) (si_offset it) 16500) (sd_head_base s) = 16500"
    by (simp add: s_def it_def sd_new_def) code_simp
  have fl: "sd_open s" "sd_trim_head s" "\<not> sd_send_done s" "\<not> sd_reset_sent s" "\<not> sd_reset_due s" "sd_lost s = []"
    "si_len it \<noteq> 0" "si_offset it < si_offset it + ucast (si_len it)" "si_offset it + ucast (si_len it) \<le> sd_total s"
    "sd_head_base s + 16384 < si_offset it + ucast (si_len it)" "sd_head_base s \<le> si_offset it + ucast (si_len it)"
    "unat (sd_head_base s) + length (sd_head s) < 2 ^ 62"
    unfolding i by (simp_all add: s_def sd_new_def it_def hd)
  have q: "stream_header_size 3 17000 65535 True = 10" by (simp add: stream_header_size_def varint_size_def)
  have ids: "sd_id s = 3" "sd_total s = 17000" "length (so_bytes out_new) = 0" by (simp_all add: s_def out_new_def)
  have z: "stream_header_size (sd_id s) (sd_total s) 65535 True + 1 < 1200 - length (so_bytes out_new)" "1200 \<le> (65535 :: nat)"
    unfolding ids q by simp_all
  have e: "contiguous_from (rs_add (sd_acked s) (si_offset it) (si_offset it + ucast (si_len it))) (sd_head_base s) = si_offset it + ucast (si_len it)"
    "si_offset it + ucast (si_len it) \<le> head_end s" unfolding i h using r by simp_all
  have "\<exists>d. stream_turn (\<lambda>_ _ _. []) 1200 0 out_new (lost_item it (snd (ack_item it (conn_of [s])))) = Some (t_next (out_new, d))
      \<and> sd_reset_due (sc_obj d 0) \<and> sd_reset_send_code (sc_obj d 0) = 0x102"
    by (rule probe_resets_trimmed_stream [OF f fl(1-9) e(1) fl(10,11) e(2) fl(12) z])
  then show ?thesis by (intro exI [of _ s] exI [of _ it]) (auto simp: s_def it_def)
qed

end
