(* ===== verification/Send_Accounts.thy ===== *)
theory Send_Accounts
  imports Quic_Send
begin

text \<open>
  What a connection knows of the bytes it sent, over everything that can happen to its streams: \<open>send_reach\<close> are the
  states reached by opening, answering, filling packets, acknowledgements, losses, probes, credit, resets and closing.
  The items in flight are a multiset, of which an acknowledgement or a loss takes one. The relation records whether a stream was
  reset while it was in the ready list, which \<^verbatim>\<open>Quic_Send\<close> shows to break the list, or a packet could not be sealed. Theorems, for
  connections that met neither: every byte is acknowledged, in flight, or due to be sent again, within the peer's limits;
  and when nothing is in flight and nothing waits, everything from the head base on was delivered.
\<close>

unbundle bit_operations_syntax

subsection \<open>The accounts of a stream\<close>

definition it_end :: "SentItem \<Rightarrow> u64" where
  "it_end it = si_offset it + ucast (si_len it)"

definition stream_ok :: "'f SendStream \<Rightarrow> SentItem set \<Rightarrow> bool" where
  "stream_ok s I \<longleftrightarrow> rs_inv (sd_lost s) \<and> rs_inv (sd_acked s) \<and> rs_set (sd_lost s) \<subseteq> {..< sd_next s} \<and> rs_set (sd_acked s) \<subseteq> {..< sd_next s}
     \<and> sd_next s \<le> sd_total s \<and> unat (sd_total s) < 2 ^ 62 \<and> sd_next s \<le> sd_max_send s
     \<and> (\<not> sd_fin s \<longrightarrow> unat (sd_total s) \<le> unat (sd_head_base s) + length (sd_head s) \<and> unat (sd_head_base s) + length (sd_head s) < 2 ^ 62) \<and> (sd_trim_head s \<longrightarrow> \<not> sd_fin s)
     \<and> (sd_fin_sent s \<or> sd_fin_acked s \<longrightarrow> sd_fin s)
     \<and> (\<forall>it\<in>I. unat (si_offset it) + unat (si_len it) \<le> unat (sd_next s) \<and> (si_fin it \<longrightarrow> sd_fin s))
     \<and> (\<not> sd_reset_sent s \<longrightarrow>
          (\<forall>k < sd_next s. k < sd_head_base s \<or> k \<in> rs_set (sd_acked s) \<or> k \<in> rs_set (sd_lost s) \<or> (\<exists>it\<in>I. k \<in> {si_offset it..<it_end it}))
          \<and> (sd_fin_sent s \<longrightarrow> sd_fin_acked s \<or> (\<exists>it\<in>I. si_fin it))
          \<and> (sd_send_done s \<longrightarrow> sd_fin_acked s \<and> {..< sd_total s} \<subseteq> rs_set (sd_acked s)))"

text \<open>A stream that is not in the list has nothing to send, is being reset, or waits for credit.\<close>

definition settled :: "u64 \<Rightarrow> u64 \<Rightarrow> 'f SendStream \<Rightarrow> bool" where
  "settled pm ds s \<longleftrightarrow> (has_unsent s \<longrightarrow> sd_reset_due s \<or> sd_reset_sent s
     \<or> sd_lost s = [] \<and> sd_next s < sd_total s \<and> (pm \<le> ds \<or> sd_max_send s \<le> sd_next s))"

definition core :: "'f SendStream \<Rightarrow> 'f SendStream" where
  "core s = s\<lparr>sd_ready := False, sd_next_ready := None\<rparr>"

lemma core_simps [simp]:
  "stream_ok (core s) I = stream_ok s I" "settled pm ds (core s) = settled pm ds s" "sd_id (core s) = sd_id s" "sd_open (core s) = sd_open s"
  "has_unsent (core s) = has_unsent s" "sd_reset_sent (core s) = sd_reset_sent s" "sd_reset_due (core s) = sd_reset_due s"
  by (simp_all add: core_def stream_ok_def settled_def has_unsent_def)

lemma core_cong:
  assumes "core s = core s'"
  shows "stream_ok s I = stream_ok s' I" "settled pm ds s = settled pm ds s'" "sd_id s = sd_id s'" "sd_open s = sd_open s'"
    "has_unsent s = has_unsent s'" "sd_reset_sent s = sd_reset_sent s'" "sd_reset_due s = sd_reset_due s'"
  using assms core_simps by metis+

definition items_for :: "u64 \<Rightarrow> SentItem multiset \<Rightarrow> SentItem set" where
  "items_for i M = {it. it \<in># M \<and> si_id it = i}"

text \<open>\<open>E\<close>: the streams that a handler has changed and not yet put in the list or taken out.\<close>

definition send_inv :: "sref set \<Rightarrow> 'f SendConn \<Rightarrow> SentItem multiset \<Rightarrow> u64 set \<Rightarrow> bool" where
  "send_inv E c M U \<longleftrightarrow> (\<exists>xs. ready_list c xs \<and> set xs \<subseteq> set (sc_all c)) \<and> data_sent c \<le> peer_max_data c
     \<and> inj_on (\<lambda>p. sd_id (sc_obj c p)) (set (sc_all c)) \<and> (\<forall>it. it \<in># M \<longrightarrow> si_id it \<in> U)
     \<and> (\<forall>p\<in>set (sc_all c). sd_open (sc_obj c p) \<and> sd_id (sc_obj c p) \<in> U \<and> stream_ok (sc_obj c p) (items_for (sd_id (sc_obj c p)) M)
          \<and> (p \<in> E \<or> sd_ready (sc_obj c p) \<or> settled (peer_max_data c) (data_sent c) (sc_obj c p)))"

lemma send_invD:
  assumes "send_inv E c M U" and "p \<in> set (sc_all c)"
  shows "sd_open (sc_obj c p)" "sd_id (sc_obj c p) \<in> U" "stream_ok (sc_obj c p) (items_for (sd_id (sc_obj c p)) M)"
    "p \<in> E \<or> sd_ready (sc_obj c p) \<or> settled (peer_max_data c) (data_sent c) (sc_obj c p)"
  using assms by (auto simp: send_inv_def)

text \<open>The list changes, and nothing else of the streams.\<close>

lemma relink_inv:
  assumes inv: "send_inv E c M U" and ready: "ready_list d xs" "set xs \<subseteq> set (sc_all c)"
    and core: "\<And>q. core (sc_obj d q) = core (sc_obj c q)" and conn: "sc_all d = sc_all c" "peer_max_data d = peer_max_data c" "data_sent d = data_sent c"
    and E: "\<And>q. q \<in> set (sc_all c) \<Longrightarrow> q \<in> F \<or> q \<in> set xs \<or> settled (peer_max_data c) (data_sent c) (sc_obj c q)"
  shows "send_inv F d M U"
proof -
  have eqs: "sd_id (sc_obj d q) = sd_id (sc_obj c q)" "sd_open (sc_obj d q) = sd_open (sc_obj c q)"
    "stream_ok (sc_obj d q) I = stream_ok (sc_obj c q) I" "settled pm ds (sc_obj d q) = settled pm ds (sc_obj c q)" for q I pm ds
    using core_cong [OF core [of q]] by blast+
  have r: "sd_ready (sc_obj d q) \<longleftrightarrow> q \<in> set xs" for q using ready(1) by (simp add: ready_list_def)
  have x: "\<exists>xs. ready_list d xs \<and> set xs \<subseteq> set (sc_all d)" using ready conn by auto
  show ?thesis unfolding send_inv_def eqs r conn
    using x [unfolded conn] inv [unfolded send_inv_def] E by blast
qed

lemma enqueue_core: "core (sc_obj (enqueue p c) q) = core (sc_obj c q)" "sc_all (enqueue p c) = sc_all c"
  "peer_max_data (enqueue p c) = peer_max_data c" "data_sent (enqueue p c) = data_sent c" "sc_control (enqueue p c) = sc_control c"
  by (auto simp: enqueue_def core_def Let_def split: option.split)

lemma enqueue_inv:
  assumes inv: "send_inv E c M U" and p: "p \<in> set (sc_all c)"
  shows "send_inv (E - {p}) (enqueue p c) M U"
proof -
  obtain xs where xs: "ready_list c xs" "set xs \<subseteq> set (sc_all c)" using inv by (auto simp: send_inv_def)
  define ys where "ys = (if p \<in> set xs \<or> \<not> sd_open (sc_obj c p) then xs else xs @ [p])"
  have ys: "set ys = insert p (set xs)" using send_invD(1) [OF inv p] by (auto simp: ys_def)
  have r: "sd_ready (sc_obj c q) \<longleftrightarrow> q \<in> set xs" for q using xs by (simp add: ready_list_def)
  show ?thesis
  proof (rule relink_inv [OF inv])
    show "ready_list (enqueue p c) ys" unfolding ys_def by (rule enqueue_ready [OF xs(1)])
  qed (use send_invD(4) [OF inv] ys xs p r in \<open>auto simp: enqueue_core\<close>)
qed

lemma dequeue_inv:
  assumes inv: "send_inv E c M U" and p: "settled (peer_max_data c) (data_sent c) (sc_obj c p)"
  obtains d where "dequeue p c = Some d" "send_inv (E - {p}) d M U" "\<And>q. core (sc_obj d q) = core (sc_obj c q)" "\<not> sd_ready (sc_obj d p)"
    "sc_all d = sc_all c"
proof -
  obtain xs where xs: "ready_list c xs" "set xs \<subseteq> set (sc_all c)" using inv by (auto simp: send_inv_def)
  obtain d where d: "dequeue p c = Some d" "ready_list d (remove1 p xs)" "\<And>q. core (sc_obj d q) = core (sc_obj c q)"
    "sc_all d = sc_all c" "peer_max_data d = peer_max_data c" "data_sent d = data_sent c"
    by (rule dequeue_ready [OF xs(1), of p, folded core_def]) (rule that)
  have dx: "distinct xs" and r: "\<And>q. sd_ready (sc_obj c q) \<longleftrightarrow> q \<in> set xs" using xs by (auto simp: ready_list_def)
  have "send_inv (E - {p}) d M U"
  proof (rule relink_inv [OF inv d(2)])
    show "q \<in> E - {p} \<or> q \<in> set (remove1 p xs) \<or> settled (peer_max_data c) (data_sent c) (sc_obj c q)" if "q \<in> set (sc_all c)" for q
      using send_invD(4) [OF inv that] p dx r by (cases "q = p") auto
  qed (use d xs dx in auto)
  moreover have "\<not> sd_ready (sc_obj d p)" using d(2) dx by (simp add: ready_list_def)
  ultimately show ?thesis using that d by blast
qed

lemma rotate_inv:
  assumes inv: "send_inv E c M U"
  shows "send_inv E (rotate_q c) M U"
proof -
  obtain xs where xs: "ready_list c xs" "set xs \<subseteq> set (sc_all c)" using inv by (auto simp: send_inv_def)
  have r: "sd_ready (sc_obj c q) \<longleftrightarrow> q \<in> set xs" for q using xs by (simp add: ready_list_def)
  show ?thesis
  proof (rule relink_inv [OF inv rotate_ready [OF xs(1)]])
    show "core (sc_obj (rotate_q c) q) = core (sc_obj c q)" for q by (auto simp: rotate_q_def core_def Let_def split: option.split)
  qed (use send_invD(4) [OF inv] xs r in \<open>auto simp: rotate_q_def Let_def split: option.split\<close>)
qed

text \<open>One stream changes, and the items in flight that are its own.\<close>

lemma update_inv:
  assumes inv: "send_inv E c M U" and p: "p \<in> set (sc_all c)"
    and s: "sd_id s = sd_id (sc_obj c p)" "sd_open s = sd_open (sc_obj c p)" "sd_ready s = sd_ready (sc_obj c p)" "sd_next_ready s = sd_next_ready (sc_obj c p)"
    and ok: "stream_ok s (items_for (sd_id s) M')" and other: "\<And>i. i \<noteq> sd_id s \<Longrightarrow> items_for i M' = items_for i M"
    and d: "sc_obj d = (sc_obj c)(p := s)" "sc_all d = sc_all c" "sc_head d = sc_head c" "sc_tail d = sc_tail c"
      "peer_max_data d = peer_max_data c" "data_sent c \<le> data_sent d" "data_sent d \<le> peer_max_data d"
    and p': "p \<in> F \<or> sd_ready s \<or> settled (peer_max_data d) (data_sent d) s" and F: "E \<subseteq> insert p F"
  shows "send_inv F d M' U"
proof -
  obtain xs where xs: "ready_list c xs" "set xs \<subseteq> set (sc_all c)" using inv by (auto simp: send_inv_def)
  have "linked d x ys = linked c x ys" for x ys using s(4) d(1) by (intro linked_cong) auto
  then have "ready_list d xs" using xs(1) s(3) d by (auto simp: ready_list_def)
  then have r: "\<exists>xs. ready_list d xs \<and> set xs \<subseteq> set (sc_all d)" using xs d by auto
  have id: "sd_id (sc_obj d q) = sd_id (sc_obj c q)" for q using s d by auto
  have inj: "inj_on (\<lambda>p. sd_id (sc_obj c p)) (set (sc_all c))" using inv by (simp add: send_inv_def)
  have items: "si_id it \<in> U" if "it \<in># M'" for it
  proof (cases "si_id it = sd_id s")
    case True
    then show ?thesis using send_invD(2) [OF inv p] s by simp
  next
    case False
    then have "it \<in># M" using that other [OF False] by (auto simp: items_for_def)
    then show ?thesis using inv by (auto simp: send_inv_def)
  qed
  have "sd_open (sc_obj d q) \<and> sd_id (sc_obj d q) \<in> U \<and> stream_ok (sc_obj d q) (items_for (sd_id (sc_obj d q)) M')
      \<and> (q \<in> F \<or> sd_ready (sc_obj d q) \<or> settled (peer_max_data d) (data_sent d) (sc_obj d q))" if q: "q \<in> set (sc_all d)" for q
  proof (cases "q = p")
    case True
    then show ?thesis using send_invD(1,2) [OF inv p] s ok d p' by auto
  next
    case False
    have q': "q \<in> set (sc_all c)" using q d by simp
    have "sd_id (sc_obj c q) \<noteq> sd_id s" using inj p q' False s(1) by (auto dest: inj_onD)
    then have "items_for (sd_id (sc_obj c q)) M' = items_for (sd_id (sc_obj c q)) M" by (rule other)
    moreover have "settled (peer_max_data c) (data_sent c) t \<Longrightarrow> settled (peer_max_data d) (data_sent d) t" for t :: "'a SendStream"
      using d(5,6) by (auto simp: settled_def)
    ultimately show ?thesis using send_invD [OF inv q'] False d F by auto
  qed
  then show ?thesis unfolding send_inv_def using r inj d(7) items by (simp add: id d(2))
qed


lemma find_stream_inv:
  assumes "find_stream i c = Some p"
  shows "p \<in> set (sc_all c)" "sd_open (sc_obj c p)" "sd_id (sc_obj c p) = i"
  using assms by (auto simp: find_stream_def find_Some_iff)

lemma ucast_len: "unat (ucast (x :: u32) :: u64) = unat x"
  using unsigned_less [of x, where ?'a = nat] by (intro unat_ucast_less) simp

lemma item_range:
  assumes "unat (si_offset it) + unat (si_len it) < 2 ^ 63"
  shows "unat (it_end it) = unat (si_offset it) + unat (si_len it)" and "si_len it = 0 \<longleftrightarrow> {si_offset it..<it_end it} = {}"
proof -
  show e: "unat (it_end it) = unat (si_offset it) + unat (si_len it)"
    unfolding it_end_def using assms by (subst unat_add_lem [THEN iffD1]) (simp_all add: ucast_len)
  show "si_len it = 0 \<longleftrightarrow> {si_offset it..<it_end it} = {}"
    using e by (auto simp: word_less_nat_alt unat_eq_0)
qed


subsection \<open>What an acknowledgement and a loss change\<close>

lemma stream_okD:
  assumes "stream_ok s I"
  shows "rs_inv (sd_lost s)" "rs_inv (sd_acked s)" "rs_set (sd_lost s) \<subseteq> {..< sd_next s}" "rs_set (sd_acked s) \<subseteq> {..< sd_next s}"
    "sd_next s \<le> sd_total s" "unat (sd_total s) < 2 ^ 62" "sd_next s \<le> sd_max_send s"
    "\<not> sd_fin s \<Longrightarrow> unat (sd_total s) \<le> unat (sd_head_base s) + length (sd_head s) \<and> unat (sd_head_base s) + length (sd_head s) < 2 ^ 62" "sd_trim_head s \<Longrightarrow> \<not> sd_fin s"
    "sd_fin_sent s \<Longrightarrow> sd_fin s" "sd_fin_acked s \<Longrightarrow> sd_fin s"
    "it \<in> I \<Longrightarrow> unat (si_offset it) + unat (si_len it) \<le> unat (sd_next s)" "it \<in> I \<Longrightarrow> si_fin it \<Longrightarrow> sd_fin s"
    "\<not> sd_reset_sent s \<Longrightarrow> k < sd_next s \<Longrightarrow>
      k < sd_head_base s \<or> k \<in> rs_set (sd_acked s) \<or> k \<in> rs_set (sd_lost s) \<or> (\<exists>it\<in>I. k \<in> {si_offset it..<it_end it})"
    "\<not> sd_reset_sent s \<Longrightarrow> sd_fin_sent s \<Longrightarrow> sd_fin_acked s \<or> (\<exists>it\<in>I. si_fin it)"
    "\<not> sd_reset_sent s \<Longrightarrow> sd_send_done s \<Longrightarrow> sd_fin_acked s \<and> {..< sd_total s} \<subseteq> rs_set (sd_acked s)"
  using assms unfolding stream_ok_def by blast+

lemma next_small: "stream_ok s I \<Longrightarrow> unat (sd_next s) < 2 ^ 62"
  using stream_okD(5,6) [of s I] by (simp add: word_le_nat_alt)

lemma item_in_next:
  assumes "stream_ok s I" and "it \<in> I"
  shows "unat (it_end it) = unat (si_offset it) + unat (si_len it)" "{si_offset it..<it_end it} \<subseteq> {..< sd_next s}"
    "si_len it = 0 \<longleftrightarrow> {si_offset it..<it_end it} = {}"
proof -
  have "unat (si_offset it) + unat (si_len it) < 2 ^ 63" using stream_okD(12) [OF assms] next_small [OF assms(1)] by simp
  note r = item_range [OF this]
  show "unat (it_end it) = unat (si_offset it) + unat (si_len it)" "si_len it = 0 \<longleftrightarrow> {si_offset it..<it_end it} = {}" by (rule r)+
  show "{si_offset it..<it_end it} \<subseteq> {..< sd_next s}" using r(1) stream_okD(12) [OF assms] by (auto simp: word_less_nat_alt word_le_nat_alt)
qed

lemma ack_range_ok:
  assumes ok: "stream_ok s I" and it: "it \<in> I" and J: "I - {it} \<subseteq> J" "J \<subseteq> I"
    and s': "s' = s\<lparr>sd_acked := A, sd_fin_acked := sd_fin_acked s \<or> si_fin it\<rparr>" "rs_inv A" "rs_set A = rs_set (sd_acked s) \<union> {si_offset it..<it_end it}"
  shows "stream_ok s' J"
proof -
  note d = stream_okD [OF ok]
  have f: "sd_fin_acked s \<or> si_fin it \<Longrightarrow> sd_fin s" using d(11) d(13) [OF it] by blast
  have cov: "k < sd_head_base s \<or> k \<in> rs_set A \<or> k \<in> rs_set (sd_lost s) \<or> (\<exists>it\<in>J. k \<in> {si_offset it..<it_end it})"
    if "\<not> sd_reset_sent s" "k < sd_next s" for k
    using d(14) [OF that] J(1) s'(3) by blast
  have fin: "sd_fin_acked s \<or> si_fin it \<or> (\<exists>it\<in>J. si_fin it)" if "\<not> sd_reset_sent s" "sd_fin_sent s" using d(15) [OF that] J(1) by blast
  have "rs_set A \<subseteq> {..< sd_next s}" using d(4) item_in_next(2) [OF ok it] s'(3) by blast
  moreover have "\<forall>it\<in>J. unat (si_offset it) + unat (si_len it) \<le> unat (sd_next s) \<and> (si_fin it \<longrightarrow> sd_fin s)" using d(12,13) J(2) by blast
  ultimately show ?thesis unfolding stream_ok_def s'(1) using d s'(2,3) f cov fin by auto
qed

lemma trim_ok:
  assumes ok: "stream_ok s J" and tr: "sd_trim_head s"
  shows "stream_ok (trim_acked s) J"
proof (cases "contiguous_from (sd_acked s) (sd_head_base s) > sd_head_base s + 16384 \<and> contiguous_from (sd_acked s) (sd_head_base s) \<le> head_end s")
  case False
  then have "trim_acked s = s" by (auto simp: trim_acked_def Let_def)
  then show ?thesis using ok by simp
next
  case True
  define u where "u = contiguous_from (sd_acked s) (sd_head_base s)"
  note d = stream_okD [OF ok]
  note cf = contiguous_from_correct [OF d(2), of "sd_head_base s", folded u_def]
  have t: "trim_acked s = s\<lparr>sd_head := drop (unat (u - sd_head_base s)) (sd_head s), sd_head_base := u, sd_acked := rs_remove_below (sd_acked s) u\<rparr>"
    using True by (simp add: trim_acked_def Let_def u_def)
  have nf: "\<not> sd_fin s" "\<not> sd_fin_acked s" "\<not> sd_fin_sent s" using d(9) [OF tr] d(10,11) by auto
  have hl: "unat (sd_head_base s) + length (sd_head s) < 2 ^ 62" using d(8) nf(1) by simp
  have "unat (head_end s) = unat (sd_head_base s) + length (sd_head s)" unfolding head_end_def using hl by (intro unat_add_nat) simp
  moreover have "u \<le> head_end s" using True by (simp add: u_def)
  ultimately have ul: "unat u \<le> unat (sd_head_base s) + length (sd_head s)" by (simp add: word_le_nat_alt)
  have ub: "unat (u - sd_head_base s) = unat u - unat (sd_head_base s)" "unat (sd_head_base s) \<le> unat u" using cf(1) by (simp_all add: unat_sub word_le_nat_alt)
  note rb = rs_remove_below_correct [OF d(2), of u]
  have cov: "k < u \<or> k \<in> rs_set (sd_acked s) - {..<u} \<or> k \<in> rs_set (sd_lost s) \<or> (\<exists>it\<in>J. k \<in> {si_offset it..<it_end it})"
    if "\<not> sd_reset_sent s" "k < sd_next s" for k
    using d(14) [OF that] cf(1) by (auto simp: not_less)
  have done': "sd_send_done s \<Longrightarrow> sd_reset_sent s" using d(16) nf by blast
  have len: "unat (sd_total s) \<le> unat u + length (drop (unat (u - sd_head_base s)) (sd_head s))"
    "unat u + length (drop (unat (u - sd_head_base s)) (sd_head s)) < 2 ^ 62" using d(8) nf(1) ub ul by simp_all
  have sub: "rs_set (rs_remove_below (sd_acked s) u) \<subseteq> {..< sd_next s}" using rb(2) d(4) by blast
  show ?thesis unfolding t stream_ok_def
    using d(1,3,5,6,7,9,10,12,13) nf rb cov done' len sub by auto
qed

lemma acked_ok:
  assumes ok: "stream_ok s I" and it: "it \<in> I" and J: "I - {it} \<subseteq> J" "J \<subseteq> I"
  defines "s' \<equiv> snd (acked_stream it s)"
  shows "stream_ok s' J" "settled pm ds s' = settled pm ds s" "sd_id s' = sd_id s" "sd_open s' = sd_open s" "sd_ready s' = sd_ready s"
    "sd_next_ready s' = sd_next_ready s"
proof -
  define A where "A = (if si_len it \<noteq> 0 then rs_add (sd_acked s) (si_offset it) (it_end it) else sd_acked s)"
  define s1 where "s1 = s\<lparr>sd_acked := A, sd_fin_acked := sd_fin_acked s \<or> si_fin it\<rparr>"
  note d = stream_okD [OF ok]
  have A: "rs_inv A" "rs_set A = rs_set (sd_acked s) \<union> {si_offset it..<it_end it}"
    using rs_add_correct [OF d(2)] item_in_next(3) [OF ok it] d(2) by (auto simp: A_def)
  have ok1: "stream_ok s1 J" by (rule ack_range_ok [OF ok it J s1_def A])
  have a: "acked_stream it s =
      (if sd_trim_head s1 then (False, trim_acked s1)
       else if \<not> sd_send_done s1 \<and> sd_fin_acked s1 \<and> (sd_total s1 = 0 \<or> rs_contains (sd_acked s1) 0 (sd_total s1)) then (True, s1\<lparr>sd_send_done := True\<rparr>)
       else (False, s1))"
    by (cases s) (simp add: acked_stream_def s1_def A_def it_end_def Let_def)
  show "stream_ok s' J"
  proof (cases "sd_trim_head s1")
    case True
    then show ?thesis using trim_ok [OF ok1 True] by (simp add: s'_def a)
  next
    case False
    note e = stream_okD [OF ok1]
    have "{..< sd_total s1} \<subseteq> rs_set (sd_acked s1)" if "sd_total s1 = 0 \<or> rs_contains (sd_acked s1) 0 (sd_total s1)"
    proof (cases "sd_total s1 = 0")
      case False
      then have "{0..< sd_total s1} \<subseteq> rs_set (sd_acked s1)" using that rs_contains_iff [OF e(2), of 0 "sd_total s1"] by (simp add: word_gt_0)
      then show ?thesis by auto
    qed auto
    then have "stream_ok (s1\<lparr>sd_send_done := True\<rparr>) J" if "sd_fin_acked s1" "sd_total s1 = 0 \<or> rs_contains (sd_acked s1) 0 (sd_total s1)"
      using ok1 that unfolding stream_ok_def by auto
    then show ?thesis using False ok1 by (simp add: s'_def a)
  qed
  show "settled pm ds s' = settled pm ds s" "sd_id s' = sd_id s" "sd_open s' = sd_open s" "sd_ready s' = sd_ready s" "sd_next_ready s' = sd_next_ready s"
    by (auto simp: s'_def a s1_def trim_acked_def settled_def has_unsent_def Let_def)
qed

lemma lost_ok:
  assumes ok: "stream_ok s I" and it: "it \<in> I" and J: "I - {it} \<subseteq> J" "J \<subseteq> I" and live: "\<not> sd_send_done s"
  defines "s' \<equiv> lost_stream it s"
  shows "stream_ok s' J" "sd_id s' = sd_id s" "sd_open s' = sd_open s" "sd_ready s' = sd_ready s" "sd_next_ready s' = sd_next_ready s"
proof -
  define L where "L = (if si_len it \<noteq> 0 then rs_add (sd_lost s) (si_offset it) (it_end it) else sd_lost s)"
  note d = stream_okD [OF ok]
  have L: "rs_inv L" "rs_set L = rs_set (sd_lost s) \<union> {si_offset it..<it_end it}"
    using rs_add_correct [OF d(1)] item_in_next(3) [OF ok it] d(1) by (auto simp: L_def)
  have s': "s' = s\<lparr>sd_lost := L, sd_fin_sent := sd_fin_sent s \<and> \<not> si_fin it\<rparr>" by (cases s) (simp add: s'_def lost_stream_def L_def it_end_def Let_def)
  have cov: "k < sd_head_base s \<or> k \<in> rs_set (sd_acked s) \<or> k \<in> rs_set L \<or> (\<exists>it\<in>J. k \<in> {si_offset it..<it_end it})"
    if "\<not> sd_reset_sent s" "k < sd_next s" for k
    using d(14) [OF that] J(1) L(2) by blast
  have fin: "sd_fin_acked s \<or> (\<exists>it\<in>J. si_fin it)" if "\<not> sd_reset_sent s" "sd_fin_sent s" "\<not> si_fin it" using d(15) [OF that(1,2)] that(3) J(1) by blast
  have "rs_set L \<subseteq> {..< sd_next s}" using d(3) item_in_next(2) [OF ok it] L(2) by blast
  moreover have "\<forall>it\<in>J. unat (si_offset it) + unat (si_len it) \<le> unat (sd_next s) \<and> (si_fin it \<longrightarrow> sd_fin s)" using d(12,13) J(2) by blast
  ultimately show "stream_ok s' J" unfolding stream_ok_def s' using d L(1) live cov fin by auto
  show "sd_id s' = sd_id s" "sd_open s' = sd_open s" "sd_ready s' = sd_ready s" "sd_next_ready s' = sd_next_ready s" by (simp_all add: s')
qed


subsection \<open>What a frame changes\<close>

lemma copy_same: "same_source s (snd (copy_loop rd s offs len dst))"
proof (induction rd s offs len dst rule: copy_loop.induct)
  case (1 rd s offs len dst)
  define pos where "pos = offs + of_nat (length dst)"
  define b where "b = pos - head_end s"
  show ?case
  proof (cases "length dst \<ge> len \<or> pos < head_end s \<and> pos < sd_head_base s")
    case True
    then show ?thesis by (subst copy_loop.simps) (auto simp: Let_def pos_def)
  next
    case live: False
    show ?thesis
    proof (cases "pos < head_end s")
      case True
      then show ?thesis using 1(1) [OF _ refl refl _ _ refl] live by (subst copy_loop.simps) (simp add: Let_def pos_def)
    next
      case out: False
      show ?thesis
      proof (cases "sd_mem s \<noteq> []")
        case True
        then show ?thesis using 1(2) [OF _ refl refl _ refl] live out by (subst copy_loop.simps) (simp add: Let_def pos_def)
      next
        case mem: False
        show ?thesis
        proof (cases "sd_file s")
          case None
          then show ?thesis using live out mem by (subst copy_loop.simps) (simp add: Let_def pos_def)
        next
          case (Some f)
          define held where "held \<longleftrightarrow> b \<ge> sd_chunk_off s \<and> b < sd_chunk_off s + of_nat (length (sd_chunk s))"
          define r where "r = file_read rd f (min 65536 (unat (sd_file_len s - b))) (sd_file_offset s + b)"
          define s' where "s' = (if held then s else s\<lparr>sd_chunk_off := b, sd_chunk := r\<rparr>)"
          have same: "same_source s s'" by (simp add: s'_def same_source_def)
          show ?thesis
          proof (cases "b \<ge> sd_file_len s \<or> \<not> held \<and> r = []")
            case True
            then show ?thesis using live out mem Some
              by (subst copy_loop.simps) (auto simp: Let_def pos_def [symmetric] b_def [symmetric] r_def [symmetric] held_def [symmetric])
          next
            case False
            define rel where "rel = unat (b - sd_chunk_off s')"
            let ?dst = "dst @ take (min (len - length dst) (length (sd_chunk s') - rel)) (drop rel (sd_chunk s'))"
            have "same_source s' (snd (copy_loop rd s' offs len ?dst))"
              using live out mem Some False
              by (intro 1(3) [OF _ pos_def refl _ b_def _ Some _ held_def r_def _ s'_def rel_def]) auto
            moreover have "copy_loop rd s offs len dst = copy_loop rd s' offs len ?dst"
              using live out mem Some False
              by (subst copy_loop.simps) (auto simp: Let_def pos_def [symmetric] b_def [symmetric] r_def [symmetric] held_def [symmetric] s'_def [symmetric] rel_def [symmetric])
            ultimately show ?thesis using same_source_trans [OF same] by simp
          qed
        qed
      qed
    qed
  qed
qed

definition frame_stream :: "u64 \<Rightarrow> nat \<Rightarrow> bool \<Rightarrow> bool \<Rightarrow> 'f SendStream \<Rightarrow> 'f SendStream" where
  "frame_stream b len resend fin s =
     (let s = (if resend then s\<lparr>sd_lost := rs_remove (sd_lost s) b (b + of_nat len)\<rparr> else if len \<noteq> 0 then s\<lparr>sd_next := b + of_nat len\<rparr> else s) in
      if fin then s\<lparr>sd_fin_sent := True\<rparr> else s)"

lemma frame_sent_stream:
  "sc_obj (frame_sent p b len resend fin c) = (sc_obj c)(p := frame_stream b len resend fin (sc_obj c p))"
  "sc_all (frame_sent p b len resend fin c) = sc_all c" "sc_head (frame_sent p b len resend fin c) = sc_head c"
  "sc_tail (frame_sent p b len resend fin c) = sc_tail c" "peer_max_data (frame_sent p b len resend fin c) = peer_max_data c"
  "data_sent (frame_sent p b len resend fin c) = (if \<not> resend \<and> len \<noteq> 0 then data_sent c + of_nat len else data_sent c)"
  by (auto simp: frame_sent_def frame_stream_def Let_def)

lemma frame_stream_fields:
  "sd_id (frame_stream b len resend fin s) = sd_id s" "sd_open (frame_stream b len resend fin s) = sd_open s"
  "sd_ready (frame_stream b len resend fin s) = sd_ready s" "sd_next_ready (frame_stream b len resend fin s) = sd_next_ready s"
  "sd_reset_due (frame_stream b len resend fin s) = sd_reset_due s" "sd_reset_sent (frame_stream b len resend fin s) = sd_reset_sent s"
  by (simp_all add: frame_stream_def Let_def)

text \<open>The bytes of a frame lie among the lost ones, or are new and within the credit.\<close>

lemma plan_cases:
  assumes ok: "stream_ok s I" and plan: "send_plan avail c s = sp_send b len resend" and av: "0 < avail" "avail < 2 ^ 32"
  shows "unat b + len < 2 ^ 62" "len < 2 ^ 32" "unat b + len \<le> unat (sd_total s)"
    "resend \<Longrightarrow> {b..<b + of_nat len} \<subseteq> rs_set (sd_lost s)"
    "\<not> resend \<Longrightarrow> b = sd_next s \<and> sd_lost s = [] \<and> unat b + len \<le> unat (sd_max_send s)
      \<and> (len \<noteq> 0 \<longrightarrow> data_sent c < peer_max_data c \<and> len \<le> unat (peer_max_data c) - unat (data_sent c))"
proof -
  note d = stream_okD [OF ok]
  have ua: "unat (of_nat avail :: u64) = avail" using av by (simp add: unat_of_nat take_bit_nat_eq_self)
  have tot: "unat (sd_next s) \<le> unat (sd_total s)" using d(5) by (simp add: word_le_nat_alt)
  have "unat b + len < 2 ^ 62 \<and> len < 2 ^ 32 \<and> unat b + len \<le> unat (sd_total s) \<and> (resend \<longrightarrow> {b..<b + of_nat len} \<subseteq> rs_set (sd_lost s))
    \<and> (\<not> resend \<longrightarrow> b = sd_next s \<and> sd_lost s = [] \<and> unat b + len \<le> unat (sd_max_send s)
      \<and> (len \<noteq> 0 \<longrightarrow> data_sent c < peer_max_data c \<and> len \<le> unat (peer_max_data c) - unat (data_sent c)))"
  proof (cases "sd_lost s")
    case (Cons x r)
    obtain x1 e where x: "x = (x1, e)" by (cases x)
    have b: "b = x1" "resend" "len = unat (min (e - b) (of_nat avail))" using plan Cons x by (auto simp: send_plan_def Let_def)
    have be: "b < e" using d(1) Cons x b by simp
    have sub: "{b..<e} \<subseteq> rs_set (sd_lost s)" using Cons x b by auto
    have eb: "unat (e - b) = unat e - unat b" using be by (simp add: unat_sub)
    have l: "len \<le> unat e - unat b" "len \<le> avail" using b(3) eb ua by (auto simp: min_def word_le_nat_alt)
    have ue: "unat b < unat e" using be by (simp add: word_less_nat_alt)
    have e1: "unat (e - 1) = unat e - 1" using ue by (subst unat_sub) (simp_all add: word_le_nat_alt)
    then have "e - 1 \<in> {b..<e}" using ue by (simp add: word_le_nat_alt word_less_nat_alt)
    then have "e - 1 < sd_next s" using sub d(3) by blast
    then have en: "unat e \<le> unat (sd_next s)" using e1 ue by (simp add: word_less_nat_alt)
    have bl: "unat (b + of_nat len) = unat b + len" using l ue en next_small [OF ok] by (intro unat_add_nat) simp
    then have "{b..<b + of_nat len} \<subseteq> {b..<e}" using l ue by (auto simp: word_less_nat_alt word_le_nat_alt)
    then have "{b..<b + of_nat len} \<subseteq> rs_set (sd_lost s)" using sub by (rule subset_trans)
    moreover have "unat b + len < 2 ^ 62 \<and> len < 2 ^ 32 \<and> unat b + len \<le> unat (sd_total s)" using l ue en av tot next_small [OF ok] by auto
    ultimately show ?thesis using b(2) by blast
  next
    case Nil
    define cr where "cr = (if peer_max_data c > data_sent c then peer_max_data c - data_sent c else 0)"
    define sr where "sr = (if sd_max_send s > sd_next s then sd_max_send s - sd_next s else 0)"
    define al where "al = min (min cr sr) (sd_total s - sd_next s)"
    have pl: "send_plan avail c s = (if sd_next s < sd_total s then
        (if al = 0 then sp_blocked sr else sp_send (sd_next s) (unat (min al (of_nat avail))) False)
      else if sd_fin s \<and> \<not> sd_fin_sent s then sp_send (sd_total s) 0 False else sp_idle)"
      using Nil by (simp add: send_plan_def cr_def sr_def al_def Let_def)
    show ?thesis
    proof (cases "sd_next s < sd_total s")
      case True
      then have b: "b = sd_next s" "\<not> resend" "len = unat (min al (of_nat avail))" "al \<noteq> 0" using plan pl by (auto split: if_splits)
      have le: "len \<le> unat al" "len \<le> avail" using b(3) ua by (auto simp: min_def word_le_nat_alt)
      have "al \<le> cr" "al \<le> sr" "al \<le> sd_total s - sd_next s" by (auto simp: al_def min_le_iff_disj)
      moreover from this have "cr \<noteq> 0" "sr \<noteq> 0" using b(4) by auto
      ultimately have "data_sent c < peer_max_data c" "unat al \<le> unat (peer_max_data c) - unat (data_sent c)"
        "sd_next s < sd_max_send s" "unat al \<le> unat (sd_max_send s) - unat (sd_next s)" "unat al \<le> unat (sd_total s) - unat (sd_next s)"
        using True unat_sub [of "data_sent c" "peer_max_data c"] unat_sub [of "sd_next s" "sd_max_send s"] unat_sub [of "sd_next s" "sd_total s"]
        by (auto simp: cr_def sr_def word_le_nat_alt word_less_nat_alt split: if_splits)
      then show ?thesis using b(1,2) le Nil True d(6) av by (auto simp: word_less_nat_alt)
    next
      case False
      then have "sd_next s = sd_total s" using d(5) by simp
      then show ?thesis using plan pl False d(6,7) Nil by (auto simp: word_le_nat_alt split: if_splits)
    qed
  qed
  then show "unat b + len < 2 ^ 62" "len < 2 ^ 32" "unat b + len \<le> unat (sd_total s)" "resend \<Longrightarrow> {b..<b + of_nat len} \<subseteq> rs_set (sd_lost s)"
    "\<not> resend \<Longrightarrow> b = sd_next s \<and> sd_lost s = [] \<and> unat b + len \<le> unat (sd_max_send s)
      \<and> (len \<noteq> 0 \<longrightarrow> data_sent c < peer_max_data c \<and> len \<le> unat (peer_max_data c) - unat (data_sent c))" by blast+
qed

lemma frame_ok:
  assumes ok: "stream_ok s I" and plan: "send_plan avail c s = sp_send b len resend" and av: "0 < avail" "avail < 2 ^ 32"
  defines "fin \<equiv> sd_fin s \<and> b + of_nat len = sd_total s"
  defines "it \<equiv> \<lparr>si_kind = it_stream, si_fin = fin, si_id = sd_id s, si_offset = b, si_len = of_nat len\<rparr>"
  shows "stream_ok (frame_stream b len resend fin s) (insert it I)"
proof -
  note d = stream_okD [OF ok] and pc = plan_cases [OF ok plan av]
  let ?s = "frame_stream b len resend fin s"
  have ul: "unat (of_nat len :: u32) = len" using pc(2) by (simp add: unat_of_nat take_bit_nat_eq_self)
  have bl: "unat (b + of_nat len) = unat b + len" using pc(1) by (intro unat_add_nat) simp
  have "ucast (of_nat len :: u32) = (of_nat len :: u64)" using ul pc(2) by (intro word_unat_eq_iff [THEN iffD2]) (simp add: ucast_len unat_of_nat take_bit_nat_eq_self)
  then have ie: "it_end it = b + of_nat len" by (simp add: it_end_def it_def)
  have nx: "sd_next ?s = (if \<not> resend \<and> len \<noteq> 0 then b + of_nat len else sd_next s)" by (simp add: frame_stream_def Let_def)
  have le: "sd_next s \<le> sd_next ?s" "sd_next ?s \<le> sd_total s" "sd_next ?s \<le> sd_max_send s"
    using pc(3,5) bl d(5,7) by (auto simp: nx word_le_nat_alt)
  have top: "unat b + len \<le> unat (sd_next ?s)"
  proof (cases "resend \<and> len \<noteq> 0")
    case True
    then have "b + of_nat len - 1 \<in> {b..<b + of_nat len}" using bl unat_sub [of 1 "b + of_nat len"]
      by (simp add: word_le_nat_alt word_less_nat_alt) linarith
    then have "b + of_nat len - 1 < sd_next s" using pc(4) True d(3) by blast
    moreover have "sd_next ?s = sd_next s" using True by (simp add: frame_stream_def Let_def)
    ultimately show ?thesis using True bl unat_sub [of 1 "b + of_nat len"] by (simp add: word_le_nat_alt word_less_nat_alt)
  next
    case False
    then show ?thesis
    proof (cases resend)
      case True
      then have "len = 0" using False by simp
      moreover have "sd_lost s \<noteq> []" using plan True by (auto simp: send_plan_def Let_def split: if_splits)
      ultimately have "unat (min (snd (hd (sd_lost s)) - fst (hd (sd_lost s))) (of_nat avail :: u64)) = 0" "fst (hd (sd_lost s)) < snd (hd (sd_lost s))"
        using plan d(1) by (auto simp: send_plan_def Let_def neq_Nil_conv)
      then show ?thesis using av unat_sub [of "fst (hd (sd_lost s))" "snd (hd (sd_lost s))"]
        by (auto simp: min_def unat_of_nat take_bit_nat_eq_self word_less_nat_alt word_le_nat_alt split: if_splits)
    next
      case False
      then have "b = sd_next s" using pc(5) by blast
      then show ?thesis using False bl by (simp add: frame_stream_def Let_def)
    qed
  qed
  have lost: "rs_inv (sd_lost ?s)" "rs_set (sd_lost ?s) = (if resend then rs_set (sd_lost s) - {b..<b + of_nat len} else rs_set (sd_lost s))"
    using rs_remove_correct [OF d(1), of b "b + of_nat len"] d(1) by (auto simp: frame_stream_def Let_def)
  have f: "sd_acked ?s = sd_acked s" "sd_total ?s = sd_total s" "sd_max_send ?s = sd_max_send s" "sd_fin ?s = sd_fin s" "sd_head_base ?s = sd_head_base s"
    "sd_head ?s = sd_head s" "sd_trim_head ?s = sd_trim_head s" "sd_fin_acked ?s = sd_fin_acked s" "sd_send_done ?s = sd_send_done s"
    "sd_reset_sent ?s = sd_reset_sent s" "sd_fin_sent ?s = (sd_fin_sent s \<or> fin)" by (auto simp: frame_stream_def Let_def)
  have cov: "k < sd_head_base s \<or> k \<in> rs_set (sd_acked s) \<or> k \<in> rs_set (sd_lost ?s) \<or> (\<exists>it\<in>insert it I. k \<in> {si_offset it..<it_end it})"
    if k: "\<not> sd_reset_sent s" "k < sd_next ?s" for k
  proof (cases "k \<in> {b..<b + of_nat len}")
    case True
    then show ?thesis using ie by (auto simp: it_def)
  next
    case False
    then have "k < sd_next s" using k(2) pc(5) by (auto simp: nx not_less split: if_splits)
    then show ?thesis using d(14) [OF k(1)] False lost(2) by (auto split: if_splits)
  qed
  have sub: "rs_set (sd_lost ?s) \<subseteq> {..< sd_next ?s}" "rs_set (sd_acked s) \<subseteq> {..< sd_next ?s}"
    using lost(2) d(3,4) le(1) by (auto split: if_splits)
  have its: "\<forall>x\<in>insert it I. unat (si_offset x) + unat (si_len x) \<le> unat (sd_next ?s) \<and> (si_fin x \<longrightarrow> sd_fin s)"
    using d(12,13) le(1) top ul by (auto simp: it_def fin_def word_le_nat_alt intro: order_trans)
  have fin': "sd_fin_acked s \<or> (\<exists>x\<in>insert it I. si_fin x)" if "\<not> sd_reset_sent s" "sd_fin_sent s \<or> fin"
    using that d(15) by (auto simp: it_def)
  show ?thesis unfolding stream_ok_def f
    using d(2,6,8,9,10,11,16) lost(1) sub le cov its fin' by (auto simp: fin_def)
qed

lemma same_source_ok:
  assumes "same_source s s'"
  shows "stream_ok s' I = stream_ok s I" "settled pm ds s' = settled pm ds s" "has_unsent s' = has_unsent s" "send_plan avail c s' = send_plan avail c s"
    "sd_id s' = sd_id s" "sd_open s' = sd_open s" "sd_ready s' = sd_ready s" "sd_next_ready s' = sd_next_ready s" "sd_fin s' = sd_fin s"
    "sd_total s' = sd_total s" "sd_reset_due s' = sd_reset_due s" "sd_reset_sent s' = sd_reset_sent s"
  by (subst assms [unfolded same_source_def], simp add: stream_ok_def settled_def has_unsent_def send_plan_def Let_def)+

lemma items_for_add: "items_for i (add_mset it M) = (if si_id it = i then insert it (items_for i M) else items_for i M)"
  by (auto simp: items_for_def)

lemma items_for_remove:
  "items_for i M - {it} \<subseteq> items_for i (M - {#it#})" "items_for i (M - {#it#}) \<subseteq> items_for i M"
  "si_id it \<noteq> i \<Longrightarrow> items_for i (M - {#it#}) = items_for i M"
  by (auto simp: items_for_def in_diff_count count_greater_zero_iff [symmetric] simp del: count_greater_zero_iff dest: in_diffD split: if_splits)

text \<open>A front is a stream of the table, marked as ready.\<close>

lemma front_inv:
  assumes inv: "send_inv E c M U" and h: "sc_head c = Some p"
  shows "p \<in> set (sc_all c)" "sd_ready (sc_obj c p)"
proof -
  obtain xs where xs: "ready_list c xs" "set xs \<subseteq> set (sc_all c)" using inv by (auto simp: send_inv_def)
  then have "p \<in> set xs" using h by (cases xs) (auto simp: ready_list_def)
  then show "p \<in> set (sc_all c)" "sd_ready (sc_obj c p)" using xs by (auto simp: ready_list_def)
qed

lemma frame_inv:
  assumes inv: "send_inv {} c M U" and h: "sc_head c = Some p" and plan: "send_plan avail c (sc_obj c p) = sp_send b len resend"
    and av: "0 < avail" "avail < 2 ^ 32" and turn: "send_frame rd room p b len resend out c = Some (t_next (out', c'))"
    and reset: "sd_reset_due (sc_obj c' p) = sd_reset_due (sc_obj c p)"
  shows "send_inv {} c' (M + mset (drop (length (so_items out)) (so_items out'))) U"
proof -
  define s where "s = sc_obj c p"
  define fin where "fin \<longleftrightarrow> sd_fin s \<and> b + of_nat len = sd_total s"
  define it where "it = \<lparr>si_kind = it_stream, si_fin = fin, si_id = sd_id s, si_offset = b, si_len = of_nat len\<rparr>"
  obtain ds s1 where copy: "(if len = 0 then (Some [], s) else copy_stream_bytes rd s b len) = (ds, s1)" by fastforce
  have same: "same_source s s1" using copy copy_same [of s rd b len "[]"] by (auto simp: copy_stream_bytes_def split: if_splits)
  note ss = same_source_ok [OF same]
  define c1 where "c1 = sc_upd p (\<lambda>_. s1) c"
  note fr = front_inv [OF inv h] and ok = send_invD(3) [OF inv front_inv(1) [OF inv h], folded s_def]
  have ds: "data_sent c \<le> peer_max_data c" using inv by (simp add: send_inv_def)
  have inv1: "send_inv {} c1 M U"
    by (rule update_inv [OF inv fr(1), where s = s1]) (use ss ok fr ds in \<open>auto simp: s_def [symmetric] c1_def\<close>)
  show ?thesis
  proof (cases ds)
    case None
    then have deq: "map_option (\<lambda>c. t_next (out, c)) (dequeue p (stream_reset p 0x102 c1)) = Some (t_next (out', c'))"
      using turn copy by (simp add: send_frame_def Let_def s_def [symmetric] fin_def [symmetric] c1_def [symmetric] split: if_splits)
    have c1p: "sc_obj c1 p = s1" by (simp add: c1_def)
    have r: "sd_reset_sent s1 \<or> sd_reset_due s1"
    proof (rule ccontr)
      assume "\<not> (sd_reset_sent s1 \<or> sd_reset_due s1)"
      then have "c' = stream_reset p 0x102 c1" "sd_reset_due (sc_obj (stream_reset p 0x102 c1) p)" using deq by (auto simp: stream_reset_def c1p dequeue_def)
      then show False using reset ss(11) \<open>\<not> (sd_reset_sent s1 \<or> sd_reset_due s1)\<close> by (simp add: s_def)
    qed
    then have "stream_reset p 0x102 c1 = c1" by (simp add: stream_reset_def c1p)
    moreover have "settled (peer_max_data c1) (data_sent c1) (sc_obj c1 p)" using r by (auto simp: settled_def c1p)
    from dequeue_inv [OF inv1 this] obtain d where "dequeue p c1 = Some d" "send_inv {} d M U" by auto
    ultimately show ?thesis using deq by auto
  next
    case (Some bs)
    define c2 where "c2 = frame_sent p b len resend fin c1"
    have it1: "it = \<lparr>si_kind = it_stream, si_fin = fin, si_id = sd_id s1, si_offset = b, si_len = of_nat len\<rparr>" using ss(5) by (simp add: it_def)
    define hdr where "hdr = put_stream_header (room - length (so_bytes out)) (sd_id s) b len fin True"
    define o' where "o' = out\<lparr>so_bytes := so_bytes out @ hdr @ bs, so_items := so_items out @ [it], so_eliciting := True\<rparr>"
    have "send_frame rd room p b len resend out c =
        (if hdr = [] then Some t_break
         else if has_unsent (sc_obj c2 p) then Some (t_next (o', rotate_q c2)) else map_option (\<lambda>c. t_next (o', c)) (dequeue p c2))"
      unfolding send_frame_def Let_def s_def [symmetric] fin_def [symmetric] hdr_def [symmetric] copy Some prod.case option.case
        c1_def [symmetric] c2_def [symmetric] it1 [symmetric] o'_def [symmetric] ..
    then have res: "so_items out' = so_items out @ [it]" "(if has_unsent (sc_obj c2 p) then Some (rotate_q c2) else dequeue p c2) = Some c'"
      using turn by (cases "dequeue p c2"; auto simp: o'_def split: if_splits)+
    note fs = frame_sent_stream [of p b len resend fin c1, folded c2_def]
    have c1: "sc_obj c1 p = s1" "sc_all c1 = sc_all c" "peer_max_data c1 = peer_max_data c" "data_sent c1 = data_sent c" by (simp_all add: c1_def)
    have plan1: "send_plan avail c s1 = sp_send b len resend" using plan ss(4) by (simp add: s_def)
    have ok1: "stream_ok s1 (items_for (sd_id s) M)" using ok ss(1) by simp
    note pc = plan_cases [OF ok1 plan1 av]
    have "stream_ok (frame_stream b len resend fin s1) (insert it (items_for (sd_id s) M))"
      using frame_ok [OF ok1 plan1 av] ss by (simp add: it_def fin_def)
    then have ok2: "stream_ok (frame_stream b len resend fin s1) (items_for (sd_id (frame_stream b len resend fin s1)) (add_mset it M))"
      by (simp add: items_for_add frame_stream_fields ss it_def)
    have dd: "data_sent c1 \<le> data_sent c2" "data_sent c2 \<le> peer_max_data c2"
    proof -
      have "unat (data_sent c + of_nat len) = unat (data_sent c) + len" if "\<not> resend" "len \<noteq> 0"
        using pc(5) [OF that(1)] that(2) u64_less [of "peer_max_data c"] by (intro unat_add_nat) (simp add: word_less_nat_alt, linarith)
      then show "data_sent c1 \<le> data_sent c2" "data_sent c2 \<le> peer_max_data c2"
        using pc(5) ds by (auto simp: fs c1 word_le_nat_alt word_less_nat_alt)
    qed
    have inv2: "send_inv {} c2 (add_mset it M) U"
    proof (rule update_inv [OF inv1, where s = "frame_stream b len resend fin s1" and p = p])
      show "items_for i (add_mset it M) = items_for i M" if "i \<noteq> sd_id (frame_stream b len resend fin s1)" for i
        using that by (simp add: items_for_add frame_stream_fields ss it_def)
    qed (use fr ok2 dd fs c1 ss in \<open>simp_all add: frame_stream_fields s_def [symmetric]\<close>)
    show ?thesis
    proof (cases "has_unsent (sc_obj c2 p)")
      case True
      then show ?thesis using res rotate_inv [OF inv2] by simp
    next
      case False
      then have "settled (peer_max_data c2) (data_sent c2) (sc_obj c2 p)" by (simp add: settled_def)
      from dequeue_inv [OF inv2 this] obtain d where "dequeue p c2 = Some d" "send_inv {} d (add_mset it M) U" by auto
      then show ?thesis using res False by simp
    qed
  qed
qed

lemma turn_inv:
  assumes inv: "send_inv {} c M U" and h: "sc_head c = Some p" and room: "room < 2 ^ 32"
    and turn: "stream_turn rd room p out c = Some (t_next (out', c'))" and reset: "sd_reset_due (sc_obj c' p) = sd_reset_due (sc_obj c p)"
  shows "send_inv {} c' (M + mset (drop (length (so_items out)) (so_items out'))) U"
proof -
  define s where "s = sc_obj c p"
  define avail where "avail = room - length (so_bytes out) - stream_header_size (sd_id s) (sd_total s) 65535 True"
  note fr = front_inv [OF inv h] and ok = send_invD(3) [OF inv front_inv(1) [OF inv h], folded s_def]
  have guard: "\<not> room - length (so_bytes out) \<le> stream_header_size (sd_id s) (sd_total s) 65535 True + 1"
    using turn by (auto simp: stream_turn_def s_def Let_def split: if_splits)
  then have av: "0 < avail" "avail < 2 ^ 32" using room by (auto simp: avail_def)
  have ds: "data_sent c \<le> peer_max_data c" using inv by (simp add: send_inv_def)
  note t = turn [unfolded stream_turn_def Let_def, folded s_def, folded avail_def]
  show ?thesis
  proof (cases "send_plan avail c s")
    case (sp_send b len resend)
    then have "send_frame rd room p b len resend out c = Some (t_next (out', c'))" using t guard by simp
    then show ?thesis using frame_inv [OF inv h sp_send [unfolded s_def] av] reset by simp
  next
    case (sp_blocked sr)
    define c1 where "c1 = sc_upd p (\<lambda>s. s\<lparr>sd_blocked_reported := True\<rparr>) c"
    have inv1: "send_inv {} c1 M U"
      by (rule update_inv [OF inv fr(1), where s = "s\<lparr>sd_blocked_reported := True\<rparr>"])
        (use ok fr ds in \<open>auto simp: s_def [symmetric] c1_def stream_ok_def\<close>)
    have "settled (peer_max_data c) (data_sent c) s"
      using sp_blocked by (auto simp: send_plan_def settled_def Let_def min_def not_less split: if_splits)
    then have "settled (peer_max_data c1) (data_sent c1) (sc_obj c1 p)" by (simp add: c1_def s_def settled_def has_unsent_def)
    from dequeue_inv [OF inv1 this] obtain d where "dequeue p c1 = Some d" "send_inv {} d M U" by auto
    then show ?thesis using t guard sp_blocked by (auto simp: c1_def s_def)
  next
    case sp_idle
    then have "settled (peer_max_data c) (data_sent c) (sc_obj c p)" by (auto simp: send_plan_def settled_def has_unsent_def s_def Let_def split: if_splits)
    from dequeue_inv [OF inv this] obtain d where "dequeue p c = Some d" "send_inv {} d M U" by auto
    then show ?thesis using t guard sp_idle by auto
  qed
qed


subsection \<open>Every step\<close>

text \<open>
  A turn of a packet adds its items to those in flight; a packet is a run of turns. The last argument records whether
  the connection has met one of two faults: a stream was reset while it was in the ready list, by the application or because the source
  of its bytes failed (\<open>reset_loses_ready_streams\<close> shows what follows), or a packet that was filled could not be sealed and its items were
  forgotten.
\<close>

definition ready_reset :: "sref \<Rightarrow> 'f SendConn \<Rightarrow> 'f SendConn \<Rightarrow> bool" where
  "ready_reset p c c' \<longleftrightarrow> sd_ready (sc_obj c p) \<and> sd_reset_due (sc_obj c' p) \<noteq> sd_reset_due (sc_obj c p)"

inductive send_reach :: "'f pread \<Rightarrow> 'f SendConn \<Rightarrow> SentItem multiset \<Rightarrow> u64 set \<Rightarrow> bool \<Rightarrow> bool" for rd where
  start: "ready_list c [] \<Longrightarrow> sc_all c = [] \<Longrightarrow> sc_control c = [] \<Longrightarrow> data_sent c = 0 \<Longrightarrow> send_reach rd c {#} {} False"
| opens: "send_reach rd c M U B \<Longrightarrow> p \<notin> set (sc_all c) \<Longrightarrow> i \<notin> U \<Longrightarrow> send_reach rd (open_send p i credit trim c) M (insert i U) B"
| responds: "send_reach rd c M U B \<Longrightarrow> p \<in> set (sc_all c) \<Longrightarrow> \<not> sd_trim_head (sc_obj c p) \<Longrightarrow> \<not> sd_fin (sc_obj c p) \<Longrightarrow>
    sd_head (sc_obj c p) = [] \<Longrightarrow> sd_head_base (sc_obj c p) = 0 \<Longrightarrow> length head + 16 + unat (rb_length body) < 2 ^ 62 \<Longrightarrow>
    c' = respond p head is_head body c \<Longrightarrow> send_reach rd c' M U (B \<or> ready_reset p c c')"
| appends: "send_reach rd c M U B \<Longrightarrow> p \<in> set (sc_all c) \<Longrightarrow> \<not> sd_fin (sc_obj c p) \<Longrightarrow>
    unat (sd_head_base (sc_obj c p)) + length (sd_head (sc_obj c p)) + length bs < 2 ^ 62 \<Longrightarrow> send_reach rd (append_head p bs c) M U B"
| turns: "send_reach rd c M U B \<Longrightarrow> sc_head c = Some p \<Longrightarrow> room < 2 ^ 32 \<Longrightarrow> stream_turn rd room p out c = Some (t_next (out', c')) \<Longrightarrow>
    send_reach rd c' (M + mset (drop (length (so_items out)) (so_items out'))) U (B \<or> ready_reset p c c')"
| forgets: "send_reach rd c M U B \<Longrightarrow> N \<subseteq># M \<Longrightarrow> send_reach rd c (M - N) U True"
| acks: "send_reach rd c M U B \<Longrightarrow> it \<in># M \<Longrightarrow> send_reach rd (snd (ack_item it c)) (M - {#it#}) U B"
| losses: "send_reach rd c M U B \<Longrightarrow> it \<in># M \<Longrightarrow> send_reach rd (lost_item it c) (M - {#it#}) U B"
| probes: "send_reach rd c M U B \<Longrightarrow> it \<in># M \<Longrightarrow> send_reach rd (lost_item it c) M U B"
| max_data: "send_reach rd c M U B \<Longrightarrow> send_reach rd (on_max_data v c) M U B"
| max_stream_data: "send_reach rd c M U B \<Longrightarrow> p \<in> set (sc_all c) \<Longrightarrow> send_reach rd (on_max_stream_data p v c) M U B"
| resets: "send_reach rd c M U B \<Longrightarrow> p \<in> set (sc_all c) \<Longrightarrow> c' = stream_reset p code c \<Longrightarrow> send_reach rd c' M U (B \<or> ready_reset p c c')"
| stops: "send_reach rd c M U B \<Longrightarrow> p \<in> set (sc_all c) \<Longrightarrow> send_reach rd (stream_stop_sending p code c) M U B"
| controls: "send_reach rd c M U B \<Longrightarrow> sc_control c \<noteq> [] \<Longrightarrow> control_step room out c = Some (r, out', c') \<Longrightarrow> send_reach rd c' M U B"
| closes: "send_reach rd c M U B \<Longrightarrow> p \<in> set (sc_all c) \<Longrightarrow> close_send p c = Some d \<Longrightarrow> send_reach rd (release p d) M U B"

text \<open>A change of one stream that keeps its accounts and its place in the list.\<close>

lemma touch_inv:
  assumes inv: "send_inv E c M U" and p: "p \<in> set (sc_all c)"
    and f: "sd_ready (f (sc_obj c p)) = sd_ready (sc_obj c p)" "sd_next_ready (f (sc_obj c p)) = sd_next_ready (sc_obj c p)"
      "sd_id (f (sc_obj c p)) = sd_id (sc_obj c p)" "sd_open (f (sc_obj c p)) = sd_open (sc_obj c p)"
      "stream_ok (f (sc_obj c p)) (items_for (sd_id (sc_obj c p)) M)"
  shows "send_inv (insert p E) (sc_upd p f c) M U"
  by (rule update_inv [OF inv p f(3,4,1,2)]) (use f inv in \<open>auto simp: send_inv_def\<close>)

lemma control_cong_inv: "send_inv E (c\<lparr>sc_control := cs\<rparr>) M U = send_inv E c M U"
proof -
  have "linked (c\<lparr>sc_control := cs\<rparr>) x ys = linked c x ys" for x ys by (intro linked_cong) simp
  then show ?thesis by (simp add: send_inv_def ready_list_def)
qed

lemma settle_inv:
  assumes "send_inv (insert p E) c M U" and "sd_ready (sc_obj c p) \<or> settled (peer_max_data c) (data_sent c) (sc_obj c p)"
  shows "send_inv (E - {p}) c M U"
  using assms unfolding send_inv_def by auto

lemma settle1: "send_inv {p} c M U \<Longrightarrow> sd_ready (sc_obj c p) \<or> settled (peer_max_data c) (data_sent c) (sc_obj c p) \<Longrightarrow> send_inv {} c M U"
  using settle_inv [of p "{}"] by simp

text \<open>The streams with a frame due are streams of the table.\<close>

definition control_known :: "'f SendConn \<Rightarrow> bool" where
  "control_known c \<longleftrightarrow> set (sc_control c) \<subseteq> set (sc_all c)"

lemma unlink_keeps:
  assumes "unlink s prev p c = Some d"
  shows "sc_all d = sc_all c \<and> sc_control d = sc_control c"
proof (rule unlink.raw_induct [where P = "\<lambda>s prev p c d. sc_all d = sc_all c \<and> sc_control d = sc_control c", OF _ assms], goal_cases)
  case (1 unlink s prev p c d)
  then show ?case by (fastforce simp: Let_def split: option.splits if_splits)
qed

lemma dequeue_keeps: "dequeue p c = Some d \<Longrightarrow> sc_all d = sc_all c \<and> sc_control d = sc_control c"
  by (auto simp: dequeue_def dest: unlink_keeps split: if_splits)

lemma rotate_keeps: "sc_all (rotate_q c) = sc_all c" "sc_control (rotate_q c) = sc_control c"
  by (auto simp: rotate_q_def Let_def split: option.split)

lemma reset_keeps: "sc_all (stream_reset p code c) = sc_all c" "set (sc_control (stream_reset p code c)) \<subseteq> insert p (set (sc_control c))"
  by (auto simp: stream_reset_def)

lemma frame_sent_control: "sc_control (frame_sent p b len resend fin c) = sc_control c"
  by (simp add: frame_sent_def Let_def)

lemma turn_keeps:
  assumes "stream_turn rd room p out c = Some (t_next (out', c'))"
  shows "sc_all c' = sc_all c \<and> set (sc_control c') \<subseteq> insert p (set (sc_control c))"
proof -
  have "sc_all c' = sc_all c \<and> set (sc_control c') \<subseteq> insert p (set (sc_control c))"
    if t: "send_frame rd room p b len resend out c = Some (t_next (out', c'))" for b len resend
  proof -
    obtain ds s1 where copy: "(if len = 0 then (Some [], sc_obj c p) else copy_stream_bytes rd (sc_obj c p) b len) = (ds, s1)" by fastforce
    show ?thesis using t unfolding send_frame_def Let_def copy prod.case
      by (cases ds) (auto simp: frame_sent_stream frame_sent_control rotate_keeps reset_keeps(1)
        dest!: dequeue_keeps reset_keeps(2) [THEN subsetD] split: if_splits)
  qed
  then show ?thesis using assms by (auto simp: stream_turn_def Let_def dest: dequeue_keeps split: if_splits SendPlan.splits)
qed

lemma open_inv:
  assumes inv: "send_inv {} c M U" and p: "p \<notin> set (sc_all c)" and i: "i \<notin> U"
  shows "send_inv {} (open_send p i credit trim c) M (insert i U)"
proof -
  let ?d = "open_send p i credit trim c" and ?s = "sd_new\<lparr>sd_id := i, sd_open := True, sd_max_send := credit, sd_trim_head := trim\<rparr>"
  have d: "sc_obj ?d = (sc_obj c)(p := ?s)" "sc_all ?d = sc_all c @ [p]" "sc_head ?d = sc_head c" "sc_tail ?d = sc_tail c"
    "peer_max_data ?d = peer_max_data c" "data_sent ?d = data_sent c" by (simp_all add: open_send_def)
  obtain xs where xs: "ready_list c xs" "set xs \<subseteq> set (sc_all c)" using inv by (auto simp: send_inv_def)
  have px: "p \<notin> set xs" using xs p by auto
  have "linked ?d x xs = linked c x xs" for x using px by (intro linked_cong) (auto simp: d)
  then have "ready_list ?d xs" using xs(1) px by (auto simp: ready_list_def d sd_new_def)
  then have r: "\<exists>xs. ready_list ?d xs \<and> set xs \<subseteq> set (sc_all ?d)" using xs d by auto
  have none: "items_for i M = {}" using inv i by (auto simp: send_inv_def items_for_def)
  have ids: "sd_id (sc_obj c q) \<in> U" if "q \<in> set (sc_all c)" for q using send_invD(2) [OF inv that] .
  have "inj_on (\<lambda>p. sd_id (sc_obj c p)) (set (sc_all c))" using inv by (simp add: send_inv_def)
  then have inj: "inj_on (\<lambda>p. sd_id (sc_obj ?d p)) (set (sc_all ?d))" using ids i p unfolding d by (auto simp: inj_on_def)
  have new: "stream_ok ?s {}" "settled pm ds ?s" for pm ds by (auto simp: stream_ok_def settled_def has_unsent_def sd_new_def)
  have "sd_open (sc_obj ?d q) \<and> sd_id (sc_obj ?d q) \<in> insert i U \<and> stream_ok (sc_obj ?d q) (items_for (sd_id (sc_obj ?d q)) M)
      \<and> (sd_ready (sc_obj ?d q) \<or> settled (peer_max_data ?d) (data_sent ?d) (sc_obj ?d q))" if "q \<in> set (sc_all ?d)" for q
    using that send_invD [OF inv, of q] new none p by (cases "q = p") (auto simp: d)
  moreover have "data_sent ?d \<le> peer_max_data ?d" "\<forall>it. it \<in># M \<longrightarrow> si_id it \<in> insert i U" using inv by (auto simp: send_inv_def d)
  ultimately show ?thesis unfolding send_inv_def using r inj by simp
qed

text \<open>New bytes at the end of a stream, which is then put in the list.\<close>

lemma stream_grow_ok:
  assumes ok: "stream_ok s I" and nf: "\<not> sd_fin s" and s': "sd_lost s' = sd_lost s" "sd_acked s' = sd_acked s" "sd_next s' = sd_next s"
      "sd_max_send s' = sd_max_send s" "sd_trim_head s' = sd_trim_head s" "sd_head_base s' = sd_head_base s" "sd_fin_sent s' = sd_fin_sent s"
      "sd_fin_acked s' = sd_fin_acked s" "sd_reset_sent s' = sd_reset_sent s" "sd_send_done s' = sd_send_done s"
    and tot: "sd_total s \<le> sd_total s'" "unat (sd_total s') < 2 ^ 62" "\<not> sd_fin s' \<Longrightarrow> unat (sd_total s') \<le> unat (sd_head_base s) + length (sd_head s')"
      "\<not> sd_fin s' \<Longrightarrow> unat (sd_head_base s) + length (sd_head s') < 2 ^ 62"
    and fin: "sd_trim_head s \<Longrightarrow> \<not> sd_fin s'"
  shows "stream_ok s' I"
proof -
  note d = stream_okD [OF ok]
  have "\<not> sd_fin_sent s" "\<not> sd_fin_acked s" "\<And>it. it \<in> I \<Longrightarrow> \<not> si_fin it" using d(10,11,13) nf by auto
  moreover have "sd_send_done s \<Longrightarrow> sd_reset_sent s" using d(16) nf d(11) by blast
  moreover have "sd_next s \<le> sd_total s'" using d(5) tot(1) by (rule order_trans)
  moreover have "\<not> sd_reset_sent s \<Longrightarrow> \<forall>k < sd_next s. k < sd_head_base s \<or> k \<in> rs_set (sd_acked s) \<or> k \<in> rs_set (sd_lost s) \<or> (\<exists>it\<in>I. k \<in> {si_offset it..<it_end it})"
    using d(14) by blast
  ultimately show ?thesis unfolding stream_ok_def s' using d(1-4,7,12) tot fin by auto
qed

lemma reset_inv:
  assumes inv: "send_inv {} c M U" and p: "p \<in> set (sc_all c)" and nr: "\<not> ready_reset p c (stream_reset p code c)"
  shows "send_inv {} (stream_reset p code c) M U"
proof (cases "sd_reset_sent (sc_obj c p) \<or> sd_reset_due (sc_obj c p)")
  case False
  then have nr: "\<not> sd_ready (sc_obj c p)" using nr by (auto simp: ready_reset_def stream_reset_def)
  let ?f = "\<lambda>s. s\<lparr>sd_reset_due := True, sd_reset_send_code := code, sd_ready := False\<rparr>"
  have "stream_ok (?f (sc_obj c p)) (items_for (sd_id (sc_obj c p)) M)" using send_invD(3) [OF inv p] by (simp add: stream_ok_def)
  then have "send_inv {p} (sc_upd p ?f c) M U" using nr by (intro touch_inv [OF inv p]) simp_all
  then have "send_inv {} (sc_upd p ?f c) M U" by (rule settle1) (simp add: settled_def)
  then show ?thesis using False by (simp add: stream_reset_def control_cong_inv)
qed (simp add: stream_reset_def inv)

text \<open>An answer with a body or none puts its bytes on the stream; a streamed body resets the stream.\<close>

lemma respond_cases:
  assumes "\<not> (\<not> is_head \<and> body = rb_stream)"
  obtains bd hd where "bd = (if is_head then rb_none else body)"
    "respond p head is_head body c = enqueue p (sc_upd p (\<lambda>_. (put_body bd ((sc_obj c p)\<lparr>sd_head := head\<rparr>))\<lparr>sd_head := hd, sd_total := of_nat (length hd) + rb_length bd, sd_fin := True\<rparr>) c)"
    "length hd \<le> length head + 16" "unat (rb_length bd) \<le> unat (rb_length body)"
proof -
  let ?b = "if is_head then rb_none else body"
  let ?h = "if rb_length ?b \<noteq> 0 then append_h3_header head 0 (rb_length ?b) else head"
  have "?b \<noteq> rb_stream" using assms by auto
  then have "respond p head is_head body c = enqueue p (sc_upd p (\<lambda>_. (put_body ?b ((sc_obj c p)\<lparr>sd_head := head\<rparr>))\<lparr>sd_head := ?h, sd_total := of_nat (length ?h) + rb_length ?b, sd_fin := True\<rparr>) c)"
    by (cases "sc_obj c p") (auto simp: respond_def Let_def put_body_def split: RBody.split)
  moreover have "length ?h \<le> length head + 16" using length_append_h3_header by simp
  ultimately show thesis using that [OF refl] by (simp add: rb_length_def)
qed

lemma put_body_fields:
  "sd_lost (put_body bd s) = sd_lost s" "sd_acked (put_body bd s) = sd_acked s" "sd_next (put_body bd s) = sd_next s"
  "sd_max_send (put_body bd s) = sd_max_send s" "sd_trim_head (put_body bd s) = sd_trim_head s" "sd_head_base (put_body bd s) = sd_head_base s"
  "sd_fin_sent (put_body bd s) = sd_fin_sent s" "sd_fin_acked (put_body bd s) = sd_fin_acked s" "sd_reset_sent (put_body bd s) = sd_reset_sent s"
  "sd_send_done (put_body bd s) = sd_send_done s" "sd_ready (put_body bd s) = sd_ready s" "sd_next_ready (put_body bd s) = sd_next_ready s"
  "sd_id (put_body bd s) = sd_id s" "sd_open (put_body bd s) = sd_open s"
  by (simp_all add: put_body_def split: RBody.split)

lemma respond_inv:
  assumes inv: "send_inv {} c M U" and p: "p \<in> set (sc_all c)" and s: "\<not> sd_trim_head (sc_obj c p)" "\<not> sd_fin (sc_obj c p)"
      "sd_head (sc_obj c p) = []" "sd_head_base (sc_obj c p) = 0"
    and len: "length head + 16 + unat (rb_length body) < 2 ^ 62" and nr: "\<not> ready_reset p c (respond p head is_head body c)"
  shows "send_inv {} (respond p head is_head body c) M U"
proof -
  note ok = send_invD(3) [OF inv p]
  have t0: "sd_total (sc_obj c p) = 0" using stream_okD(8) [OF ok s(2)] s(3,4) by (simp add: unat_eq_0)
  show ?thesis
  proof (cases "\<not> is_head \<and> body = rb_stream")
    case True
    let ?s = "(sc_obj c p)\<lparr>sd_head := head\<rparr>"
    let ?c = "sc_upd p (\<lambda>_. ?s) c"
    have r: "respond p head is_head body c = stream_reset p 0x102 ?c" using True by (simp add: respond_def Let_def)
    have "stream_ok ?s (items_for (sd_id (sc_obj c p)) M)" by (rule stream_grow_ok [OF ok s(2)]) (use t0 s len in auto)
    then have "send_inv {p} ?c M U" using touch_inv [OF inv p, of "\<lambda>_. ?s"] by simp
    then have "send_inv {} ?c M U" using send_invD(4) [OF inv p] by (elim settle1) (simp add: settled_def has_unsent_def)
    then show ?thesis unfolding r using p nr by (intro reset_inv) (simp_all add: r ready_reset_def)
  next
    case False
    then obtain bd hd where b: "respond p head is_head body c =
          enqueue p (sc_upd p (\<lambda>_. (put_body bd ((sc_obj c p)\<lparr>sd_head := head\<rparr>))\<lparr>sd_head := hd, sd_total := of_nat (length hd) + rb_length bd, sd_fin := True\<rparr>) c)"
        "length hd \<le> length head + 16" "unat (rb_length bd) \<le> unat (rb_length body)" by (rule respond_cases)
    let ?s = "(put_body bd ((sc_obj c p)\<lparr>sd_head := head\<rparr>))\<lparr>sd_head := hd, sd_total := of_nat (length hd) + rb_length bd, sd_fin := True\<rparr>"
    have "unat (of_nat (length hd) + rb_length bd) < 2 ^ 62"
      using unat_add_nat [of "rb_length bd" "length hd"] b(2,3) len by (simp add: add.commute)
    then have "stream_ok ?s (items_for (sd_id (sc_obj c p)) M)" by (intro stream_grow_ok [OF ok s(2)]) (use t0 s in \<open>simp_all add: put_body_fields\<close>)
    then have "send_inv {p} (sc_upd p (\<lambda>_. ?s) c) M U" using touch_inv [OF inv p, of "\<lambda>_. ?s"] by (simp add: put_body_fields)
    from enqueue_inv [OF this, of p] p show ?thesis by (simp add: b(1))
  qed
qed

lemma append_inv:
  assumes inv: "send_inv {} c M U" and p: "p \<in> set (sc_all c)" and nf: "\<not> sd_fin (sc_obj c p)"
    and len: "unat (sd_head_base (sc_obj c p)) + length (sd_head (sc_obj c p)) + length bs < 2 ^ 62"
  shows "send_inv {} (append_head p bs c) M U"
proof -
  define s where "s = sc_obj c p"
  define s' where "s' = s\<lparr>sd_head := sd_head s @ bs, sd_total := head_end (s\<lparr>sd_head := sd_head s @ bs\<rparr>)\<rparr>"
  have a: "append_head p bs c = enqueue p (sc_upd p (\<lambda>_. s') c)" by (simp add: append_head_def s'_def s_def Let_def)
  note ok = send_invD(3) [OF inv p, folded s_def]
  have "unat (head_end (s\<lparr>sd_head := sd_head s @ bs\<rparr>)) = unat (sd_head_base s) + length (sd_head s @ bs)"
    unfolding head_end_def using len unat_add_nat [of "sd_head_base s" "length (sd_head s @ bs)"] by (simp add: s_def)
  then have "stream_ok s' (items_for (sd_id s) M)"
    using len stream_okD(8) [OF ok] stream_okD(9) [OF ok] nf by (intro stream_grow_ok [OF ok]) (auto simp: s'_def s_def word_le_nat_alt)
  then have "send_inv {p} (sc_upd p (\<lambda>_. s') c) M U" using touch_inv [OF inv p, of "\<lambda>_. s'"] by (simp add: s'_def s_def)
  from enqueue_inv [OF this, of p] p show ?thesis by (simp add: a)
qed

lemma ack_inv:
  assumes inv: "send_inv {} c M U" and it: "it \<in># M"
  shows "send_inv {} (snd (ack_item it c)) (M - {#it#}) U"
proof (cases "find_stream (si_id it) c")
  case None
  have "sd_id (sc_obj c q) \<noteq> si_id it" if "q \<in> set (sc_all c)" for q
    using None that send_invD(1) [OF inv that] by (auto simp: find_stream_def find_None_iff)
  then have "items_for (sd_id (sc_obj c q)) (M - {#it#}) = items_for (sd_id (sc_obj c q)) M" if "q \<in> set (sc_all c)" for q
    using that items_for_remove(3) by metis
  moreover have "\<forall>x. x \<in># M - {#it#} \<longrightarrow> si_id x \<in> U" using inv by (auto simp: send_inv_def dest: in_diffD)
  ultimately show ?thesis using inv None by (simp add: send_inv_def ack_item_def)
next
  case (Some p)
  note f = find_stream_inv [OF Some]
  note ok = send_invD(3) [OF inv f(1)]
  have mem: "it \<in> items_for (sd_id (sc_obj c p)) M" using it f(3) by (simp add: items_for_def)
  note a = acked_ok [OF ok mem items_for_remove(1,2)]
  have c: "snd (ack_item it c) = sc_upd p (\<lambda>_. snd (acked_stream it (sc_obj c p))) c" using Some f(2) by (simp add: ack_item_def split: prod.split)
  show ?thesis unfolding c
  proof (rule update_inv [OF inv f(1), where s = "snd (acked_stream it (sc_obj c p))"])
    show "items_for i (M - {#it#}) = items_for i M" if "i \<noteq> sd_id (snd (acked_stream it (sc_obj c p)))" for i
      using that items_for_remove(3) f(3) a(3) by metis
  qed (use a send_invD(4) [OF inv f(1)] inv in \<open>auto simp: send_inv_def\<close>)
qed

lemma shrink_ok:
  assumes ok: "stream_ok s I" and J: "J \<subseteq> I" and acked: "\<not> sd_reset_sent s \<Longrightarrow> sd_fin_acked s \<and> {..< sd_next s} \<subseteq> rs_set (sd_acked s)"
  shows "stream_ok s J"
proof -
  note d = stream_okD [OF ok]
  have "\<forall>it\<in>J. unat (si_offset it) + unat (si_len it) \<le> unat (sd_next s) \<and> (si_fin it \<longrightarrow> sd_fin s)" using d(12,13) J by blast
  moreover have "\<not> sd_reset_sent s \<Longrightarrow> \<forall>k < sd_next s. k \<in> rs_set (sd_acked s)" "\<not> sd_reset_sent s \<Longrightarrow> sd_fin_acked s" using acked by auto
  ultimately show ?thesis unfolding stream_ok_def using d(1-11,16) by blast
qed

lemma lost_inv:
  assumes inv: "send_inv {} c M U" and it: "it \<in># M" and M': "M' = M \<or> M' = M - {#it#}"
  shows "send_inv {} (lost_item it c) M' U"
proof -
  have sub: "items_for i M - {it} \<subseteq> items_for i M'" "items_for i M' \<subseteq> items_for i M" "si_id it \<noteq> i \<Longrightarrow> items_for i M' = items_for i M" for i
    using M' items_for_remove by blast+
  have U': "\<forall>x. x \<in># M' \<longrightarrow> si_id x \<in> U" using inv M' by (auto simp: send_inv_def dest: in_diffD)
  show ?thesis
  proof (cases "find_stream (si_id it) c")
    case None
    have "sd_id (sc_obj c q) \<noteq> si_id it" if "q \<in> set (sc_all c)" for q
      using None that send_invD(1) [OF inv that] by (auto simp: find_stream_def find_None_iff)
    then have "items_for (sd_id (sc_obj c q)) M' = items_for (sd_id (sc_obj c q)) M" if "q \<in> set (sc_all c)" for q using that sub(3) by metis
    then show ?thesis using inv None U' by (simp add: send_inv_def lost_item_def)
  next
    case (Some p)
    note f = find_stream_inv [OF Some]
    define s where "s = sc_obj c p"
    note ok = send_invD(3) [OF inv f(1), folded s_def]
    have mem: "it \<in> items_for (sd_id s) M" using it f(3) by (simp add: items_for_def s_def)
    have other: "items_for i M' = items_for i M" if "i \<noteq> sd_id s" for i using that sub(3) f(3) by (metis s_def)
    show ?thesis
    proof (cases "sd_send_done s \<or> sd_reset_sent s")
      case True
      then have "lost_item it c = c" using Some by (auto simp: lost_item_def s_def Let_def)
      moreover have "stream_ok s (items_for (sd_id s) M')"
      proof (rule shrink_ok [OF ok sub(2)])
        assume "\<not> sd_reset_sent s"
        then show "sd_fin_acked s \<and> {..< sd_next s} \<subseteq> rs_set (sd_acked s)"
          using stream_okD(16) [OF ok] True lessThan_subset_iff [THEN iffD2, OF stream_okD(5) [OF ok]] by (metis subset_trans)
      qed
      then have "send_inv {} c M' U"
        by (intro update_inv [OF inv f(1), where s = s]) (use other send_invD(4) [OF inv f(1)] inv in \<open>auto simp: send_inv_def s_def\<close>)
      ultimately show ?thesis by simp
    next
      case False
      define c1 where "c1 = sc_upd p (lost_stream it) c"
      have l: "stream_ok (lost_stream it s) (items_for (sd_id s) M')" "sd_id (lost_stream it s) = sd_id s" "sd_open (lost_stream it s) = sd_open s"
        "sd_ready (lost_stream it s) = sd_ready s" "sd_next_ready (lost_stream it s) = sd_next_ready s" using lost_ok [OF ok mem sub(1,2)] False by auto
      have "send_inv {p} c1 M' U"
        by (rule update_inv [OF inv f(1), where s = "lost_stream it s"]) (use l other inv in \<open>auto simp: send_inv_def s_def c1_def\<close>)
      moreover have "lost_item it c = (if has_unsent (sc_obj c1 p) then enqueue p c1 else c1)"
        using Some f(2) False by (auto simp: lost_item_def s_def c1_def Let_def)
      moreover have "settled pm ds (sc_obj c1 p)" if "\<not> has_unsent (sc_obj c1 p)" for pm ds using that by (simp add: settled_def)
      moreover have "p \<in> set (sc_all c1)" using f(1) by (simp add: c1_def)
      ultimately show ?thesis using enqueue_inv [of "{p}" c1 M' U p] settle_inv [of p "{}" c1 M' U] by auto
    qed
  qed
qed

lemma wake_inv:
  assumes "send_inv (set ps \<union> E) c M U" and "set ps \<subseteq> set (sc_all c)"
  shows "send_inv (E - set ps) (foldl (\<lambda>c p. let s = sc_obj c p in
            if sd_open s \<and> has_unsent s \<and> \<not> sd_ready s \<and> \<not> sd_reset_sent s
            then enqueue p (sc_upd p (\<lambda>s. s\<lparr>sd_blocked_reported := False\<rparr>) c) else c) c ps) M U"
  using assms
proof (induction ps arbitrary: c E)
  case (Cons p ps)
  define c1 where "c1 = (let s = sc_obj c p in
            if sd_open s \<and> has_unsent s \<and> \<not> sd_ready s \<and> \<not> sd_reset_sent s
            then enqueue p (sc_upd p (\<lambda>s. s\<lparr>sd_blocked_reported := False\<rparr>) c) else c)"
  let ?E = "set ps \<union> (E - {p})"
  have p: "p \<in> set (sc_all c)" using Cons.prems by simp
  have all: "sc_all c1 = sc_all c" by (simp add: c1_def enqueue_core Let_def)
  have inv: "send_inv (insert p (set ps \<union> E)) c M U" using Cons.prems(1) by simp
  have ok: "stream_ok (sc_obj c p) (items_for (sd_id (sc_obj c p)) M)" by (rule send_invD(3) [OF inv p])
  have "send_inv (set ps \<union> E - {p}) c1 M U"
  proof (cases "has_unsent (sc_obj c p) \<and> \<not> sd_ready (sc_obj c p) \<and> \<not> sd_reset_sent (sc_obj c p)")
    case True
    have "send_inv (insert p (set ps \<union> E)) (sc_upd p (\<lambda>s. s\<lparr>sd_blocked_reported := False\<rparr>) c) M U"
      using touch_inv [OF inv p, of "\<lambda>s. s\<lparr>sd_blocked_reported := False\<rparr>"] ok by (simp add: stream_ok_def)
    from enqueue_inv [OF this, of p] show ?thesis using True send_invD(1) [OF inv p] p by (simp add: c1_def Let_def)
  next
    case False
    then have "c1 = c" "sd_ready (sc_obj c p) \<or> settled (peer_max_data c) (data_sent c) (sc_obj c p)" by (auto simp: c1_def settled_def Let_def)
    then show ?thesis using settle_inv [OF inv] by simp
  qed
  then have "send_inv (set ps \<union> (set ps \<union> E - {p})) c1 M U" unfolding send_inv_def by blast
  from Cons.IH [OF this] have "send_inv (set ps \<union> E - {p} - set ps) (foldl (\<lambda>c p. let s = sc_obj c p in
            if sd_open s \<and> has_unsent s \<and> \<not> sd_ready s \<and> \<not> sd_reset_sent s
            then enqueue p (sc_upd p (\<lambda>s. s\<lparr>sd_blocked_reported := False\<rparr>) c) else c) c1 ps) M U"
    using Cons.prems(2) all by simp
  moreover have "set ps \<union> E - {p} - set ps = E - set (p # ps)" by auto
  ultimately show ?case by (simp add: c1_def)
qed simp

lemma max_data_inv:
  assumes inv: "send_inv {} c M U"
  shows "send_inv {} (on_max_data v c) M U"
proof (cases "v > peer_max_data c")
  case True
  let ?c = "c\<lparr>peer_max_data := v\<rparr>"
  have "linked ?c x ys = linked c x ys" for x ys by (intro linked_cong) simp
  then have "send_inv (set (sc_all c)) ?c M U" using inv True unfolding send_inv_def ready_list_def by auto
  then have "send_inv ({} - set (sc_all ?c)) (wake_blocked ?c) M U" unfolding wake_blocked_def by (intro wake_inv) simp_all
  then show ?thesis using True by (simp add: on_max_data_def)
qed (simp add: on_max_data_def inv)

lemma max_stream_data_inv:
  assumes inv: "send_inv {} c M U" and p: "p \<in> set (sc_all c)"
  shows "send_inv {} (on_max_stream_data p v c) M U"
proof (cases "v > sd_max_send (sc_obj c p)")
  case True
  define c1 where "c1 = sc_upd p (\<lambda>s. s\<lparr>sd_max_send := v, sd_blocked_reported := False\<rparr>) c"
  have "stream_ok ((sc_obj c p)\<lparr>sd_max_send := v, sd_blocked_reported := False\<rparr>) (items_for (sd_id (sc_obj c p)) M)"
    using send_invD(3) [OF inv p] True unfolding stream_ok_def by auto
  then have 1: "send_inv {p} c1 M U" unfolding c1_def by (intro touch_inv [OF inv p]) simp_all
  have o: "on_max_stream_data p v c = (if has_unsent (sc_obj c1 p) then enqueue p c1 else c1)" using True by (simp add: on_max_stream_data_def c1_def Let_def)
  show ?thesis
  proof (cases "has_unsent (sc_obj c1 p)")
    case True
    then show ?thesis using enqueue_inv [OF 1, of p] p o by (simp add: c1_def)
  next
    case False
    then show ?thesis using settle_inv [OF 1] o by (simp add: settled_def)
  qed
qed (simp add: on_max_stream_data_def inv)

lemma stop_inv:
  assumes inv: "send_inv {} c M U" and p: "p \<in> set (sc_all c)"
  shows "send_inv {} (stream_stop_sending p code c) M U"
proof -
  let ?f = "\<lambda>s. s\<lparr>sd_stop_due := True, sd_stop_send_code := code\<rparr>"
  have "stream_ok (?f (sc_obj c p)) (items_for (sd_id (sc_obj c p)) M)" using send_invD(3) [OF inv p] by (simp add: stream_ok_def)
  then have "send_inv {p} (sc_upd p ?f c) M U" by (intro touch_inv [OF inv p]) simp_all
  then have "send_inv {} (sc_upd p ?f c) M U" using send_invD(4) [OF inv p] by (elim settle1) (simp add: settled_def has_unsent_def)
  then show ?thesis using inv by (simp add: stream_stop_sending_def control_cong_inv)
qed

lemma control_frames_inv:
  assumes inv: "send_inv {} c M U" and q: "last (sc_control c) = q" "q \<in> set (sc_all c)" and step: "control_frames room out c = (reset_now, fits, out', c')"
  shows "send_inv {} c' M U" "sc_all c' = sc_all c" "sc_control c' = sc_control c" "reset_now \<Longrightarrow> sd_reset_sent (sc_obj c' q)"
proof -
  define c1 where "c1 = (if reset_now then sc_upd q (\<lambda>s. s\<lparr>sd_reset_due := False, sd_reset_sent := True\<rparr>) c else c)"
  note s = step [unfolded control_frames_def Let_def q(1) prod.inject]
  from s [THEN conjunct2, THEN conjunct2, THEN conjunct2, unfolded s [THEN conjunct1], folded c1_def, symmetric]
  obtain stop where c': "c' = (if stop then sc_upd q (\<lambda>s. s\<lparr>sd_stop_due := False\<rparr>) c1 else c1)" by (rule that)
  have q1: "q \<in> set (sc_all c1)" "sc_all c1 = sc_all c" "sc_control c1 = sc_control c" using q(2) by (simp_all add: c1_def)
  have "stream_ok ((sc_obj c q)\<lparr>sd_reset_due := False, sd_reset_sent := True\<rparr>) (items_for (sd_id (sc_obj c q)) M)"
    using send_invD(3) [OF inv q(2)] unfolding stream_ok_def by simp
  then have "send_inv {q} (sc_upd q (\<lambda>s. s\<lparr>sd_reset_due := False, sd_reset_sent := True\<rparr>) c) M U" by (intro touch_inv [OF inv q(2)]) simp_all
  then have "send_inv {} (sc_upd q (\<lambda>s. s\<lparr>sd_reset_due := False, sd_reset_sent := True\<rparr>) c) M U" by (rule settle1) (simp add: settled_def)
  then have 1: "send_inv {} c1 M U" using inv by (simp add: c1_def)
  have "send_inv {q} (sc_upd q (\<lambda>s. s\<lparr>sd_stop_due := False\<rparr>) c1) M U"
    using send_invD(3) [OF 1 q1(1)] by (intro touch_inv [OF 1 q1(1)]) (simp_all add: stream_ok_def)
  then have "send_inv {} (sc_upd q (\<lambda>s. s\<lparr>sd_stop_due := False\<rparr>) c1) M U"
    using send_invD(4) [OF 1 q1(1)] by (elim settle1) (simp add: settled_def has_unsent_def)
  then show "send_inv {} c' M U" using 1 by (simp add: c')
  show "sc_all c' = sc_all c" "sc_control c' = sc_control c" using q1 by (simp_all add: c')
  show "sd_reset_sent (sc_obj c' q)" if reset_now using that by (simp add: c' c1_def)
qed

lemma control_inv:
  assumes inv: "send_inv {} c M U" and ne: "sc_control c \<noteq> []" and known: "control_known c" and step: "control_step room out c = Some (r, out', c')"
  shows "send_inv {} c' M U \<and> control_known c'"
proof -
  define q where "q = last (sc_control c)"
  have q: "q \<in> set (sc_all c)" using ne known last_in_set [OF ne] by (auto simp: q_def control_known_def)
  obtain now fits out1 c1 where f: "control_frames room out c = (now, fits, out1, c1)" by (metis prod_cases4)
  note cf = control_frames_inv [OF inv q_def [symmetric] q f]
  define c2 where "c2 = c1\<lparr>sc_control := butlast (sc_control c1)\<rparr>"
  have 2: "send_inv {} c2 M U" using cf(1) by (simp add: c2_def control_cong_inv)
  have known': "control_known c1" "control_known c2" using known cf(2,3) by (auto simp: control_known_def c2_def dest: in_set_butlastD)
  define c3 where "c3 = sc_upd q (\<lambda>s. s\<lparr>sd_send_done := True\<rparr>) c2"
  have st: "(if \<not> fits then Some (None, out1, c1)
      else if now \<and> \<not> sd_send_done (sc_obj c2 q) then map_option (\<lambda>c. (Some True, out1, c)) (dequeue q c3)
      else Some (Some False, out1, c2)) = Some (r, out', c')"
    using step unfolding control_step_def Let_def f prod.case q_def [symmetric] c2_def [symmetric] c3_def [symmetric] .
  show ?thesis
  proof (cases "fits \<and> now \<and> \<not> sd_send_done (sc_obj c2 q)")
    case True
    have q2: "q \<in> set (sc_all c2)" using q cf(2) by (simp add: c2_def)
    have rs: "sd_reset_sent (sc_obj c2 q)" using cf(4) True by (simp add: c2_def)
    have "send_inv {q} c3 M U" unfolding c3_def
      using send_invD(3) [OF 2 q2] rs by (intro touch_inv [OF 2 q2]) (simp_all add: stream_ok_def)
    then have "send_inv {} c3 M U" using rs by (elim settle1) (simp add: c3_def settled_def)
    moreover have "settled (peer_max_data c3) (data_sent c3) (sc_obj c3 q)" using rs by (simp add: c3_def settled_def)
    ultimately obtain d where d: "dequeue q c3 = Some d" "send_inv ({} - {q}) d M U" by (rule dequeue_inv) (rule that)
    have "sc_all d = sc_all c2" "sc_control d = sc_control c2" using dequeue_keeps [OF d(1)] by (simp_all add: c3_def)
    then show ?thesis using st True d known'(2) by (simp add: control_known_def)
  next
    case False
    then show ?thesis using st cf(1) 2 known' by (auto split: if_splits)
  qed
qed

lemma close_inv:
  assumes inv: "send_inv {} c M U" and p: "p \<in> set (sc_all c)" and close: "close_send p c = Some d"
  shows "send_inv {} (release p d) M U"
proof -
  obtain xs where xs: "ready_list c xs" "set xs \<subseteq> set (sc_all c)" using inv by (auto simp: send_inv_def)
  obtain e where e: "dequeue p c = Some e" "ready_list e (remove1 p xs)" "\<And>q. core (sc_obj e q) = core (sc_obj c q)"
    "sc_all e = sc_all c" "peer_max_data e = peer_max_data c" "data_sent e = data_sent c"
    by (rule dequeue_ready [OF xs(1), of p, folded core_def]) (rule that)
  let ?d = "release p d"
  have d: "sc_obj ?d = (sc_obj e)(p := sd_new)" "sc_all ?d = filter (\<lambda>q. q \<noteq> p) (sc_all c)" "sc_head ?d = sc_head e" "sc_tail ?d = sc_tail e"
    "peer_max_data ?d = peer_max_data c" "data_sent ?d = data_sent c"
    using close e by (auto simp: close_send_def release_def)
  have dx: "distinct xs" and rx: "\<And>q. sd_ready (sc_obj c q) \<longleftrightarrow> q \<in> set xs" using xs(1) by (simp_all add: ready_list_def)
  have re: "\<And>q. sd_ready (sc_obj e q) \<longleftrightarrow> q \<in> set xs - {p}" using e(2) dx by (simp add: ready_list_def)
  have "linked ?d x (remove1 p xs) = linked e x (remove1 p xs)" for x using dx by (intro linked_cong) (auto simp: d)
  then have "ready_list ?d (remove1 p xs)" using e(2) dx by (auto simp: ready_list_def d sd_new_def)
  moreover have "set (remove1 p xs) \<subseteq> set (sc_all ?d)" using xs(2) dx by (auto simp: d)
  ultimately have r: "\<exists>xs. ready_list ?d xs \<and> set xs \<subseteq> set (sc_all ?d)" by blast
  have eqs: "sd_id (sc_obj e q) = sd_id (sc_obj c q)" "sd_open (sc_obj e q) = sd_open (sc_obj c q)"
    "stream_ok (sc_obj e q) I = stream_ok (sc_obj c q) I" "settled pm ds (sc_obj e q) = settled pm ds (sc_obj c q)" for q I pm ds
    using core_cong [OF e(3) [of q]] by blast+
  have "inj_on (\<lambda>p. sd_id (sc_obj c p)) (set (sc_all c))" using inv by (simp add: send_inv_def)
  then have inj: "inj_on (\<lambda>p. sd_id (sc_obj ?d p)) (set (sc_all ?d))" by (auto simp: d inj_on_def eqs)
  have "sd_open (sc_obj ?d q) \<and> sd_id (sc_obj ?d q) \<in> U \<and> stream_ok (sc_obj ?d q) (items_for (sd_id (sc_obj ?d q)) M)
      \<and> (sd_ready (sc_obj ?d q) \<or> settled (peer_max_data ?d) (data_sent ?d) (sc_obj ?d q))" if "q \<in> set (sc_all ?d)" for q
    using that send_invD [OF inv, of q] rx re by (auto simp: d eqs)
  moreover have "data_sent ?d \<le> peer_max_data ?d" "\<forall>it. it \<in># M \<longrightarrow> si_id it \<in> U" using inv by (auto simp: send_inv_def d)
  ultimately show ?thesis unfolding send_inv_def using r inj by simp
qed

lemma start_inv: "ready_list c [] \<Longrightarrow> sc_all c = [] \<Longrightarrow> data_sent c = 0 \<Longrightarrow> send_inv {} c {#} {}"
  by (simp add: send_inv_def)

lemma wake_keeps: "sc_all (wake_blocked c) = sc_all c" "sc_control (wake_blocked c) = sc_control c"
proof -
  have "sc_all (foldl (\<lambda>c p. let s = sc_obj c p in
            if sd_open s \<and> has_unsent s \<and> \<not> sd_ready s \<and> \<not> sd_reset_sent s
            then enqueue p (sc_upd p (\<lambda>s. s\<lparr>sd_blocked_reported := False\<rparr>) c) else c) c ps) = sc_all c
    \<and> sc_control (foldl (\<lambda>c p. let s = sc_obj c p in
            if sd_open s \<and> has_unsent s \<and> \<not> sd_ready s \<and> \<not> sd_reset_sent s
            then enqueue p (sc_upd p (\<lambda>s. s\<lparr>sd_blocked_reported := False\<rparr>) c) else c) c ps) = sc_control c" for ps
    by (induction ps arbitrary: c) (simp_all add: Let_def enqueue_core)
  then show "sc_all (wake_blocked c) = sc_all c" "sc_control (wake_blocked c) = sc_control c" by (simp_all add: wake_blocked_def)
qed

lemma known_kept:
  "control_known c \<Longrightarrow> control_known (open_send p i credit trim c)" "control_known c \<Longrightarrow> p \<in> set (sc_all c) \<Longrightarrow> control_known (respond p head is_head body c)"
  "control_known c \<Longrightarrow> control_known (append_head p bs c)" "control_known c \<Longrightarrow> control_known (snd (ack_item it c))"
  "control_known c \<Longrightarrow> control_known (lost_item it c)" "control_known c \<Longrightarrow> control_known (on_max_data v c)"
  "control_known c \<Longrightarrow> control_known (on_max_stream_data p v c)"
  by (auto simp: control_known_def open_send_def respond_def append_head_def ack_item_def lost_item_def on_max_data_def on_max_stream_data_def
    stream_reset_def enqueue_core wake_keeps Let_def split: option.split prod.split RBody.split)

lemma known_pushed:
  "control_known c \<Longrightarrow> p \<in> set (sc_all c) \<Longrightarrow> control_known (stream_reset p code c)"
  "control_known c \<Longrightarrow> p \<in> set (sc_all c) \<Longrightarrow> control_known (stream_stop_sending p code c)"
  by (auto simp: control_known_def stream_reset_def stream_stop_sending_def)

lemma known_closed:
  assumes "control_known c" and "close_send p c = Some d"
  shows "control_known (release p d)"
proof -
  obtain e where e: "dequeue p c = Some e" "d = sc_upd p (\<lambda>s. s\<lparr>sd_open := False\<rparr>) (e\<lparr>sc_control := filter (\<lambda>q. q \<noteq> p) (sc_control e)\<rparr>)"
    using assms(2) by (auto simp: close_send_def)
  then show ?thesis using assms(1) dequeue_keeps [OF e(1)] by (auto simp: control_known_def release_def)
qed

lemma send_reach_inv: "send_reach rd c M U B \<Longrightarrow> \<not> B \<Longrightarrow> send_inv {} c M U \<and> control_known c"
proof (induction rule: send_reach.induct)
  case (start c)
  then show ?case by (simp add: start_inv control_known_def)
next
  case (turns c M U B p room out out' c')
  have inv: "send_inv {} c M U" and known: "set (sc_control c) \<subseteq> set (sc_all c)" using turns.IH turns.prems by (auto simp: control_known_def)
  have p: "p \<in> set (sc_all c)" by (rule front_inv(1) [OF inv turns.hyps(2)])
  then have "control_known c'" using turn_keeps [OF turns.hyps(4)] known by (auto simp: control_known_def)
  moreover have "sd_ready (sc_obj c p)" using front_inv(2) [OF inv turns.hyps(2)] .
  then have "sd_reset_due (sc_obj c' p) = sd_reset_due (sc_obj c p)" using turns.prems by (simp add: ready_reset_def)
  ultimately show ?case using turn_inv [OF inv turns.hyps(2-4)] by simp
next
  case (controls c M U B room out r out' c')
  then show ?case using control_inv by blast
next
  case (responds c M U B p head body c' is_head)
  then show ?case using respond_inv known_kept(2) by blast
next
  case (resets c M U B p c' code)
  then show ?case using reset_inv known_pushed(1) by blast
next
  case (appends c M U B p bs)
  then show ?case using append_inv known_kept(3) by blast
next
  case (losses c M U B it)
  then show ?case using lost_inv known_kept(5) by blast
next
  case (probes c M U B it)
  then show ?case using lost_inv known_kept(5) by blast
next
  case (closes c M U B p d)
  then show ?case using close_inv known_closed by blast
qed (simp_all add: open_inv ack_inv max_data_inv max_stream_data_inv stop_inv known_kept known_pushed)


subsection \<open>No byte is forgotten\<close>

text \<open>
  C4. As long as no stream was reset while it was in the ready list, and no filled packet failed to be sealed, every byte sent is
  accounted for, within the peer's limits. In every state of a connection that has met neither fault, for every open
  stream: no more was sent than the peer allowed, on the stream and on the connection; a byte sent on a stream that
  was not reset was acknowledged (and trimmed, or is in the acknowledged ranges), is in flight, or is due
  to be sent again; and a stream with something to send that is not being reset is in the ready list, or
  waits for credit that the peer has not given.
\<close>

theorem sent_bytes_accounted:
  assumes "send_reach rd c M U False" and "p \<in> set (sc_all c)"
  shows "let s = sc_obj c p in data_sent c \<le> peer_max_data c \<and> sd_next s \<le> sd_max_send s \<and> sd_next s \<le> sd_total s
    \<and> (\<not> sd_reset_sent s \<longrightarrow> (\<forall>k < sd_next s. k < sd_head_base s \<or> k \<in> rs_set (sd_acked s) \<or> k \<in> rs_set (sd_lost s)
          \<or> (\<exists>it. it \<in># M \<and> si_id it = sd_id s \<and> si_offset it \<le> k \<and> k < it_end it)))
    \<and> (has_unsent s \<and> \<not> sd_reset_sent s \<and> \<not> sd_reset_due s \<longrightarrow>
          (\<exists>xs. ready_list c xs \<and> p \<in> set xs)
          \<or> sd_lost s = [] \<and> (data_sent c = peer_max_data c \<or> sd_next s = sd_max_send s))"
proof -
  have inv: "send_inv {} c M U" using send_reach_inv [OF assms(1)] by simp
  define s where "s = sc_obj c p"
  note ok = send_invD(3) [OF inv assms(2), folded s_def]
  note d = stream_okD [OF ok]
  obtain xs where xs: "ready_list c xs" using inv by (auto simp: send_inv_def)
  have ds: "data_sent c \<le> peer_max_data c" using inv by (simp add: send_inv_def)
  have "sd_ready s \<or> settled (peer_max_data c) (data_sent c) s" using send_invD(4) [OF inv assms(2)] by (simp add: s_def)
  then have "(\<exists>xs. ready_list c xs \<and> p \<in> set xs) \<or> sd_lost s = [] \<and> (data_sent c = peer_max_data c \<or> sd_next s = sd_max_send s)"
    if "has_unsent s" "\<not> sd_reset_sent s" "\<not> sd_reset_due s"
    using that xs ds d(7) unfolding settled_def ready_list_def s_def by (metis order_antisym)
  moreover have "k < sd_head_base s \<or> k \<in> rs_set (sd_acked s) \<or> k \<in> rs_set (sd_lost s)
      \<or> (\<exists>it. it \<in># M \<and> si_id it = sd_id s \<and> si_offset it \<le> k \<and> k < it_end it)" if "\<not> sd_reset_sent s" "k < sd_next s" for k
    using d(14) [OF that] by (auto simp: items_for_def)
  ultimately show ?thesis unfolding Let_def s_def [symmetric] using ds d(5,7) by blast
qed

text \<open>One answer of three bytes on stream 0: sent in one packet, and acknowledged.\<close>

definition one_answer :: "unit SendConn" where
  "one_answer = respond 1 [7, 8, 9] False rb_none (open_send 1 0 1000 False ((conn_of [])\<lparr>peer_max_data := 1000\<rparr>))"

definition answer_item :: SentItem where
  "answer_item = \<lparr>si_kind = it_stream, si_fin = True, si_id = 0, si_offset = 0, si_len = 3\<rparr>"

definition answer_sent :: "unit SendConn" where
  "answer_sent = the (dequeue 1 (frame_sent 1 0 3 False True one_answer))"

lemma one_answer_turn:
  "\<exists>bs. stream_turn (\<lambda>_ _ _. []) 1200 1 out_new one_answer = Some (t_next (\<lparr>so_bytes = bs, so_items = [answer_item], so_eliciting = True\<rparr>, answer_sent))"
proof -
  define s where "s = sc_obj one_answer 1"
  have s: "s = (sd_new\<lparr>sd_open := True, sd_max_send := 1000, sd_head := [7, 8, 9], sd_total := 3, sd_fin := True, sd_ready := True\<rparr>)"
    by (simp add: s_def one_answer_def respond_def open_send_def conn_of_def enqueue_def sd_new_def Let_def put_body_def rb_length_def)
  have sz: "stream_header_size (sd_id s) (sd_total s) 65535 True = 7" by (simp add: s sd_new_def stream_header_size_def varint_size_def)
  have plan: "send_plan 1193 one_answer s = sp_send 0 3 False" unfolding s by code_simp
  have hdr: "put_stream_header 1200 (sd_id s) 0 3 True True \<noteq> []" unfolding s by code_simp
  have fin: "(sd_fin s \<and> (0 :: u64) + of_nat 3 = sd_total s) = True" "sd_id s = 0" by (simp_all add: s sd_new_def)
  have he: "head_end s = 3" "sd_head_base s = 0" "sd_head s = [7, 8, 9]" by (simp_all add: s head_end_def sd_new_def)
  have "copy_loop (\<lambda>_ _ _. []) s 0 3 [7, 8, 9] = (Some [7, 8, 9], s)" by (subst copy_loop.simps) simp
  then have copy: "copy_stream_bytes (\<lambda>_ _ _. []) s 0 3 = (Some [7, 8, 9], s)"
    unfolding copy_stream_bytes_def using he by (subst copy_loop.simps) (simp add: Let_def)
  have upd: "sc_upd 1 (\<lambda>_. s) one_answer = one_answer" by (simp add: sc_upd_def s_def)
  have deq: "\<not> has_unsent (sc_obj (frame_sent 1 0 3 False True one_answer) 1) \<and> dequeue 1 (frame_sent 1 0 3 False True one_answer) \<noteq> None" by code_simp
  have it: "\<lparr>si_kind = it_stream, si_fin = True, si_id = 0, si_offset = 0, si_len = of_nat 3\<rparr> = answer_item" by (simp add: answer_item_def)
  have len: "length (so_bytes out_new) = 0" "so_items out_new = []" by (simp_all add: out_new_def)
  have "stream_turn (\<lambda>_ _ _. []) 1200 1 out_new one_answer = send_frame (\<lambda>_ _ _. []) 1200 1 0 3 False out_new one_answer"
    unfolding stream_turn_def Let_def s_def [symmetric] sz len using plan by simp
  also have "\<dots> = Some (t_next (out_new\<lparr>so_bytes := so_bytes out_new @ put_stream_header 1200 (sd_id s) 0 3 True True @ [7, 8, 9],
      so_items := [answer_item], so_eliciting := True\<rparr>, answer_sent))"
    unfolding send_frame_def Let_def s_def [symmetric] fin copy len using hdr deq upd it fin(2)
    by (auto simp: answer_sent_def)
  finally show ?thesis by (simp add: out_new_def)
qed

lemma one_answer_sent: "send_reach (\<lambda>_ _ _. []) answer_sent {#answer_item#} {0} False"
proof -
  have start: "ready_list ((conn_of [])\<lparr>peer_max_data := 1000\<rparr> :: unit SendConn) []"
    by (simp add: ready_list_def conn_of_def sd_new_def)
  have "send_reach (\<lambda>_ _ _. []) ((conn_of [])\<lparr>peer_max_data := 1000\<rparr> :: unit SendConn) {#} {} False"
    by (rule send_reach.start [OF start]) (simp_all add: conn_of_def)
  from send_reach.opens [OF this, of 1 0 1000 False]
  have "send_reach (\<lambda>_ _ _. []) (open_send 1 0 1000 False ((conn_of [])\<lparr>peer_max_data := 1000\<rparr>) :: unit SendConn) {#} {0} False" by (simp add: conn_of_def)
  from send_reach.responds [OF this, of 1 "[7, 8, 9]" rb_none one_answer False]
  have "send_reach (\<lambda>_ _ _. []) one_answer {#} {0} (ready_reset 1 (open_send 1 0 1000 False ((conn_of [])\<lparr>peer_max_data := 1000\<rparr>)) one_answer)"
    by (simp add: one_answer_def open_send_def sd_new_def rb_length_def)
  moreover have "\<not> ready_reset 1 (open_send 1 0 1000 False ((conn_of [])\<lparr>peer_max_data := 1000\<rparr>) :: unit SendConn) one_answer" by code_simp
  ultimately have reach: "send_reach (\<lambda>_ _ _. []) one_answer {#} {0} False" by simp
  have h: "sc_head one_answer = Some 1" "\<not> ready_reset 1 one_answer answer_sent" by code_simp+
  obtain bs where turn: "stream_turn (\<lambda>_ _ _. []) 1200 1 out_new one_answer = Some (t_next (\<lparr>so_bytes = bs, so_items = [answer_item], so_eliciting = True\<rparr>, answer_sent))"
    using one_answer_turn by blast
  from send_reach.turns [OF reach h(1) _ turn] h(2) show ?thesis by (simp add: out_new_def)
qed

lemma sent_bytes_accounted_witness:
  "1 \<in> set (sc_all answer_sent) \<and> sd_next (sc_obj answer_sent 1) = 3
     \<and> (\<exists>it. it \<in># {#answer_item#} \<and> si_id it = 0 \<and> si_offset it \<le> 2 \<and> 2 < it_end it)"
proof -
  have f: "1 \<in> set (sc_all answer_sent)" "sd_next (sc_obj answer_sent 1) = 3" "\<not> sd_reset_sent (sc_obj answer_sent 1)"
    "sd_head_base (sc_obj answer_sent 1) = 0" "sd_acked (sc_obj answer_sent 1) = []" "sd_lost (sc_obj answer_sent 1) = []" "sd_id (sc_obj answer_sent 1) = 0"
    by code_simp+
  from sent_bytes_accounted [OF one_answer_sent f(1)] have "\<forall>k < 3. \<exists>it. it \<in># {#answer_item#} \<and> si_id it = 0 \<and> si_offset it \<le> k \<and> k < it_end it"
    using f(2-7) by (simp add: Let_def)
  then show ?thesis using f(1,2) by (auto dest: spec [of _ 2])
qed

text \<open>
  C10. When the network is quiet, the answer was delivered. In every state, reached without resetting a stream of the ready
  list and without a packet that failed to be sealed, in which nothing is in flight and the ready list is empty:
  an open stream that was not reset, with credit left on it and on the connection, has every byte from its head base on
  acknowledged, and its FIN when it has one.
\<close>

theorem quiet_stream_delivered:
  assumes "send_reach rd c {#} U False" and "sc_head c = None" and "p \<in> set (sc_all c)"
    and "\<not> sd_reset_sent (sc_obj c p)" and "\<not> sd_reset_due (sc_obj c p)"
    and "data_sent c < peer_max_data c" and "sd_next (sc_obj c p) < sd_max_send (sc_obj c p)"
  shows "(let s = sc_obj c p in (\<forall>k < sd_total s. sd_head_base s \<le> k \<longrightarrow> k \<in> rs_set (sd_acked s)) \<and> (sd_fin s \<longrightarrow> sd_fin_acked s))"
proof -
  have inv: "send_inv {} c {#} U" using send_reach_inv [OF assms(1)] by simp
  define s where "s = sc_obj c p"
  note ok = send_invD(3) [OF inv assms(3), folded s_def]
  note d = stream_okD [OF ok]
  obtain xs where xs: "ready_list c xs" using inv by (auto simp: send_inv_def)
  then have "xs = []" using assms(2) by (cases xs) (auto simp: ready_list_def)
  then have "\<not> sd_ready s" using xs by (simp add: ready_list_def s_def)
  then have "settled (peer_max_data c) (data_sent c) s" using send_invD(4) [OF inv assms(3)] by (simp add: s_def)
  then have "\<not> has_unsent s" using assms(4-7) unfolding settled_def s_def [symmetric] by auto
  then have u: "sd_lost s = []" "\<not> sd_next s < sd_total s" "sd_fin s \<Longrightarrow> sd_fin_sent s" by (auto simp: has_unsent_def)
  have none: "items_for (sd_id s) {#} = {}" by (simp add: items_for_def)
  have r: "\<not> sd_reset_sent s" using assms(4) by (simp add: s_def)
  have "k \<in> rs_set (sd_acked s)" if "k < sd_total s" "sd_head_base s \<le> k" for k
    using d(14) [OF r, of k] that u none d(5) by auto
  moreover have "sd_fin s \<Longrightarrow> sd_fin_acked s" using d(15) [OF r] u(3) none by auto
  ultimately show ?thesis unfolding Let_def s_def [symmetric] by blast
qed

lemma quiet_stream_delivered_witness:
  "let c = snd (ack_item answer_item answer_sent) in
   sd_total (sc_obj c 1) = 3 \<and> (\<forall>k < 3. k \<in> rs_set (sd_acked (sc_obj c 1))) \<and> sd_fin_acked (sc_obj c 1)"
proof -
  define c where "c = snd (ack_item answer_item answer_sent)"
  from send_reach.acks [OF one_answer_sent] have reach: "send_reach (\<lambda>_ _ _. []) c {#} {0} False" by (simp add: c_def)
  have h: "sc_head c = None" and f: "1 \<in> set (sc_all c)" "\<not> sd_reset_sent (sc_obj c 1)" "\<not> sd_reset_due (sc_obj c 1)" "data_sent c < peer_max_data c"
    "sd_next (sc_obj c 1) < sd_max_send (sc_obj c 1)" and g: "sd_total (sc_obj c 1) = 3" "sd_head_base (sc_obj c 1) = 0" "sd_fin (sc_obj c 1)"
    unfolding c_def by code_simp+
  from quiet_stream_delivered [OF reach h f] g
  have "\<forall>k < 3. k \<in> rs_set (sd_acked (sc_obj c 1))" "sd_fin_acked (sc_obj c 1)" by (auto simp: Let_def)
  then show ?thesis using g(1) by (simp add: Let_def c_def)
qed

end
