(* ===== verification/Qpack_Static.thy ===== *)
theory Qpack_Static
  imports Prelude "HOL-Library.List_Lexorder"
begin

text \<open>
  QPACK's static table (\<^verbatim>\<open>src/http3/qpack_tables.hpp\<close>) and the searches in it
  (\<^verbatim>\<open>src/http3/qpack.cpp\<close>: \<open>names\<close>, \<open>static_name\<close>, \<open>static_pair\<close>). Indices start at zero, and
  the rows of one name are not always neighbours, so the pair is searched from the first row of its
  name to the end of the table. A search that fails is \<open>None\<close>.
\<close>


subsection \<open>The table and its searches\<close>

definition q_static_rows :: "(string \<times> string) list" where
  "q_static_rows = [
     ('':authority'', ''''),
     ('':path'', ''/''),
     (''age'', ''0''),
     (''content-disposition'', ''''),
     (''content-length'', ''0''),
     (''cookie'', ''''),
     (''date'', ''''),
     (''etag'', ''''),
     (''if-modified-since'', ''''),
     (''if-none-match'', ''''),
     (''last-modified'', ''''),
     (''link'', ''''),
     (''location'', ''''),
     (''referer'', ''''),
     (''set-cookie'', ''''),
     ('':method'', ''CONNECT''),
     ('':method'', ''DELETE''),
     ('':method'', ''GET''),
     ('':method'', ''HEAD''),
     ('':method'', ''OPTIONS''),
     ('':method'', ''POST''),
     ('':method'', ''PUT''),
     ('':scheme'', ''http''),
     ('':scheme'', ''https''),
     ('':status'', ''103''),
     ('':status'', ''200''),
     ('':status'', ''304''),
     ('':status'', ''404''),
     ('':status'', ''503''),
     (''accept'', ''*/*''),
     (''accept'', ''application/dns-message''),
     (''accept-encoding'', ''gzip, deflate, br''),
     (''accept-ranges'', ''bytes''),
     (''access-control-allow-headers'', ''cache-control''),
     (''access-control-allow-headers'', ''content-type''),
     (''access-control-allow-origin'', ''*''),
     (''cache-control'', ''max-age=0''),
     (''cache-control'', ''max-age=2592000''),
     (''cache-control'', ''max-age=604800''),
     (''cache-control'', ''no-cache''),
     (''cache-control'', ''no-store''),
     (''cache-control'', ''public, max-age=31536000''),
     (''content-encoding'', ''br''),
     (''content-encoding'', ''gzip''),
     (''content-type'', ''application/dns-message''),
     (''content-type'', ''application/javascript''),
     (''content-type'', ''application/json''),
     (''content-type'', ''application/x-www-form-urlencoded''),
     (''content-type'', ''image/gif''),
     (''content-type'', ''image/jpeg''),
     (''content-type'', ''image/png''),
     (''content-type'', ''text/css''),
     (''content-type'', ''text/html; charset=utf-8''),
     (''content-type'', ''text/plain''),
     (''content-type'', ''text/plain;charset=utf-8''),
     (''range'', ''bytes=0-''),
     (''strict-transport-security'', ''max-age=31536000''),
     (''strict-transport-security'', ''max-age=31536000; includesubdomains''),
     (''strict-transport-security'', ''max-age=31536000; includesubdomains; preload''),
     (''vary'', ''accept-encoding''),
     (''vary'', ''origin''),
     (''x-content-type-options'', ''nosniff''),
     (''x-xss-protection'', ''1; mode=block''),
     ('':status'', ''100''),
     ('':status'', ''204''),
     ('':status'', ''206''),
     ('':status'', ''302''),
     ('':status'', ''400''),
     ('':status'', ''403''),
     ('':status'', ''421''),
     ('':status'', ''425''),
     ('':status'', ''500''),
     (''accept-language'', ''''),
     (''access-control-allow-credentials'', ''FALSE''),
     (''access-control-allow-credentials'', ''TRUE''),
     (''access-control-allow-headers'', ''*''),
     (''access-control-allow-methods'', ''get''),
     (''access-control-allow-methods'', ''get, post, options''),
     (''access-control-allow-methods'', ''options''),
     (''access-control-expose-headers'', ''content-length''),
     (''access-control-request-headers'', ''content-type''),
     (''access-control-request-method'', ''get''),
     (''access-control-request-method'', ''post''),
     (''alt-svc'', ''clear''),
     (''authorization'', ''''),
     (''content-security-policy'', ''script-src '' @ [CHR 0x27] @ ''none'' @ [CHR 0x27] @ ''; object-src '' @ [CHR 0x27] @ ''none'' @ [CHR 0x27] @ ''; base-uri '' @ [CHR 0x27] @ ''none'' @ [CHR 0x27] @ ''''),
     (''early-data'', ''1''),
     (''expect-ct'', ''''),
     (''forwarded'', ''''),
     (''if-range'', ''''),
     (''origin'', ''''),
     (''purpose'', ''prefetch''),
     (''server'', ''''),
     (''timing-allow-origin'', ''*''),
     (''upgrade-insecure-requests'', ''1''),
     (''user-agent'', ''''),
     (''x-forwarded-for'', ''''),
     (''x-frame-options'', ''deny''),
     (''x-frame-options'', ''sameorigin'')]"

definition q_static_table :: "(bytes \<times> bytes) list" where
  "q_static_table = map (\<lambda>(n, v). (bytes_of n, bytes_of v)) q_static_rows"

text \<open>The vector of \<open>names()\<close> as it is filled, then sorted by name.\<close>

fun q_first_names :: "(bytes \<times> nat) list \<Rightarrow> nat \<Rightarrow> (bytes \<times> bytes) list \<Rightarrow> (bytes \<times> nat) list" where
  "q_first_names out i [] = out"
| "q_first_names out i ((n, v) # t) =
     q_first_names (if list_all (\<lambda>e. fst e \<noteq> n) out then out @ [(n, i)] else out) (Suc i) t"

definition q_names :: "(bytes \<times> nat) list" where
  "q_names = sort_key fst (q_first_names [] 0 q_static_table)"

text \<open>\<open>std::lower_bound\<close> on the sorted vector is the first element not below the name.\<close>

definition static_name :: "bytes \<Rightarrow> nat option" where
  "static_name name =
     (case dropWhile (\<lambda>e. fst e < name) q_names of
        [] \<Rightarrow> None
      | it # _ \<Rightarrow> if fst it \<noteq> name then None else Some (snd it))"

fun scan_pair :: "bytes \<Rightarrow> bytes \<Rightarrow> nat \<Rightarrow> (bytes \<times> bytes) list \<Rightarrow> nat option" where
  "scan_pair name value i [] = None"
| "scan_pair name value i ((n, v) # t) = (if n = name \<and> v = value then Some i else scan_pair name value (Suc i) t)"

definition static_pair :: "bytes \<Rightarrow> bytes \<Rightarrow> nat option" where
  "static_pair name value =
     (case static_name name of None \<Rightarrow> None | Some first \<Rightarrow> scan_pair name value first (drop first q_static_table))"


subsection \<open>What the searches find\<close>

lemma length_q_static_table [simp]: "length q_static_table = 99"
  by (simp add: q_static_table_def q_static_rows_def)

lemma q_static_nth: "i < 99 \<Longrightarrow> q_static_table ! i = (bytes_of (fst (q_static_rows ! i)), bytes_of (snd (q_static_rows ! i)))"
  using length_q_static_table unfolding q_static_table_def by (simp add: split_beta)

text \<open>A recorded name is the first row of that name, and every name is recorded.\<close>

lemma q_first_names_sound:
  assumes "\<forall>(n, k)\<in>set out. k < length pre \<and> fst ((pre @ t) ! k) = n \<and> n \<notin> fst ` set (take k (pre @ t))"
    and "fst ` set out = fst ` set pre" and "i = length pre"
  shows "(\<forall>(n, k)\<in>set (q_first_names out i t). k < length (pre @ t) \<and> fst ((pre @ t) ! k) = n \<and> n \<notin> fst ` set (take k (pre @ t)))
    \<and> fst ` set (q_first_names out i t) = fst ` set (pre @ t)"
  using assms
proof (induction t arbitrary: out i pre)
  case (Cons e t)
  obtain n v where e: "e = (n, v)" by force
  let ?out = "if list_all (\<lambda>x. fst x \<noteq> n) out then out @ [(n, i)] else out"
  have a: "\<forall>(m, k)\<in>set ?out. k < length (pre @ [e]) \<and> fst (((pre @ [e]) @ t) ! k) = m \<and> m \<notin> fst ` set (take k ((pre @ [e]) @ t))"
  proof (cases "list_all (\<lambda>x. fst x \<noteq> n) out")
    case True
    then have "n \<notin> fst ` set pre" unfolding Cons.prems(2) [symmetric] by (auto simp: list_all_iff)
    then show ?thesis using Cons.prems(1,3) True by (auto simp: e nth_append)
  next
    case False
    then show ?thesis using Cons.prems(1) by auto
  qed
  have b: "fst ` set ?out = fst ` set (pre @ [e])" using Cons.prems(2) by (auto simp: e list_all_iff simp flip: Cons.prems(2))
  have c: "Suc i = length (pre @ [e])" using Cons.prems(3) by simp
  have d: "q_first_names out i (e # t) = q_first_names ?out (Suc i) t" by (simp add: e)
  have g: "pre @ e # t = (pre @ [e]) @ t" by simp
  show ?case unfolding d g by (rule Cons.IH [OF a b c])
qed simp

lemma q_names_static:
  "(n, k) \<in> set q_names \<Longrightarrow> k < 99 \<and> fst (q_static_table ! k) = n \<and> n \<notin> fst ` set (take k q_static_table)"
  "fst ` set q_names = fst ` set q_static_table"
  using q_first_names_sound [of "[]" "[]" q_static_table 0] by (auto simp: q_names_def)

lemma static_name_Some:
  assumes "static_name name = Some k"
  shows "k < 99" and "fst (q_static_table ! k) = name" and "name \<notin> fst ` set (take k q_static_table)"
proof -
  obtain it r where d: "dropWhile (\<lambda>e. fst e < name) q_names = it # r" "fst it = name" "k = snd it"
    using assms by (auto simp: static_name_def split: list.splits if_splits)
  have "it \<in> set q_names" using d(1) set_dropWhileD [of it "\<lambda>e. fst e < name" q_names] by simp
  then have "(name, k) \<in> set q_names" using d by (metis prod.collapse)
  from q_names_static(1) [OF this] show "k < 99" "fst (q_static_table ! k) = name" "name \<notin> fst ` set (take k q_static_table)" by auto
qed

lemma static_name_None:
  assumes "static_name name = None"
  shows "name \<notin> fst ` set q_static_table"
proof
  assume "name \<in> fst ` set q_static_table"
  then obtain k where k: "(name, k) \<in> set q_names" using q_names_static(2) by force
  let ?d = "dropWhile (\<lambda>e. fst e < name) q_names"
  have kd: "(name, k) \<in> set ?d" using k by (metis UnE fst_conv order_less_irrefl set_append set_takeWhileD takeWhile_dropWhile_id)
  then obtain it r where d: "?d = it # r" by (cases ?d) auto
  have "\<not> fst it < name" using hd_dropWhile [of "\<lambda>e. fst e < name" q_names] d by simp
  moreover have "sorted (map fst q_names)" by (simp add: q_names_def)
  then have "sorted (map fst ?d)" by (metis drop_map dropWhile_eq_drop sorted_wrt_drop)
  then have "fst it \<le> name" using kd d by auto
  ultimately show False using assms d by (simp add: static_name_def)
qed

lemma scan_pair_Some: "scan_pair name vl i t = Some k \<Longrightarrow> i \<le> k \<and> k - i < length t \<and> t ! (k - i) = (name, vl)"
proof (induction name vl i t rule: scan_pair.induct)
  case (2 name vl i n v t)
  then show ?case by (cases "n = name \<and> v = vl") (auto simp: nth_Cons' Suc_diff_le)
qed simp

lemma scan_pair_None: "scan_pair name vl i t = None \<longleftrightarrow> (name, vl) \<notin> set t"
  by (induction name vl i t rule: scan_pair.induct) auto

lemma static_pair_Some: "static_pair name vl = Some k \<Longrightarrow> k < 99 \<and> q_static_table ! k = (name, vl)"
  using scan_pair_Some [of name vl _ "drop _ q_static_table" k] by (fastforce simp: static_pair_def split: option.splits)

text \<open>The search from the first row of the name finds every pair of the table.\<close>

lemma static_pair_None: "static_pair name vl = None \<longleftrightarrow> (name, vl) \<notin> set q_static_table"
proof (cases "static_name name")
  case None
  then show ?thesis using static_name_None [OF None] by (force simp: static_pair_def)
next
  case (Some k)
  have "set q_static_table = set (take k q_static_table) \<union> set (drop k q_static_table)"
    by (metis append_take_drop_id set_append)
  moreover have "(name, vl) \<notin> set (take k q_static_table)" using static_name_Some(3) [OF Some] by force
  ultimately show ?thesis by (auto simp: static_pair_def Some scan_pair_None)
qed

end
