(* ===== verification/Qpack.thy ===== *)
theory Qpack
  imports Qpack_Static Hpack
begin

text \<open>
  QPACK (\<^verbatim>\<open>src/http3/qpack.hpp\<close>, \<^verbatim>\<open>src/http3/qpack.cpp\<close>): the encoding helpers, the \<open>Decoder\<close> with
  its dynamic table, and the \<open>Encoder\<close> of our answers. The conventions are those of the HPACK
  theory: a function that appends takes the buffer and returns it, a reader takes the bytes from
  its position on and returns what is left. Insert counts and absolute indices are natural numbers
  (each insert costs bytes of the encoder stream). A \<open>Section*\<close> that the encoder works on is the
  section itself, held by the encoder from \<open>begin\<close> to \<open>end\<close>, which hands it back to its stream;
  \<open>refs[0..n)\<close> is a list.
\<close>

unbundle bit_operations_syntax


subsection \<open>Encoding helpers\<close>

definition q_append_section_prefix :: "bytes \<Rightarrow> bytes" where
  "q_append_section_prefix out = out @ [0, 0]"

definition q_append_string :: "bytes \<Rightarrow> bytes \<Rightarrow> bytes" where
  "q_append_string out s =
     (let huff = huffman_size s
      in if huff < length s then huffman_encode (append_integer out (of_nat huff) 7 0x80) s
         else append_integer out (of_nat (length s)) 7 0 @ s)"

definition q_append_indexed :: "bytes \<Rightarrow> nat \<Rightarrow> bytes" where
  "q_append_indexed out index = append_integer out (of_nat index) 6 0xc0"

definition q_append_literal_name_ref :: "bytes \<Rightarrow> nat \<Rightarrow> bytes \<Rightarrow> bytes" where
  "q_append_literal_name_ref out index vl = q_append_string (append_integer out (of_nat index) 4 0x50) vl"

definition q_append_literal :: "bytes \<Rightarrow> bytes \<Rightarrow> bytes \<Rightarrow> bytes" where
  "q_append_literal out name vl =
     (let huff = huffman_size name;
          out = (if huff < length name then huffman_encode (append_integer out (of_nat huff) 3 0x28) name
                 else append_integer out (of_nat (length name)) 3 0x20 @ name)
      in q_append_string out vl)"

definition q_append_field :: "bytes \<Rightarrow> bytes \<Rightarrow> bytes \<Rightarrow> bytes" where
  "q_append_field out name vl =
     (case static_pair name vl of
        Some i \<Rightarrow> q_append_indexed out i
      | None \<Rightarrow>
          (case static_name name of
             Some i \<Rightarrow> q_append_literal_name_ref out i vl
           | None \<Rightarrow> q_append_literal out name vl))"

definition q_append_status :: "bytes \<Rightarrow> int \<Rightarrow> bytes" where
  "q_append_status out status =
     (if status = 103 then q_append_indexed out 24
      else if status = 200 then q_append_indexed out 25
      else if status = 304 then q_append_indexed out 26
      else if status = 404 then q_append_indexed out 27
      else if status = 503 then q_append_indexed out 28
      else if status = 100 then q_append_indexed out 63
      else if status = 204 then q_append_indexed out 64
      else if status = 206 then q_append_indexed out 65
      else if status = 302 then q_append_indexed out 66
      else if status = 400 then q_append_indexed out 67
      else if status = 403 then q_append_indexed out 68
      else if status = 421 then q_append_indexed out 69
      else if status = 425 then q_append_indexed out 70
      else if status = 500 then q_append_indexed out 71
      else
        let status = (if status < 100 \<or> status > 999 then 500 else status);
            digits = [of_int (48 + status div 100), of_int (48 + status div 10 mod 10), of_int (48 + status mod 10)]
        in append_integer out 24 4 0x50 @ [3] @ digits)"


subsection \<open>The decoder\<close>

datatype QResult = qr_ok | qr_malformed | qr_too_large | qr_blocked
datatype QStrStatus = qs_malformed | qs_too_large | qs_incomplete

record QDecoder =
  qd_table :: DynamicTable
  qd_max_capacity :: nat
  qd_insert_count :: nat
  qd_known :: nat

definition q_decoder_new :: "nat \<Rightarrow> QDecoder" where
  "q_decoder_new max_capacity =
     \<lparr>qd_table = set_limit (dt_new max_capacity) 0, qd_max_capacity = max_capacity, qd_insert_count = 0, qd_known = 0\<rparr>"

definition q_read_string :: "bytes \<Rightarrow> bool \<Rightarrow> nat \<Rightarrow> bytes \<Rightarrow> nat \<Rightarrow> bytes \<times> (QStrStatus + (bytes \<times> bytes))" where
  "q_read_string inp huffman len arena max_out =
     (if len > length inp then (arena, Inl qs_incomplete)
      else if huffman then
        (case huffman_decode (take len inp) arena max_out of
           (hs_ok, arena') \<Rightarrow> (arena', Inr (drop (length arena) arena', drop len inp))
         | (hs_malformed, _) \<Rightarrow> (arena, Inl qs_malformed)
         | (hs_too_large, _) \<Rightarrow> (arena, Inl qs_too_large))
      else if len > max_out then (arena, Inl qs_too_large)
      else (arena @ take len inp, Inr (take len inp, drop len inp)))"

text \<open>The entry with an absolute index, with the ring index of its mark.\<close>

definition q_entry :: "QDecoder \<Rightarrow> nat \<Rightarrow> (bytes \<times> bytes \<times> nat) option" where
  "q_entry d ab =
     (if ab \<ge> qd_insert_count d then None
      else let k = qd_insert_count d - 1 - ab
           in if k \<ge> dt_count (qd_table d) then None else dt_at_mark (qd_table d) k)"

definition prefixed_string :: "bytes \<Rightarrow> nat \<Rightarrow> byte \<Rightarrow> bytes \<Rightarrow> nat \<Rightarrow> bytes \<times> (QStrStatus + (bytes \<times> bytes))" where
  "prefixed_string inp prefix_bits h_bit arena max_out =
     (case inp of
        [] \<Rightarrow> (arena, Inl qs_incomplete)
      | c # _ \<Rightarrow>
          (case read_integer prefix_bits inp of
             None \<Rightarrow> (arena, Inl qs_incomplete)
           | Some (len, rest) \<Rightarrow> q_read_string rest (c AND h_bit \<noteq> 0) (unat len) arena max_out))"

text \<open>The Required Insert Count from its wrapped form.\<close>

definition q_required :: "QDecoder \<Rightarrow> nat \<Rightarrow> nat option" where
  "q_required d encoded =
     (if encoded = 0 then Some 0
      else let max_entries = qd_max_capacity d div 32;
               full_range = 2 * max_entries
           in if encoded > full_range then None
              else let max_value = qd_insert_count d + max_entries;
                       max_wrapped = (max_value div full_range) * full_range;
                       required = max_wrapped + encoded - 1
                   in if required > max_value then
                        if required \<le> full_range then None
                        else if required - full_range = 0 then None else Some (required - full_range)
                      else if required = 0 then None else Some required)"

text \<open>The prefix of a section: the Required Insert Count, the base, and the field lines.\<close>

definition q_decode_prefix :: "QDecoder \<Rightarrow> bytes \<Rightarrow> (nat \<times> nat \<times> bytes) option" where
  "q_decode_prefix d section =
     (case read_integer 8 section of
        None \<Rightarrow> None
      | Some (encoded, rest) \<Rightarrow>
          (case rest of
             [] \<Rightarrow> None
           | s # _ \<Rightarrow>
               (case read_integer 7 rest of
                  None \<Rightarrow> None
                | Some (delta, rest) \<Rightarrow>
                    (case q_required d (unat encoded) of
                       None \<Rightarrow> None
                     | Some required \<Rightarrow>
                         if s AND 0x80 \<noteq> 0 then
                           if unat delta \<ge> required then None else Some (required, required - unat delta - 1, rest)
                         else Some (required, required + unat delta, rest)))))"

fun q_str_result :: "QStrStatus \<Rightarrow> QResult" where
  "q_str_result qs_malformed = qr_malformed"
| "q_str_result qs_incomplete = qr_malformed"
| "q_str_result qs_too_large = qr_too_large"

text \<open>A dynamic entry by absolute index, its bytes copied into the arena.\<close>

definition q_dynamic ::
  "QDecoder \<Rightarrow> nat \<Rightarrow> bytes \<Rightarrow> nat \<Rightarrow> nat \<Rightarrow> bool \<Rightarrow> (bytes \<times> bytes \<times> bytes \<times> Origin) option" where
  "q_dynamic d ab arena tot max_list_size value_too =
     (case q_entry d ab of
        None \<Rightarrow> None
      | Some (n, v, mark) \<Rightarrow>
          if length n + (if value_too then length v else 0) > budget tot max_list_size 0 then None
          else Some (arena @ n @ (if value_too then v else []), n, if value_too then v else [],
                     \<lparr>or_static = False, or_checked = Some mark\<rparr>))"

text \<open>The literal value after a name that is already read.\<close>

type_synonym line_result = "bytes \<times> (QResult + (bytes \<times> bytes \<times> bytes \<times> Origin))"

definition q_literal_value :: "bytes \<Rightarrow> bytes \<Rightarrow> bytes \<Rightarrow> nat \<Rightarrow> nat \<Rightarrow> line_result" where
  "q_literal_value name section arena tot max_list_size =
     (case prefixed_string section 7 0x80 arena (budget tot max_list_size (length name)) of
        (arena, Inl e) \<Rightarrow> (arena, Inl (q_str_result e))
      | (arena, Inr (v, rest)) \<Rightarrow> (arena, Inr (rest, name, v, no_origin)))"

definition q_line_indexed :: "QDecoder \<Rightarrow> nat \<Rightarrow> byte \<Rightarrow> bytes \<Rightarrow> bytes \<Rightarrow> nat \<Rightarrow> nat \<Rightarrow> line_result" where
  "q_line_indexed d base b section arena tot max_list_size =
     (case read_integer 6 section of
        None \<Rightarrow> (arena, Inl qr_malformed)
      | Some (index, rest) \<Rightarrow>
          if b AND 0x40 \<noteq> 0 then
            if unat index \<ge> length q_static_table then (arena, Inl qr_malformed)
            else (arena, Inr (rest, fst (q_static_table ! unat index), snd (q_static_table ! unat index),
                              \<lparr>or_static = True, or_checked = None\<rparr>))
          else if unat index \<ge> base then (arena, Inl qr_malformed)
          else case q_dynamic d (base - 1 - unat index) arena tot max_list_size True of
                 None \<Rightarrow> (arena, Inl qr_malformed)
               | Some (arena, n, v, origin) \<Rightarrow> (arena, Inr (rest, n, v, origin)))"

definition q_line_name_ref :: "QDecoder \<Rightarrow> nat \<Rightarrow> byte \<Rightarrow> bytes \<Rightarrow> bytes \<Rightarrow> nat \<Rightarrow> nat \<Rightarrow> line_result" where
  "q_line_name_ref d base b section arena tot max_list_size =
     (case read_integer 4 section of
        None \<Rightarrow> (arena, Inl qr_malformed)
      | Some (index, rest) \<Rightarrow>
          if b AND 0x10 \<noteq> 0 then
            if unat index \<ge> length q_static_table then (arena, Inl qr_malformed)
            else let name = fst (q_static_table ! unat index)
                 in if length name > budget tot max_list_size 0 then (arena, Inl qr_too_large)
                    else q_literal_value name rest arena tot max_list_size
          else if unat index \<ge> base then (arena, Inl qr_malformed)
          else case q_dynamic d (base - 1 - unat index) arena tot max_list_size False of
                 None \<Rightarrow> (arena, Inl qr_malformed)
               | Some (arena, n, _, _) \<Rightarrow> q_literal_value n rest arena tot max_list_size)"

definition q_line_literal :: "bytes \<Rightarrow> bytes \<Rightarrow> nat \<Rightarrow> nat \<Rightarrow> line_result" where
  "q_line_literal section arena tot max_list_size =
     (case prefixed_string section 3 0x08 arena (budget tot max_list_size 0) of
        (arena, Inl e) \<Rightarrow> (arena, Inl (q_str_result e))
      | (arena, Inr (name, rest)) \<Rightarrow> q_literal_value name rest arena tot max_list_size)"

definition q_line_post_base :: "QDecoder \<Rightarrow> nat \<Rightarrow> nat \<Rightarrow> bytes \<Rightarrow> bytes \<Rightarrow> nat \<Rightarrow> nat \<Rightarrow> line_result" where
  "q_line_post_base d base required section arena tot max_list_size =
     (case read_integer 4 section of
        None \<Rightarrow> (arena, Inl qr_malformed)
      | Some (index, rest) \<Rightarrow>
          if base + unat index \<ge> required then (arena, Inl qr_malformed)
          else case q_dynamic d (base + unat index) arena tot max_list_size True of
                 None \<Rightarrow> (arena, Inl qr_malformed)
               | Some (arena, n, v, origin) \<Rightarrow> (arena, Inr (rest, n, v, origin)))"

definition q_line_post_base_name :: "QDecoder \<Rightarrow> nat \<Rightarrow> nat \<Rightarrow> bytes \<Rightarrow> bytes \<Rightarrow> nat \<Rightarrow> nat \<Rightarrow> line_result" where
  "q_line_post_base_name d base required section arena tot max_list_size =
     (case read_integer 3 section of
        None \<Rightarrow> (arena, Inl qr_malformed)
      | Some (index, rest) \<Rightarrow>
          if base + unat index \<ge> required then (arena, Inl qr_malformed)
          else case q_dynamic d (base + unat index) arena tot max_list_size False of
                 None \<Rightarrow> (arena, Inl qr_malformed)
               | Some (arena, n, _, _) \<Rightarrow> q_literal_value n rest arena tot max_list_size)"

definition q_line :: "QDecoder \<Rightarrow> nat \<Rightarrow> nat \<Rightarrow> byte \<Rightarrow> bytes \<Rightarrow> bytes \<Rightarrow> nat \<Rightarrow> nat \<Rightarrow> line_result" where
  "q_line d base required b section arena tot max_list_size =
     (if b AND 0x80 \<noteq> 0 then q_line_indexed d base b section arena tot max_list_size
      else if b AND 0x40 \<noteq> 0 then q_line_name_ref d base b section arena tot max_list_size
      else if b AND 0x20 \<noteq> 0 then q_line_literal section arena tot max_list_size
      else if b AND 0x10 \<noteq> 0 then q_line_post_base d base required section arena tot max_list_size
      else q_line_post_base_name d base required section arena tot max_list_size)"

text \<open>Every string and every line that is read takes at least one byte.\<close>

lemma q_read_string_suffix: "q_read_string inp h len arena m = (a, Inr (s, rest)) \<Longrightarrow> length rest \<le> length inp"
  by (auto simp: q_read_string_def split: if_splits prod.splits HuffStatus.splits)

lemma prefixed_string_shorter:
  "prefixed_string inp p h arena m = (a, Inr (s, rest)) \<Longrightarrow> length rest < length inp"
  using read_integer_shorter [of p inp]
  by (fastforce simp: prefixed_string_def dest: q_read_string_suffix split: list.splits option.splits)

lemma q_literal_value_shorter:
  "q_literal_value name section arena tot mx = (a, Inr (rest, f)) \<Longrightarrow> length rest < length section"
  by (auto simp: q_literal_value_def dest: prefixed_string_shorter split: prod.splits sum.splits)

lemma q_line_shorter:
  "q_line d base required b section arena tot mx = (a, Inr (rest, f)) \<Longrightarrow> length rest < length section"
  unfolding q_line_def q_line_indexed_def q_line_name_ref_def q_line_literal_def q_line_post_base_def
    q_line_post_base_name_def Let_def
  by (auto dest!: q_literal_value_shorter prefixed_string_shorter read_integer_shorter
      split: if_splits option.splits sum.splits prod.splits)

text \<open>The loop over the field lines; a sink that refuses ends it with \<open>ok\<close>.\<close>

function q_decode_lines ::
  "'c sink \<Rightarrow> QDecoder \<Rightarrow> nat \<Rightarrow> nat \<Rightarrow> bytes \<Rightarrow> nat \<Rightarrow> nat \<Rightarrow> 'c \<Rightarrow> bytes \<Rightarrow> QResult \<times> QDecoder \<times> bytes \<times> 'c" where
  "q_decode_lines sink d base required arena mx tot ctx [] = (qr_ok, d, arena, ctx)"
| "q_decode_lines sink d base required arena mx tot ctx (b # bs) =
     (case q_line d base required b (b # bs) arena tot mx of
        (arena, Inl r) \<Rightarrow> (r, d, arena, ctx)
      | (arena, Inr (rest, name, v, origin)) \<Rightarrow>
          if tot + (length name + length v + 32) > mx then (qr_too_large, d, arena, ctx)
          else case sink ctx name v origin (get_mark (qd_table d) origin) of
                 (ctx, go_on, mark) \<Rightarrow>
                   let d = d\<lparr>qd_table := put_mark (qd_table d) origin mark\<rparr>
                   in if \<not> go_on then (qr_ok, d, arena, ctx)
                      else q_decode_lines sink d base required arena mx (tot + (length name + length v + 32)) ctx rest)"
  by pat_completeness auto
termination
  by (relation "measure (\<lambda>(_, _, _, _, _, _, _, _, section). length section)")
    (auto dest: q_line_shorter [OF sym] simp flip: length_Cons)

declare q_decode_lines.simps(2) [simp del]

text \<open>The whole section; the second component is \<open>required\<close>, which the caller reads after \<open>ok\<close> and \<open>blocked\<close>.\<close>

definition q_decode :: "'c sink \<Rightarrow> QDecoder \<Rightarrow> bytes \<Rightarrow> bytes \<Rightarrow> nat \<Rightarrow> 'c \<Rightarrow> QResult \<times> nat \<times> QDecoder \<times> bytes \<times> 'c" where
  "q_decode sink d section arena max_list_size ctx =
     (case q_decode_prefix d section of
        None \<Rightarrow> (qr_malformed, 0, d, arena, ctx)
      | Some (required, base, rest) \<Rightarrow>
          if required > qd_insert_count d then (qr_blocked, required, d, arena, ctx)
          else case q_decode_lines sink d base required arena max_list_size 0 ctx rest of
                 (r, d, arena, ctx) \<Rightarrow> (r, required, d, arena, ctx))"


subsection \<open>The encoder stream and the decoder stream\<close>

datatype q_step = Q_wait | Q_bad | Q_did QDecoder bytes

text \<open>The common tail of the three inserting instructions.\<close>

definition q_insert_entry :: "QDecoder \<Rightarrow> bytes \<Rightarrow> bytes \<Rightarrow> bytes \<Rightarrow> q_step" where
  "q_insert_entry d name vl rest =
     (if length name + length vl + 32 > dt_limit (qd_table d) then Q_bad
      else case dt_add (qd_table d) name vl of
             (t, ok) \<Rightarrow> if \<not> ok then Q_bad
                        else Q_did (d\<lparr>qd_table := t, qd_insert_count := qd_insert_count d + 1\<rparr>) rest)"

text \<open>The entry an instruction's index names, counted back from the newest insert.\<close>

definition q_relative :: "QDecoder \<Rightarrow> nat \<Rightarrow> (bytes \<times> bytes \<times> nat) option" where
  "q_relative d index = (if index \<ge> qd_insert_count d then None else q_entry d (qd_insert_count d - 1 - index))"

definition q_instr_value :: "QDecoder \<Rightarrow> bytes \<Rightarrow> bytes \<Rightarrow> q_step" where
  "q_instr_value d name inp =
     (case snd (prefixed_string inp 7 0x80 [] (qd_max_capacity d)) of
        Inl qs_incomplete \<Rightarrow> Q_wait
      | Inl _ \<Rightarrow> Q_bad
      | Inr (v, rest) \<Rightarrow> q_insert_entry d name v rest)"

definition q_instruction :: "QDecoder \<Rightarrow> byte \<Rightarrow> bytes \<Rightarrow> q_step" where
  "q_instruction d b inp =
     (if b AND 0x80 \<noteq> 0 then
        (case read_integer 6 inp of
           None \<Rightarrow> Q_wait
         | Some (index, rest) \<Rightarrow>
             if b AND 0x40 \<noteq> 0 then
               if unat index \<ge> length q_static_table then Q_bad
               else q_instr_value d (fst (q_static_table ! unat index)) rest
             else case q_relative d (unat index) of
                    None \<Rightarrow> Q_bad
                  | Some (n, _, _) \<Rightarrow> q_instr_value d n rest)
      else if b AND 0x40 \<noteq> 0 then
        (case snd (prefixed_string inp 5 0x20 [] (qd_max_capacity d)) of
           Inl qs_incomplete \<Rightarrow> Q_wait
         | Inl _ \<Rightarrow> Q_bad
         | Inr (n, rest) \<Rightarrow> q_instr_value d n rest)
      else if b AND 0x20 \<noteq> 0 then
        (case read_integer 5 inp of
           None \<Rightarrow> Q_wait
         | Some (cap, rest) \<Rightarrow>
             if unat cap > qd_max_capacity d then Q_bad
             else Q_did (d\<lparr>qd_table := set_limit (qd_table d) (unat cap)\<rparr>) rest)
      else
        (case read_integer 5 inp of
           None \<Rightarrow> Q_wait
         | Some (index, rest) \<Rightarrow>
             (case q_relative d (unat index) of
                None \<Rightarrow> Q_bad
              | Some (n, v, _) \<Rightarrow> q_insert_entry d n v rest)))"

lemma q_insert_entry_rest: "q_insert_entry d name v r = Q_did d' rest \<Longrightarrow> rest = r"
  by (auto simp: q_insert_entry_def split: if_splits prod.splits)

lemma snd_prefixed_string_shorter: "snd (prefixed_string inp p h arena m) = Inr (s, rest) \<Longrightarrow> length rest < length inp"
  using prefixed_string_shorter [of inp p h arena m "fst (prefixed_string inp p h arena m)" s rest] by (simp add: prod_eq_iff)

lemma q_instr_value_shorter: "q_instr_value d name inp = Q_did d' rest \<Longrightarrow> length rest < length inp"
  by (auto simp: q_instr_value_def dest: q_insert_entry_rest snd_prefixed_string_shorter split: sum.splits QStrStatus.splits)

lemma q_instruction_shorter:
  assumes "q_instruction d b inp = Q_did d' rest"
  shows "length rest < length inp"
proof -
  have v: "length rest < length r" if "q_instr_value d n r = Q_did d' rest" for n r using that by (rule q_instr_value_shorter)
  consider "b AND 0x80 \<noteq> 0" | "b AND 0x80 = 0" "b AND 0x40 \<noteq> 0" | "b AND 0x80 = 0" "b AND 0x40 = 0" by blast
  then show ?thesis
  proof cases
    case 1
    with assms show ?thesis
      by (auto simp: q_instruction_def dest!: v read_integer_shorter split: if_splits option.splits)
  next
    case 2
    with assms show ?thesis
      by (auto simp: q_instruction_def dest!: v snd_prefixed_string_shorter split: sum.splits QStrStatus.splits)
  next
    case 3
    with assms show ?thesis
      by (auto simp: q_instruction_def dest!: q_insert_entry_rest read_integer_shorter split: if_splits option.splits)
  qed
qed

text \<open>Whether the bytes were acceptable, the decoder, and the bytes that are not consumed.\<close>

function q_encoder_stream :: "QDecoder \<Rightarrow> bytes \<Rightarrow> bool \<times> QDecoder \<times> bytes" where
  "q_encoder_stream d [] = (True, d, [])"
| "q_encoder_stream d (b # bs) =
     (case q_instruction d b (b # bs) of
        Q_wait \<Rightarrow> (True, d, b # bs)
      | Q_bad \<Rightarrow> (False, d, b # bs)
      | Q_did d rest \<Rightarrow> q_encoder_stream d rest)"
  by pat_completeness auto
termination
  by (relation "measure (\<lambda>(_, inp). length inp)") (auto dest: q_instruction_shorter simp flip: length_Cons)

declare q_encoder_stream.simps(2) [simp del]

definition q_section_acknowledged :: "QDecoder \<Rightarrow> u64 \<Rightarrow> nat \<Rightarrow> bytes \<Rightarrow> QDecoder \<times> bytes" where
  "q_section_acknowledged d stream_id required out =
     (if required > qd_known d then d\<lparr>qd_known := required\<rparr> else d, append_integer out stream_id 7 0x80)"

definition q_stream_cancelled :: "u64 \<Rightarrow> bytes \<Rightarrow> bytes" where
  "q_stream_cancelled stream_id out = append_integer out stream_id 6 0x40"

definition q_insert_count_increment :: "QDecoder \<Rightarrow> bytes \<Rightarrow> QDecoder \<times> bytes" where
  "q_insert_count_increment d out =
     (if qd_insert_count d \<le> qd_known d then (d, out)
      else (d\<lparr>qd_known := qd_insert_count d\<rparr>, append_integer out (of_nat (qd_insert_count d - qd_known d)) 6 0))"


subsection \<open>The encoder\<close>

record QSection =
  qs_ric :: nat
  qs_refs :: "nat list"
  qs_pending :: bool
  qs_blocking :: bool

definition q_section_new :: QSection where
  "q_section_new = \<lparr>qs_ric = 0, qs_refs = [], qs_pending = False, qs_blocking = False\<rparr>"

record QEntry =
  qe_abs :: nat
  qe_size :: nat
  qe_refs :: nat
  qe_name :: bytes
  qe_value :: bytes

record QMemo =
  qm_abs :: nat
  qm_valid :: bool
  qm_value :: bytes

definition q_memo_new :: QMemo where
  "q_memo_new = \<lparr>qm_abs = 0, qm_valid = False, qm_value = []\<rparr>"

definition q_max_capacity :: nat where "q_max_capacity = 1024"

record QEncoder =
  qn_instructions :: bytes
  qn_entries :: "QEntry list"
  qn_size :: nat
  qn_capacity :: nat
  qn_peer_capacity :: nat
  qn_peer_blocked :: nat
  qn_capacity_sent :: bool
  qn_insert_count :: nat
  qn_known :: nat
  qn_blocking :: nat
  qn_current :: "QSection option"
  qn_base :: nat
  qn_server :: QMemo
  qn_alt_svc :: QMemo
  qn_ct :: QMemo
  qn_hsts :: QMemo
  qn_ct_seen :: bytes
  qn_ct_seen_index :: "nat option"
  qn_ct_seen_valid :: bool
  qn_date_abs :: nat
  qn_date_second :: int
  qn_date_valid :: bool

definition q_encoder_new :: QEncoder where
  "q_encoder_new =
     \<lparr>qn_instructions = [], qn_entries = [], qn_size = 0, qn_capacity = 0, qn_peer_capacity = 0, qn_peer_blocked = 0,
      qn_capacity_sent = False, qn_insert_count = 0, qn_known = 0, qn_blocking = 0, qn_current = None, qn_base = 0,
      qn_server = q_memo_new, qn_alt_svc = q_memo_new, qn_ct = q_memo_new, qn_hsts = q_memo_new,
      qn_ct_seen = [], qn_ct_seen_index = None, qn_ct_seen_valid = False,
      qn_date_abs = 0, qn_date_second = 0, qn_date_valid = False\<rparr>"

definition q_set_peer :: "QEncoder \<Rightarrow> nat \<Rightarrow> nat \<Rightarrow> QEncoder" where
  "q_set_peer e capacity blocked_streams =
     e\<lparr>qn_peer_capacity := capacity, qn_peer_blocked := blocked_streams, qn_capacity := min capacity q_max_capacity\<rparr>"

definition q_held :: "QEncoder \<Rightarrow> nat \<Rightarrow> bool" where
  "q_held e ab \<longleftrightarrow> qn_entries e \<noteq> [] \<and> ab \<ge> qe_abs (hd (qn_entries e)) \<and> ab < qn_insert_count e"

definition q_usable :: "QEncoder \<Rightarrow> nat \<Rightarrow> bool" where
  "q_usable e ab \<longleftrightarrow> q_held e ab \<and>
     (ab < qn_known e
      \<or> (case qn_current e of None \<Rightarrow> False | Some c \<Rightarrow> qs_blocking c)
      \<or> qn_blocking e < qn_peer_blocked e)"

text \<open>
  The eviction an insert needs: \<open>size_ - freed\<close> and the entries not yet counted out, until the new
  entry fits; \<open>None\<close> when an entry in the way is referenced or nothing is left.
\<close>

fun q_make_room :: "nat \<Rightarrow> nat \<Rightarrow> nat \<Rightarrow> QEntry list \<Rightarrow> (nat \<times> QEntry list) option" where
  "q_make_room need capacity sz [] = (if sz + need > capacity then None else Some (sz, []))"
| "q_make_room need capacity sz (x # xs) =
     (if sz + need > capacity then
        if qe_refs x \<noteq> 0 then None else q_make_room need capacity (sz - qe_size x) xs
      else Some (sz, x # xs))"

text \<open>The new encoder and the entry's absolute index, when the insert is possible.\<close>

definition q_insert :: "QEncoder \<Rightarrow> nat \<Rightarrow> bytes \<Rightarrow> bytes \<Rightarrow> (QEncoder \<times> nat) option" where
  "q_insert e static_idx name vl =
     (let need = length name + length vl + 32
      in if qn_capacity e = 0 \<or> need > qn_capacity e then None
         else case q_make_room need (qn_capacity e) (qn_size e) (qn_entries e) of
                None \<Rightarrow> None
              | Some (sz, es) \<Rightarrow>
                  let ins = (if \<not> qn_capacity_sent e then append_integer (qn_instructions e) (of_nat (qn_capacity e)) 5 0x20
                             else qn_instructions e);
                      ins = q_append_string (append_integer ins (of_nat static_idx) 6 0xc0) vl
                  in Some (e\<lparr>qn_capacity_sent := True, qn_instructions := ins,
                            qn_entries := es @ [\<lparr>qe_abs = qn_insert_count e, qe_size = need, qe_refs = 0, qe_name = name, qe_value = vl\<rparr>],
                            qn_insert_count := qn_insert_count e + 1, qn_size := sz + need\<rparr>, qn_insert_count e))"

definition q_begin :: "QEncoder \<Rightarrow> QEncoder" where
  "q_begin e = e\<lparr>qn_current := Some q_section_new, qn_base := qn_insert_count e\<rparr>"

text \<open>One more section references the entry, or one less.\<close>

definition q_map_refs :: "QEncoder \<Rightarrow> nat \<Rightarrow> (nat \<Rightarrow> nat) \<Rightarrow> QEncoder" where
  "q_map_refs e ab f =
     (let i = ab - qe_abs (hd (qn_entries e))
      in e\<lparr>qn_entries := (qn_entries e)[i := (qn_entries e ! i)\<lparr>qe_refs := f (qe_refs (qn_entries e ! i))\<rparr>]\<rparr>)"

text \<open>The field line of a reference, and the section's bookkeeping of it.\<close>

definition q_ref_line :: "QEncoder \<Rightarrow> bytes \<Rightarrow> nat \<Rightarrow> bytes" where
  "q_ref_line e out ab =
     (if ab < qn_base e then append_integer out (of_nat (qn_base e - 1 - ab)) 6 0x80
      else append_integer out (of_nat (ab - qn_base e)) 4 0x10)"

definition q_note_ref :: "QEncoder \<Rightarrow> QSection \<Rightarrow> nat \<Rightarrow> QSection" where
  "q_note_ref e c ab =
     (let c = (if ab + 1 > qs_ric c then c\<lparr>qs_ric := ab + 1\<rparr> else c)
      in if ab \<ge> qn_known e then c\<lparr>qs_blocking := True\<rparr> else c)"

definition q_reference :: "QEncoder \<Rightarrow> bytes \<Rightarrow> nat \<Rightarrow> QEncoder \<times> bytes" where
  "q_reference e out ab =
     (case qn_current e of
        None \<Rightarrow> (e, q_ref_line e out ab)
      | Some c \<Rightarrow>
          let c = q_note_ref e c ab
          in if ab \<in> set (qs_refs c) then (e\<lparr>qn_current := Some c\<rparr>, q_ref_line e out ab)
             else if length (qs_refs c) < 4 \<and> q_held e ab then
               (q_map_refs (e\<lparr>qn_current := Some (c\<lparr>qs_refs := qs_refs c @ [ab]\<rparr>)\<rparr>) ab Suc, q_ref_line e out ab)
             else (e\<lparr>qn_current := Some c\<rparr>, q_ref_line e out ab))"

definition q_memo_field :: "QEncoder \<Rightarrow> bytes \<Rightarrow> nat \<Rightarrow> bytes \<Rightarrow> bytes \<Rightarrow> QMemo \<Rightarrow> QEncoder \<times> QMemo \<times> bytes" where
  "q_memo_field e out static_idx name vl memo =
     (if qn_capacity e \<noteq> 0 then
        if qm_valid memo \<and> q_held e (qm_abs memo) \<and> qm_value memo = vl then
          if q_usable e (qm_abs memo) then (case q_reference e out (qm_abs memo) of (e, out) \<Rightarrow> (e, memo, out))
          else (e, memo, q_append_literal_name_ref out static_idx vl)
        else
          case q_insert e static_idx name vl of
            None \<Rightarrow> (e, memo\<lparr>qm_valid := False\<rparr>, q_append_literal_name_ref out static_idx vl)
          | Some (e, ab) \<Rightarrow>
              let memo = \<lparr>qm_abs = ab, qm_valid = True, qm_value = vl\<rparr>
              in if q_usable e ab then (case q_reference e out ab of (e, out) \<Rightarrow> (e, memo, out))
                 else (e, memo, q_append_literal_name_ref out static_idx vl)
      else (e, memo, q_append_literal_name_ref out static_idx vl))"

definition q_server :: "QEncoder \<Rightarrow> bytes \<Rightarrow> bytes \<Rightarrow> QEncoder \<times> bytes" where
  "q_server e out vl =
     (case q_memo_field e out 92 n_server vl (qn_server e) of (e, m, out) \<Rightarrow> (e\<lparr>qn_server := m\<rparr>, out))"

definition q_alt_svc :: "QEncoder \<Rightarrow> bytes \<Rightarrow> bytes \<Rightarrow> QEncoder \<times> bytes" where
  "q_alt_svc e out vl =
     (case q_memo_field e out 83 n_alt_svc vl (qn_alt_svc e) of (e, m, out) \<Rightarrow> (e\<lparr>qn_alt_svc := m\<rparr>, out))"

definition q_hsts :: "QEncoder \<Rightarrow> bytes \<Rightarrow> bytes \<Rightarrow> QEncoder \<times> bytes" where
  "q_hsts e out vl =
     (if vl = bytes_of ''max-age=31536000'' then (e, q_append_indexed out 56)
      else case q_memo_field e out 56 n_hsts vl (qn_hsts e) of (e, m, out) \<Rightarrow> (e\<lparr>qn_hsts := m\<rparr>, out))"

definition q_date :: "QEncoder \<Rightarrow> bytes \<Rightarrow> int \<Rightarrow> bytes \<Rightarrow> QEncoder \<times> bytes" where
  "q_date e out second vl =
     (if qn_capacity e \<noteq> 0 then
        if qn_date_valid e \<and> second = qn_date_second e \<and> q_held e (qn_date_abs e) then
          if q_usable e (qn_date_abs e) then q_reference e out (qn_date_abs e)
          else (e, q_append_literal_name_ref out 6 vl)
        else
          case q_insert (e\<lparr>qn_date_valid := False\<rparr>) 6 n_date vl of
            None \<Rightarrow> (e\<lparr>qn_date_valid := False\<rparr>, q_append_literal_name_ref out 6 vl)
          | Some (e, ab) \<Rightarrow>
              let e = e\<lparr>qn_date_abs := ab, qn_date_second := second, qn_date_valid := True\<rparr>
              in if q_usable e ab then q_reference e out ab else (e, q_append_literal_name_ref out 6 vl)
      else (e, q_append_literal_name_ref out 6 vl))"

definition q_content_type :: "QEncoder \<Rightarrow> bytes \<Rightarrow> bytes \<Rightarrow> QEncoder \<times> bytes" where
  "q_content_type e out vl =
     (let e = (if \<not> qn_ct_seen_valid e \<or> vl \<noteq> qn_ct_seen e
               then e\<lparr>qn_ct_seen := vl, qn_ct_seen_valid := True, qn_ct_seen_index := static_pair n_content_type vl\<rparr>
               else e)
      in case qn_ct_seen_index e of
           Some i \<Rightarrow> (e, q_append_indexed out i)
         | None \<Rightarrow>
             (case q_memo_field e out 44 n_content_type vl (qn_ct e) of (e, m, out) \<Rightarrow> (e\<lparr>qn_ct := m\<rparr>, out)))"

definition q_prefix :: "QEncoder \<Rightarrow> bytes \<Rightarrow> bytes" where
  "q_prefix e out =
     (let ric = (case qn_current e of None \<Rightarrow> 0 | Some c \<Rightarrow> qs_ric c)
      in if ric = 0 then out @ [0, 0]
         else let max_entries = qn_peer_capacity e div 32;
                  out = append_integer out (of_nat (ric mod (2 * max_entries) + 1)) 8 0
              in if qn_base e \<ge> ric then append_integer out (of_nat (qn_base e - ric)) 7 0
                 else append_integer out (of_nat (ric - qn_base e - 1)) 7 0x80)"

text \<open>\<open>end\<close> hands the section back to the stream that owns it.\<close>

definition q_end :: "QEncoder \<Rightarrow> QEncoder \<times> QSection" where
  "q_end e =
     (case qn_current e of
        None \<Rightarrow> (e, q_section_new)
      | Some c \<Rightarrow>
          if qs_ric c \<noteq> 0 then
            (e\<lparr>qn_current := None, qn_blocking := (if qs_blocking c then qn_blocking e + 1 else qn_blocking e)\<rparr>,
             c\<lparr>qs_pending := True\<rparr>)
          else (e\<lparr>qn_current := None\<rparr>, c))"

fun q_release_refs :: "QEncoder \<Rightarrow> nat list \<Rightarrow> QEncoder" where
  "q_release_refs e [] = e"
| "q_release_refs e (ab # refs) = q_release_refs (if q_held e ab then q_map_refs e ab (\<lambda>n. n - 1) else e) refs"

definition q_release :: "QEncoder \<Rightarrow> QSection \<Rightarrow> QEncoder \<times> QSection" where
  "q_release e section =
     (if \<not> qs_pending section then (e, section)
      else let e = q_release_refs e (qs_refs section)
           in (if qs_blocking section \<and> qn_blocking e \<noteq> 0 then e\<lparr>qn_blocking := qn_blocking e - 1\<rparr> else e,
               section\<lparr>qs_pending := False, qs_blocking := False, qs_refs := []\<rparr>))"

definition q_acknowledged :: "QEncoder \<Rightarrow> QSection \<Rightarrow> QEncoder \<times> QSection" where
  "q_acknowledged e section =
     (if \<not> qs_pending section then (e, section)
      else q_release (if qs_ric section > qn_known e then e\<lparr>qn_known := qs_ric section\<rparr> else e) section)"

definition q_cancelled :: "QEncoder \<Rightarrow> QSection \<Rightarrow> QEncoder \<times> QSection" where
  "q_cancelled e section = q_release e section"

definition q_increment :: "QEncoder \<Rightarrow> nat \<Rightarrow> QEncoder option" where
  "q_increment e n =
     (if n = 0 \<or> qn_known e + n > qn_insert_count e then None else Some (e\<lparr>qn_known := qn_known e + n\<rparr>))"

text \<open>
  The peer's decoder stream. \<open>on_section\<close> is the connection's callback: it may change the encoder
  and the streams \<open>c\<close> it looks the section up in.
\<close>

function q_decoder_stream ::
  "(u32 \<Rightarrow> bool \<Rightarrow> QEncoder \<Rightarrow> 'c \<Rightarrow> QEncoder \<times> 'c) \<Rightarrow> QEncoder \<Rightarrow> 'c \<Rightarrow> bytes \<Rightarrow> bool \<times> QEncoder \<times> 'c \<times> bytes" where
  "q_decoder_stream on_section e c [] = (True, e, c, [])"
| "q_decoder_stream on_section e c (b # bs) =
     (if b AND 0x80 \<noteq> 0 then
        (case read_integer 7 (b # bs) of
           None \<Rightarrow> (length (b # bs) < 12, e, c, b # bs)
         | Some (v, rest) \<Rightarrow> (case on_section v False e c of (e, c) \<Rightarrow> q_decoder_stream on_section e c rest))
      else if b AND 0x40 \<noteq> 0 then
        (case read_integer 6 (b # bs) of
           None \<Rightarrow> (length (b # bs) < 12, e, c, b # bs)
         | Some (v, rest) \<Rightarrow> (case on_section v True e c of (e, c) \<Rightarrow> q_decoder_stream on_section e c rest))
      else
        (case read_integer 6 (b # bs) of
           None \<Rightarrow> (length (b # bs) < 12, e, c, b # bs)
         | Some (v, rest) \<Rightarrow>
             (case q_increment e (unat v) of
                None \<Rightarrow> (False, e, c, b # bs)
              | Some e \<Rightarrow> q_decoder_stream on_section e c rest)))"
  by pat_completeness auto
termination
  by (relation "measure (\<lambda>(_, _, _, inp). length inp)") (auto dest: read_integer_shorter simp flip: length_Cons)

declare q_decoder_stream.simps(2) [simp del]

end
