(* ===== verification/Qpack_Proof.thy ===== *)
theory Qpack_Proof
  imports Qpack Hpack_Proof
begin

text \<open>
  What the QPACK decoder makes of the field lines and the instructions the encoder writes.
  \<open>q_reads\<close> relates the bytes of one line to the field it is decoded to, over any decoder that
  holds the entries the line refers to; \<open>q_feed\<close> facts say what a stretch of the encoder stream,
  cut anywhere, leaves in the decoder's table.
\<close>

unbundle bit_operations_syntax


subsection \<open>Strings\<close>

lemma q_append_string_eq: "q_append_string = append_string"
  by (intro ext) (simp add: q_append_string_def append_string_def)

lemma qpack_prefixes:
  "prefix_ok 6 0xc0" "prefix_ok 6 0x80" "prefix_ok 4 0x50" "prefix_ok 4 0x10" "prefix_ok 3 0x20" "prefix_ok 3 0x28"
  "prefix_ok 8 0" "prefix_ok 7 0" "prefix_ok 7 0x80" "prefix_ok 5 0x20" "prefix_ok 6 0x40" "prefix_ok 6 0"
  by (simp_all add: prefix_ok_def prefix_max_def)

text \<open>A string literal of the codec: an H bit \<open>h\<close> above a length with a \<open>p\<close>-bit prefix.\<close>

definition lit_string :: "nat \<Rightarrow> byte \<Rightarrow> byte \<Rightarrow> bytes \<Rightarrow> bytes" where
  "lit_string p flags h s =
     (if huffman_size s < length s then append_integer [] (of_nat (huffman_size s)) p (flags OR h) @ huffman_encode [] s
      else append_integer [] (of_nat (length s)) p flags @ s)"

definition lit_prefix :: "nat \<Rightarrow> byte \<Rightarrow> byte \<Rightarrow> bool" where
  "lit_prefix p flags h \<longleftrightarrow> prefix_ok p flags \<and> prefix_ok p (flags OR h) \<and> h AND ucast (prefix_max p) = 0
     \<and> flags AND h = 0 \<and> (flags OR h) AND h \<noteq> 0"

lemma lit_prefixes: "lit_prefix 7 0 0x80" "lit_prefix 3 0x20 0x08"
  by (simp_all add: lit_prefix_def prefix_ok_def prefix_max_def)

lemma append_string_lit: "append_string [] s = lit_string 7 0 0x80 s"
  using huffman_encode_append [of "append_integer [] (of_nat (huffman_size s)) 7 0x80" s]
  by (simp add: append_string_def lit_string_def Let_def)

lemma lit_string_not_Nil [simp]: "lit_string p flags h s \<noteq> []"
  by (simp add: lit_string_def)

lemma read_lit_string:
  assumes "lit_prefix p flags h" and "length s \<le> m" and "length s < 2 ^ 32"
  shows "prefixed_string (lit_string p flags h s @ rest) p h arena m = (arena @ s, Inr (s, rest))"
proof -
  have un: "unat (of_nat n :: u32) = n" if "n < 2 ^ 32" for n using that by (simp add: unsigned_of_nat take_bit_nat_eq_self)
  have lp: "prefix_ok p flags" "prefix_ok p (flags OR h)" "h AND ucast (prefix_max p) = 0" "flags AND h = 0"
    "(flags OR h) AND h \<noteq> 0" using assms(1) by (simp_all add: lit_prefix_def)
  show ?thesis
  proof (cases "huffman_size s < length s")
    case True
    let ?i = "append_integer [] (of_nat (huffman_size s)) p (flags OR h)" and ?h = "huffman_encode [] s"
    have e: "lit_string p flags h s @ rest = ?i @ ?h @ rest" using True by (simp add: lit_string_def)
    obtain b r where b: "?i = b # r" by (cases ?i) auto
    have "b AND h \<noteq> 0" using hd_append_integer [OF lp(2,3), of "of_nat (huffman_size s)"] b lp(5) by simp
    moreover have "read_integer p (?i @ ?h @ rest) = Some (of_nat (huffman_size s), ?h @ rest)"
      using True assms(3) by (intro read_append_nat lp(2)) simp
    moreover have "huffman_decode ?h arena m = (hs_ok, arena @ s)" using assms(2) by (simp add: huffman_decode_ok_iff)
    moreover have "unat (of_nat (huffman_size s) :: u32) = length ?h" using True assms(3) by (simp add: un huffman_size_correct)
    ultimately show ?thesis unfolding e by (simp add: prefixed_string_def q_read_string_def b)
  next
    case False
    let ?i = "append_integer [] (of_nat (length s)) p flags"
    have e: "lit_string p flags h s @ rest = ?i @ s @ rest" using False by (simp add: lit_string_def)
    obtain b r where b: "?i = b # r" by (cases ?i) auto
    have "b AND h = 0" using hd_append_integer [OF lp(1,3), of "of_nat (length s)"] b lp(4) by simp
    moreover have "read_integer p (?i @ s @ rest) = Some (of_nat (length s), s @ rest)"
      using assms(3) by (intro read_append_nat lp(1)) simp
    ultimately show ?thesis unfolding e using un [OF assms(3)] assms(2) by (simp add: prefixed_string_def q_read_string_def b)
  qed
qed

lemma q_literal_value_read:
  assumes "tot + field_size (name, v) \<le> mx" and "mx < 2 ^ 32"
  shows "q_literal_value name (append_string [] v @ rest) arena tot mx = (arena @ v, Inr (rest, name, v, no_origin))"
proof -
  have "length v \<le> budget tot mx (length name)" using assms(1) by (intro budget_le) simp
  moreover have "length v < 2 ^ 32" using assms by simp
  ultimately show ?thesis by (simp add: q_literal_value_def append_string_lit read_lit_string lit_prefixes(1))
qed


subsection \<open>Field lines\<close>

definition q_field :: "QDecoder \<Rightarrow> nat \<Rightarrow> field option" where
  "q_field d a = map_option (\<lambda>(n, v, _). (n, v)) (q_entry d a)"

text \<open>The decoder holds every entry of \<open>V\<close> under its absolute index.\<close>

definition holds_fields :: "QDecoder \<Rightarrow> (nat \<rightharpoonup> field) \<Rightarrow> bool" where
  "holds_fields d V \<longleftrightarrow> dt_ok (qd_table d) \<and> (\<forall>a f. V a = Some f \<longrightarrow> q_field d a = Some f)"

lemma q_field_list:
  assumes "dt_ok (qd_table d)"
  shows "q_field d a = (if a < qd_insert_count d \<and> qd_insert_count d - 1 - a < length (dt_list (qd_table d))
    then Some (dt_list (qd_table d) ! (qd_insert_count d - 1 - a)) else None)"
  using dt_at_mark_at [of "qd_table d" "qd_insert_count d - 1 - a"] assms
  by (auto simp: q_field_def q_entry_def Let_def dt.get_entries)

lemma q_field_put_mark [simp]:
  "dt_ok (qd_table d) \<Longrightarrow> q_field (d\<lparr>qd_table := put_mark (qd_table d) origin m\<rparr>) a = q_field d a"
  by (simp add: q_field_list)

lemma holds_fields_put_mark [simp]: "holds_fields (d\<lparr>qd_table := put_mark (qd_table d) origin m\<rparr>) V = holds_fields d V"
  by (auto simp: holds_fields_def)

lemma q_dynamic_held:
  assumes "holds_fields d V" and "V a = Some (n, v)" and "tot + field_size (n, v) \<le> mx"
  shows "\<exists>origin. q_dynamic d a arena tot mx True = Some (arena @ n @ v, n, v, origin)"
proof -
  obtain mark where "q_entry d a = Some (n, v, mark)" using assms(1,2) by (fastforce simp: holds_fields_def q_field_def)
  moreover have "length n + length v \<le> budget tot mx 0" using assms(3) by (intro budget_le) simp
  ultimately show ?thesis by (simp add: q_dynamic_def)
qed

definition q_reads :: "(nat \<rightharpoonup> field) \<Rightarrow> nat \<Rightarrow> nat \<Rightarrow> bytes \<Rightarrow> field \<Rightarrow> bool" where
  "q_reads V base required bs f \<longleftrightarrow> bs \<noteq> [] \<and>
     (\<forall>d rest arena tot mx. holds_fields d V \<longrightarrow> tot + field_size f \<le> mx \<longrightarrow> mx < 2 ^ 32 \<longrightarrow>
        (\<exists>arena' origin. q_line d base required (hd bs) (bs @ rest) arena tot mx
           = (arena', Inr (rest, fst f, snd f, origin))))"

lemma q_readsI:
  assumes "bs \<noteq> []"
    and "\<And>d rest arena tot mx. holds_fields d V \<Longrightarrow> tot + field_size f \<le> mx \<Longrightarrow> mx < 2 ^ 32 \<Longrightarrow>
      \<exists>arena' origin. q_line d base required (hd bs) (bs @ rest) arena tot mx = (arena', Inr (rest, fst f, snd f, origin))"
  shows "q_reads V base required bs f"
  using assms by (simp add: q_reads_def)

lemma q_helpers_out:
  "q_append_indexed out i = out @ q_append_indexed [] i"
  "q_append_literal_name_ref out i v = out @ q_append_literal_name_ref [] i v"
  "q_append_literal_name_ref [] i v = append_integer [] (of_nat i) 4 0x50 @ append_string [] v"
  "q_append_literal out n v = out @ q_append_literal [] n v"
  "q_append_literal [] n v = lit_string 3 0x20 0x08 n @ append_string [] v"
proof -
  show "q_append_indexed out i = out @ q_append_indexed [] i" unfolding q_append_indexed_def by (rule append_integer_out)
  have l: "q_append_literal_name_ref out i v = out @ append_integer [] (of_nat i) 4 0x50 @ append_string [] v" for out
    using append_string_out [of "append_integer out (of_nat i) 4 0x50" v] append_integer_out [of out "of_nat i" 4 "0x50"]
    by (simp add: q_append_literal_name_ref_def q_append_string_eq)
  show "q_append_literal_name_ref [] i v = append_integer [] (of_nat i) 4 0x50 @ append_string [] v" using l [of "[]"] by simp
  then show "q_append_literal_name_ref out i v = out @ q_append_literal_name_ref [] i v" using l by simp
  have h: "huffman_encode (append_integer out w 3 0x28) n = out @ append_integer [] w 3 0x28 @ huffman_encode [] n" for out w
    using huffman_encode_append [of "append_integer out w 3 0x28" n] append_integer_out [of out w 3 "0x28"] by simp
  have k: "q_append_literal out n v = out @ lit_string 3 0x20 0x08 n @ append_string [] v" for out
    using h [of out] append_integer_out [of out "of_nat (length n)" 3 "0x20"]
      append_string_out [of "huffman_encode (append_integer out (of_nat (huffman_size n)) 3 0x28) n" v]
      append_string_out [of "append_integer out (of_nat (length n)) 3 0x20 @ n" v]
    by (simp add: q_append_literal_def q_append_string_eq lit_string_def Let_def)
  show "q_append_literal [] n v = lit_string 3 0x20 0x08 n @ append_string [] v" using k [of "[]"] by simp
  then show "q_append_literal out n v = out @ q_append_literal [] n v" using k by simp
qed

lemma unat_of_nat32: "n < 2 ^ 32 \<Longrightarrow> unat (of_nat n :: u32) = n"
  by (simp add: unsigned_of_nat take_bit_nat_eq_self)

lemma q_reads_indexed:
  assumes "i < 99"
  shows "q_reads V base required (q_append_indexed [] i) (q_static_table ! i)"
proof (rule q_readsI)
  show "q_append_indexed [] i \<noteq> []" by (simp add: q_append_indexed_def)
  fix d rest arena tot mx assume "tot + field_size (q_static_table ! i) \<le> mx"
  let ?b = "append_integer [] (of_nat i) 6 0xc0"
  have "hd ?b AND 0x80 = 0x80" "hd ?b AND 0x40 = 0x40"
    using hd_append_integer [OF qpack_prefixes(1), of "0x80" "of_nat i"] hd_append_integer [OF qpack_prefixes(1), of "0x40" "of_nat i"]
    by (simp_all add: prefix_max_def)
  moreover have "read_integer 6 (?b @ rest) = Some (of_nat i, rest)" using assms by (intro read_append_nat qpack_prefixes) simp
  ultimately show "\<exists>arena' origin. q_line d base required (hd (q_append_indexed [] i)) (q_append_indexed [] i @ rest) arena tot mx
      = (arena', Inr (rest, fst (q_static_table ! i), snd (q_static_table ! i), origin))"
    using assms unat_of_nat32 [of i] by (simp add: q_append_indexed_def q_line_def q_line_indexed_def)
qed

lemma q_reads_name_ref:
  assumes "i < 99" and "fst (q_static_table ! i) = n"
  shows "q_reads V base required (q_append_literal_name_ref [] i v) (n, v)"
proof (rule q_readsI)
  show "q_append_literal_name_ref [] i v \<noteq> []" by (simp add: q_helpers_out(3))
  fix d rest arena tot mx assume fit: "tot + field_size (n, v) \<le> mx" and mx: "mx < (2::nat) ^ 32"
  let ?b = "append_integer [] (of_nat i) 4 0x50"
  have "hd ?b AND 0x80 = 0" "hd ?b AND 0x40 = 0x40" "hd ?b AND 0x10 = 0x10"
    using hd_append_integer [OF qpack_prefixes(3), of "0x80" "of_nat i"] hd_append_integer [OF qpack_prefixes(3), of "0x40" "of_nat i"]
      hd_append_integer [OF qpack_prefixes(3), of "0x10" "of_nat i"] by (simp_all add: prefix_max_def)
  moreover have "read_integer 4 (?b @ append_string [] v @ rest) = Some (of_nat i, append_string [] v @ rest)"
    using assms by (intro read_append_nat qpack_prefixes) simp
  moreover have "length n \<le> budget tot mx 0" using fit by (intro budget_le) simp
  ultimately show "\<exists>arena' origin. q_line d base required (hd (q_append_literal_name_ref [] i v))
      (q_append_literal_name_ref [] i v @ rest) arena tot mx = (arena', Inr (rest, fst (n, v), snd (n, v), origin))"
    using assms unat_of_nat32 [of i] q_literal_value_read [OF fit mx]
    by (simp add: q_helpers_out(3) q_line_def q_line_name_ref_def)
qed

lemma q_reads_literal: "q_reads V base required (q_append_literal [] n v) (n, v)"
proof (rule q_readsI)
  show "q_append_literal [] n v \<noteq> []" by (simp add: q_helpers_out(5))
  fix d rest arena tot mx assume fit: "tot + field_size (n, v) \<le> mx" and mx: "mx < (2::nat) ^ 32"
  let ?l = "lit_string 3 0x20 0x08 n"
  have h: "hd (append_integer [] w 3 fl) AND 0x80 = 0 \<and> hd (append_integer [] w 3 fl) AND 0x40 = 0 \<and> hd (append_integer [] w 3 fl) AND 0x20 = 0x20"
    if "fl = 0x20 \<or> fl = 0x28" for w fl
    using that hd_append_integer [of 3 fl "0x80" w] hd_append_integer [of 3 fl "0x40" w] hd_append_integer [of 3 fl "0x20" w]
      qpack_prefixes(5,6) by (auto simp: prefix_max_def)
  then have "hd (?l @ x) AND 0x80 = 0" "hd (?l @ x) AND 0x40 = 0" "hd (?l @ x) AND 0x20 = 0x20" for x by (auto simp: lit_string_def)
  moreover have "length n \<le> budget tot mx 0" "length n < 2 ^ 32" using fit mx by (auto intro: budget_le)
  then have "prefixed_string (?l @ append_string [] v @ rest) 3 0x08 arena (budget tot mx 0) = (arena @ n, Inr (n, append_string [] v @ rest))"
    by (intro read_lit_string lit_prefixes)
  ultimately show "\<exists>arena' origin. q_line d base required (hd (q_append_literal [] n v)) (q_append_literal [] n v @ rest) arena tot mx
      = (arena', Inr (rest, fst (n, v), snd (n, v), origin))"
    using q_literal_value_read [OF fit mx] by (simp add: q_helpers_out(5) q_line_def q_line_literal_def)
qed

lemma q_append_field_out: "q_append_field out n v = out @ q_append_field [] n v"
  unfolding q_append_field_def
  using q_helpers_out(1) [of out] q_helpers_out(2) [of out] q_helpers_out(4) [of out] by (simp split: option.split)

lemma q_reads_field: "q_reads V base required (q_append_field [] n v) (n, v)"
proof (cases "static_pair n v")
  case (Some i)
  then show ?thesis using static_pair_Some [OF Some] q_reads_indexed [of i V base required] by (simp add: q_append_field_def)
next
  case p: None
  show ?thesis
  proof (cases "static_name n")
    case (Some i)
    then show ?thesis using static_name_Some [OF Some] q_reads_name_ref [of i n V base required v] by (simp add: q_append_field_def p)
  qed (simp add: q_append_field_def p q_reads_literal)
qed

text \<open>References to dynamic entries, before and from the base on.\<close>

lemma q_reads_relative:
  assumes "V a = Some f" and "a < base" and "base - 1 - a < 2 ^ 32"
  shows "q_reads V base required (append_integer [] (of_nat (base - 1 - a)) 6 0x80) f"
proof (rule q_readsI)
  let ?b = "append_integer [] (of_nat (base - 1 - a)) 6 0x80"
  show "?b \<noteq> []" by simp
  fix d rest arena tot mx assume c: "holds_fields d V" and fit: "tot + field_size f \<le> mx"
  have "hd ?b AND 0x80 = 0x80" "hd ?b AND 0x40 = 0"
    using hd_append_integer [OF qpack_prefixes(2), of "0x80" "of_nat (base - 1 - a)"]
      hd_append_integer [OF qpack_prefixes(2), of "0x40" "of_nat (base - 1 - a)"] by (simp_all add: prefix_max_def)
  moreover have "read_integer 6 (?b @ rest) = Some (of_nat (base - 1 - a), rest)" using assms(3) by (intro read_append_nat qpack_prefixes)
  moreover obtain n v where f: "f = (n, v)" by force
  moreover obtain origin where "q_dynamic d a arena tot mx True = Some (arena @ n @ v, n, v, origin)"
    using q_dynamic_held [OF c, of a n v tot mx arena] assms(1) fit by (auto simp: f)
  ultimately show "\<exists>arena' origin. q_line d base required (hd ?b) (?b @ rest) arena tot mx = (arena', Inr (rest, fst f, snd f, origin))"
    using assms(2) unat_of_nat32 [OF assms(3)] by (simp add: q_line_def q_line_indexed_def)
qed

lemma q_reads_post_base:
  assumes "V a = Some f" and "base \<le> a" and "a < required" and "a - base < 2 ^ 32"
  shows "q_reads V base required (append_integer [] (of_nat (a - base)) 4 0x10) f"
proof (rule q_readsI)
  let ?b = "append_integer [] (of_nat (a - base)) 4 0x10"
  show "?b \<noteq> []" by simp
  fix d rest arena tot mx assume c: "holds_fields d V" and fit: "tot + field_size f \<le> mx"
  have h: "hd ?b AND m = 0x10 AND m" if "m AND 0xf = 0" for m
    using hd_append_integer [OF qpack_prefixes(4), of m "of_nat (a - base)"] that by (simp add: prefix_max_def)
  moreover have "read_integer 4 (?b @ rest) = Some (of_nat (a - base), rest)" using assms(4) by (intro read_append_nat qpack_prefixes)
  moreover obtain n v where f: "f = (n, v)" by force
  moreover obtain origin where "q_dynamic d a arena tot mx True = Some (arena @ n @ v, n, v, origin)"
    using q_dynamic_held [OF c, of a n v tot mx arena] assms(1) fit by (auto simp: f)
  ultimately show "\<exists>arena' origin. q_line d base required (hd ?b) (?b @ rest) arena tot mx = (arena', Inr (rest, fst f, snd f, origin))"
    using assms(2,3) unat_of_nat32 [OF assms(4)] h [of "0x80"] h [of "0x40"] h [of "0x20"] h [of "0x10"]
    by (simp add: q_line_def q_line_post_base_def)
qed

text \<open>A section's lines one after another.\<close>

lemma q_decode_lines_reads:
  assumes "list_all2 (q_reads V base required) bss fs" and "holds_fields d V" and "tot + table_size fs \<le> mx" and "mx < 2 ^ 32"
  shows "\<exists>d' arena'. q_decode_lines collect d base required arena mx tot ctx (concat bss) = (qr_ok, d', arena', ctx @ fs)
    \<and> holds_fields d' V \<and> qd_insert_count d' = qd_insert_count d \<and> dt_list (qd_table d') = dt_list (qd_table d)"
  using assms
proof (induction bss fs arbitrary: d arena tot ctx rule: list_all2_induct)
  case (Cons bs bss f fs)
  obtain b bs' where bs: "bs = b # bs'" using Cons.hyps(1) by (cases bs) (auto simp: q_reads_def)
  have fit: "tot + field_size f \<le> mx" using Cons.prems(2) by simp
  obtain arena1 origin where l: "q_line d base required b (bs @ concat bss) arena tot mx = (arena1, Inr (concat bss, fst f, snd f, origin))"
    using Cons.hyps(1) Cons.prems fit unfolding q_reads_def bs by (metis list.sel(1))
  let ?d = "d\<lparr>qd_table := put_mark (qd_table d) origin 1\<rparr>"
  have sz: "field_size f = length (fst f) + length (snd f) + 32" by (cases f) simp
  have "q_decode_lines collect d base required arena mx tot ctx (concat (bs # bss))
      = q_decode_lines collect ?d base required arena1 mx (tot + field_size f) (ctx @ [f]) (concat bss)"
    using l fit by (simp add: bs sz q_decode_lines.simps(2) collect_def Let_def)
  moreover have "holds_fields ?d V" using Cons.prems(1) by simp
  moreover have "tot + field_size f + table_size fs \<le> mx" using Cons.prems(2) by simp
  ultimately show ?case using Cons.IH [of ?d "tot + field_size f" arena1 "ctx @ [f]"] Cons.prems(3) by fastforce
qed auto


subsection \<open>The section prefix\<close>

text \<open>
  The wrapped count is recovered when it is at most \<open>m\<close> ahead of the decoder's inserts and less than
  \<open>m\<close> behind them, \<open>m\<close> being the entries the capacity allows.
\<close>

lemma q_required_exact:
  assumes "m = qd_max_capacity d div 32" and "0 < m" and "0 < ric" and "ric \<le> qd_insert_count d + m"
    and "qd_insert_count d < ric + m"
  shows "q_required d (ric mod (2 * m) + 1) = Some ric"
proof -
  let ?mv = "qd_insert_count d + m" and ?fr = "2 * m"
  have le: "ric mod ?fr + 1 \<le> ?fr" using mod_less_divisor [of ?fr ric] assms(2) by linarith
  have dm: "?mv div ?fr * ?fr + ?mv mod ?fr = ?mv" "ric div ?fr * ?fr + ric mod ?fr = ric" by (rule div_mult_mod_eq)+
  have mono: "ric div ?fr \<le> ?mv div ?fr" using assms(4) by (rule div_le_mono)
  show ?thesis
  proof (cases "ric div ?fr = ?mv div ?fr")
    case True
    then have "?mv div ?fr * ?fr + ric mod ?fr = ric" using dm(2) by simp
    then show ?thesis using le assms(3,4) by (simp add: q_required_def Let_def flip: assms(1))
  next
    case False
    have "?mv < ric + ?fr" using assms(5) by simp
    then have "?mv div ?fr \<le> (ric + ?fr) div ?fr" by (intro div_le_mono) simp
    also have "\<dots> = ric div ?fr + 1" using assms(2) by (intro div_add_self2) simp
    finally have "?mv div ?fr \<le> ric div ?fr + 1" .
    then have "?mv div ?fr = ric div ?fr + 1" using False mono by simp
    then have "?mv div ?fr * ?fr + ric mod ?fr = ric + ?fr" using dm(2) by (simp add: algebra_simps)
    then show ?thesis using le assms(3) \<open>?mv < ric + ?fr\<close> by (simp add: q_required_def Let_def flip: assms(1))
  qed
qed

lemma append_integer_two: "append_integer (append_integer [] a p fl) b q fl' = append_integer [] a p fl @ append_integer [] b q fl'"
  by (rule append_integer_out)

lemma q_decode_prefix_exact:
  assumes "m = qd_max_capacity d div 32" and "0 < m" and "0 < ric" and "ric \<le> qd_insert_count d + m"
    and "qd_insert_count d < ric + m" and "ric < 2 ^ 32 - 1" and "base < 2 ^ 32"
  shows "q_decode_prefix d
    ((if base \<ge> ric then append_integer (append_integer [] (of_nat (ric mod (2 * m) + 1)) 8 0) (of_nat (base - ric)) 7 0
      else append_integer (append_integer [] (of_nat (ric mod (2 * m) + 1)) 8 0) (of_nat (ric - base - 1)) 7 0x80) @ rest)
    = Some (ric, base, rest)"
proof -
  let ?w = "ric mod (2 * m) + 1"
  have w: "?w < 2 ^ 32" using mod_less_eq_dividend [of ric "2 * m"] assms(6) by linarith
  have r8: "read_integer 8 (append_integer [] (of_nat ?w) 8 0 @ x) = Some (of_nat ?w, x)" for x
    by (intro read_append_nat qpack_prefixes w)
  have req: "q_required d ?w = Some ric" by (rule q_required_exact [OF assms(1-5)])
  show ?thesis
  proof (cases "base \<ge> ric")
    case True
    let ?b = "append_integer [] (of_nat (base - ric)) 7 0"
    have r7: "read_integer 7 (?b @ rest) = Some (of_nat (base - ric), rest)" using assms(7) by (intro read_append_nat qpack_prefixes) simp
    obtain c cs where c: "?b = c # cs" by (cases ?b) auto
    have "c AND 0x80 = 0" using hd_append_integer [OF qpack_prefixes(8), of "0x80" "of_nat (base - ric)"] c by (simp add: prefix_max_def)
    then show ?thesis using True r8 [of "?b @ rest"] r7 req w assms(7) unat_of_nat32 [OF w] unat_of_nat32 [of "base - ric"] c
      by (simp add: q_decode_prefix_def append_integer_two)
  next
    case False
    let ?b = "append_integer [] (of_nat (ric - base - 1)) 7 0x80"
    have l: "ric - base - 1 < 2 ^ 32" using assms(6) by simp
    have r7: "read_integer 7 (?b @ rest) = Some (of_nat (ric - base - 1), rest)" using l by (intro read_append_nat qpack_prefixes)
    obtain c cs where c: "?b = c # cs" by (cases ?b) auto
    have "c AND 0x80 \<noteq> 0" using hd_append_integer [OF qpack_prefixes(9), of "0x80" "of_nat (ric - base - 1)"] c by (simp add: prefix_max_def)
    then show ?thesis using False r8 [of "?b @ rest"] r7 req unat_of_nat32 [OF w] unat_of_nat32 [OF l] c
      by (simp add: q_decode_prefix_def append_integer_two)
  qed
qed

lemma q_decode_prefix_zero: "q_decode_prefix d ([0, 0] @ rest) = Some (0, 0, rest)"
proof -
  have "append_integer [] 0 8 0 = [0]" "append_integer [] 0 7 0 = [0]" by (simp_all add: append_integer_def prefix_max_def)
  then have "read_integer 8 (0 # 0 # rest) = Some (0, 0 # rest)" "read_integer 7 (0 # rest) = Some (0, rest)"
    using read_append_nat [OF qpack_prefixes(7), of 0 "0 # rest"] read_append_nat [OF qpack_prefixes(8), of 0 rest] by simp_all
  then show ?thesis by (simp add: q_decode_prefix_def q_required_def)
qed


subsection \<open>The encoder stream, cut anywhere\<close>

text \<open>More bytes never change what the complete bytes before them meant.\<close>

lemma read_int_loop_more: "read_int_loop acc sh bs = Some (v, r) \<Longrightarrow> read_int_loop acc sh (bs @ x) = Some (v, r @ x)"
  by (induction acc sh bs rule: read_int_loop.induct) (auto simp: Let_def split: if_splits)

lemma read_integer_more: "read_integer p bs = Some (v, r) \<Longrightarrow> read_integer p (bs @ x) = Some (v, r @ x)"
  by (cases bs) (auto simp: read_integer.simps Let_def read_int_loop_more split: if_splits option.split_asm)

lemma q_read_string_more:
  "snd (q_read_string inp h len arena m) \<noteq> Inl qs_incomplete \<Longrightarrow>
    snd (q_read_string (inp @ x) h len arena m) = map_sum id (\<lambda>(s, r). (s, r @ x)) (snd (q_read_string inp h len arena m))"
  by (auto simp: q_read_string_def split: prod.split HuffStatus.split)

lemma prefixed_string_more:
  assumes "snd (prefixed_string inp p h arena m) \<noteq> Inl qs_incomplete"
  shows "snd (prefixed_string (inp @ x) p h arena m) = map_sum id (\<lambda>(s, r). (s, r @ x)) (snd (prefixed_string inp p h arena m))"
proof -
  obtain c cs where i: "inp = c # cs" using assms by (cases inp) (auto simp: prefixed_string_def)
  obtain l r where l: "read_integer p inp = Some (l, r)" using assms by (cases "read_integer p inp") (auto simp: prefixed_string_def i)
  from read_integer_more [OF l, of x] have l': "read_integer p (c # cs @ x) = Some (l, r @ x)" by (simp add: i)
  show ?thesis using assms l l' q_read_string_more [of r "c AND h \<noteq> 0" "unat l" arena m x] by (simp add: prefixed_string_def i)
qed

fun step_more :: "bytes \<Rightarrow> q_step \<Rightarrow> q_step" where
  "step_more x Q_wait = Q_wait"
| "step_more x Q_bad = Q_bad"
| "step_more x (Q_did d r) = Q_did d (r @ x)"

lemma q_insert_entry_more: "q_insert_entry d n v (r @ x) = step_more x (q_insert_entry d n v r)"
  by (simp add: q_insert_entry_def split: prod.split)

lemma q_instr_value_more:
  "q_instr_value d n inp \<noteq> Q_wait \<Longrightarrow> q_instr_value d n (inp @ x) = step_more x (q_instr_value d n inp)"
  using prefixed_string_more [of inp 7 "0x80" "[]" "qd_max_capacity d" x]
  by (cases "snd (prefixed_string inp 7 0x80 [] (qd_max_capacity d))")
    (auto simp: q_instr_value_def q_insert_entry_more split: QStrStatus.splits)

lemma q_instruction_more:
  assumes "q_instruction d b inp \<noteq> Q_wait"
  shows "q_instruction d b (inp @ x) = step_more x (q_instruction d b inp)"
proof -
  have ri: "read_integer p inp = Some (v, r) \<Longrightarrow> read_integer p (inp @ x) = Some (v, r @ x)" for p v r by (rule read_integer_more)
  consider "b AND 0x80 \<noteq> 0" | "b AND 0x80 = 0" "b AND 0x40 \<noteq> 0" | "b AND 0x80 = 0" "b AND 0x40 = 0" by blast
  then show ?thesis
  proof cases
    case 1
    then show ?thesis using assms ri [of 6]
      by (cases "read_integer 6 inp") (auto simp: q_instruction_def q_instr_value_more split: option.splits if_splits)
  next
    case 2
    then show ?thesis using assms prefixed_string_more [of inp 5 "0x20" "[]" "qd_max_capacity d" x]
      by (cases "snd (prefixed_string inp 5 0x20 [] (qd_max_capacity d))")
        (auto simp: q_instruction_def q_instr_value_more split: QStrStatus.splits)
  next
    case 3
    then show ?thesis using assms ri [of 5]
      by (cases "read_integer 5 inp") (auto simp: q_instruction_def q_insert_entry_more split: option.splits if_splits)
  qed
qed

text \<open>The stream may arrive in any pieces: what was not consumed is offered again with what follows.\<close>

lemma q_encoder_stream_chunks:
  "q_encoder_stream d (xs @ ys) =
     (case q_encoder_stream d xs of
        (False, d', r) \<Rightarrow> (False, d', r @ ys)
      | (True, d', r) \<Rightarrow> q_encoder_stream d' (r @ ys))"
proof (induction d xs rule: q_encoder_stream.induct)
  case (2 d b bs)
  show ?case
  proof (cases "q_instruction d b (b # bs)")
    case Q_wait
    then show ?thesis by (simp add: q_encoder_stream.simps(2) [of d b bs])
  next
    case Q_bad
    then show ?thesis using q_instruction_more [of d b "b # bs" ys] by (simp add: q_encoder_stream.simps(2))
  next
    case (Q_did d' r)
    then show ?thesis using q_instruction_more [of d b "b # bs" ys] "2.IH" [OF Q_did] by (simp add: q_encoder_stream.simps(2))
  qed
qed simp

text \<open>An instruction cut short waits.\<close>

lemma q_instruction_cut:
  assumes "q_instruction d b (b # bs @ x) = Q_did d' []" and "x \<noteq> []"
  shows "q_instruction d b (b # bs) = Q_wait"
proof (rule ccontr)
  assume n: "q_instruction d b (b # bs) \<noteq> Q_wait"
  from q_instruction_more [OF n, of x] assms show False by (cases "q_instruction d b (b # bs)") auto
qed

text \<open>
  The inserts of the encoder, each a static name and a value, oldest first; the bytes they are on
  the encoder stream after the capacity; and the decoder that has taken the first \<open>n\<close> of them.
\<close>

type_synonym q_ins = "nat \<times> bytes"

definition ins_field :: "q_ins \<Rightarrow> field" where
  "ins_field g = (fst (q_static_table ! fst g), snd g)"

definition ins_bytes :: "q_ins \<Rightarrow> bytes" where
  "ins_bytes g = append_integer [] (of_nat (fst g)) 6 0xc0 @ append_string [] (snd g)"

definition ins_ok :: "nat \<Rightarrow> q_ins \<Rightarrow> bool" where
  "ins_ok cap g \<longleftrightarrow> fst g < 99 \<and> field_size (ins_field g) \<le> cap"

definition stream_bytes :: "nat \<Rightarrow> q_ins list \<Rightarrow> bytes" where
  "stream_bytes cap G = (if G = [] then [] else append_integer [] (of_nat cap) 5 0x20 @ concat (map ins_bytes G))"

definition fed :: "nat \<Rightarrow> nat \<Rightarrow> q_ins list \<Rightarrow> nat \<Rightarrow> QDecoder \<Rightarrow> bool" where
  "fed mc cap G n d \<longleftrightarrow> dt_ok (qd_table d) \<and> dt_capacity (qd_table d) = mc \<and> qd_max_capacity d = mc
     \<and> dt_limit (qd_table d) = cap \<and> qd_insert_count d = n
     \<and> dt_list (qd_table d) = fit cap (rev (map ins_field (take n G)))"

lemma add_field_fit: "field_size f \<le> cap \<Longrightarrow> add_field cap (fit cap xs) f = fit cap (f # xs)"
proof -
  assume le: "field_size f \<le> cap"
  let ?p = "fit (cap - field_size f) xs"
  obtain q where q: "xs = ?p @ q" using fit_prefix by blast
  have "case q of [] \<Rightarrow> True | y # _ \<Rightarrow> cap < table_size (f # ?p) + field_size y"
    using fit_maximal [of xs "cap - field_size f"] q by (cases q) fastforce+
  moreover have "table_size (f # ?p) \<le> cap" using fit_size [of "cap - field_size f" xs] le by simp
  moreover have "f # xs = (f # ?p) @ q" using q by simp
  ultimately have "fit cap (f # xs) = f # ?p" by (intro fit_unique)
  then show ?thesis using le by (simp add: add_field_def fit_fit)
qed

text \<open>An entry survives as long as it and everything after it fit the capacity.\<close>

lemma fit_keeps:
  assumes "table_size (take k xs) \<le> cap" and "k \<le> length xs"
  shows "k \<le> length (fit cap xs)"
proof (rule ccontr)
  assume n: "\<not> k \<le> length (fit cap xs)"
  obtain q where q: "xs = fit cap xs @ q" using fit_prefix by blast
  have "q \<noteq> []"
  proof
    assume "q = []"
    then have "fit cap xs = xs" using q by simp
    then show False using n assms(2) by simp
  qed
  then obtain y ys where y: "q = y # ys" by (cases q) auto
  let ?p = "fit cap xs"
  have "take k xs = (?p @ [y]) @ take (k - Suc (length ?p)) ys"
    using arg_cong [OF q, of "take k"] n y by (simp add: take_Cons' not_le)
  then have "table_size (?p @ [y]) \<le> table_size (take k xs)" by simp
  moreover have "table_size (?p @ [y]) > cap" using q y by (intro fit_maximal) simp
  ultimately show False using assms(1) by simp
qed

lemma fit_nth: "k < length (fit cap xs) \<Longrightarrow> fit cap xs ! k = xs ! k"
proof -
  assume k: "k < length (fit cap xs)"
  obtain q where "xs = fit cap xs @ q" using fit_prefix by blast
  then show ?thesis using k by (metis nth_append)
qed

lemma fed_field:
  assumes "fed mc cap G n d" and "a < n" and "n \<le> length G" and "table_size (map ins_field (drop a G)) \<le> cap"
  shows "q_field d a = Some (ins_field (G ! a))"
proof -
  let ?xs = "rev (map ins_field (take n G))"
  have "table_size (map ins_field (drop a (take n G))) \<le> table_size (map ins_field (drop a G))"
    by (metis append_take_drop_id drop_append le_add1 map_append table_size_append)
  moreover have "take (n - a) ?xs = rev (map ins_field (drop a (take n G)))"
    using assms(2,3) by (simp add: take_rev drop_map)
  moreover have "table_size (rev zs) = table_size zs" for zs by (simp add: table_size_def rev_map [symmetric] sum_list_rev)
  ultimately have "n - a \<le> length (fit cap ?xs)" using assms(2-4) by (intro fit_keeps) simp_all
  then have k: "n - 1 - a < length (fit cap ?xs)" using assms(2) by simp
  then have "fit cap ?xs ! (n - 1 - a) = ?xs ! (n - 1 - a)" by (rule fit_nth)
  also have "\<dots> = ins_field (G ! a)" using assms(2,3) by (simp add: rev_nth)
  finally show ?thesis using assms(1,2) k by (simp add: fed_def q_field_list)
qed

lemma fed_insert:
  assumes "fed mc cap G n d" and "n < length G" and "ins_ok cap (G ! n)" and "cap \<le> mc" and "cap < 2 ^ 32"
  shows "\<exists>d'. (\<forall>rest. q_instruction d (hd (ins_bytes (G ! n))) (ins_bytes (G ! n) @ rest) = Q_did d' rest) \<and> fed mc cap G (Suc n) d'"
proof -
  obtain i v where g: "G ! n = (i, v)" by force
  let ?b = "append_integer [] (of_nat i) 6 0xc0" and ?n = "fst (q_static_table ! i)"
  let ?t = "fst (dt_add (qd_table d) ?n v)"
  let ?d = "d\<lparr>qd_table := ?t, qd_insert_count := Suc n\<rparr>"
  have i: "i < 99" and sz: "length ?n + length v + 32 \<le> cap" using assms(3) by (simp_all add: ins_ok_def ins_field_def g)
  have d: "dt_ok (qd_table d)" "dt_limit (qd_table d) = cap" "qd_insert_count d = n" "qd_max_capacity d = mc"
    using assms(1) by (simp_all add: fed_def)
  have "hd ?b AND 0x80 = 0x80" "hd ?b AND 0x40 = 0x40"
    using hd_append_integer [OF qpack_prefixes(1), of "0x80" "of_nat i"] hd_append_integer [OF qpack_prefixes(1), of "0x40" "of_nat i"]
    by (simp_all add: prefix_max_def)
  moreover have "read_integer 6 (?b @ x) = Some (of_nat i, x)" for x using i by (intro read_append_nat qpack_prefixes) simp
  moreover have "prefixed_string (append_string [] v @ rest) 7 0x80 [] mc = ([] @ v, Inr (v, rest))" for rest
    unfolding append_string_lit using sz assms(4,5) by (intro read_lit_string lit_prefixes) simp_all
  moreover have "snd (dt_add (qd_table d) ?n v)" using dt.add_result [OF d(1)] d(2) sz by simp
  then have "q_insert_entry d ?n v rest = Q_did ?d rest" for rest
    using sz d(2,3) by (cases "dt_add (qd_table d) ?n v") (simp add: q_insert_entry_def)
  ultimately have "q_instruction d (hd (ins_bytes (G ! n))) (ins_bytes (G ! n) @ rest) = Q_did ?d rest" for rest
    using i d(4) unat_of_nat32 [of i] by (simp add: g ins_bytes_def q_instruction_def q_instr_value_def)
  moreover have "fed mc cap G (Suc n) ?d"
    using assms(1,2) dt.add_inv [OF d(1), of ?n v] dt.add_limit [OF d(1), of ?n v] dt.add_entries [OF d(1), of ?n v] sz
    by (simp add: fed_def take_Suc_conv_app_nth g ins_field_def add_field_fit)
  ultimately show ?thesis by blast
qed

lemma ins_bytes_not_Nil [simp]: "ins_bytes g \<noteq> []"
  by (simp add: ins_bytes_def)

text \<open>Any beginning of the inserts' bytes applies some of the inserts; all of the bytes apply them all.\<close>

lemma fed_prefix:
  assumes "fed mc cap G n d" and "n \<le> length G" and "list_all (ins_ok cap) G" and "cap \<le> mc" and "cap < 2 ^ 32"
    and "P @ x = concat (map ins_bytes (drop n G))"
  shows "\<exists>n' d' r. q_encoder_stream d P = (True, d', r) \<and> n \<le> n' \<and> n' \<le> length G \<and> fed mc cap G n' d' \<and> (x = [] \<longrightarrow> n' = length G)"
  using assms
proof (induction "length G - n" arbitrary: n d P)
  case 0
  then show ?case by (intro exI [of _ n] exI [of _ d] exI [of _ "[]"]) auto
next
  case (Suc k)
  then have n: "n < length G" by simp
  then have e: "P @ x = ins_bytes (G ! n) @ concat (map ins_bytes (drop (Suc n) G))" using Suc.prems(6) by (simp flip: Cons_nth_drop_Suc)
  have "ins_ok cap (G ! n)" using Suc.prems(3) n by (simp add: list_all_length)
  from fed_insert [OF Suc.prems(1) n this Suc.prems(4,5)] obtain d' where
    i: "\<And>rest. q_instruction d (hd (ins_bytes (G ! n))) (ins_bytes (G ! n) @ rest) = Q_did d' rest" and f: "fed mc cap G (Suc n) d'" by blast
  obtain us where "P = ins_bytes (G ! n) @ us \<and> us @ x = concat (map ins_bytes (drop (Suc n) G))
      \<or> P @ us = ins_bytes (G ! n) \<and> x = us @ concat (map ins_bytes (drop (Suc n) G))"
    using e by (auto simp: append_eq_append_conv2)
  then consider (whole) "P = ins_bytes (G ! n) @ us" "us @ x = concat (map ins_bytes (drop (Suc n) G))"
    | (cut) "P @ us = ins_bytes (G ! n)" "us \<noteq> []" "x \<noteq> []"
    by (metis append.right_neutral append_Nil append_is_Nil_conv)
  then show ?case
  proof cases
    case whole
    obtain b bs where b: "ins_bytes (G ! n) = b # bs" using ins_bytes_not_Nil by (cases "ins_bytes (G ! n)") auto
    have "q_encoder_stream d P = q_encoder_stream d' us" using i [of us] by (simp add: whole(1) b q_encoder_stream.simps(2))
    moreover have "\<exists>n' d'' r. q_encoder_stream d' us = (True, d'', r) \<and> Suc n \<le> n' \<and> n' \<le> length G \<and> fed mc cap G n' d''
        \<and> (x = [] \<longrightarrow> n' = length G)"
      using Suc.hyps(2) n by (intro Suc.hyps(1) [OF _ f _ Suc.prems(3-5) whole(2)]) simp_all
    ultimately show ?thesis by (metis Suc_leD)
  next
    case cut
    have "q_encoder_stream d P = (True, d, P)"
    proof (cases P)
      case (Cons b bs)
      then have "q_instruction d b (b # bs @ us) = Q_did d' []" using i [of "[]"] cut(1) by (metis append_Cons append_Nil2 list.sel(1))
      from q_instruction_cut [OF this cut(2)] show ?thesis by (simp add: Cons q_encoder_stream.simps(2))
    qed simp
    then show ?thesis using Suc.prems(1) n cut(3) by (intro exI [of _ n] exI [of _ d] exI [of _ P]) simp
  qed
qed

lemma q_decoder_new_table:
  "dt_ok (qd_table (q_decoder_new mc))" "dt_capacity (qd_table (q_decoder_new mc)) = mc"
  "dt_list (qd_table (q_decoder_new mc)) = []" "dt_limit (qd_table (q_decoder_new mc)) = 0"
  using dt.change_inv [OF dt_ok_new, of 0 mc] dt.change_limit [OF dt_ok_new, of 0 mc] dt.change_entries [OF dt_ok_new, of 0 mc]
  by (simp_all add: q_decoder_new_def dt_new_list) (simp add: dt_new_def)

text \<open>A decoder fed from the start with any beginning of the encoder stream.\<close>

lemma stream_prefix:
  assumes "P @ x = stream_bytes cap G" and "list_all (ins_ok cap) G" and "cap \<le> mc" and "cap < 2 ^ 32"
  shows "\<exists>n d r. q_encoder_stream (q_decoder_new mc) P = (True, d, r) \<and> n \<le> length G \<and> qd_insert_count d = n
    \<and> qd_max_capacity d = mc \<and> (n = 0 \<or> fed mc cap G n d) \<and> (x = [] \<longrightarrow> n = length G)"
proof (cases "P = [] \<or> G = []")
  case True
  then have "P = []" using assms(1) by (auto simp: stream_bytes_def)
  then show ?thesis using assms(1)
    by (intro exI [of _ 0] exI [of _ "q_decoder_new mc"] exI [of _ "[]"]) (auto simp: stream_bytes_def q_decoder_new_def split: if_splits)
next
  case False
  let ?d = "q_decoder_new mc" and ?c = "append_integer [] (of_nat cap) 5 0x20"
  let ?d' = "?d\<lparr>qd_table := set_limit (qd_table ?d) cap\<rparr>"
  have e: "P @ x = ?c @ concat (map ins_bytes G)" using assms(1) False by (simp add: stream_bytes_def)
  have mc: "qd_max_capacity ?d = mc" "qd_insert_count ?d = 0" by (simp_all add: q_decoder_new_def)
  have h: "hd ?c AND 0x80 = 0" "hd ?c AND 0x40 = 0" "hd ?c AND 0x20 = 0x20"
    using hd_append_integer [OF qpack_prefixes(10), of "0x80" "of_nat cap"] hd_append_integer [OF qpack_prefixes(10), of "0x40" "of_nat cap"]
      hd_append_integer [OF qpack_prefixes(10), of "0x20" "of_nat cap"] by (simp_all add: prefix_max_def)
  have "read_integer 5 (?c @ rest) = Some (of_nat cap, rest)" for rest using assms(4) by (intro read_append_nat qpack_prefixes)
  then have i: "q_instruction ?d (hd ?c) (?c @ rest) = Q_did ?d' rest" for rest
    using h mc assms(3) unat_of_nat32 [OF assms(4)] by (simp add: q_instruction_def)
  have f: "fed mc cap G 0 ?d'"
    using q_decoder_new_table [of mc] dt.change_inv [of "qd_table ?d" cap] dt.change_limit [of "qd_table ?d" cap]
      dt.change_entries [of "qd_table ?d" cap] mc assms(3) by (simp add: fed_def)
  obtain b bs where b: "?c = b # bs" by (cases ?c) auto
  obtain us where "P = ?c @ us \<and> us @ x = concat (map ins_bytes G) \<or> P @ us = ?c \<and> x = us @ concat (map ins_bytes G)"
    using e by (auto simp: append_eq_append_conv2)
  then consider (whole) "P = ?c @ us" "us @ x = concat (map ins_bytes G)" | (cut) "P @ us = ?c" "us \<noteq> []" "x \<noteq> []"
    by (metis append.right_neutral append_Nil append_is_Nil_conv)
  then show ?thesis
  proof cases
    case whole
    have s: "q_encoder_stream ?d P = q_encoder_stream ?d' us" using i [of us] by (simp add: whole(1) b q_encoder_stream.simps(2))
    have "us @ x = concat (map ins_bytes (drop 0 G))" using whole(2) by simp
    from fed_prefix [OF f _ assms(2-4) this] obtain n' d' r where
      n': "q_encoder_stream ?d' us = (True, d', r)" "n' \<le> length G" "fed mc cap G n' d'" "x = [] \<longrightarrow> n' = length G" by auto
    then show ?thesis unfolding s by (intro exI [of _ n'] exI [of _ d'] exI [of _ r]) (auto simp: fed_def)
  next
    case cut
    obtain p ps where p: "P = p # ps" using False by (cases P) auto
    then have "q_instruction ?d p (p # ps @ us) = Q_did ?d' []" using i [of "[]"] cut(1) by (metis append_Cons append_Nil2 list.sel(1))
    from q_instruction_cut [OF this cut(2)] have "q_encoder_stream ?d P = (True, ?d, P)" by (simp add: p q_encoder_stream.simps(2))
    then show ?thesis using mc cut(3) by (intro exI [of _ 0] exI [of _ ?d] exI [of _ P]) simp
  qed
qed


subsection \<open>Whatever the peer sends\<close>

definition q_decoder_ok :: "QDecoder \<Rightarrow> bool" where
  "q_decoder_ok d \<longleftrightarrow> dt_ok (qd_table d) \<and> dt_capacity (qd_table d) = qd_max_capacity d"

lemma q_decoder_ok_new: "q_decoder_ok (q_decoder_new mc)"
  using q_decoder_new_table [of mc] by (simp add: q_decoder_ok_def) (simp add: q_decoder_new_def)

lemma q_insert_entry_keeps: "q_insert_entry d n v r = Q_did d' r' \<Longrightarrow> q_decoder_ok d \<Longrightarrow> q_decoder_ok d' \<and> qd_max_capacity d' = qd_max_capacity d"
  using dt.add_inv [of "qd_table d" n v] dt.add_limit [of "qd_table d" n v]
  by (auto simp: q_insert_entry_def q_decoder_ok_def split: if_splits prod.splits)

lemma q_instr_value_keeps: "q_instr_value d n inp = Q_did d' r \<Longrightarrow> q_decoder_ok d \<Longrightarrow> q_decoder_ok d' \<and> qd_max_capacity d' = qd_max_capacity d"
  using q_insert_entry_keeps by (auto simp: q_instr_value_def split: sum.splits QStrStatus.splits)

lemma q_instruction_keeps:
  assumes "q_instruction d b inp = Q_did d' r" and "q_decoder_ok d"
  shows "q_decoder_ok d' \<and> qd_max_capacity d' = qd_max_capacity d"
proof -
  have v: "q_decoder_ok d' \<and> qd_max_capacity d' = qd_max_capacity d" if "q_instr_value d n x = Q_did d' r" for n x
    using q_instr_value_keeps [OF that assms(2)] .
  have i: "q_decoder_ok d' \<and> qd_max_capacity d' = qd_max_capacity d" if "q_insert_entry d n w x = Q_did d' r" for n w x
    using q_insert_entry_keeps [OF that assms(2)] .
  have c: "q_decoder_ok (d\<lparr>qd_table := set_limit (qd_table d) k\<rparr>)" if "k \<le> qd_max_capacity d" for k
    using dt.change_inv [of "qd_table d" k] dt.change_limit [of "qd_table d" k] assms(2) that by (simp add: q_decoder_ok_def)
  consider "b AND 0x80 \<noteq> 0" | "b AND 0x80 = 0" "b AND 0x40 \<noteq> 0" | "b AND 0x80 = 0" "b AND 0x40 = 0" by blast
  then show ?thesis
  proof cases
    case 1
    then show ?thesis using assms(1) v by (auto simp: q_instruction_def split: if_splits option.splits)
  next
    case 2
    then show ?thesis using assms(1) v by (auto simp: q_instruction_def split: sum.splits QStrStatus.splits)
  next
    case 3
    then show ?thesis using assms(1) i c by (auto simp: q_instruction_def split: if_splits option.splits)
  qed
qed

lemma q_encoder_stream_keeps:
  "q_encoder_stream d inp = (ok, d', r) \<Longrightarrow> q_decoder_ok d \<Longrightarrow> q_decoder_ok d' \<and> qd_max_capacity d' = qd_max_capacity d"
proof (induction d inp rule: q_encoder_stream.induct)
  case (2 d b bs)
  then show ?case
    by (cases "q_instruction d b (b # bs)") (auto simp: q_encoder_stream.simps(2) dest!: q_instruction_keeps)
qed simp


subsection \<open>Properties\<close>

text \<open>
  C23. The encoder stream may arrive in any pieces: handing the decoder some bytes, and later the bytes it
  did not consume followed by more, applies the same instructions and ends in the same state as
  handing it everything at once; and whatever a peer sends, the dynamic table keeps its invariant and
  its entries never exceed the capacity the server advertised.
\<close>

theorem encoder_stream_in_pieces:
  "q_encoder_stream d (xs @ ys) =
     (case q_encoder_stream d xs of
        (False, d', r) \<Rightarrow> (False, d', r @ ys)
      | (True, d', r) \<Rightarrow> q_encoder_stream d' (r @ ys))
   \<and> (case q_encoder_stream (q_decoder_new mc) inp of
        (ok, d', r) \<Rightarrow> q_decoder_ok d' \<and> table_size (dt_list (qd_table d')) \<le> mc)"
proof
  show "q_encoder_stream d (xs @ ys) =
      (case q_encoder_stream d xs of (False, d', r) \<Rightarrow> (False, d', r @ ys) | (True, d', r) \<Rightarrow> q_encoder_stream d' (r @ ys))"
    by (rule q_encoder_stream_chunks)
  obtain ok d' r where e: "q_encoder_stream (q_decoder_new mc) inp = (ok, d', r)" using prod_cases3 by blast
  have "q_decoder_ok d'" "qd_max_capacity d' = mc"
    using q_encoder_stream_keeps [OF e q_decoder_ok_new] by (simp_all add: q_decoder_new_def)
  then show "case q_encoder_stream (q_decoder_new mc) inp of (ok, d', r) \<Rightarrow> q_decoder_ok d' \<and> table_size (dt_list (qd_table d')) \<le> mc"
    using dt.bounded [of "qd_table d'"] dt.limit_le [of "qd_table d'"] by (simp add: e q_decoder_ok_def)
qed



end
