(* ===== verification/Qpack_Encoder.thy ===== *)
theory Qpack_Encoder
  imports Qpack_Proof
begin

text \<open>
  The invariant of the QPACK encoder and what each of its operations does under it. The encoder's
  past is a list of inserts \<open>G\<close>; it holds the last of them, from some absolute index on, with the
  number of sections that refer to each (\<open>R\<close>); the bytes it has handed to the encoder stream and
  those it has not are the inserts' instructions. A field it writes is either readable by any
  decoder or a reference to an entry its section has pinned (\<open>q_wrote\<close>).
\<close>

unbundle bit_operations_syntax


subsection \<open>The invariant\<close>

definition mk_entry :: "q_ins list \<Rightarrow> (nat \<Rightarrow> nat) \<Rightarrow> nat \<Rightarrow> QEntry" where
  "mk_entry G R a =
     \<lparr>qe_abs = a, qe_size = field_size (ins_field (G ! a)), qe_refs = R a,
      qe_name = fst (ins_field (G ! a)), qe_value = snd (ins_field (G ! a))\<rparr>"

definition holds_from :: "QEncoder \<Rightarrow> q_ins list \<Rightarrow> (nat \<Rightarrow> nat) \<Rightarrow> nat \<Rightarrow> bool" where
  "holds_from e G R k \<longleftrightarrow> k \<le> length G \<and> qn_entries e = map (mk_entry G R) [k..<length G]
     \<and> qn_size e = table_size (map ins_field (drop k G)) \<and> (\<forall>a. R a \<noteq> 0 \<longrightarrow> k \<le> a \<and> a < length G)"

definition memo_ok :: "q_ins list \<Rightarrow> nat \<Rightarrow> QMemo \<Rightarrow> bool" where
  "memo_ok G i m \<longleftrightarrow> (qm_valid m \<longrightarrow> qm_abs m < length G \<and> G ! qm_abs m = (i, qm_value m))"

definition memos_ok :: "(int \<Rightarrow> bytes) \<Rightarrow> QEncoder \<Rightarrow> q_ins list \<Rightarrow> bool" where
  "memos_ok dv e G \<longleftrightarrow> memo_ok G 92 (qn_server e) \<and> memo_ok G 83 (qn_alt_svc e) \<and> memo_ok G 44 (qn_ct e)
     \<and> memo_ok G 56 (qn_hsts e)
     \<and> (qn_date_valid e \<longrightarrow> qn_date_abs e < length G \<and> G ! qn_date_abs e = (6, dv (qn_date_second e)))
     \<and> (qn_ct_seen_valid e \<longrightarrow> qn_ct_seen_index e = static_pair n_content_type (qn_ct_seen e))"

definition core_ok :: "QEncoder \<Rightarrow> q_ins list \<Rightarrow> (nat \<Rightarrow> nat) \<Rightarrow> bytes \<Rightarrow> bool" where
  "core_ok e G R sent \<longleftrightarrow> qn_insert_count e = length G \<and> (\<exists>k. holds_from e G R k)
     \<and> qn_size e \<le> qn_capacity e \<and> list_all (ins_ok (qn_capacity e)) G
     \<and> qn_capacity e = min (qn_peer_capacity e) q_max_capacity \<and> qn_capacity_sent e = (G \<noteq> []) \<and> qn_known e \<le> length G
     \<and> sent @ qn_instructions e = stream_bytes (qn_capacity e) G"

definition q_inv :: "(int \<Rightarrow> bytes) \<Rightarrow> QEncoder \<Rightarrow> q_ins list \<Rightarrow> (nat \<Rightarrow> nat) \<Rightarrow> bytes \<Rightarrow> bool" where
  "q_inv dv e G R sent \<longleftrightarrow> core_ok e G R sent \<and> memos_ok dv e G"

lemma core_okD:
  assumes "core_ok e G R sent"
  shows "qn_insert_count e = length G" "qn_size e \<le> qn_capacity e" "list_all (ins_ok (qn_capacity e)) G"
    "qn_capacity e = min (qn_peer_capacity e) q_max_capacity" "qn_capacity_sent e = (G \<noteq> [])" "qn_known e \<le> length G"
    "sent @ qn_instructions e = stream_bytes (qn_capacity e) G"
  using assms by (auto simp: core_ok_def)

lemma core_ok_holds: "core_ok e G R sent \<Longrightarrow> (\<And>k. holds_from e G R k \<Longrightarrow> thesis) \<Longrightarrow> thesis"
  by (auto simp: core_ok_def)

text \<open>The fields the invariant does not read.\<close>

lemma core_ok_frame:
  assumes "core_ok e G R sent"
    and "qn_insert_count e' = qn_insert_count e" "qn_entries e' = qn_entries e" "qn_size e' = qn_size e"
    "qn_capacity e' = qn_capacity e" "qn_peer_capacity e' = qn_peer_capacity e" "qn_capacity_sent e' = qn_capacity_sent e"
    "qn_known e' = qn_known e" "qn_instructions e' = qn_instructions e"
  shows "core_ok e' G R sent"
  using assms(1) unfolding core_ok_def holds_from_def assms(2-9) by blast

lemma q_held_iff:
  assumes "core_ok e G R sent" and "holds_from e G R k"
  shows "q_held e a \<longleftrightarrow> k \<le> a \<and> a < length G"
proof -
  have c: "qn_insert_count e = length G" using assms(1) by (rule core_okD)
  show ?thesis
  proof (cases "k = length G")
    case True
    then have "qn_entries e = []" using assms(2) by (simp add: holds_from_def)
    then show ?thesis using True by (simp add: q_held_def)
  next
    case False
    then have k: "k < length G" using assms(2) by (simp add: holds_from_def)
    then have "qn_entries e \<noteq> []" "hd (qn_entries e) = mk_entry G R k"
      using assms(2) by (simp_all add: holds_from_def upt_conv_Cons)
    then show ?thesis by (simp add: q_held_def c mk_entry_def)
  qed
qed

text \<open>A held entry and everything after it fit the capacity.\<close>

lemma held_fits:
  assumes "core_ok e G R sent" and "q_held e a"
  shows "table_size (map ins_field (drop a G)) \<le> qn_capacity e" and "a < length G"
proof -
  obtain k where k: "holds_from e G R k" using assms(1) by (rule core_ok_holds)
  have a: "k \<le> a" "a < length G" using q_held_iff [OF assms(1) k] assms(2) by auto
  show "a < length G" by (rule a(2))
  have "drop k G = take (a - k) (drop k G) @ drop a G" using a(1) by (metis append_take_drop_id drop_drop le_add_diff_inverse2)
  then have "table_size (map ins_field (drop k G)) = table_size (map ins_field (take (a - k) (drop k G))) + table_size (map ins_field (drop a G))"
    by (metis map_append table_size_append)
  then show "table_size (map ins_field (drop a G)) \<le> qn_capacity e" using k core_okD(2) [OF assms(1)] by (simp add: holds_from_def)
qed

lemma referenced_held:
  assumes "core_ok e G R sent" and "R a \<noteq> 0"
  shows "q_held e a"
proof -
  obtain k where k: "holds_from e G R k" using assms(1) by (rule core_ok_holds)
  then show ?thesis using q_held_iff [OF assms(1) k] assms(2) by (simp add: holds_from_def)
qed


subsection \<open>Inserting\<close>

lemma q_make_room_Some:
  assumes "q_make_room need cap sz es = Some (sz', es')" and "es = map (mk_entry G R) [k..<length G]"
    and "sz = table_size (map ins_field (drop k G))" and "k \<le> length G"
  shows "\<exists>k'. k \<le> k' \<and> k' \<le> length G \<and> es' = map (mk_entry G R) [k'..<length G]
    \<and> sz' = table_size (map ins_field (drop k' G)) \<and> sz' + need \<le> cap \<and> (\<forall>a. k \<le> a \<and> a < k' \<longrightarrow> R a = 0)"
  using assms
proof (induction "length G - k" arbitrary: k sz es)
  case 0
  then show ?case by (auto split: if_splits)
next
  case (Suc j)
  then have k: "k < length G" by simp
  have es: "es = mk_entry G R k # map (mk_entry G R) [Suc k..<length G]" using Suc.prems(2) k by (simp add: upt_conv_Cons)
  show ?case
  proof (cases "sz + need > cap")
    case True
    have s: "sz - qe_size (mk_entry G R k) = table_size (map ins_field (drop (Suc k) G))"
      using Suc.prems(3) k by (simp add: mk_entry_def flip: Cons_nth_drop_Suc)
    have r: "R k = 0" using Suc.prems(1) True by (auto simp: es mk_entry_def split: if_splits)
    have m: "q_make_room need cap (sz - qe_size (mk_entry G R k)) (map (mk_entry G R) [Suc k..<length G]) = Some (sz', es')"
      using Suc.prems(1) True r by (simp add: es) (simp add: mk_entry_def)
    have j: "j = length G - Suc k" "Suc k \<le> length G" using Suc.hyps(2) k by simp_all
    obtain k' where "Suc k \<le> k'" "k' \<le> length G" "es' = map (mk_entry G R) [k'..<length G]"
      "sz' = table_size (map ins_field (drop k' G))" "sz' + need \<le> cap" "\<forall>a. Suc k \<le> a \<and> a < k' \<longrightarrow> R a = 0"
      using Suc.hyps(1) [OF j(1) m refl s j(2)] by blast
    moreover have "\<forall>a. k \<le> a \<and> a < k' \<longrightarrow> R a = 0" using r calculation(6) by (metis le_eq_less_or_eq Suc_leI)
    ultimately show ?thesis by (intro exI [of _ k']) simp
  next
    case False
    then have "sz' = sz" "es' = es" using Suc.prems(1) by (simp_all add: es)
    then show ?thesis using False Suc.prems by (intro exI [of _ k]) auto
  qed
qed

lemma mk_entry_append: "a < length G \<Longrightarrow> mk_entry (G @ gs) R a = mk_entry G R a"
  by (simp add: mk_entry_def nth_append)

lemma memo_ok_append: "memo_ok G i m \<Longrightarrow> memo_ok (G @ gs) i m"
  by (auto simp: memo_ok_def nth_append)

lemma memos_ok_append: "memos_ok dv e G \<Longrightarrow> memos_ok dv e (G @ gs)"
  by (auto simp: memos_ok_def memo_ok_append nth_append)

lemma stream_bytes_snoc:
  "stream_bytes cap (G @ [g]) = stream_bytes cap G @ (if G = [] then append_integer [] (of_nat cap) 5 0x20 else []) @ ins_bytes g"
  by (simp add: stream_bytes_def)

lemma insert_bytes:
  "q_append_string (append_integer out (of_nat i) 6 0xc0) v = out @ ins_bytes (i, v)"
  using append_string_out [of "append_integer out (of_nat i) 6 0xc0" v] append_integer_out [of out "of_nat i" 6 "0xc0"]
  by (simp add: q_append_string_eq ins_bytes_def)

text \<open>What an insert leaves alone.\<close>

definition same_conn :: "QEncoder \<Rightarrow> QEncoder \<Rightarrow> bool" where
  "same_conn e e' \<longleftrightarrow> qn_peer_capacity e' = qn_peer_capacity e \<and> qn_peer_blocked e' = qn_peer_blocked e
     \<and> qn_capacity e' = qn_capacity e \<and> qn_known e' = qn_known e \<and> qn_blocking e' = qn_blocking e \<and> qn_base e' = qn_base e"

lemma same_conn_refl [simp]: "same_conn e e"
  by (simp add: same_conn_def)

lemma same_conn_trans: "same_conn e e1 \<Longrightarrow> same_conn e1 e2 \<Longrightarrow> same_conn e e2"
  by (simp add: same_conn_def)

lemma q_insert_ok:
  assumes "core_ok e G R sent" and "q_insert e i n v = Some (e', a)" and "i < 99" and "fst (q_static_table ! i) = n"
  shows "core_ok e' (G @ [(i, v)]) R sent" and "a = length G" and "q_held e' a"
    and "same_conn e e'" and "qn_current e' = qn_current e" and "memos_ok dv e' H = memos_ok dv e H"
    and "qn_server e' = qn_server e" "qn_alt_svc e' = qn_alt_svc e" "qn_ct e' = qn_ct e" "qn_hsts e' = qn_hsts e"
proof -
  obtain k where k: "holds_from e G R k" using assms(1) by (rule core_ok_holds)
  let ?need = "length n + length v + 32" and ?G = "G @ [(i, v)]"
  have fs: "field_size (ins_field (i, v)) = ?need" using assms(4) by (simp add: ins_field_def)
  obtain sz es where mr: "q_make_room ?need (qn_capacity e) (qn_size e) (qn_entries e) = Some (sz, es)"
    and cap: "?need \<le> qn_capacity e"
    using assms(2) by (auto simp: q_insert_def Let_def split: if_splits option.splits)
  define e1 where "e1 = e\<lparr>qn_capacity_sent := True,
      qn_instructions := (if \<not> qn_capacity_sent e then append_integer (qn_instructions e) (of_nat (qn_capacity e)) 5 0x20
        else qn_instructions e) @ ins_bytes (i, v),
      qn_entries := es @ [\<lparr>qe_abs = qn_insert_count e, qe_size = ?need, qe_refs = 0, qe_name = n, qe_value = v\<rparr>],
      qn_insert_count := qn_insert_count e + 1, qn_size := sz + ?need\<rparr>"
  have e': "e' = e1" "a = qn_insert_count e"
    using assms(2) mr by (auto simp: q_insert_def Let_def insert_bytes e1_def split: if_splits)
  have ic: "qn_insert_count e = length G" using assms(1) by (rule core_okD)
  show "a = length G" by (simp add: e' ic)
  from k have "qn_entries e = map (mk_entry G R) [k..<length G]" "qn_size e = table_size (map ins_field (drop k G))" "k \<le> length G"
    by (simp_all add: holds_from_def)
  from q_make_room_Some [OF mr this] obtain k' where k': "k \<le> k'" "k' \<le> length G" "es = map (mk_entry G R) [k'..<length G]"
    "sz = table_size (map ins_field (drop k' G))" "sz + ?need \<le> qn_capacity e" "\<forall>a. k \<le> a \<and> a < k' \<longrightarrow> R a = 0" by blast
  have R: "R (length G) = 0" using k by (auto simp: holds_from_def)
  have "mk_entry ?G R (length G) = \<lparr>qe_abs = length G, qe_size = ?need, qe_refs = 0, qe_name = n, qe_value = v\<rparr>"
    using R fs assms(4) by (simp add: mk_entry_def) (simp add: ins_field_def)
  moreover have "map (mk_entry ?G R) [k'..<length G] = es" using k'(3) by (simp add: mk_entry_append)
  ultimately have "qn_entries e1 = map (mk_entry ?G R) [k'..<length ?G]" using k'(2) by (simp add: e1_def ic)
  moreover have "qn_size e1 = table_size (map ins_field (drop k' ?G))" using k'(2,4) fs by (simp add: e1_def)
  moreover have "\<forall>a. R a \<noteq> 0 \<longrightarrow> k' \<le> a \<and> a < length ?G" using k k'(6) unfolding holds_from_def by (metis less_SucI length_append_singleton not_le)
  ultimately have h: "holds_from e1 ?G R k'" using k'(2) by (simp add: holds_from_def)
  have "stream_bytes (qn_capacity e) ?G = sent @ qn_instructions e1"
    using core_okD(5,7) [OF assms(1)] append_integer_out [of "qn_instructions e" "of_nat (qn_capacity e)" 5 "0x20"]
    by (simp add: stream_bytes_snoc e1_def flip: append_assoc)
  moreover have "ins_ok (qn_capacity e) (i, v)" using assms(3) cap fs by (simp add: ins_ok_def)
  moreover have "qn_size e1 \<le> qn_capacity e1" using k'(5) by (simp add: e1_def)
  ultimately show core: "core_ok e' ?G R sent"
    using core_okD [OF assms(1)] h unfolding e'(1) core_ok_def by (auto simp: e1_def)
  show "q_held e' a" using q_held_iff [OF core [unfolded e'(1)] h] k'(2) by (simp add: e' ic)
qed (use assms(2) in \<open>auto simp: q_insert_def Let_def same_conn_def memos_ok_def split: if_splits option.splits\<close>)


subsection \<open>References\<close>

lemma q_map_refs_ok:
  assumes "core_ok e G R sent" and "q_held e a"
  shows "core_ok (q_map_refs e a f) G (R(a := f (R a))) sent"
proof -
  obtain k where k: "holds_from e G R k" using assms(1) by (rule core_ok_holds)
  have a: "k \<le> a" "a < length G" using q_held_iff [OF assms(1) k] assms(2) by auto
  let ?R = "R(a := f (R a))" and ?es = "qn_entries e"
  have es: "?es = map (mk_entry G R) [k..<length G]" using k by (simp add: holds_from_def)
  then have "hd ?es = mk_entry G R k" using a by (simp add: upt_conv_Cons)
  then have h: "qe_abs (hd ?es) = k" by (simp add: mk_entry_def)
  have "?es[a - k := (?es ! (a - k))\<lparr>qe_refs := f (qe_refs (?es ! (a - k)))\<rparr>] = map (mk_entry G ?R) [k..<length G]"
    using a by (intro nth_equalityI) (auto simp: es nth_list_update mk_entry_def)
  then have "qn_entries (q_map_refs e a f) = map (mk_entry G ?R) [k..<length G]" by (simp add: q_map_refs_def Let_def h)
  then have "holds_from (q_map_refs e a f) G ?R k"
    using k a by (auto simp: holds_from_def q_map_refs_def Let_def)
  then show ?thesis using assms(1) unfolding core_ok_def by (auto simp: q_map_refs_def Let_def)
qed

text \<open>A section being written, over the references \<open>Rp\<close> of the sections already sent.\<close>

definition total_refs :: "(nat \<Rightarrow> nat) \<Rightarrow> nat list \<Rightarrow> nat \<Rightarrow> nat" where
  "total_refs Rp refs a = Rp a + (if a \<in> set refs then 1 else 0)"

definition sec_ok :: "QSection \<Rightarrow> bool" where
  "sec_ok c \<longleftrightarrow> distinct (qs_refs c) \<and> (\<forall>a\<in>set (qs_refs c). a < qs_ric c) \<and> (qs_ric c \<noteq> 0 \<longrightarrow> qs_ric c - 1 \<in> set (qs_refs c))
     \<and> (qs_blocking c \<longrightarrow> qs_ric c \<noteq> 0)"

definition writing :: "(int \<Rightarrow> bytes) \<Rightarrow> QEncoder \<Rightarrow> q_ins list \<Rightarrow> (nat \<Rightarrow> nat) \<Rightarrow> bytes \<Rightarrow> QSection \<Rightarrow> bool" where
  "writing dv e G Rp sent c \<longleftrightarrow> q_inv dv e G (total_refs Rp (qs_refs c)) sent \<and> qn_current e = Some c \<and> sec_ok c
     \<and> \<not> qs_pending c \<and> qn_base e \<le> length G \<and> (qs_blocking c \<longrightarrow> qn_blocking e < qn_peer_blocked e)"

definition ref_bytes :: "nat \<Rightarrow> nat \<Rightarrow> bytes" where
  "ref_bytes base a =
     (if a < base then append_integer [] (of_nat (base - 1 - a)) 6 0x80 else append_integer [] (of_nat (a - base)) 4 0x10)"

definition q_wrote :: "q_ins list \<Rightarrow> nat set \<Rightarrow> nat \<Rightarrow> bytes \<Rightarrow> field \<Rightarrow> bool" where
  "q_wrote G refs base bs f \<longleftrightarrow> (\<forall>V b r. q_reads V b r bs f)
     \<or> (\<exists>a\<in>refs. a < length G \<and> f = ins_field (G ! a) \<and> bs = ref_bytes base a)"

lemma q_wrote_mono: "q_wrote G refs base bs f \<Longrightarrow> refs \<subseteq> refs' \<Longrightarrow> q_wrote (G @ gs) refs' base bs f"
  unfolding q_wrote_def by (auto simp: nth_append)

lemma q_reference_ok:
  assumes "writing dv e G Rp sent c" and "q_usable e a" and "length (qs_refs c) < 4"
  shows "\<exists>c' es. q_reference e out a = (e\<lparr>qn_current := Some c', qn_entries := es\<rparr>, out @ ref_bytes (qn_base e) a)
    \<and> writing dv (e\<lparr>qn_current := Some c', qn_entries := es\<rparr>) G Rp sent c' \<and> a \<in> set (qs_refs c')
    \<and> set (qs_refs c) \<subseteq> set (qs_refs c') \<and> length (qs_refs c') \<le> Suc (length (qs_refs c))"
proof -
  have core: "core_ok e G (total_refs Rp (qs_refs c)) sent" and memos: "memos_ok dv e G" and cur: "qn_current e = Some c"
    and sec: "sec_ok c" and base: "qn_base e \<le> length G" and bl: "qs_blocking c \<longrightarrow> qn_blocking e < qn_peer_blocked e"
    and np: "\<not> qs_pending c"
    using assms(1) by (simp_all add: writing_def q_inv_def)
  have held: "q_held e a" using assms(2) by (simp add: q_usable_def)
  have out: "q_ref_line e out a = out @ ref_bytes (qn_base e) a"
    unfolding ref_bytes_def q_ref_line_def by (cases "a < qn_base e") (simp_all only: if_True if_False append_integer_out [of out])
  define c1 where "c1 = q_note_ref e c a"
  have refs1: "qs_refs c1 = qs_refs c" "qs_pending c1 = qs_pending c" by (simp_all add: c1_def q_note_ref_def Let_def)
  have ric1: "qs_ric c1 = max (qs_ric c) (a + 1)" by (auto simp: c1_def q_note_ref_def Let_def)
  have bl1: "qs_blocking c1 \<longrightarrow> qn_blocking e < qn_peer_blocked e"
    using bl assms(2) cur by (auto simp: c1_def q_note_ref_def Let_def q_usable_def split: if_splits)
  have r: "q_reference e out a =
      (if a \<in> set (qs_refs c1) then (e\<lparr>qn_current := Some c1\<rparr>, out @ ref_bytes (qn_base e) a)
       else if length (qs_refs c1) < 4 \<and> q_held e a
       then (q_map_refs (e\<lparr>qn_current := Some (c1\<lparr>qs_refs := qs_refs c1 @ [a]\<rparr>)\<rparr>) a Suc, out @ ref_bytes (qn_base e) a)
       else (e\<lparr>qn_current := Some c1\<rparr>, out @ ref_bytes (qn_base e) a))"
    unfolding q_reference_def c1_def Let_def out cur option.case by (rule refl)
  show ?thesis
  proof (cases "a \<in> set (qs_refs c)")
    case True
    have "sec_ok c1" using sec True by (auto simp: sec_ok_def refs1 ric1 max_def)
    moreover have "core_ok (e\<lparr>qn_current := Some c1, qn_entries := qn_entries e\<rparr>) G (total_refs Rp (qs_refs c1)) sent"
      using core unfolding refs1 by (rule core_ok_frame) simp_all
    moreover have "memos_ok dv (e\<lparr>qn_current := Some c1, qn_entries := qn_entries e\<rparr>) G" using memos by (simp add: memos_ok_def)
    ultimately have "writing dv (e\<lparr>qn_current := Some c1, qn_entries := qn_entries e\<rparr>) G Rp sent c1"
      using base bl1 np by (simp add: writing_def q_inv_def refs1)
    then show ?thesis using True r by (intro exI [of _ c1] exI [of _ "qn_entries e"]) (simp add: refs1)
  next
    case False
    let ?c = "c1\<lparr>qs_refs := qs_refs c1 @ [a]\<rparr>"
    let ?e = "e\<lparr>qn_current := Some ?c\<rparr>"
    have "core_ok ?e G (total_refs Rp (qs_refs c)) sent" using core by (rule core_ok_frame) simp_all
    moreover have "q_held ?e a" using held by (simp add: q_held_def)
    moreover have "(total_refs Rp (qs_refs c))(a := Suc (total_refs Rp (qs_refs c) a)) = total_refs Rp (qs_refs ?c)"
      using False by (auto simp: total_refs_def fun_eq_iff refs1)
    ultimately have core': "core_ok (q_map_refs ?e a Suc) G (total_refs Rp (qs_refs ?c)) sent" using q_map_refs_ok by metis
    have m: "q_map_refs ?e a Suc = e\<lparr>qn_current := Some ?c, qn_entries := qn_entries (q_map_refs ?e a Suc)\<rparr>"
      by (simp add: q_map_refs_def Let_def)
    have "sec_ok ?c" using sec False by (auto simp: sec_ok_def refs1 ric1 max_def)
    moreover have "memos_ok dv (q_map_refs ?e a Suc) G" using memos by (simp add: memos_ok_def q_map_refs_def Let_def)
    ultimately have "writing dv (q_map_refs ?e a Suc) G Rp sent ?c"
      using core' base bl1 np by (simp add: writing_def q_inv_def refs1) (simp add: q_map_refs_def Let_def)
    moreover have "q_reference e out a = (q_map_refs ?e a Suc, out @ ref_bytes (qn_base e) a)"
      using r False assms(3) held by (simp add: refs1 q_held_def)
    ultimately show ?thesis using m refs1 by (intro exI [of _ ?c] exI [of _ "qn_entries (q_map_refs ?e a Suc)"]) auto
  qed
qed


subsection \<open>Fields\<close>

text \<open>
  What writing the field \<open>f\<close> does: some bytes more, perhaps an insert, perhaps one more reference.
\<close>

definition wrote_to ::
  "(int \<Rightarrow> bytes) \<Rightarrow> QEncoder \<Rightarrow> q_ins list \<Rightarrow> (nat \<Rightarrow> nat) \<Rightarrow> bytes \<Rightarrow> QSection \<Rightarrow> bytes \<Rightarrow> field \<Rightarrow> nat \<Rightarrow> QEncoder \<Rightarrow> bytes \<Rightarrow> q_ins list \<Rightarrow> bool" where
  "wrote_to dv e G Rp sent c out f n e' out' gs \<longleftrightarrow>
     (\<exists>c' bs. out' = out @ bs \<and> writing dv e' (G @ gs) Rp sent c'
        \<and> q_wrote (G @ gs) (set (qs_refs c')) (qn_base e) bs f \<and> set (qs_refs c) \<subseteq> set (qs_refs c')
        \<and> length (qs_refs c') \<le> length (qs_refs c) + n \<and> same_conn e e')"

lemma wrote_plain:
  assumes "writing dv e G Rp sent c" and "\<And>V b r. q_reads V b r bs f"
  shows "wrote_to dv e G Rp sent c out f n e (out @ bs) []"
  using assms unfolding wrote_to_def q_wrote_def by (intro exI [of _ c] exI [of _ bs]) simp

lemma wrote_reference:
  assumes "writing dv e G Rp sent c" and "q_usable e a" and "length (qs_refs c) < 4" and "f = ins_field (G ! a)" and "a < length G"
    and "q_reference e out a = (e', out')"
  shows "wrote_to dv e G Rp sent c out f 1 e' out' []"
    and "\<exists>c' es. e' = e\<lparr>qn_current := Some c', qn_entries := es\<rparr>"
  using q_reference_ok [OF assms(1-3), of out] assms(4-6) unfolding wrote_to_def q_wrote_def same_conn_def by fastforce+

lemma writing_insert:
  assumes "writing dv e G Rp sent c" and "q_insert e i n v = Some (e', a)" and "i < 99" and "fst (q_static_table ! i) = n"
  shows "writing dv e' (G @ [(i, v)]) Rp sent c" and "same_conn e e'" and "a = length G"
  using assms(1) q_insert_ok(1,2,4,5) [OF _ assms(2-4)] q_insert_ok(6) [OF _ assms(2-4), of G "total_refs Rp (qs_refs c)" sent dv "G @ [(i, v)]"]
    memos_ok_append [of dv e G "[(i, v)]"]
  by (auto simp: writing_def q_inv_def same_conn_def)

lemma wrote_after_insert:
  assumes "writing dv e G Rp sent c" and "q_insert e i n v = Some (e1, a)" and "i < 99" and "fst (q_static_table ! i) = n"
    and "wrote_to dv e1 (G @ [(i, v)]) Rp sent c out f k e' out' []"
  shows "wrote_to dv e G Rp sent c out f k e' out' [(i, v)]"
  using assms(5) writing_insert(2) [OF assms(1-4)] same_conn_trans [of e e1 e'] by (auto simp: wrote_to_def same_conn_def)

lemma q_memo_field_ok:
  assumes "writing dv e G Rp sent c" and "length (qs_refs c) < 4" and "i < 99" and "fst (q_static_table ! i) = n"
    and "memo_ok G i memo" and "q_memo_field e out i n v memo = (e', m, out')"
  shows "\<exists>gs. wrote_to dv e G Rp sent c out (n, v) 1 e' out' gs \<and> memo_ok (G @ gs) i m"
proof -
  have lit: "\<And>V b r. q_reads V b r (q_append_literal_name_ref [] i v) (n, v)" by (rule q_reads_name_ref [OF assms(3,4)])
  have out: "q_append_literal_name_ref out i v = out @ q_append_literal_name_ref [] i v" by (rule q_helpers_out)
  note plain = wrote_plain [OF _ lit, of dv _ _ Rp sent c out 1]
  consider (off) "qn_capacity e = 0"
    | (hit) "qn_capacity e \<noteq> 0" "qm_valid memo" "q_held e (qm_abs memo)" "qm_value memo = v" "q_usable e (qm_abs memo)"
    | (unusable) "qn_capacity e \<noteq> 0" "qm_valid memo" "q_held e (qm_abs memo)" "qm_value memo = v" "\<not> q_usable e (qm_abs memo)"
    | (full) "qn_capacity e \<noteq> 0" "\<not> (qm_valid memo \<and> q_held e (qm_abs memo) \<and> qm_value memo = v)" "q_insert e i n v = None"
    | (new) e1 a where "qn_capacity e \<noteq> 0" "\<not> (qm_valid memo \<and> q_held e (qm_abs memo) \<and> qm_value memo = v)" "q_insert e i n v = Some (e1, a)"
    by (metis option.exhaust surj_pair)
  then show ?thesis
  proof cases
    case off
    then have "e' = e" "m = memo" "out' = out @ q_append_literal_name_ref [] i v" using assms(6) out by (simp_all add: q_memo_field_def)
    then show ?thesis using plain [OF assms(1)] assms(5) by (intro exI [of _ "[]"]) simp
  next
    case unusable
    then have "e' = e" "m = memo" "out' = out @ q_append_literal_name_ref [] i v" using assms(6) out by (simp_all add: q_memo_field_def)
    then show ?thesis using plain [OF assms(1)] assms(5) by (intro exI [of _ "[]"]) simp
  next
    case full
    then have "e' = e" "m = memo\<lparr>qm_valid := False\<rparr>" "out' = out @ q_append_literal_name_ref [] i v"
      using assms(6) out by (auto simp: q_memo_field_def)
    then show ?thesis using plain [OF assms(1)] by (intro exI [of _ "[]"]) (simp add: memo_ok_def)
  next
    case hit
    then have r: "q_reference e out (qm_abs memo) = (e', out')" "m = memo"
      using assms(6) by (auto simp: q_memo_field_def split: prod.splits)
    have "qm_abs memo < length G" "G ! qm_abs memo = (i, v)" using assms(5) hit by (simp_all add: memo_ok_def)
    moreover have "(n, v) = ins_field (i, v)" using assms(4) by (simp add: ins_field_def)
    ultimately show ?thesis using wrote_reference(1) [OF assms(1) hit(5) assms(2) _ _ r(1)] assms(5) r(2)
      by (intro exI [of _ "[]"]) simp
  next
    case new
    note wi = writing_insert [OF assms(1) new(3) assms(3,4)]
    have nv: "(n, v) = ins_field ((G @ [(i, v)]) ! a)" "a < length (G @ [(i, v)])" using assms(4) wi(3) by (simp_all add: ins_field_def)
    have m: "m = \<lparr>qm_abs = a, qm_valid = True, qm_value = v\<rparr>"
      using assms(6) new by (auto simp: q_memo_field_def Let_def split: if_splits prod.splits)
    have "wrote_to dv e1 (G @ [(i, v)]) Rp sent c out (n, v) 1 e' out' []"
    proof (cases "q_usable e1 a")
      case True
      then have "q_reference e1 out a = (e', out')" using assms(6) new by (auto simp: q_memo_field_def Let_def split: prod.splits if_splits)
      from wrote_reference(1) [OF wi(1) True assms(2) nv this] show ?thesis .
    next
      case False
      then have "e' = e1" "out' = out @ q_append_literal_name_ref [] i v" using assms(6) new out by (auto simp: q_memo_field_def Let_def split: if_splits)
      then show ?thesis using plain [OF wi(1)] by simp
    qed
    from wrote_after_insert [OF assms(1) new(3) assms(3,4) this] show ?thesis
      using wi(3) m by (intro exI [of _ "[(i, v)]"]) (simp add: memo_ok_def)
  qed
qed

text \<open>The calls that append a field to a section, the fields they stand for, and how many references each may take.\<close>

datatype q_op =
  Qop_status int | Qop_server bytes | Qop_date int | Qop_hsts bytes | Qop_alt_svc bytes | Qop_content_type bytes
  | Qop_indexed nat | Qop_field bytes bytes

fun run_q_op :: "(int \<Rightarrow> bytes) \<Rightarrow> q_op \<Rightarrow> QEncoder \<Rightarrow> bytes \<Rightarrow> QEncoder \<times> bytes" where
  "run_q_op dv (Qop_status st) e out = (e, q_append_status out st)"
| "run_q_op dv (Qop_server v) e out = q_server e out v"
| "run_q_op dv (Qop_date s) e out = q_date e out s (dv s)"
| "run_q_op dv (Qop_hsts v) e out = q_hsts e out v"
| "run_q_op dv (Qop_alt_svc v) e out = q_alt_svc e out v"
| "run_q_op dv (Qop_content_type v) e out = q_content_type e out v"
| "run_q_op dv (Qop_indexed i) e out = (e, q_append_indexed out i)"
| "run_q_op dv (Qop_field n v) e out = (e, q_append_field out n v)"

definition n_status :: bytes where "n_status = bytes_of '':status''"

definition status_text :: "int \<Rightarrow> bytes" where
  "status_text st =
     (let st = (if st < 100 \<or> st > 999 then 500 else st)
      in [of_int (48 + st div 100), of_int (48 + st div 10 mod 10), of_int (48 + st mod 10)])"

fun q_op_field :: "(int \<Rightarrow> bytes) \<Rightarrow> q_op \<Rightarrow> field" where
  "q_op_field dv (Qop_status st) = (n_status, status_text st)"
| "q_op_field dv (Qop_server v) = (n_server, v)"
| "q_op_field dv (Qop_date s) = (n_date, dv s)"
| "q_op_field dv (Qop_hsts v) = (n_hsts, v)"
| "q_op_field dv (Qop_alt_svc v) = (n_alt_svc, v)"
| "q_op_field dv (Qop_content_type v) = (n_content_type, v)"
| "q_op_field dv (Qop_indexed i) = q_static_table ! i"
| "q_op_field dv (Qop_field n v) = (n, v)"

fun q_op_refs :: "q_op \<Rightarrow> nat" where
  "q_op_refs (Qop_server v) = 1"
| "q_op_refs (Qop_date s) = 1"
| "q_op_refs (Qop_hsts v) = 1"
| "q_op_refs (Qop_alt_svc v) = 1"
| "q_op_refs (Qop_content_type v) = 1"
| "q_op_refs _ = 0"

fun q_op_ok :: "q_op \<Rightarrow> bool" where
  "q_op_ok (Qop_indexed i) = (i < 99)"
| "q_op_ok _ = True"

lemma static_rows:
  "fst (q_static_table ! 92) = n_server" "fst (q_static_table ! 83) = n_alt_svc" "fst (q_static_table ! 56) = n_hsts"
  "fst (q_static_table ! 44) = n_content_type" "fst (q_static_table ! 6) = n_date" "fst (q_static_table ! 24) = n_status"
  "q_static_table ! 56 = (n_hsts, bytes_of ''max-age=31536000'')"
  by (simp_all add: q_static_nth q_static_rows_def n_server_def n_alt_svc_def n_hsts_def n_content_type_def n_date_def n_status_def)

lemma status_rows:
  "q_static_table ! 24 = (n_status, status_text 103)" "q_static_table ! 25 = (n_status, status_text 200)"
  "q_static_table ! 26 = (n_status, status_text 304)" "q_static_table ! 27 = (n_status, status_text 404)"
  "q_static_table ! 28 = (n_status, status_text 503)" "q_static_table ! 63 = (n_status, status_text 100)"
  "q_static_table ! 64 = (n_status, status_text 204)" "q_static_table ! 65 = (n_status, status_text 206)"
  "q_static_table ! 66 = (n_status, status_text 302)" "q_static_table ! 67 = (n_status, status_text 400)"
  "q_static_table ! 68 = (n_status, status_text 403)" "q_static_table ! 69 = (n_status, status_text 421)"
  "q_static_table ! 70 = (n_status, status_text 425)" "q_static_table ! 71 = (n_status, status_text 500)"
  by (simp_all add: q_static_nth q_static_rows_def n_status_def status_text_def)

text \<open>A status without a row is a name reference and three digits, never Huffman coded.\<close>

lemma q_reads_raw_status:
  assumes "length v = 3"
  shows "q_reads V base required (append_integer [] 24 4 0x50 @ [3] @ v) (n_status, v)"
proof (rule q_readsI)
  show "append_integer [] 24 4 0x50 @ [3] @ v \<noteq> []" by simp
  fix d rest arena tot mx assume fit: "tot + field_size (n_status, v) \<le> mx" and mx: "mx < (2::nat) ^ 32"
  let ?b = "append_integer [] 24 4 0x50"
  have h: "hd (?b @ x) AND 0x80 = 0" "hd (?b @ x) AND 0x40 = 0x40" "hd (?b @ x) AND 0x10 = 0x10" for x
    using hd_append_integer [OF qpack_prefixes(3), of "0x80" 24] hd_append_integer [OF qpack_prefixes(3), of "0x40" 24]
      hd_append_integer [OF qpack_prefixes(3), of "0x10" 24] by (simp_all add: prefix_max_def)
  have r4: "read_integer 4 (?b @ [3] @ v @ rest) = Some (24, [3] @ v @ rest)"
    using read_append_nat [OF qpack_prefixes(3), of 24 "[3] @ v @ rest"] by simp
  have "append_integer [] 3 7 0 = [3]" by (simp add: append_integer_def prefix_max_def)
  then have r7: "read_integer 7 ([3] @ v @ rest) = Some (3, v @ rest)"
    using read_append_nat [OF qpack_prefixes(8), of 3 "v @ rest"] by simp
  have "length v \<le> budget tot mx (length n_status)" using fit by (intro budget_le) simp
  then have "prefixed_string ([3] @ v @ rest) 7 0x80 arena (budget tot mx (length n_status)) = (arena @ v, Inr (v, rest))"
    using r7 assms by (simp add: prefixed_string_def q_read_string_def)
  then have "q_literal_value n_status ([3] @ v @ rest) arena tot mx = (arena @ v, Inr (rest, n_status, v, no_origin))"
    by (simp add: q_literal_value_def)
  moreover have "length n_status \<le> budget tot mx 0" using fit by (intro budget_le) simp
  ultimately show "\<exists>arena' origin. q_line d base required (hd (?b @ [3] @ v)) ((?b @ [3] @ v) @ rest) arena tot mx
      = (arena', Inr (rest, fst (n_status, v), snd (n_status, v), origin))"
    using h r4 static_rows(6) by (simp add: q_line_def q_line_name_ref_def)
qed

lemma q_append_status_reads: "\<exists>bs. q_append_status out st = out @ bs \<and> (\<forall>V b r. q_reads V b r bs (n_status, status_text st))"
proof -
  have row: "\<exists>bs. q_append_indexed out i = out @ bs \<and> (\<forall>V b r. q_reads V b r bs (n_status, status_text st))"
    if "i < 99" "q_static_table ! i = (n_status, status_text st)" for i
    using q_reads_indexed [OF that(1)] q_helpers_out(1) [of out i] that(2) by metis
  have "\<exists>bs. append_integer out 24 4 0x50 @ [3] @ status_text st = out @ bs \<and> (\<forall>V b r. q_reads V b r bs (n_status, status_text st))"
    using append_integer_out [of out 24 4 "0x50"] q_reads_raw_status [of "status_text st"]
    by (intro exI [of _ "append_integer [] 24 4 0x50 @ [3] @ status_text st"]) (simp add: status_text_def Let_def)
  then show ?thesis
    using row [of 24] row [of 25] row [of 26] row [of 27] row [of 28] row [of 63] row [of 64] row [of 65] row [of 66] row [of 67]
      row [of 68] row [of 69] row [of 70] row [of 71] status_rows
    unfolding q_append_status_def Let_def status_text_def [of st, unfolded Let_def, symmetric] by auto
qed

text \<open>The encoder's memory of a field may be replaced by any that is right.\<close>

lemma writing_frame:
  assumes "writing dv e G Rp sent c" and "memos_ok dv e' G"
    and "qn_insert_count e' = qn_insert_count e" "qn_entries e' = qn_entries e" "qn_size e' = qn_size e"
    "qn_capacity e' = qn_capacity e" "qn_peer_capacity e' = qn_peer_capacity e" "qn_capacity_sent e' = qn_capacity_sent e"
    "qn_known e' = qn_known e" "qn_instructions e' = qn_instructions e" "qn_current e' = qn_current e" "qn_base e' = qn_base e"
    "qn_blocking e' = qn_blocking e" "qn_peer_blocked e' = qn_peer_blocked e"
  shows "writing dv e' G Rp sent c"
  using assms(1,2) core_ok_frame [OF _ assms(3-10), of G "total_refs Rp (qs_refs c)" sent] assms(11-14)
  by (simp add: writing_def q_inv_def)

lemma writing_memos: "writing dv e G Rp sent c \<Longrightarrow> memos_ok dv e G"
  by (simp add: writing_def q_inv_def)

lemma wrote_to_frame:
  assumes "wrote_to dv e G Rp sent c out f n e1 out' gs"
    and "\<And>c'. writing dv e1 (G @ gs) Rp sent c' \<Longrightarrow> writing dv e2 (G @ gs) Rp sent c'" and "same_conn e1 e2"
  shows "wrote_to dv e G Rp sent c out f n e2 out' gs"
  using assms same_conn_trans by (fastforce simp: wrote_to_def)

definition field_step ::
  "(int \<Rightarrow> bytes) \<Rightarrow> QEncoder \<Rightarrow> q_ins list \<Rightarrow> (nat \<Rightarrow> nat) \<Rightarrow> bytes \<Rightarrow> QSection \<Rightarrow> bytes \<Rightarrow> field \<Rightarrow> nat \<Rightarrow> QEncoder \<times> bytes \<Rightarrow> bool" where
  "field_step dv e G Rp sent c out f n r \<longleftrightarrow> (\<exists>gs. wrote_to dv e G Rp sent c out f n (fst r) (snd r) gs)"

lemma field_step_plain:
  "writing dv e G Rp sent c \<Longrightarrow> (\<And>V b r. q_reads V b r bs f) \<Longrightarrow> field_step dv e G Rp sent c out f n (e, out @ bs)"
  unfolding field_step_def fst_conv snd_conv by (rule exI) (rule wrote_plain)

lemma memo_step:
  assumes "writing dv e G Rp sent c" and "length (qs_refs c) < 4" and "i < 99" and "fst (q_static_table ! i) = n"
    and "memo_ok G i memo"
    and "\<And>e1 gs m. memo_ok (G @ gs) i m \<Longrightarrow> memos_ok dv e1 (G @ gs) \<Longrightarrow> memos_ok dv (upd m e1) (G @ gs)"
    and "\<And>e1 gs m c'. writing dv e1 (G @ gs) Rp sent c' \<Longrightarrow> memos_ok dv (upd m e1) (G @ gs) \<Longrightarrow> writing dv (upd m e1) (G @ gs) Rp sent c'"
    and "\<And>e1 m. same_conn e1 (upd m e1)"
  shows "field_step dv e G Rp sent c out (n, v) 1 (case q_memo_field e out i n v memo of (e, m, out) \<Rightarrow> (upd m e, out))"
proof -
  obtain e1 m out' where r: "q_memo_field e out i n v memo = (e1, m, out')" using prod_cases3 by blast
  from q_memo_field_ok [OF assms(1-5) r] obtain gs where gs: "wrote_to dv e G Rp sent c out (n, v) 1 e1 out' gs" "memo_ok (G @ gs) i m"
    by blast
  have "wrote_to dv e G Rp sent c out (n, v) 1 (upd m e1) out' gs"
    using assms(6) [OF gs(2)] assms(7,8) writing_memos by (intro wrote_to_frame [OF gs(1)]) blast+
  then show ?thesis by (auto simp: field_step_def r)
qed

lemma q_server_step:
  assumes "writing dv e G Rp sent c" and "length (qs_refs c) < 4"
  shows "field_step dv e G Rp sent c out (n_server, v) 1 (q_server e out v)"
  unfolding q_server_def
  by (rule memo_step [OF assms _ static_rows(1), where upd = "\<lambda>m e. e\<lparr>qn_server := m\<rparr>"])
    (use writing_memos [OF assms(1)] in \<open>auto simp: memos_ok_def same_conn_def elim: writing_frame\<close>)

lemma q_alt_svc_step:
  assumes "writing dv e G Rp sent c" and "length (qs_refs c) < 4"
  shows "field_step dv e G Rp sent c out (n_alt_svc, v) 1 (q_alt_svc e out v)"
  unfolding q_alt_svc_def
  by (rule memo_step [OF assms _ static_rows(2), where upd = "\<lambda>m e. e\<lparr>qn_alt_svc := m\<rparr>"])
    (use writing_memos [OF assms(1)] in \<open>auto simp: memos_ok_def same_conn_def elim: writing_frame\<close>)

lemma q_hsts_step:
  assumes "writing dv e G Rp sent c" and "length (qs_refs c) < 4"
  shows "field_step dv e G Rp sent c out (n_hsts, v) 1 (q_hsts e out v)"
proof (cases "v = bytes_of ''max-age=31536000''")
  case True
  have r: "\<And>V b r. q_reads V b r (q_append_indexed [] 56) (n_hsts, v)" using q_reads_indexed [of 56] True static_rows(7) by simp
  have "q_hsts e out v = (e, out @ q_append_indexed [] 56)" using q_helpers_out(1) [of out 56] True by (simp add: q_hsts_def)
  then show ?thesis using field_step_plain [OF assms(1) r] by simp
next
  case False
  then have "q_hsts e out v = (case q_memo_field e out 56 n_hsts v (qn_hsts e) of (e, m, out) \<Rightarrow> (e\<lparr>qn_hsts := m\<rparr>, out))"
    by (simp add: q_hsts_def)
  moreover have "field_step dv e G Rp sent c out (n_hsts, v) 1 (case q_memo_field e out 56 n_hsts v (qn_hsts e) of (e, m, out) \<Rightarrow> (e\<lparr>qn_hsts := m\<rparr>, out))"
    by (rule memo_step [OF assms _ static_rows(3), where upd = "\<lambda>m e. e\<lparr>qn_hsts := m\<rparr>"])
      (use writing_memos [OF assms(1)] in \<open>auto simp: memos_ok_def same_conn_def elim: writing_frame\<close>)
  ultimately show ?thesis by simp
qed

lemma q_content_type_step:
  assumes "writing dv e G Rp sent c" and "length (qs_refs c) < 4"
  shows "field_step dv e G Rp sent c out (n_content_type, v) 1 (q_content_type e out v)"
proof -
  define e0 where "e0 = (if \<not> qn_ct_seen_valid e \<or> v \<noteq> qn_ct_seen e
    then e\<lparr>qn_ct_seen := v, qn_ct_seen_valid := True, qn_ct_seen_index := static_pair n_content_type v\<rparr> else e)"
  have "memos_ok dv e0 G" using writing_memos [OF assms(1)] by (auto simp: memos_ok_def e0_def)
  with assms(1) have w: "writing dv e0 G Rp sent c" by (rule writing_frame) (simp_all add: e0_def)
  have seen: "qn_ct_seen_index e0 = static_pair n_content_type v"
    using writing_memos [OF assms(1)] by (auto simp: memos_ok_def e0_def)
  have sc: "same_conn e e0" by (simp add: same_conn_def e0_def)
  have ct: "q_content_type e out v = (case qn_ct_seen_index e0 of Some i \<Rightarrow> (e0, q_append_indexed out i)
      | None \<Rightarrow> (case q_memo_field e0 out 44 n_content_type v (qn_ct e0) of (e, m, out) \<Rightarrow> (e\<lparr>qn_ct := m\<rparr>, out)))"
    unfolding e0_def q_content_type_def Let_def by (rule refl)
  have "field_step dv e0 G Rp sent c out (n_content_type, v) 1 (q_content_type e out v)"
  proof (cases "static_pair n_content_type v")
    case (Some i)
    have r: "\<And>V b r. q_reads V b r (q_append_indexed [] i) (n_content_type, v)"
      using q_reads_indexed [of i] static_pair_Some [OF Some] by simp
    have "q_content_type e out v = (e0, out @ q_append_indexed [] i)"
      using q_helpers_out(1) [of out i] ct seen Some by simp
    then show ?thesis using field_step_plain [OF w r] by simp
  next
    case None
    then have "q_content_type e out v = (case q_memo_field e0 out 44 n_content_type v (qn_ct e0) of (e, m, out) \<Rightarrow> (e\<lparr>qn_ct := m\<rparr>, out))"
      using ct seen by simp
    moreover have "field_step dv e0 G Rp sent c out (n_content_type, v) 1
        (case q_memo_field e0 out 44 n_content_type v (qn_ct e0) of (e, m, out) \<Rightarrow> (e\<lparr>qn_ct := m\<rparr>, out))"
      by (rule memo_step [OF w assms(2) _ static_rows(4), where upd = "\<lambda>m e. e\<lparr>qn_ct := m\<rparr>"])
        (use writing_memos [OF w] in \<open>auto simp: memos_ok_def same_conn_def elim: writing_frame\<close>)
    ultimately show ?thesis by simp
  qed
  then show ?thesis using sc same_conn_trans by (fastforce simp: field_step_def wrote_to_def same_conn_def)
qed

text \<open>The date is a memo field whose memo is valid only within its second.\<close>

lemma q_insert_date_valid:
  "q_insert (e\<lparr>qn_date_valid := b\<rparr>) i n v = map_option (\<lambda>(e, a). (e\<lparr>qn_date_valid := b\<rparr>, a)) (q_insert e i n v)"
  by (auto simp: q_insert_def Let_def split: option.split)

lemma q_usable_date: "q_usable (e\<lparr>qn_date_abs := x, qn_date_second := y, qn_date_valid := z\<rparr>) a = q_usable e a"
  by (simp add: q_usable_def q_held_def)

lemma q_reference_date:
  assumes "q_reference e out a = (e', out')"
  shows "q_reference (e\<lparr>qn_date_abs := x, qn_date_second := y, qn_date_valid := z\<rparr>) out a
     = (e'\<lparr>qn_date_abs := x, qn_date_second := y, qn_date_valid := z\<rparr>, out')"
proof -
  let ?e = "e\<lparr>qn_date_abs := x, qn_date_second := y, qn_date_valid := z\<rparr>"
  have "q_ref_line ?e out a = q_ref_line e out a" "q_note_ref ?e c a = q_note_ref e c a" "q_held ?e a = q_held e a" for c
    by (simp_all add: q_ref_line_def q_note_ref_def q_held_def)
  then show ?thesis using assms by (auto simp: q_reference_def q_map_refs_def Let_def split: option.splits if_splits)
qed

lemma q_date_memo:
  assumes "q_memo_field e out 6 n_date v \<lparr>qm_abs = qn_date_abs e, qm_valid = (qn_date_valid e \<and> s = qn_date_second e), qm_value = v\<rparr> = (e1, m, out1)"
  shows "\<exists>A S B. q_date e out s v = (e1\<lparr>qn_date_abs := A, qn_date_second := S, qn_date_valid := B\<rparr>, out1)
    \<and> (A = qn_date_abs e1 \<and> S = qn_date_second e1 \<and> B = qn_date_valid e1
       \<or> (B \<longrightarrow> A = qm_abs m \<and> S = s \<and> qm_valid m \<and> qm_value m = v))"
proof -
  have same: "?thesis" if "q_date e out s v = (e1, out1)"
    using that by (intro exI [of _ "qn_date_abs e1"] exI [of _ "qn_date_second e1"] exI [of _ "qn_date_valid e1"]) simp
  consider (off) "qn_capacity e = 0"
    | (hit) "qn_capacity e \<noteq> 0" "qn_date_valid e \<and> s = qn_date_second e \<and> q_held e (qn_date_abs e)"
    | (full) "qn_capacity e \<noteq> 0" "\<not> (qn_date_valid e \<and> s = qn_date_second e \<and> q_held e (qn_date_abs e))" "q_insert e 6 n_date v = None"
    | (new) e2 a where "qn_capacity e \<noteq> 0" "\<not> (qn_date_valid e \<and> s = qn_date_second e \<and> q_held e (qn_date_abs e))" "q_insert e 6 n_date v = Some (e2, a)"
    by (metis option.exhaust surj_pair)
  then show ?thesis
  proof cases
    case off
    then show ?thesis using assms by (intro same) (simp add: q_date_def q_memo_field_def)
  next
    case hit
    then show ?thesis using assms by (intro same) (auto simp: q_date_def q_memo_field_def split: prod.splits if_splits)
  next
    case full
    then have "q_date e out s v = (e1\<lparr>qn_date_valid := False\<rparr>, out1)"
      using assms by (auto simp: q_date_def q_memo_field_def q_insert_date_valid)
    then show ?thesis by (intro exI [of _ "qn_date_abs e1"] exI [of _ "qn_date_second e1"] exI [of _ False]) simp
  next
    case new
    let ?E = "e2\<lparr>qn_date_abs := a, qn_date_second := s, qn_date_valid := True\<rparr>"
    have ins: "q_insert (e\<lparr>qn_date_valid := False\<rparr>) 6 n_date v = Some (e2\<lparr>qn_date_valid := False\<rparr>, a)"
      by (simp add: q_insert_date_valid new(3))
    have qd: "q_date e out s v = (if q_usable ?E a then q_reference ?E out a else (?E, q_append_literal_name_ref out 6 v))"
      by (simp only: q_date_def new(1,2) ins simp_thms if_True if_False option.case prod.case Let_def) simp
    have "if q_usable e2 a then q_reference e2 out a = (e1, out1) else e1 = e2 \<and> out1 = q_append_literal_name_ref out 6 v"
      using assms new by (auto simp: q_memo_field_def Let_def split: prod.splits if_splits)
    then have "q_date e out s v = (e1\<lparr>qn_date_abs := a, qn_date_second := s, qn_date_valid := True\<rparr>, out1)"
      unfolding qd q_usable_date using q_reference_date by (auto split: if_splits)
    moreover have "m = \<lparr>qm_abs = a, qm_valid = True, qm_value = v\<rparr>"
      using assms new by (auto simp: q_memo_field_def Let_def split: if_splits prod.splits)
    ultimately show ?thesis by (intro exI [of _ a] exI [of _ s] exI [of _ True]) simp
  qed
qed

lemma q_date_step:
  assumes "writing dv e G Rp sent c" and "length (qs_refs c) < 4"
  shows "field_step dv e G Rp sent c out (n_date, dv s) 1 (q_date e out s (dv s))"
proof -
  let ?memo = "\<lparr>qm_abs = qn_date_abs e, qm_valid = (qn_date_valid e \<and> s = qn_date_second e), qm_value = dv s\<rparr>"
  obtain e1 m out1 where r: "q_memo_field e out 6 n_date (dv s) ?memo = (e1, m, out1)" using prod_cases3 by blast
  have "memo_ok G 6 ?memo" using writing_memos [OF assms(1)] by (auto simp: memos_ok_def memo_ok_def)
  from q_memo_field_ok [OF assms _ static_rows(5) this r] obtain gs where
    gs: "wrote_to dv e G Rp sent c out (n_date, dv s) 1 e1 out1 gs" "memo_ok (G @ gs) 6 m" by auto
  obtain A S B where d: "q_date e out s (dv s) = (e1\<lparr>qn_date_abs := A, qn_date_second := S, qn_date_valid := B\<rparr>, out1)"
    and ok: "A = qn_date_abs e1 \<and> S = qn_date_second e1 \<and> B = qn_date_valid e1
       \<or> (B \<longrightarrow> A = qm_abs m \<and> S = s \<and> qm_valid m \<and> qm_value m = dv s)"
    using q_date_memo [OF r] by blast
  let ?e = "e1\<lparr>qn_date_abs := A, qn_date_second := S, qn_date_valid := B\<rparr>"
  have mem: "memos_ok dv ?e (G @ gs)" if "memos_ok dv e1 (G @ gs)" using that ok gs(2) unfolding memos_ok_def memo_ok_def by auto
  have "writing dv ?e (G @ gs) Rp sent c'" if w: "writing dv e1 (G @ gs) Rp sent c'" for c'
    by (rule writing_frame [OF w mem [OF writing_memos [OF w]]]) simp_all
  from wrote_to_frame [OF gs(1) this] show ?thesis by (auto simp: field_step_def d same_conn_def)
qed

lemma q_op_step:
  assumes "writing dv e G Rp sent c" and "length (qs_refs c) + q_op_refs x \<le> 4" and "q_op_ok x"
  shows "field_step dv e G Rp sent c out (q_op_field dv x) (q_op_refs x) (run_q_op dv x e out)"
proof (cases x)
  case (Qop_status st)
  then show ?thesis using q_append_status_reads [of out st] field_step_plain [OF assms(1)] by fastforce
next
  case (Qop_indexed i)
  have r: "\<And>V b r. q_reads V b r (q_append_indexed [] i) (q_static_table ! i)"
    using assms(3) Qop_indexed q_reads_indexed [of i] by simp
  show ?thesis using field_step_plain [OF assms(1) r, of out] q_helpers_out(1) [of out i] by (simp add: Qop_indexed)
next
  case (Qop_field n v)
  show ?thesis using field_step_plain [OF assms(1) q_reads_field, of out n v] q_append_field_out [of out n v] by (simp add: Qop_field)
qed (use assms(2) in \<open>simp_all add: q_server_step [OF assms(1), simplified] q_alt_svc_step [OF assms(1), simplified]
    q_hsts_step [OF assms(1), simplified] q_content_type_step [OF assms(1), simplified] q_date_step [OF assms(1), simplified]\<close>)


subsection \<open>Sections\<close>

fun run_q_ops :: "(int \<Rightarrow> bytes) \<Rightarrow> q_op list \<Rightarrow> QEncoder \<Rightarrow> bytes \<Rightarrow> QEncoder \<times> bytes" where
  "run_q_ops dv [] e out = (e, out)"
| "run_q_ops dv (x # xs) e out = (case run_q_op dv x e out of (e, out) \<Rightarrow> run_q_ops dv xs e out)"

text \<open>A section from \<open>begin\<close> to \<open>end\<close>: the encoder, the section's record and its bytes.\<close>

definition encode_section :: "(int \<Rightarrow> bytes) \<Rightarrow> q_op list \<Rightarrow> QEncoder \<Rightarrow> QEncoder \<times> QSection \<times> bytes" where
  "encode_section dv ops e =
     (case run_q_ops dv ops (q_begin e) [] of
        (e, lines) \<Rightarrow> let px = q_prefix e [] in case q_end e of (e, s) \<Rightarrow> (e, s, px @ lines))"

lemma run_q_ops_ok:
  assumes "writing dv e G Rp sent c" and "length (qs_refs c) + sum_list (map q_op_refs ops) \<le> 4" and "list_all q_op_ok ops"
  shows "\<exists>gs c' bss. snd (run_q_ops dv ops e out) = out @ concat bss \<and> writing dv (fst (run_q_ops dv ops e out)) (G @ gs) Rp sent c'
    \<and> list_all2 (q_wrote (G @ gs) (set (qs_refs c')) (qn_base e)) bss (map (q_op_field dv) ops)
    \<and> set (qs_refs c) \<subseteq> set (qs_refs c') \<and> same_conn e (fst (run_q_ops dv ops e out))"
  using assms
proof (induction ops arbitrary: e G c out)
  case Nil
  then show ?case by (intro exI [of _ "[]"] exI [of _ c]) simp
next
  case (Cons x ops)
  obtain e1 out1 where r: "run_q_op dv x e out = (e1, out1)" by force
  have "field_step dv e G Rp sent c out (q_op_field dv x) (q_op_refs x) (e1, out1)"
    using q_op_step [OF Cons.prems(1), of x out] Cons.prems(2,3) r by simp
  then obtain gs1 c1 bs where st: "out1 = out @ bs" "writing dv e1 (G @ gs1) Rp sent c1"
    "q_wrote (G @ gs1) (set (qs_refs c1)) (qn_base e) bs (q_op_field dv x)" "set (qs_refs c) \<subseteq> set (qs_refs c1)"
    "length (qs_refs c1) \<le> length (qs_refs c) + q_op_refs x" "same_conn e e1"
    by (auto simp: field_step_def wrote_to_def)
  have len: "length (qs_refs c1) + sum_list (map q_op_refs ops) \<le> 4" using st(5) Cons.prems(2) by simp
  obtain gs c' bss where ih: "snd (run_q_ops dv ops e1 out1) = out1 @ concat bss"
    "writing dv (fst (run_q_ops dv ops e1 out1)) ((G @ gs1) @ gs) Rp sent c'"
    "list_all2 (q_wrote ((G @ gs1) @ gs) (set (qs_refs c')) (qn_base e1)) bss (map (q_op_field dv) ops)"
    "set (qs_refs c1) \<subseteq> set (qs_refs c')" "same_conn e1 (fst (run_q_ops dv ops e1 out1))"
    using Cons.IH [OF st(2) len, of out1] Cons.prems(3) by auto
  have "qn_base e1 = qn_base e" using st(6) by (simp add: same_conn_def)
  moreover have "q_wrote ((G @ gs1) @ gs) (set (qs_refs c')) (qn_base e) bs (q_op_field dv x)" using st(3) ih(4) by (rule q_wrote_mono)
  ultimately show ?case using ih st same_conn_trans [OF st(6) ih(5)]
    by (intro exI [of _ "gs1 @ gs"] exI [of _ c'] exI [of _ "bs # bss"]) (auto simp: r)
qed

definition prefix_bytes :: "nat \<Rightarrow> nat \<Rightarrow> nat \<Rightarrow> bytes" where
  "prefix_bytes pc ric base =
     (if ric = 0 then [0, 0]
      else if base \<ge> ric then append_integer (append_integer [] (of_nat (ric mod (2 * (pc div 32)) + 1)) 8 0) (of_nat (base - ric)) 7 0
      else append_integer (append_integer [] (of_nat (ric mod (2 * (pc div 32)) + 1)) 8 0) (of_nat (ric - base - 1)) 7 0x80)"

text \<open>The bytes of a section: a prefix with its count and base, and lines that stand for its fields.\<close>

definition answer_ok :: "nat \<Rightarrow> q_ins list \<Rightarrow> nat \<Rightarrow> nat set \<Rightarrow> bytes \<Rightarrow> field list \<Rightarrow> bool" where
  "answer_ok pc G ric refs blk fs \<longleftrightarrow>
     (\<exists>base bss. base \<le> length G \<and> list_all2 (q_wrote G refs base) bss fs \<and> blk = prefix_bytes pc ric base @ concat bss)"

lemma answer_ok_append: "answer_ok pc G ric refs blk fs \<Longrightarrow> answer_ok pc (G @ gs) ric refs blk fs"
  unfolding answer_ok_def
proof (elim exE conjE)
  fix base bss assume a: "base \<le> length G" "list_all2 (q_wrote G refs base) bss fs" "blk = prefix_bytes pc ric base @ concat bss"
  have "list_all2 (q_wrote (G @ gs) refs base) bss fs" using a(2) by (rule list_all2_mono) (rule q_wrote_mono, auto)
  then show "\<exists>base bss. base \<le> length (G @ gs) \<and> list_all2 (q_wrote (G @ gs) refs base) bss fs \<and> blk = prefix_bytes pc ric base @ concat bss"
    using a by (intro exI [of _ base] exI [of _ bss]) simp
qed

lemma total_refs_Nil [simp]: "total_refs Rp [] = Rp"
  by (simp add: total_refs_def fun_eq_iff)

lemma not_pending_id: "\<not> qs_pending c \<Longrightarrow> c\<lparr>qs_pending := False\<rparr> = c"
  by (cases c) simp

lemma encode_section_ok:
  assumes "q_inv dv e G Rp sent" and "sum_list (map q_op_refs ops) \<le> 4" and "list_all q_op_ok ops"
    and "encode_section dv ops e = (e', s, blk)"
  shows "\<exists>gs. q_inv dv e' (G @ gs) (total_refs Rp (qs_refs s)) sent
    \<and> answer_ok (qn_peer_capacity e) (G @ gs) (qs_ric s) (set (qs_refs s)) blk (map (q_op_field dv) ops)
    \<and> qs_ric s \<le> length (G @ gs)"
    and "sec_ok s" and "qs_pending s \<longleftrightarrow> qs_ric s \<noteq> 0" and "qn_current e' = None"
    and "qn_blocking e' = qn_blocking e + of_bool (qs_blocking s)" and "qs_blocking s \<Longrightarrow> qn_blocking e < qn_peer_blocked e"
    and "qn_peer_capacity e' = qn_peer_capacity e" and "qn_peer_blocked e' = qn_peer_blocked e"
proof -
  let ?e = "q_begin e" and ?c = q_section_new
  have core: "core_ok e G Rp sent" and memos: "memos_ok dv e G" using assms(1) by (simp_all add: q_inv_def)
  have "core_ok ?e G Rp sent" using core by (rule core_ok_frame) (simp_all add: q_begin_def)
  moreover have "memos_ok dv ?e G" using memos by (simp add: memos_ok_def q_begin_def)
  ultimately have w: "writing dv ?e G Rp sent ?c"
    using core_okD(1) [OF core] by (simp add: writing_def q_inv_def q_section_new_def sec_ok_def) (simp add: q_begin_def q_section_new_def)
  have len: "length (qs_refs ?c) + sum_list (map q_op_refs ops) \<le> 4" using assms(2) by (simp add: q_section_new_def)
  obtain e1 lines where r: "run_q_ops dv ops ?e [] = (e1, lines)" by force
  obtain gs c bss where o: "lines = concat bss" "writing dv e1 (G @ gs) Rp sent c"
    "list_all2 (q_wrote (G @ gs) (set (qs_refs c)) (qn_base ?e)) bss (map (q_op_field dv) ops)" "same_conn ?e e1"
    using run_q_ops_ok [OF w len assms(3), of "[]"] r by auto
  have c: "qn_current e1 = Some c" "sec_ok c" "\<not> qs_pending c" "qs_blocking c \<longrightarrow> qn_blocking e1 < qn_peer_blocked e1"
    and q1: "q_inv dv e1 (G @ gs) (total_refs Rp (qs_refs c)) sent" using o(2) by (simp_all add: writing_def)
  have sc: "qn_peer_capacity e1 = qn_peer_capacity e" "qn_peer_blocked e1 = qn_peer_blocked e" "qn_blocking e1 = qn_blocking e"
    "qn_base e1 = length G" using o(4) core_okD(1) [OF core] by (simp_all add: same_conn_def q_begin_def)
  have qe: "q_end e1 = (e1\<lparr>qn_current := None, qn_blocking := qn_blocking e + of_bool (qs_blocking c)\<rparr>, c\<lparr>qs_pending := (qs_ric c \<noteq> 0)\<rparr>)"
  proof (cases "qs_ric c = 0")
    case True
    then have "\<not> qs_blocking c" using c(2) by (simp add: sec_ok_def)
    then have "e1\<lparr>qn_current := None, qn_blocking := qn_blocking e + of_bool (qs_blocking c)\<rparr> = e1\<lparr>qn_current := None\<rparr>"
      using sc(3) by (intro QEncoder.equality) simp_all
    then show ?thesis using True c(1,3) by (simp add: q_end_def not_pending_id)
  qed (use c(1) sc(3) in \<open>simp add: q_end_def\<close>)
  have en: "e' = e1\<lparr>qn_current := None, qn_blocking := qn_blocking e + of_bool (qs_blocking c)\<rparr>" "s = c\<lparr>qs_pending := (qs_ric c \<noteq> 0)\<rparr>"
    "blk = q_prefix e1 [] @ lines"
    using assms(4) by (simp_all add: encode_section_def r qe Let_def)
  have pre: "q_prefix e1 [] = prefix_bytes (qn_peer_capacity e) (qs_ric c) (length G)"
    unfolding q_prefix_def prefix_bytes_def Let_def c(1) option.case sc append_Nil by (rule refl)
  show "sec_ok s" "qs_pending s \<longleftrightarrow> qs_ric s \<noteq> 0" "qn_current e' = None" "qn_blocking e' = qn_blocking e + of_bool (qs_blocking s)"
    "qn_peer_capacity e' = qn_peer_capacity e" "qn_peer_blocked e' = qn_peer_blocked e"
    using c(2) sc by (simp_all add: en sec_ok_def)
  show "qs_blocking s \<Longrightarrow> qn_blocking e < qn_peer_blocked e" using c(4) sc by (simp add: en)
  have core1: "core_ok e1 (G @ gs) (total_refs Rp (qs_refs c)) sent" using q1 by (simp add: q_inv_def)
  have rs: "qs_refs s = qs_refs c" by (simp add: en)
  have "core_ok e' (G @ gs) (total_refs Rp (qs_refs s)) sent" unfolding rs using core1 by (rule core_ok_frame) (simp_all add: en)
  moreover have "memos_ok dv e' (G @ gs)" using q1 by (simp add: q_inv_def memos_ok_def en)
  moreover have "answer_ok (qn_peer_capacity e) (G @ gs) (qs_ric s) (set (qs_refs s)) blk (map (q_op_field dv) ops)"
    unfolding answer_ok_def using o(1,3) pre core_okD(1) [OF core]
    by (intro exI [of _ "length G"] exI [of _ bss]) (simp add: en q_begin_def)
  moreover have "qs_ric c \<le> length (G @ gs)"
  proof (cases "qs_ric c = 0")
    case False
    then have "qs_ric c - 1 \<in> set (qs_refs c)" using c(2) by (simp add: sec_ok_def)
    then have "total_refs Rp (qs_refs c) (qs_ric c - 1) \<noteq> 0" by (simp add: total_refs_def)
    from held_fits(2) [OF core1 referenced_held [OF core1 this]] show ?thesis by simp
  qed simp
  ultimately show "\<exists>gs. q_inv dv e' (G @ gs) (total_refs Rp (qs_refs s)) sent
      \<and> answer_ok (qn_peer_capacity e) (G @ gs) (qs_ric s) (set (qs_refs s)) blk (map (q_op_field dv) ops) \<and> qs_ric s \<le> length (G @ gs)"
    by (intro exI [of _ gs]) (simp add: q_inv_def en)
qed


subsection \<open>Acknowledgements and cancellations\<close>

lemma q_release_refs_frame: "\<exists>es. q_release_refs e refs = e\<lparr>qn_entries := es\<rparr>"
proof (induction refs arbitrary: e)
  case Nil
  then show ?case by (intro exI [of _ "qn_entries e"]) simp
next
  case (Cons a refs)
  obtain es where es: "(if q_held e a then q_map_refs e a (\<lambda>n. n - 1) else e) = e\<lparr>qn_entries := es\<rparr>"
    by (cases "q_held e a") (auto simp: q_map_refs_def Let_def intro: that [of "qn_entries e"])
  show ?case using Cons.IH [of "e\<lparr>qn_entries := es\<rparr>"] by (auto simp: es)
qed

lemma q_release_refs_ok:
  assumes "core_ok e G R sent" and "distinct refs" and "\<forall>a\<in>set refs. R a \<noteq> 0"
  shows "core_ok (q_release_refs e refs) G (\<lambda>a. R a - (if a \<in> set refs then 1 else 0)) sent"
  using assms
proof (induction refs arbitrary: e R)
  case (Cons a refs)
  have h: "q_held e a" using referenced_held [OF Cons.prems(1), of a] Cons.prems(3) by simp
  have "core_ok (q_release_refs (q_map_refs e a (\<lambda>n. n - 1)) refs) G
      (\<lambda>x. (R(a := R a - 1)) x - (if x \<in> set refs then 1 else 0)) sent"
    using Cons.prems by (intro Cons.IH q_map_refs_ok [OF Cons.prems(1) h]) auto
  moreover have "(\<lambda>x. (R(a := R a - 1)) x - (if x \<in> set refs then 1 else 0)) = (\<lambda>x. R x - (if x \<in> set (a # refs) then 1 else 0))"
    using Cons.prems(2) by (auto simp: fun_eq_iff)
  ultimately show ?case using h by simp
qed simp

lemma q_release_ok:
  assumes "q_inv dv e G (total_refs Rp (qs_refs s)) sent" and "qs_pending s" and "distinct (qs_refs s)" and "qs_blocking s \<Longrightarrow> qn_blocking e \<noteq> 0"
    and "q_release e s = (e', s')"
  shows "q_inv dv e' G Rp sent" and "s' = s\<lparr>qs_pending := False, qs_blocking := False, qs_refs := []\<rparr>"
    and "qn_blocking e = qn_blocking e' + of_bool (qs_blocking s)" and "qn_peer_capacity e' = qn_peer_capacity e"
    and "qn_peer_blocked e' = qn_peer_blocked e" and "qn_current e' = qn_current e"
proof -
  obtain es where es: "q_release_refs e (qs_refs s) = e\<lparr>qn_entries := es\<rparr>" using q_release_refs_frame by blast
  have e': "e' = e\<lparr>qn_entries := es, qn_blocking := qn_blocking e - of_bool (qs_blocking s)\<rparr>"
    "s' = s\<lparr>qs_pending := False, qs_blocking := False, qs_refs := []\<rparr>"
    using assms(2,4,5) by (auto simp: q_release_def es Let_def split: if_splits)
  then show "s' = s\<lparr>qs_pending := False, qs_blocking := False, qs_refs := []\<rparr>" by simp
  show "qn_blocking e = qn_blocking e' + of_bool (qs_blocking s)" using assms(4) by (auto simp: e')
  show "qn_peer_capacity e' = qn_peer_capacity e" "qn_peer_blocked e' = qn_peer_blocked e" "qn_current e' = qn_current e" by (simp_all add: e')
  have core: "core_ok e G (total_refs Rp (qs_refs s)) sent" and memos: "memos_ok dv e G" using assms(1) by (simp_all add: q_inv_def)
  have "core_ok (q_release_refs e (qs_refs s)) G (\<lambda>a. total_refs Rp (qs_refs s) a - (if a \<in> set (qs_refs s) then 1 else 0)) sent"
    using assms(3) by (intro q_release_refs_ok [OF core]) (auto simp: total_refs_def)
  moreover have "(\<lambda>a. total_refs Rp (qs_refs s) a - (if a \<in> set (qs_refs s) then 1 else 0)) = Rp" by (auto simp: total_refs_def)
  ultimately have "core_ok (e\<lparr>qn_entries := es\<rparr>) G Rp sent" by (simp add: es)
  then have "core_ok e' G Rp sent" by (rule core_ok_frame) (simp_all add: e')
  moreover have "memos_ok dv e' G" using memos by (simp add: memos_ok_def e')
  ultimately show "q_inv dv e' G Rp sent" by (simp add: q_inv_def)
qed


subsection \<open>What the peer reads\<close>

lemma ref_bytes_reads:
  assumes "V a = Some f" and "a < ric" and "a < n" and "base \<le> n" and "n < 2 ^ 32"
  shows "q_reads V base ric (ref_bytes base a) f"
  using assms q_reads_relative [of V a f base ric] q_reads_post_base [of V a f base ric] by (simp add: ref_bytes_def)

lemma answer_lines_read:
  assumes "list_all2 (q_wrote G refs base) bss fs" and "\<forall>a\<in>refs. a < ric" and "base \<le> length G" and "length G < 2 ^ 32"
  shows "list_all2 (q_reads (\<lambda>a. if a \<in> refs then Some (ins_field (G ! a)) else None) base ric) bss fs"
  using assms(1)
proof (rule list_all2_mono)
  fix bs f assume "q_wrote G refs base bs f"
  then consider "\<And>V b r. q_reads V b r bs f" | a where "a \<in> refs" "a < length G" "f = ins_field (G ! a)" "bs = ref_bytes base a"
    by (auto simp: q_wrote_def)
  then show "q_reads (\<lambda>a. if a \<in> refs then Some (ins_field (G ! a)) else None) base ric bs f"
  proof cases
    case 2
    then show ?thesis using assms(2-4) by (auto intro: ref_bytes_reads [where n = "length G"])
  qed
qed

lemma answer_static_reads:
  assumes "answer_ok pc G 0 {} blk fs" and "dt_ok (qd_table d)" and "table_size fs \<le> mx" and "mx < 2 ^ 32"
  shows "\<exists>d' arena'. q_decode collect d blk [] mx [] = (qr_ok, 0, d', arena', fs)"
proof -
  obtain base bss where b: "list_all2 (q_wrote G {} base) bss fs" "blk = [0, 0] @ concat bss"
    using assms(1) by (auto simp: answer_ok_def prefix_bytes_def)
  have "list_all2 (q_reads Map.empty 0 0) bss fs" using b(1) by (rule list_all2_mono) (simp add: q_wrote_def)
  moreover have "holds_fields d Map.empty" using assms(2) by (simp add: holds_fields_def)
  ultimately have "\<exists>d' arena'. q_decode_lines collect d 0 0 [] mx 0 [] (concat bss) = (qr_ok, d', arena', [] @ fs)"
    using q_decode_lines_reads [of Map.empty 0 0 bss fs d 0 mx "[]" "[]"] assms(3,4) by auto
  then show ?thesis using q_decode_prefix_zero [of d "concat bss"] by (auto simp: q_decode_def b(2))
qed

text \<open>The pinned entry of the highest index leaves no room for more inserts than the peer's table can wrap.\<close>

lemma pinned_window:
  assumes "0 < ric" and "ric \<le> length G" and "table_size (map ins_field (drop (ric - 1) G)) \<le> pc"
  shows "0 < pc div 32" and "length G < ric + pc div 32"
proof -
  have "32 * (length G - (ric - 1)) \<le> pc" using table_size_ge [of "map ins_field (drop (ric - 1) G)"] assms(3) by simp
  then have "length G - (ric - 1) \<le> pc div 32" by (simp add: less_eq_div_iff_mult_less_eq mult.commute)
  then show "0 < pc div 32" "length G < ric + pc div 32" using assms(1,2) by linarith+
qed

lemma answer_prefix_reads:
  assumes "blk = prefix_bytes pc ric base @ concat bss" and "0 < ric" and "ric \<le> length G" and "base \<le> length G"
    and "table_size (map ins_field (drop (ric - 1) G)) \<le> pc" and "length G < 2 ^ 32 - 1" and "qd_max_capacity d = pc"
    and "qd_insert_count d \<le> length G" and "ric \<le> qd_insert_count d + pc div 32"
  shows "q_decode_prefix d blk = Some (ric, base, concat bss)"
proof -
  note w = pinned_window [OF assms(2,3,5)]
  have "qd_insert_count d < ric + pc div 32" using assms(8) w(2) by simp
  moreover have "ric < 2 ^ 32 - 1" "base < 2 ^ 32" using assms(3,4,6) by linarith+
  ultimately show ?thesis
    using q_decode_prefix_exact [of "pc div 32" d ric base "concat bss"] w(1) assms(2,7,9) unfolding assms(1) prefix_bytes_def by simp
qed

lemma answer_reads:
  assumes "answer_ok pc G ric refs blk fs" and "0 < ric" and "ric \<le> length G" and "ric - 1 \<in> refs" and "\<forall>a\<in>refs. a < ric"
    and "\<forall>a\<in>refs. table_size (map ins_field (drop a G)) \<le> cap" and "cap \<le> pc" and "length G < 2 ^ 32 - 1"
    and "fed pc cap G n d" and "n \<le> length G" and "ric \<le> n" and "table_size fs \<le> mx" and "mx < 2 ^ 32"
  shows "\<exists>d' arena'. q_decode collect d blk [] mx [] = (qr_ok, ric, d', arena', fs)"
proof -
  obtain base bss where b: "base \<le> length G" "list_all2 (q_wrote G refs base) bss fs" "blk = prefix_bytes pc ric base @ concat bss"
    using assms(1) by (auto simp: answer_ok_def)
  let ?V = "\<lambda>a. if a \<in> refs then Some (ins_field (G ! a)) else None"
  have d: "qd_max_capacity d = pc" "qd_insert_count d = n" "dt_ok (qd_table d)" using assms(9) by (simp_all add: fed_def)
  have "table_size (map ins_field (drop (ric - 1) G)) \<le> pc" using assms(4,6,7) by fastforce
  then have p: "q_decode_prefix d blk = Some (ric, base, concat bss)"
    using assms(2,3,8,10,11) b d by (intro answer_prefix_reads [where G = G]) auto
  have "length G < 2 ^ 32" using assms(8) by linarith
  from answer_lines_read [OF b(2) assms(5) b(1) this] have l: "list_all2 (q_reads ?V base ric) bss fs" .
  have "holds_fields d ?V" unfolding holds_fields_def using fed_field [OF assms(9) _ assms(10)] assms(5,6,11) d(3) by auto
  from q_decode_lines_reads [OF l this, of 0 mx "[]" "[]"] assms(12,13)
  obtain d' arena' where "q_decode_lines collect d base ric [] mx 0 [] (concat bss) = (qr_ok, d', arena', fs)" by auto
  then show ?thesis using p d(2) assms(11) by (simp add: q_decode_def)
qed

lemma answer_blocks:
  assumes "answer_ok pc G ric refs blk fs" and "0 < ric" and "ric \<le> length G"
    and "table_size (map ins_field (drop (ric - 1) G)) \<le> pc" and "length G < 2 ^ 32 - 1" and "qd_max_capacity d = pc"
    and "qd_insert_count d < ric" and "ric \<le> qd_insert_count d + pc div 32"
  shows "q_decode collect d blk [] mx [] = (qr_blocked, ric, d, [], [])"
proof -
  obtain base bss where b: "base \<le> length G" "blk = prefix_bytes pc ric base @ concat bss" using assms(1) by (auto simp: answer_ok_def)
  have "q_decode_prefix d blk = Some (ric, base, concat bss)"
    using assms(2-8) b by (intro answer_prefix_reads [where G = G]) auto
  then show ?thesis using assms(7) by (simp add: q_decode_def)
qed

end
