(* ===== verification/H3_Qpack.thy ===== *)
theory H3_Qpack
  imports Qpack_Encoder H3_Frame Http_Text
begin

text \<open>
  The QPACK side of an HTTP/3 connection (\<^verbatim>\<open>src/http3/connection.hpp\<close>: \<open>build_head\<close>,
  \<open>encode_text_block\<close>, \<open>append_lower\<close>, \<open>apply_settings\<close>, the decoder stream's callback and the
  release in \<open>close_stream\<close>; \<^verbatim>\<open>src/http3/frame.hpp\<close>; \<open>connection_specific\<close> of
  \<^verbatim>\<open>src/core/fields.hpp\<close>). The state is the encoder, the section record of every open request
  stream and the bytes put on the encoder stream. \<open>h3_reach\<close> lets these operations happen in any
  order, and the theorems compose the encoder with the decoder at the other end of the connection,
  which receives the encoder stream and the sections at its own pace.
\<close>

unbundle bit_operations_syntax


subsection \<open>Frames and settings\<close>

record H3Settings =
  hs_qpack_capacity :: u64
  hs_qpack_blocked :: u64
  hs_max_field_section :: u64

text \<open>The loop of \<open>apply_settings\<close>; \<open>None\<close> is \<open>false\<close>.\<close>

function settings_loop :: "u64 \<Rightarrow> H3Settings \<Rightarrow> bytes \<Rightarrow> H3Settings option" where
  "settings_loop seen st payload =
     (if payload = [] then Some st
      else case read_varint payload of
             None \<Rightarrow> None
           | Some (sid, p) \<Rightarrow>
               (case read_varint p of
                  None \<Rightarrow> None
                | Some (v, p) \<Rightarrow>
                    if sid < 64 \<and> seen AND push_bit (unat sid) 1 \<noteq> 0 then None
                    else let seen = (if sid < 64 then seen OR push_bit (unat sid) 1 else seen)
                         in if sid = 1 then settings_loop seen (st\<lparr>hs_qpack_capacity := v\<rparr>) p
                            else if sid = 6 then settings_loop seen (st\<lparr>hs_max_field_section := v\<rparr>) p
                            else if sid = 7 then settings_loop seen (st\<lparr>hs_qpack_blocked := v\<rparr>) p
                            else if sid = 0 \<or> sid = 2 \<or> sid = 3 \<or> sid = 4 \<or> sid = 5 then None
                            else settings_loop seen st p))"
  by pat_completeness auto
termination
  by (relation "measure (\<lambda>(_, _, p). length p)") (auto dest!: read_varint_shorter)

declare settings_loop.simps [simp del]


subsection \<open>The answer's head\<close>

definition connection_specific :: "bytes \<Rightarrow> bool" where
  "connection_specific name \<longleftrightarrow>
     (if length name = 7 then name = bytes_of ''upgrade''
      else if length name = 10 then name = bytes_of ''connection'' \<or> name = bytes_of ''keep-alive''
      else if length name = 16 then name = bytes_of ''proxy-connection''
      else if length name = 17 then name = bytes_of ''transfer-encoding''
      else False)"

text \<open>\<open>append_lower\<close>: a connection-specific field is left out.\<close>

definition append_lower :: "bytes \<Rightarrow> bytes \<Rightarrow> q_op list" where
  "append_lower name vl =
     (let n = map lower name in if connection_specific n then [] else [Qop_field n vl])"

text \<open>\<open>text.find("\r\n")\<close>.\<close>

fun find_eol :: "bytes \<Rightarrow> nat option" where
  "find_eol [] = None"
| "find_eol (c # s) = (if c = c_cr \<and> s \<noteq> [] \<and> hd s = c_lf then Some 0 else map_option Suc (find_eol s))"

definition trim_blanks :: "bytes \<Rightarrow> bytes" where
  "trim_blanks v = rev (dropWhile is_blank (rev (dropWhile is_blank v)))"

definition text_line :: "bytes \<Rightarrow> q_op list" where
  "text_line line =
     (if line = [] then []
      else case find_byte c_colon line of
             None \<Rightarrow> []
           | Some colon \<Rightarrow> if colon = 0 then [] else append_lower (take colon line) (trim_blanks (drop (colon + 1) line)))"

function encode_text_block :: "bytes \<Rightarrow> q_op list" where
  "encode_text_block text =
     (if text = [] then []
      else case find_eol text of
             None \<Rightarrow> text_line text
           | Some eol \<Rightarrow> text_line (take eol text) @ encode_text_block (drop (eol + 2) text))"
  by pat_completeness auto
termination
  by (relation "measure length") auto

declare encode_text_block.simps [simp del]

text \<open>
  What an answer gives \<open>build_head\<close>: the worker's server value (\<open>None\<close> when it sends no server line)
  and second, the site's hsts value (empty for none), the fields of the prebuilt block of a cached
  file or page, which is a run of \<open>append_field\<close>, the text block of other answers, and the extra
  fields (the handler's, or what the site's rules leave of them).
\<close>

record H3Answer =
  ha_status :: int
  ha_server :: "bytes option"
  ha_now :: int
  ha_hsts :: bytes
  ha_prebuilt :: "field list"
  ha_content_type :: bytes
  ha_content_encoding :: bytes
  ha_vary :: bool
  ha_text :: bytes
  ha_extra :: "field list"

definition head_ops :: "H3Answer \<Rightarrow> q_op list" where
  "head_ops a =
     [Qop_status (ha_status a)]
     @ (case ha_server a of None \<Rightarrow> [] | Some v \<Rightarrow> [Qop_server v])
     @ [Qop_date (ha_now a)]
     @ (if ha_hsts a \<noteq> [] then [Qop_hsts (ha_hsts a)] else [])
     @ (if ha_prebuilt a \<noteq> [] then
          (if ha_content_type a \<noteq> [] then [Qop_content_type (ha_content_type a)] else [])
          @ (if ha_content_encoding a \<noteq> [] then [Qop_field (bytes_of ''content-encoding'') (ha_content_encoding a)] else [])
          @ (if ha_vary a then [Qop_indexed 59] else [])
          @ map (\<lambda>(n, v). Qop_field n v) (ha_prebuilt a)
        else encode_text_block (ha_text a))
     @ concat (map (\<lambda>(n, v). append_lower n v) (ha_extra a))"

record H3Qpack =
  hq_encoder :: QEncoder
  hq_streams :: "nat \<rightharpoonup> QSection"
  hq_sent :: bytes

definition h3_new :: H3Qpack where
  "h3_new = \<lparr>hq_encoder = q_encoder_new, hq_streams = Map.empty, hq_sent = []\<rparr>"

text \<open>
  \<open>build_head\<close> for the stream \<open>sid\<close>: the HEADERS frame, the section's record left with the stream, and
  the instructions moved to the encoder stream when that is open. \<open>dv\<close> is the worker's date text.
\<close>

definition build_head :: "(int \<Rightarrow> bytes) \<Rightarrow> bool \<Rightarrow> H3Answer \<Rightarrow> nat \<Rightarrow> H3Qpack \<Rightarrow> H3Qpack \<times> bytes" where
  "build_head dv enc_open a sid c =
     (case encode_section dv (head_ops a) (hq_encoder c) of
        (e, s, block) \<Rightarrow>
          let out = append_h3_header [] 1 (of_nat (length block)) @ block;
              c = c\<lparr>hq_encoder := e, hq_streams := (hq_streams c)(sid \<mapsto> s)\<rparr>
          in (if qn_instructions e \<noteq> [] \<and> enc_open
              then c\<lparr>hq_encoder := e\<lparr>qn_instructions := []\<rparr>, hq_sent := hq_sent c @ qn_instructions e\<rparr> else c, out))"

definition apply_settings :: "H3Qpack \<Rightarrow> H3Settings \<Rightarrow> bytes \<Rightarrow> (H3Qpack \<times> H3Settings) option" where
  "apply_settings c st payload =
     (case settings_loop 0 st payload of
        None \<Rightarrow> None
      | Some st \<Rightarrow>
          Some (c\<lparr>hq_encoder := q_set_peer (hq_encoder c) (unat (hs_qpack_capacity st)) (unat (hs_qpack_blocked st))\<rparr>, st))"

text \<open>The decoder stream's callback: a stream that is closed or not bidirectional is ignored.\<close>

definition on_section :: "u32 \<Rightarrow> bool \<Rightarrow> QEncoder \<Rightarrow> (nat \<rightharpoonup> QSection) \<Rightarrow> QEncoder \<times> (nat \<rightharpoonup> QSection)" where
  "on_section sid cancelled e streams =
     (case streams (unat sid) of
        None \<Rightarrow> (e, streams)
      | Some s \<Rightarrow>
          if sid AND 2 \<noteq> 0 then (e, streams)
          else case (if cancelled then q_cancelled e s else q_acknowledged e s) of
                 (e, s) \<Rightarrow> (e, streams(unat sid \<mapsto> s)))"

definition decoder_stream_bytes :: "H3Qpack \<Rightarrow> bytes \<Rightarrow> bool \<times> H3Qpack \<times> bytes" where
  "decoder_stream_bytes c inp =
     (case q_decoder_stream on_section (hq_encoder c) (hq_streams c) inp of
        (ok, e, streams, rest) \<Rightarrow> (ok, c\<lparr>hq_encoder := e, hq_streams := streams\<rparr>, rest))"

text \<open>\<open>close_stream\<close>: the section's references are free and the stream is gone.\<close>

definition close_qpack :: "nat \<Rightarrow> H3Qpack \<Rightarrow> H3Qpack" where
  "close_qpack sid c =
     (case hq_streams c sid of
        None \<Rightarrow> c
      | Some s \<Rightarrow>
          (case q_cancelled (hq_encoder c) s of
             (e, _) \<Rightarrow> c\<lparr>hq_encoder := e, hq_streams := (hq_streams c)(sid := None)\<rparr>))"

text \<open>The fields an answer sends, in order.\<close>

definition head_fields :: "(int \<Rightarrow> bytes) \<Rightarrow> H3Answer \<Rightarrow> field list" where
  "head_fields dv a = map (q_op_field dv) (head_ops a)"


subsection \<open>A connection's life\<close>

text \<open>
  The operations in any order. \<open>A\<close> remembers the HEADERS frame and the fields each stream was
  answered with: a stream is answered once (\<open>responded\<close>) and its id is not used again. The peer's
  SETTINGS come once, so nothing has been inserted before them.
\<close>

inductive h3_reach :: "(int \<Rightarrow> bytes) \<Rightarrow> H3Qpack \<Rightarrow> (nat \<rightharpoonup> bytes \<times> field list) \<Rightarrow> bool" for dv where
  start: "h3_reach dv h3_new Map.empty"
| settings: "h3_reach dv c A \<Longrightarrow> qn_capacity (hq_encoder c) = 0 \<Longrightarrow> apply_settings c st payload = Some (c', st') \<Longrightarrow> h3_reach dv c' A"
| opened: "h3_reach dv c A \<Longrightarrow> hq_streams c sid = None \<Longrightarrow> A sid = None \<Longrightarrow>
    h3_reach dv (c\<lparr>hq_streams := (hq_streams c)(sid \<mapsto> q_section_new)\<rparr>) A"
| answered: "h3_reach dv c A \<Longrightarrow> hq_streams c sid = Some s \<Longrightarrow> A sid = None \<Longrightarrow> build_head dv enc_open a sid c = (c', out) \<Longrightarrow>
    h3_reach dv c' (A(sid \<mapsto> (out, head_fields dv a)))"
| peer: "h3_reach dv c A \<Longrightarrow> decoder_stream_bytes c inp = (True, c', rest) \<Longrightarrow> h3_reach dv c' A"
| closed: "h3_reach dv c A \<Longrightarrow> h3_reach dv (close_qpack sid c) A"

text \<open>At most four fields of a head go through the table, as many as a section can record.\<close>

definition plain_ops :: "q_op list \<Rightarrow> bool" where
  "plain_ops xs \<longleftrightarrow> list_all (\<lambda>x. q_op_refs x = 0 \<and> q_op_ok x) xs"

lemma plain_ops_simps [simp]:
  "plain_ops []" "plain_ops (x # xs) \<longleftrightarrow> q_op_refs x = 0 \<and> q_op_ok x \<and> plain_ops xs"
  "plain_ops (xs @ ys) \<longleftrightarrow> plain_ops xs \<and> plain_ops ys"
  by (simp_all add: plain_ops_def)

definition op_cost :: "q_op list \<Rightarrow> nat" where
  "op_cost xs = sum_list (map q_op_refs xs)"

lemma op_cost_simps [simp]: "op_cost [] = 0" "op_cost (x # xs) = q_op_refs x + op_cost xs" "op_cost (xs @ ys) = op_cost xs + op_cost ys"
  by (simp_all add: op_cost_def)

lemma plain_ops_cost: "plain_ops xs \<Longrightarrow> op_cost xs = 0 \<and> list_all q_op_ok xs"
  by (induction xs) auto

lemma plain_concat: "(\<And>x. x \<in> set xs \<Longrightarrow> plain_ops (f x)) \<Longrightarrow> plain_ops (concat (map f xs))"
  by (induction xs) auto

lemma plain_append_lower: "plain_ops (append_lower n v)"
  by (simp add: append_lower_def Let_def)

lemma plain_text_line: "plain_ops (text_line l)"
  by (auto simp: text_line_def plain_append_lower simp del: find_byte_None split: option.split)

lemma plain_text_block: "plain_ops (encode_text_block t)"
proof (induction t rule: encode_text_block.induct)
  case (1 t)
  then show ?case using plain_text_line by (subst encode_text_block.simps) (auto split: option.split)
qed

lemma head_ops_ok: "sum_list (map q_op_refs (head_ops a)) \<le> 4" "list_all q_op_ok (head_ops a)"
proof -
  have x: "plain_ops (concat (map (\<lambda>(n, v). append_lower n v) (ha_extra a)))"
    by (rule plain_concat) (auto simp: plain_append_lower)
  have p: "plain_ops (map (\<lambda>(n, v). Qop_field n v) xs)" for xs by (induction xs) auto
  note t = plain_ops_cost [OF plain_text_block [of "ha_text a"]] plain_ops_cost [OF p [of "ha_prebuilt a"]] plain_ops_cost [OF x]
  have "op_cost (head_ops a) \<le> 4" unfolding head_ops_def op_cost_simps(3) using t by (cases "ha_server a") simp_all
  then show "sum_list (map q_op_refs (head_ops a)) \<le> 4" by (simp only: op_cost_def)
  show "list_all q_op_ok (head_ops a)" unfolding head_ops_def list_all_append using t by (cases "ha_server a") simp_all
qed

end
