(* ===== verification/H3_Session.thy ===== *)
theory H3_Session
  imports H3_Qpack
begin

text \<open>
  The invariant of a connection's QPACK state, which every step keeps: the counters of the table are those
  of the streams' sections, and every answer not yet acknowledged refers to entries that are
  held. From it, that such an answer can be read by a peer that has received the inserts it needs,
  whatever part of the encoder stream has arrived.
\<close>

unbundle bit_operations_syntax


subsection \<open>The invariant\<close>

definition sec_refs :: "nat \<Rightarrow> QSection \<Rightarrow> nat" where
  "sec_refs a s = (if a \<in> set (qs_refs s) then 1 else 0)"

definition refs_of :: "(nat \<rightharpoonup> QSection) \<Rightarrow> nat \<Rightarrow> nat" where
  "refs_of m a = map_weight (sec_refs a) m"

definition blocking_of :: "(nat \<rightharpoonup> QSection) \<Rightarrow> nat" where
  "blocking_of m = map_weight (\<lambda>s. of_bool (qs_blocking s)) m"

definition section_inv :: "QSection \<Rightarrow> bool" where
  "section_inv s \<longleftrightarrow> (if qs_pending s then sec_ok s \<and> qs_ric s \<noteq> 0 else qs_refs s = [] \<and> \<not> qs_blocking s)"

definition streams_ok :: "(nat \<rightharpoonup> QSection) \<Rightarrow> (nat \<rightharpoonup> bytes \<times> field list) \<Rightarrow> q_ins list \<Rightarrow> nat \<Rightarrow> bool" where
  "streams_ok m A G pc \<longleftrightarrow> finite (dom m)
     \<and> (\<forall>sid s. m sid = Some s \<longrightarrow> section_inv s \<and> qs_ric s \<le> length G \<and> (A sid = None \<longrightarrow> s = q_section_new))
     \<and> (\<forall>sid s out fs. m sid = Some s \<longrightarrow> A sid = Some (out, fs) \<longrightarrow> qs_pending s \<or> qs_ric s = 0 \<longrightarrow>
         (\<exists>blk. out = append_h3_header [] 1 (of_nat (length blk)) @ blk \<and> answer_ok pc G (qs_ric s) (set (qs_refs s)) blk fs))"

definition session_inv :: "(int \<Rightarrow> bytes) \<Rightarrow> QEncoder \<Rightarrow> (nat \<rightharpoonup> QSection) \<Rightarrow> bytes \<Rightarrow> (nat \<rightharpoonup> bytes \<times> field list) \<Rightarrow> q_ins list \<Rightarrow> bool" where
  "session_inv dv e m sent A G \<longleftrightarrow> q_inv dv e G (refs_of m) sent \<and> streams_ok m A G (qn_peer_capacity e)
     \<and> qn_blocking e = blocking_of m \<and> qn_blocking e \<le> qn_peer_blocked e"

lemma section_inv_new [simp]: "section_inv q_section_new"
  by (simp add: section_inv_def q_section_new_def)

lemma refs_of_remove: "finite (dom m) \<Longrightarrow> m sid = Some s \<Longrightarrow> refs_of m = total_refs (refs_of (m(sid := None))) (qs_refs s)"
  by (rule ext) (simp add: refs_of_def total_refs_def map_weight_remove [of m sid s] sec_refs_def)

lemma blocking_of_remove:
  "finite (dom m) \<Longrightarrow> m sid = Some s \<Longrightarrow> blocking_of m = blocking_of (m(sid := None)) + of_bool (qs_blocking s)"
  by (simp add: blocking_of_def map_weight_remove [of m sid s])

lemma refs_of_put: "finite (dom m) \<Longrightarrow> refs_of (m(sid \<mapsto> s)) = total_refs (refs_of (m(sid := None))) (qs_refs s)"
  using refs_of_remove [of "m(sid \<mapsto> s)" sid s] by simp

lemma blocking_of_put:
  "finite (dom m) \<Longrightarrow> blocking_of (m(sid \<mapsto> s)) = blocking_of (m(sid := None)) + of_bool (qs_blocking s)"
  using blocking_of_remove [of "m(sid \<mapsto> s)" sid s] by simp

lemma quiet_section: "section_inv s \<Longrightarrow> \<not> qs_pending s \<Longrightarrow> qs_refs s = [] \<and> \<not> qs_blocking s"
  by (simp add: section_inv_def)

text \<open>A change of one stream's section that does not create an obligation.\<close>

lemma streams_ok_put:
  assumes "streams_ok m A G pc" and "section_inv s" and "qs_ric s \<le> length G" and "A sid = None \<Longrightarrow> s = q_section_new"
    and "\<And>out fs. A sid = Some (out, fs) \<Longrightarrow> qs_pending s \<or> qs_ric s = 0 \<Longrightarrow>
      \<exists>blk. out = append_h3_header [] 1 (of_nat (length blk)) @ blk \<and> answer_ok pc G (qs_ric s) (set (qs_refs s)) blk fs"
  shows "streams_ok (m(sid \<mapsto> s)) A G pc"
  using assms unfolding streams_ok_def by (auto split: if_splits)

lemma streams_ok_drop: "streams_ok m A G pc \<Longrightarrow> streams_ok (m(sid := None)) A G pc"
  unfolding streams_ok_def by (auto split: if_splits)

lemma streams_ok_append: "streams_ok m A G pc \<Longrightarrow> streams_ok m A (G @ gs) pc"
  unfolding streams_ok_def using answer_ok_append by (fastforce intro: trans_le_add1)


subsection \<open>The steps\<close>

lemma session_start: "session_inv dv (hq_encoder h3_new) (hq_streams h3_new) (hq_sent h3_new) Map.empty []"
proof -
  have "refs_of Map.empty = (\<lambda>_. 0)" by (simp add: refs_of_def fun_eq_iff)
  moreover have "holds_from q_encoder_new [] (\<lambda>_. 0) 0" by (simp add: holds_from_def q_encoder_new_def)
  ultimately show ?thesis
    by (auto simp: session_inv_def q_inv_def core_ok_def memos_ok_def memo_ok_def streams_ok_def blocking_of_def h3_new_def
        q_encoder_new_def q_memo_new_def stream_bytes_def q_max_capacity_def)
qed

text \<open>Nothing is inserted while the capacity is zero, so the peer's settings find an empty table.\<close>

lemma session_set_peer:
  assumes "session_inv dv e m sent A G" and "qn_capacity e = 0"
  shows "session_inv dv (q_set_peer e pc pb) m sent A G"
proof -
  have core: "core_ok e G (refs_of m) sent" and memos: "memos_ok dv e G" using assms(1) by (simp_all add: session_inv_def q_inv_def)
  have so: "streams_ok m A G (qn_peer_capacity e)" using assms(1) by (simp add: session_inv_def)
  have G: "G = []"
  proof (rule ccontr)
    assume "G \<noteq> []"
    then obtain g where "ins_ok 0 g" using core_okD(3) [OF core] assms(2) by (cases G) auto
    then show False by (cases "ins_field g") (simp add: ins_ok_def)
  qed
  have ric: "qs_ric s = 0 \<and> \<not> qs_pending s" if "m sid = Some s" for sid s
    using so that unfolding streams_ok_def G section_inv_def by fastforce
  have "core_ok (q_set_peer e pc pb) G (refs_of m) sent"
    using core unfolding core_ok_def holds_from_def by (auto simp: G q_set_peer_def stream_bytes_def)
  moreover have "memos_ok dv (q_set_peer e pc pb) G" using memos by (simp add: memos_ok_def q_set_peer_def)
  moreover have "streams_ok m A G pc" using so ric unfolding streams_ok_def answer_ok_def prefix_bytes_def by fastforce
  moreover have "blocking_of m = 0"
    unfolding blocking_of_def map_weight_def
  proof (rule sum.neutral, rule ballI)
    fix x assume "x \<in> dom m"
    then obtain s where s: "m x = Some s" by blast
    then have "section_inv s" using so unfolding streams_ok_def by blast
    then show "of_bool (qs_blocking (the (m x))) = (0 :: nat)" using ric [OF s] quiet_section s by simp
  qed
  moreover have "qn_blocking e = blocking_of m" using assms(1) by (simp add: session_inv_def)
  ultimately show ?thesis by (simp add: session_inv_def q_inv_def q_set_peer_def)
qed

lemma session_open:
  assumes "session_inv dv e m sent A G" and "m sid = None" and "A sid = None"
  shows "session_inv dv e (m(sid \<mapsto> q_section_new)) sent A G"
proof -
  have so: "streams_ok m A G (qn_peer_capacity e)" using assms(1) by (simp add: session_inv_def)
  then have fin: "finite (dom m)" by (simp add: streams_ok_def)
  have m: "m(sid := None) = m" using assms(2) by auto
  have n: "qs_refs q_section_new = []" "\<not> qs_blocking q_section_new" "qs_ric q_section_new = 0" by (simp_all add: q_section_new_def)
  have "refs_of (m(sid \<mapsto> q_section_new)) = refs_of m" "blocking_of (m(sid \<mapsto> q_section_new)) = blocking_of m"
    using refs_of_put [OF fin] blocking_of_put [OF fin] by (simp_all add: m n)
  moreover have "streams_ok (m(sid \<mapsto> q_section_new)) A G (qn_peer_capacity e)"
    using assms(3) n by (intro streams_ok_put [OF so]) simp_all
  ultimately show ?thesis using assms(1) by (simp add: session_inv_def)
qed

text \<open>A section is released: by an acknowledgement, a cancellation or the end of its stream.\<close>

lemma session_release:
  assumes "session_inv dv e m sent A G" and "m sid = Some s" and "q_release e s = (e', s')"
  shows "session_inv dv e' (m(sid \<mapsto> s')) sent A G" and "session_inv dv e' (m(sid := None)) sent A G"
proof -
  have q: "q_inv dv e G (refs_of m) sent" and so: "streams_ok m A G (qn_peer_capacity e)" and bl: "qn_blocking e = blocking_of m"
    and ble: "qn_blocking e \<le> qn_peer_blocked e" using assms(1) by (simp_all add: session_inv_def)
  have fin: "finite (dom m)" and si: "section_inv s" and ric: "qs_ric s \<le> length G" and new: "A sid = None \<Longrightarrow> s = q_section_new"
    using so assms(2) by (auto simp: streams_ok_def)
  note r = refs_of_remove [OF fin assms(2)] and b = blocking_of_remove [OF fin assms(2)]
  have so': "streams_ok (m(sid := None)) A G (qn_peer_capacity e)" using so by (rule streams_ok_drop)
  have "session_inv dv e' (m(sid \<mapsto> s')) sent A G \<and> session_inv dv e' (m(sid := None)) sent A G"
  proof (cases "qs_pending s")
    case False
    then have s': "s' = s" "e' = e" using assms(3) by (simp_all add: q_release_def)
    have "m(sid \<mapsto> s) = m" using assms(2) by auto
    moreover have "refs_of (m(sid := None)) = refs_of m" "blocking_of (m(sid := None)) = blocking_of m"
      using r b quiet_section [OF si False] by simp_all
    ultimately show ?thesis using assms(1) s' so' by (simp add: session_inv_def)
  next
    case True
    have d: "distinct (qs_refs s)" using si True by (simp add: section_inv_def sec_ok_def)
    have "qs_blocking s \<Longrightarrow> qn_blocking e \<noteq> 0" using bl b by simp
    note rel = q_release_ok [OF q [unfolded r] True d this assms(3)]
    have "refs_of (m(sid \<mapsto> s')) = refs_of (m(sid := None))" "blocking_of (m(sid \<mapsto> s')) = blocking_of (m(sid := None))"
      using refs_of_put [OF fin, of sid s'] blocking_of_put [OF fin, of sid s'] rel(2) by simp_all
    moreover have "streams_ok (m(sid \<mapsto> s')) A G (qn_peer_capacity e)"
      using ric rel(2) new True si by (intro streams_ok_put [OF so]) (auto simp: section_inv_def q_section_new_def)
    moreover have "qn_blocking e' = blocking_of (m(sid := None))" "qn_blocking e' \<le> qn_peer_blocked e'"
      using rel(3,5) bl b ble by simp_all
    ultimately show ?thesis using rel so' by (simp add: session_inv_def)
  qed
  then show "session_inv dv e' (m(sid \<mapsto> s')) sent A G" "session_inv dv e' (m(sid := None)) sent A G" by simp_all
qed

lemma session_known:
  assumes "session_inv dv e m sent A G" and "k \<le> length G"
  shows "session_inv dv (e\<lparr>qn_known := k\<rparr>) m sent A G"
  using assms by (auto simp: session_inv_def q_inv_def core_ok_def holds_from_def memos_ok_def)

lemma session_on_section:
  assumes "session_inv dv e m sent A G" and "on_section sid cancelled e m = (e', m')"
  shows "session_inv dv e' m' sent A G"
proof (cases "m (unat sid)")
  case None
  then show ?thesis using assms by (simp add: on_section_def)
next
  case (Some s)
  show ?thesis
  proof (cases "sid AND 2 = 0")
    case False
    then show ?thesis using assms Some by (simp add: on_section_def)
  next
    case True
    obtain e1 s1 where x: "(if cancelled then q_cancelled e s else q_acknowledged e s) = (e1, s1)" by force
    then have m': "e' = e1" "m' = m(unat sid \<mapsto> s1)" using assms(2) Some True by (simp_all add: on_section_def)
    have ric: "qs_ric s \<le> length G" using assms(1) Some by (auto simp: session_inv_def streams_ok_def)
    consider "cancelled" "q_release e s = (e1, s1)" | "\<not> qs_pending s" "e1 = e" "s1 = s"
      | k where "k \<le> length G" "q_release (e\<lparr>qn_known := k\<rparr>) s = (e1, s1)"
    proof (cases "cancelled \<or> \<not> qs_pending s")
      case True
      show thesis
      proof (cases cancelled)
        case True
        then show thesis using x by (intro that(1)) (simp_all add: q_cancelled_def)
      next
        case False
        then have "\<not> qs_pending s" using True by simp
        then show thesis using x False by (intro that(2)) (simp_all add: q_acknowledged_def)
      qed
    next
      case False
      let ?k = "max (qn_known e) (qs_ric s)"
      have "qn_known e \<le> length G" using assms(1) by (simp add: session_inv_def q_inv_def core_ok_def)
      moreover have "q_release (e\<lparr>qn_known := ?k\<rparr>) s = (e1, s1)"
        using x False by (cases "qs_ric s > qn_known e") (simp_all add: q_acknowledged_def max_def)
      ultimately show thesis using that(3) [of ?k] ric by simp
    qed
    then show ?thesis
    proof cases
      case 1
      from session_release(1) [OF assms(1) Some this(2)] show ?thesis by (simp add: m')
    next
      case 2
      moreover have "m(unat sid \<mapsto> s) = m" using Some by auto
      ultimately show ?thesis using assms(1) m' by simp
    next
      case (3 k)
      from session_release(1) [OF session_known [OF assms(1) 3(1)] Some 3(2)] show ?thesis by (simp add: m')
    qed
  qed
qed

text \<open>What the callback and the increments keep, the whole decoder stream keeps.\<close>

lemma q_decoder_stream_keeps:
  assumes cb: "\<And>e c v b e' c'. P e c \<Longrightarrow> f v b e c = (e', c') \<Longrightarrow> P e' c'"
    and inc: "\<And>e c n e'. P e c \<Longrightarrow> q_increment e n = Some e' \<Longrightarrow> P e' c"
    and "P e c" and "q_decoder_stream f e c inp = (ok, e', c', r)"
  shows "P e' c'"
  using assms(3,4)
proof (induction "length inp" arbitrary: e c inp rule: less_induct)
  case less
  show ?case
  proof (cases inp)
    case Nil
    then show ?thesis using less.prems by simp
  next
    case (Cons b bs)
    have sec: "P e' c'" if "read_integer p inp = Some (v, rest)" "f v cn e c = (e1, c1)" "q_decoder_stream f e1 c1 rest = (ok, e', c', r)"
      for p v rest cn e1 c1
      using less.hyps [OF read_integer_shorter [OF that(1)] cb [OF less.prems(1) that(2)] that(3)] .
    have step: "P e' c'" if "read_integer p inp = Some (v, rest)" "q_increment e (unat v) = Some e1" "q_decoder_stream f e1 c rest = (ok, e', c', r)"
      for p v rest e1
      using less.hyps [OF read_integer_shorter [OF that(1)] inc [OF less.prems(1) that(2)] that(3)] .
    show ?thesis
      using less.prems sec step unfolding Cons q_decoder_stream.simps(2)
      by (auto split: if_splits option.splits prod.splits)
  qed
qed

lemma session_decoder_stream:
  assumes "session_inv dv e m sent A G" and "q_decoder_stream on_section e m inp = (ok, e', m', r)"
  shows "session_inv dv e' m' sent A G"
proof (rule q_decoder_stream_keeps [where P = "\<lambda>e m. session_inv dv e m sent A G" and f = on_section, OF _ _ assms])
  fix e m n e' assume s: "session_inv dv e m sent A G" and i: "q_increment e n = Some e'"
  have "e' = e\<lparr>qn_known := qn_known e + n\<rparr>" "qn_known e + n \<le> qn_insert_count e" using i by (auto simp: q_increment_def split: if_splits)
  moreover have "qn_insert_count e = length G" using s by (simp add: session_inv_def q_inv_def core_ok_def)
  ultimately show "session_inv dv e' m sent A G" using session_known [OF s] by simp
qed (rule session_on_section)

lemma session_answer:
  assumes "session_inv dv e m sent A G" and "m sid = Some s0" and "A sid = None"
    and "encode_section dv (head_ops a) e = (e', s, blk)" and "out = append_h3_header [] 1 (of_nat (length blk)) @ blk"
  shows "\<exists>gs. session_inv dv e' (m(sid \<mapsto> s)) sent (A(sid \<mapsto> (out, head_fields dv a))) (G @ gs)"
proof -
  have q: "q_inv dv e G (refs_of m) sent" and so: "streams_ok m A G (qn_peer_capacity e)" and bl: "qn_blocking e = blocking_of m"
    and ble: "qn_blocking e \<le> qn_peer_blocked e" using assms(1) by (simp_all add: session_inv_def)
  have fin: "finite (dom m)" and new: "s0 = q_section_new" using so assms(2,3) by (auto simp: streams_ok_def)
  have n: "qs_refs s0 = []" "\<not> qs_blocking s0" by (simp_all add: new q_section_new_def)
  have r: "refs_of (m(sid := None)) = refs_of m" "blocking_of (m(sid := None)) = blocking_of m"
    using refs_of_remove [OF fin assms(2)] blocking_of_remove [OF fin assms(2)] n by simp_all
  note es = encode_section_ok [OF q head_ops_ok assms(4)]
  obtain gs where gs: "q_inv dv e' (G @ gs) (total_refs (refs_of m) (qs_refs s)) sent"
    "answer_ok (qn_peer_capacity e) (G @ gs) (qs_ric s) (set (qs_refs s)) blk (head_fields dv a)" "qs_ric s \<le> length (G @ gs)"
    using es(1) by (auto simp: head_fields_def)
  let ?A = "A(sid \<mapsto> (out, head_fields dv a))"
  have "qs_refs s = []" if "\<not> qs_pending s" using that es(2,3) by (cases "qs_refs s") (auto simp: sec_ok_def)
  then have si: "section_inv s" using es(2,3) by (auto simp: section_inv_def sec_ok_def)
  have so': "streams_ok (m(sid := None)) ?A (G @ gs) (qn_peer_capacity e)"
    using streams_ok_append [OF streams_ok_drop [OF so, of sid], of gs] unfolding streams_ok_def by (auto split: if_splits)
  have "streams_ok ((m(sid := None))(sid \<mapsto> s)) ?A (G @ gs) (qn_peer_capacity e)"
    by (rule streams_ok_put [OF so' si gs(3)]) (use gs(2) assms(5) in auto)
  then have "streams_ok (m(sid \<mapsto> s)) ?A (G @ gs) (qn_peer_capacity e')" using es(7) by simp
  moreover have "q_inv dv e' (G @ gs) (refs_of (m(sid \<mapsto> s))) sent" using gs(1) refs_of_put [OF fin, of sid s] r(1) by simp
  moreover have "qn_blocking e' = blocking_of (m(sid \<mapsto> s))" using es(5) blocking_of_put [OF fin, of sid s] r(2) bl by simp
  moreover have "qn_blocking e' \<le> qn_peer_blocked e'" using es(5,6,8) ble by (cases "qs_blocking s") simp_all
  ultimately show ?thesis by (intro exI [of _ gs]) (simp add: session_inv_def)
qed

lemma session_flush:
  assumes "session_inv dv e m sent A G"
  shows "session_inv dv (e\<lparr>qn_instructions := []\<rparr>) m (sent @ qn_instructions e) A G"
  using assms by (auto simp: session_inv_def q_inv_def core_ok_def holds_from_def memos_ok_def)

lemma h3_reach_inv: "h3_reach dv c A \<Longrightarrow> \<exists>G. session_inv dv (hq_encoder c) (hq_streams c) (hq_sent c) A G"
proof (induction rule: h3_reach.induct)
  case start
  show ?case using session_start by blast
next
  case (settings c A st payload c' st')
  obtain pc pb where "c' = c\<lparr>hq_encoder := q_set_peer (hq_encoder c) pc pb\<rparr>"
    using settings.hyps(3) by (auto simp: apply_settings_def split: option.splits)
  moreover obtain G where "session_inv dv (hq_encoder c) (hq_streams c) (hq_sent c) A G" using settings.IH by blast
  from session_set_peer [OF this settings.hyps(2), of pc pb] have "\<exists>G. session_inv dv (q_set_peer (hq_encoder c) pc pb) (hq_streams c) (hq_sent c) A G" ..
  ultimately show ?case by simp
next
  case (opened c A sid)
  obtain G where "session_inv dv (hq_encoder c) (hq_streams c) (hq_sent c) A G" using opened.IH by blast
  from session_open [OF this opened.hyps(2,3)] show ?case by (auto simp: fun_upd_def)
next
  case (answered c A sid s enc_open a c' out)
  obtain G where G: "session_inv dv (hq_encoder c) (hq_streams c) (hq_sent c) A G" using answered.IH by blast
  obtain e s' blk where es: "encode_section dv (head_ops a) (hq_encoder c) = (e, s', blk)" using prod_cases3 by blast
  have out: "out = append_h3_header [] 1 (of_nat (length blk)) @ blk"
    using answered.hyps(4) by (auto simp: build_head_def es Let_def)
  from session_answer [OF G answered.hyps(2,3) es out] obtain gs where
    gs: "session_inv dv e ((hq_streams c)(sid \<mapsto> s')) (hq_sent c) (A(sid \<mapsto> (out, head_fields dv a))) (G @ gs)" by blast
  let ?c = "c\<lparr>hq_encoder := e, hq_streams := (hq_streams c)(sid \<mapsto> s')\<rparr>"
  have "c' = ?c\<lparr>hq_encoder := e\<lparr>qn_instructions := []\<rparr>, hq_sent := hq_sent c @ qn_instructions e\<rparr> \<or> c' = ?c"
    using answered.hyps(4) by (auto simp: build_head_def es Let_def split: if_splits)
  then show ?case using gs session_flush [OF gs] by (elim disjE; intro exI [of _ "G @ gs"]) (simp_all add: fun_upd_def)
next
  case (peer c A inp c' rest)
  obtain G where G: "session_inv dv (hq_encoder c) (hq_streams c) (hq_sent c) A G" using peer.IH by blast
  obtain ok e m r where d: "q_decoder_stream on_section (hq_encoder c) (hq_streams c) inp = (ok, e, m, r)" using prod_cases4 by blast
  have "c' = c\<lparr>hq_encoder := e, hq_streams := m\<rparr>" using peer.hyps(2) by (simp add: decoder_stream_bytes_def d)
  then show ?case using session_decoder_stream [OF G d] by auto
next
  case (closed c A sid)
  obtain G where G: "session_inv dv (hq_encoder c) (hq_streams c) (hq_sent c) A G" using closed.IH by blast
  show ?case
  proof (cases "hq_streams c sid")
    case None
    then show ?thesis using G by (auto simp: close_qpack_def)
  next
    case (Some s)
    obtain e s' where r: "q_release (hq_encoder c) s = (e, s')" by force
    from session_release(2) [OF G Some r] show ?thesis by (auto simp: close_qpack_def Some q_cancelled_def r fun_upd_def)
  qed
qed


subsection \<open>What the peer reads\<close>

text \<open>The decoder at the other end, which has received some of the encoder stream.\<close>

definition peer_decoder :: "H3Qpack \<Rightarrow> bytes \<Rightarrow> bool \<times> QDecoder \<times> bytes" where
  "peer_decoder c received = q_encoder_stream (q_decoder_new (qn_peer_capacity (hq_encoder c))) received"

lemma peer_decoder_fed:
  assumes "session_inv dv (hq_encoder c) (hq_streams c) (hq_sent c) A G" and "received @ later = hq_sent c"
  obtains n d r where "peer_decoder c received = (True, d, r)" and "n \<le> length G" and "qd_insert_count d = n"
    and "qd_max_capacity d = qn_peer_capacity (hq_encoder c)" and "dt_ok (qd_table d)"
    and "n = 0 \<or> fed (qn_peer_capacity (hq_encoder c)) (qn_capacity (hq_encoder c)) G n d"
proof -
  let ?e = "hq_encoder c"
  have core: "core_ok ?e G (refs_of (hq_streams c)) (hq_sent c)" using assms(1) by (simp add: session_inv_def q_inv_def)
  have "received @ (later @ qn_instructions ?e) = stream_bytes (qn_capacity ?e) G" using core_okD(7) [OF core] assms(2) by (metis append.assoc)
  moreover have "qn_capacity ?e \<le> qn_peer_capacity ?e" "qn_capacity ?e < 2 ^ 32" using core_okD(4) [OF core] by (simp_all add: q_max_capacity_def)
  ultimately obtain n d r where n: "peer_decoder c received = (True, d, r)" "n \<le> length G" "qd_insert_count d = n"
    "qd_max_capacity d = qn_peer_capacity ?e" "n = 0 \<or> fed (qn_peer_capacity ?e) (qn_capacity ?e) G n d"
    using stream_prefix [OF _ core_okD(3) [OF core]] unfolding peer_decoder_def by blast
  have "dt_ok (qd_table d)" using q_encoder_stream_keeps [OF n(1) [unfolded peer_decoder_def] q_decoder_ok_new] by (simp add: q_decoder_ok_def)
  from that [OF n(1-4) this n(5)] show thesis .
qed

text \<open>A pending section's highest entry, and all it refers to, still fit the table.\<close>

lemma pending_refs:
  assumes "session_inv dv e m sent A G" and "m sid = Some s" and "qs_pending s"
  shows "0 < qs_ric s" and "qs_ric s - 1 \<in> set (qs_refs s)" and "\<forall>a\<in>set (qs_refs s). a < qs_ric s"
    and "\<forall>a\<in>set (qs_refs s). table_size (map ins_field (drop a G)) \<le> qn_capacity e"
    and "\<forall>a\<in>set (qs_refs s). q_held e a"
proof -
  have core: "core_ok e G (refs_of m) sent" and so: "streams_ok m A G (qn_peer_capacity e)" using assms(1) by (simp_all add: session_inv_def q_inv_def)
  have "section_inv s" using so assms(2) by (auto simp: streams_ok_def)
  then show "0 < qs_ric s" "qs_ric s - 1 \<in> set (qs_refs s)" "\<forall>a\<in>set (qs_refs s). a < qs_ric s"
    using assms(3) by (auto simp: section_inv_def sec_ok_def)
  have "refs_of m a \<noteq> 0" if "a \<in> set (qs_refs s)" for a
    using refs_of_remove [of m sid s] so assms(2) that by (simp add: streams_ok_def total_refs_def)
  then show "\<forall>a\<in>set (qs_refs s). q_held e a" using referenced_held [OF core] by blast
  then show "\<forall>a\<in>set (qs_refs s). table_size (map ins_field (drop a G)) \<le> qn_capacity e" using held_fits(1) [OF core] by blast
qed

lemma answer_readable:
  assumes "session_inv dv (hq_encoder c) (hq_streams c) (hq_sent c) A G" and "hq_streams c sid = Some s" and "A sid = Some (out, fs)"
    and "qs_pending s \<or> qs_ric s = 0" and "received @ later = hq_sent c" and "length G < 2 ^ 32 - 1"
    and "table_size fs \<le> mx" and "mx < 2 ^ 32"
  shows "\<exists>blk d r. out = append_h3_header [] 1 (of_nat (length blk)) @ blk \<and> peer_decoder c received = (True, d, r)
    \<and> (qs_ric s \<le> qd_insert_count d \<longrightarrow> (\<exists>d' arena'. q_decode collect d blk [] mx [] = (qr_ok, qs_ric s, d', arena', fs)))
    \<and> (qd_insert_count d < qs_ric s \<and> qs_ric s \<le> qd_insert_count d + qn_peer_capacity (hq_encoder c) div 32
       \<longrightarrow> q_decode collect d blk [] mx [] = (qr_blocked, qs_ric s, d, [], []))"
proof -
  let ?e = "hq_encoder c" and ?pc = "qn_peer_capacity (hq_encoder c)"
  have core: "core_ok ?e G (refs_of (hq_streams c)) (hq_sent c)" and so: "streams_ok (hq_streams c) A G ?pc"
    using assms(1) by (simp_all add: session_inv_def q_inv_def)
  obtain blk where blk: "out = append_h3_header [] 1 (of_nat (length blk)) @ blk" "answer_ok ?pc G (qs_ric s) (set (qs_refs s)) blk fs"
    using so assms(2-4) unfolding streams_ok_def by blast
  have ric: "qs_ric s \<le> length G" and si: "section_inv s" using so assms(2) by (auto simp: streams_ok_def)
  have cap: "qn_capacity ?e \<le> ?pc" using core_okD(4) [OF core] by simp
  obtain n d r where n: "peer_decoder c received = (True, d, r)" "n \<le> length G" "qd_insert_count d = n" "qd_max_capacity d = ?pc"
    "dt_ok (qd_table d)" "n = 0 \<or> fed ?pc (qn_capacity ?e) G n d" using peer_decoder_fed [OF assms(1,5)] .
  show ?thesis
  proof (cases "qs_pending s")
    case False
    then have "qs_ric s = 0" "set (qs_refs s) = {}" using assms(4) si by (simp_all add: section_inv_def)
    then show ?thesis using answer_static_reads [of ?pc G blk fs d mx] blk n assms(7,8) by (intro exI [of _ blk] exI [of _ d] exI [of _ r]) simp
  next
    case True
    note p = pending_refs [OF assms(1,2) True]
    have "table_size (map ins_field (drop (qs_ric s - 1) G)) \<le> ?pc" using p(2,4) cap by fastforce
    note bl = answer_blocks [OF blk(2) p(1) ric this assms(6) n(4)]
    have "\<exists>d' arena'. q_decode collect d blk [] mx [] = (qr_ok, qs_ric s, d', arena', fs)" if "qs_ric s \<le> n"
    proof -
      have f: "fed ?pc (qn_capacity ?e) G n d" using n(6) that p(1) by auto
      show ?thesis by (rule answer_reads [OF blk(2) p(1) ric p(2,3,4) cap assms(6) f n(2) that assms(7,8)])
    qed
    then show ?thesis using blk(1) n(1,3) bl by (intro exI [of _ blk] exI [of _ d] exI [of _ r]) simp
  qed
qed

end
