(* ===== verification/H3_Answers.thy ===== *)
theory H3_Answers
  imports H3_Session
begin

text \<open>
  What a client makes of the answers of an HTTP/3 connection: the frames decode, and the encoder
  keeps the bounds the client set. Two situations in which an answer is lost or
  misread are reached and shown.
\<close>

subsection \<open>Every pending answer decodes\<close>

text \<open>The payload of a HEADERS frame as its receiver cuts it out.\<close>

definition headers_payload :: "bytes \<Rightarrow> bytes option" where
  "headers_payload out =
     (case read_varint out of
        Some (ty, p) \<Rightarrow>
          if ty \<noteq> 1 then None
          else (case read_varint p of
                  Some (len, p) \<Rightarrow> if unat len \<le> length p then Some (take (unat len) p) else None
                | None \<Rightarrow> None)
      | None \<Rightarrow> None)"

lemma headers_payload_frame:
  assumes "length blk < 2 ^ 62"
  shows "headers_payload (append_h3_header [] 1 (of_nat (length blk)) @ blk) = Some blk"
proof -
  have un: "unat (of_nat (length blk) :: u64) = length blk" using assms by (simp add: unsigned_of_nat take_bit_nat_eq_self)
  then have "(of_nat (length blk) :: u64) \<le> kVarintMax" using assms by (simp add: kVarintMax_less word_less_nat_alt)
  moreover have "(1 :: u64) \<le> kVarintMax" by (simp add: kVarintMax_less word_less_nat_alt)
  ultimately show ?thesis using un
    by (simp add: headers_payload_def append_h3_header_def append_varint_def varint.dec_enc)
qed

text \<open>
  C5. Every answer can be read at the other end. Take any moment of a connection, with answers written,
  acknowledged, cancelled and closed in any order, and a decoder that has received any beginning of the encoder stream:
  that stream is acceptable to it. If the section of an answer is still pending, or refers to nothing, then once the
  decoder has the inserts the section requires it decodes the answer's HEADERS frame to exactly the fields
  that were written, in order, even when entries inserted later have evicted others; and while inserts
  are missing, but no more than the entries a table of the client's capacity can have, it waits for exactly the count required
  (a decoder further behind may take the count for another one).
\<close>

theorem h3_answers_decode:
  assumes "h3_reach dv c A" and "A sid = Some (out, fs)" and "hq_streams c sid = Some s" and "qs_pending s \<or> qs_ric s = 0"
    and "received @ later = hq_sent c" and "qn_insert_count (hq_encoder c) < 2 ^ 32 - 1" and "length out < 2 ^ 62"
    and "table_size fs \<le> mx" and "mx < 2 ^ 32"
  shows "\<exists>blk d r. headers_payload out = Some blk \<and> peer_decoder c received = (True, d, r)
    \<and> (qs_ric s \<le> qd_insert_count d \<longrightarrow> (\<exists>d' arena'. q_decode collect d blk [] mx [] = (qr_ok, qs_ric s, d', arena', fs)))
    \<and> (qd_insert_count d < qs_ric s \<and> qs_ric s \<le> qd_insert_count d + qn_peer_capacity (hq_encoder c) div 32
       \<longrightarrow> q_decode collect d blk [] mx [] = (qr_blocked, qs_ric s, d, [], []))"
proof -
  obtain G where G: "session_inv dv (hq_encoder c) (hq_streams c) (hq_sent c) A G" using h3_reach_inv [OF assms(1)] by blast
  then have "length G < 2 ^ 32 - 1" using assms(6) by (simp add: session_inv_def q_inv_def core_ok_def)
  from answer_readable [OF G assms(3,2,4,5) this assms(8,9)] obtain blk d r where
    b: "out = append_h3_header [] 1 (of_nat (length blk)) @ blk" "peer_decoder c received = (True, d, r)"
    "qs_ric s \<le> qd_insert_count d \<longrightarrow> (\<exists>d' arena'. q_decode collect d blk [] mx [] = (qr_ok, qs_ric s, d', arena', fs))"
    "qd_insert_count d < qs_ric s \<and> qs_ric s \<le> qd_insert_count d + qn_peer_capacity (hq_encoder c) div 32
       \<longrightarrow> q_decode collect d blk [] mx [] = (qr_blocked, qs_ric s, d, [], [])" by blast
  have "length blk \<le> length out" by (simp add: b(1))
  then have "headers_payload out = Some blk" using headers_payload_frame [of blk] assms(7) b(1) by simp
  then show ?thesis using b(2-4) by (intro exI [of _ blk] exI [of _ d] exI [of _ r]) simp
qed

text \<open>A peer with a table of 70 bytes and two blocked streams, and answers that carry only the date.\<close>

definition demo_date :: "int \<Rightarrow> bytes" where
  "demo_date t = replicate 29 (of_int t)"

definition demo_answer :: "int \<Rightarrow> H3Answer" where
  "demo_answer t =
     \<lparr>ha_status = 200, ha_server = None, ha_now = t, ha_hsts = [], ha_prebuilt = [], ha_content_type = [],
      ha_content_encoding = [], ha_vary = False, ha_text = [], ha_extra = []\<rparr>"

definition demo_peer :: H3Qpack where
  "demo_peer = h3_new\<lparr>hq_encoder := q_set_peer q_encoder_new 70 2\<rparr>"

definition demo_turn :: "int \<Rightarrow> H3Qpack \<Rightarrow> H3Qpack \<times> bytes" where
  "demo_turn t c = build_head demo_date True (demo_answer t) (nat (4 * t)) (c\<lparr>hq_streams := (hq_streams c)(nat (4 * t) \<mapsto> q_section_new)\<rparr>)"

definition demo_closed :: "int \<Rightarrow> H3Qpack \<Rightarrow> H3Qpack" where
  "demo_closed t c = close_qpack (nat (4 * t)) (fst (demo_turn t c))"

lemma demo_peer_streams [simp]: "hq_streams demo_peer = Map.empty"
  by (simp add: demo_peer_def h3_new_def)

lemma demo_settings: "h3_reach demo_date demo_peer Map.empty"
proof -
  have "settings_loop 0 \<lparr>hs_qpack_capacity = 0, hs_qpack_blocked = 0, hs_max_field_section = - 1\<rparr> [1, 0x40, 70, 7, 2]
      = Some \<lparr>hs_qpack_capacity = 70, hs_qpack_blocked = 2, hs_max_field_section = - 1\<rparr>" by code_simp
  then have "apply_settings h3_new \<lparr>hs_qpack_capacity = 0, hs_qpack_blocked = 0, hs_max_field_section = - 1\<rparr> [1, 0x40, 70, 7, 2]
      = Some (demo_peer, \<lparr>hs_qpack_capacity = 70, hs_qpack_blocked = 2, hs_max_field_section = - 1\<rparr>)"
    by (simp add: apply_settings_def demo_peer_def h3_new_def)
  moreover have "qn_capacity (hq_encoder h3_new) = 0" by (simp add: h3_new_def q_encoder_new_def)
  ultimately show ?thesis using h3_reach.settings [OF h3_reach.start] by blast
qed

lemma demo_turn_reach:
  assumes "h3_reach demo_date c A" and "hq_streams c (nat (4 * t)) = None" and "A (nat (4 * t)) = None"
  shows "h3_reach demo_date (fst (demo_turn t c)) (A(nat (4 * t) \<mapsto> (snd (demo_turn t c), head_fields demo_date (demo_answer t))))"
  using h3_reach.answered [OF h3_reach.opened [OF assms], of "nat (4 * t)" q_section_new True "demo_answer t"] assms(3)
  by (simp add: demo_turn_def)

lemma demo_fields: "head_fields demo_date (demo_answer t) = [(n_status, bytes_of ''200''), (n_date, demo_date t)]"
  by (simp add: head_fields_def head_ops_def demo_answer_def status_text_def encode_text_block.simps [of "[]"])

lemma demo_first:
  "hq_sent (fst (demo_turn 1 demo_peer)) = [63, 39, 198, 29] @ demo_date 1"
  "snd (demo_turn 1 demo_peer) = [1, 4, 2, 128, 217, 16]"
  "hq_streams (fst (demo_turn 1 demo_peer)) 4 = Some \<lparr>qs_ric = 1, qs_refs = [0], qs_pending = True, qs_blocking = True\<rparr>"
  "qn_insert_count (hq_encoder (fst (demo_turn 1 demo_peer))) = 1"
  "qn_peer_capacity (hq_encoder (fst (demo_turn 1 demo_peer))) = 70"
  by code_simp+

text \<open>A decoder that has received the encoder stream of some inserts, and what it makes of the answers' block.\<close>

lemma demo_received:
  assumes "bs = stream_bytes 70 (map (\<lambda>t. (6, demo_date t)) ts)" and "ts \<noteq> []"
  obtains d r where "q_encoder_stream (q_decoder_new 70) bs = (True, d, r)" and "qd_insert_count d = length ts"
    and "qd_max_capacity d = 70" and "dt_ok (qd_table d)" and "dt_list (qd_table d) = fit 70 (rev (map (\<lambda>t. (n_date, demo_date t)) ts))"
proof -
  let ?G = "map (\<lambda>t. (6, demo_date t)) ts :: q_ins list"
  have fields: "map ins_field ?G = map (\<lambda>t. (n_date, demo_date t)) ts" by (simp add: ins_field_def static_rows)
  have "list_all (ins_ok 70) ?G"
    by (auto simp: list_all_iff ins_ok_def ins_field_def static_rows n_date_def bytes_of_def demo_date_def)
  from stream_prefix [of bs "[]" 70 ?G 70] this assms obtain d r where
    "q_encoder_stream (q_decoder_new 70) bs = (True, d, r)" "length ?G = 0 \<or> fed 70 70 ?G (length ?G) d" by auto
  then have d: "q_encoder_stream (q_decoder_new 70) bs = (True, d, r)" "fed 70 70 ?G (length ts) d" using assms(2) by simp_all
  then have "dt_list (qd_table d) = fit 70 (rev (map ins_field ?G))" by (simp only: fed_def) simp
  then show thesis using that [OF d(1)] d(2) unfolding fields by (simp add: fed_def)
qed

lemma h3_answers_decode_witness:
  "h3_reach demo_date (fst (demo_turn 1 demo_peer)) [4 \<mapsto> ([1, 4, 2, 128, 217, 16], [(n_status, bytes_of ''200''), (n_date, demo_date 1)])]
   \<and> (\<exists>d r d' arena'. peer_decoder (fst (demo_turn 1 demo_peer)) ([63, 39, 198, 29] @ demo_date 1) = (True, d, r)
      \<and> q_decode collect d [2, 128, 217, 16] [] 1000 [] = (qr_ok, 1, d', arena', [(n_status, bytes_of ''200''), (n_date, demo_date 1)]))
   \<and> (\<exists>d r. peer_decoder (fst (demo_turn 1 demo_peer)) [] = (True, d, r)
      \<and> q_decode collect d [2, 128, 217, 16] [] 1000 [] = (qr_blocked, 1, d, [], []))"
proof -
  let ?c = "fst (demo_turn 1 demo_peer)" and ?fs = "[(n_status, bytes_of ''200''), (n_date, demo_date 1)]"
  let ?A = "[4 \<mapsto> ([1, 4, 2, 128, 217, 16], ?fs)] :: nat \<rightharpoonup> bytes \<times> field list"
  have r: "h3_reach demo_date ?c ?A"
    using demo_turn_reach [OF demo_settings, of 1] by (simp add: demo_first(2) demo_fields)
  have sz: "table_size ?fs \<le> 1000" by (simp add: n_status_def n_date_def bytes_of_def demo_date_def)
  have hp: "headers_payload [1, 4, 2, 128, 217, 16] = Some [2, 128, 217, 16]" by code_simp
  note reads = h3_answers_decode [OF r, where sid = 4, OF _ demo_first(3) _ _ _ _ sz]
  have all: "[63, 39, 198, 29] @ demo_date 1 = stream_bytes 70 (map (\<lambda>t. (6, demo_date t)) [1])" by code_simp
  obtain d r where d: "q_encoder_stream (q_decoder_new 70) ([63, 39, 198, 29] @ demo_date 1) = (True, d, r)" "qd_insert_count d = 1"
    by (rule demo_received [OF all]) auto
  have 1: "\<exists>d r d' arena'. peer_decoder ?c ([63, 39, 198, 29] @ demo_date 1) = (True, d, r)
      \<and> q_decode collect d [2, 128, 217, 16] [] 1000 [] = (qr_ok, 1, d', arena', ?fs)"
    using reads [of _ "[63, 39, 198, 29] @ demo_date 1" "[]"] d by (auto simp: demo_first hp peer_decoder_def)
  have 2: "\<exists>d r. peer_decoder ?c [] = (True, d, r)
      \<and> q_decode collect d [2, 128, 217, 16] [] 1000 [] = (qr_blocked, 1, d, [], [])"
    using reads [of _ "[]" "[63, 39, 198, 29] @ demo_date 1"] by (auto simp: demo_first hp peer_decoder_def q_decoder_new_def)
  from r 1 2 show ?thesis by blast
qed


subsection \<open>The bounds of the encoder's table\<close>

lemma map_weight_card:
  assumes "finite (dom m)"
  shows "map_weight (\<lambda>s. if P s then 1 else (0 :: nat)) m = card {k. \<exists>s. m k = Some s \<and> P s}"
proof -
  have "{k. \<exists>s. m k = Some s \<and> P s} = {k \<in> dom m. P (the (m k))}" by auto
  then show ?thesis using assms by (simp add: map_weight_def sum.If_cases Int_def)
qed

lemma sum_map_mk_entry: "k \<le> length G \<Longrightarrow> sum_list (map qe_size (map (mk_entry G R) [k..<length G])) = table_size (map ins_field (drop k G))"
proof -
  assume "k \<le> length G"
  then have "map qe_size (map (mk_entry G R) [k..<length G]) = map field_size (map ins_field (drop k G))"
    by (intro nth_equalityI) (simp_all add: mk_entry_def)
  then show ?thesis by (simp only: table_size_def)
qed

text \<open>
  C15. The encoder stays within what the client allowed. Whatever the order of settings, answers, decoder stream
  bytes and closed streams, its entries have consecutive numbers up to the insert count and take exactly the recorded
  size, at most the smaller of the client's capacity and 1024 bytes; an entry's counter is the number of streams whose sections refer to
  it, all of these entries are held, and no section refers to an entry twice; the blocking counter is the number of
  streams that may block and is within the client's limit; the Known Received Count does not pass the insert count.
\<close>

theorem h3_table_within_bounds:
  assumes "h3_reach dv c A"
  shows "let e = hq_encoder c; m = hq_streams c in
      qn_size e = sum_list (map qe_size (qn_entries e)) \<and> qn_size e \<le> qn_capacity e \<and> qn_capacity e = min (qn_peer_capacity e) 1024
      \<and> map qe_abs (qn_entries e) = [qn_insert_count e - length (qn_entries e)..<qn_insert_count e]
      \<and> map qe_refs (qn_entries e) = map (\<lambda>x. card {sid. \<exists>s. m sid = Some s \<and> qe_abs x \<in> set (qs_refs s)}) (qn_entries e)
      \<and> (\<forall>sid s. m sid = Some s \<longrightarrow> distinct (qs_refs s) \<and> list_all (q_held e) (qs_refs s))
      \<and> qn_blocking e = card {sid. \<exists>s. m sid = Some s \<and> qs_blocking s} \<and> qn_blocking e \<le> qn_peer_blocked e
      \<and> qn_known e \<le> qn_insert_count e"
proof -
  let ?e = "hq_encoder c" and ?m = "hq_streams c"
  obtain G where G: "session_inv dv ?e ?m (hq_sent c) A G" using h3_reach_inv [OF assms] by blast
  then have core: "core_ok ?e G (refs_of ?m) (hq_sent c)" and so: "streams_ok ?m A G (qn_peer_capacity ?e)"
    by (simp_all add: session_inv_def q_inv_def)
  have fin: "finite (dom ?m)" using so by (simp add: streams_ok_def)
  obtain k where k: "holds_from ?e G (refs_of ?m) k" using core by (rule core_ok_holds)
  then have en: "qn_entries ?e = map (mk_entry G (refs_of ?m)) [k..<length G]" "k \<le> length G"
    "qn_size ?e = table_size (map ins_field (drop k G))" by (simp_all add: holds_from_def)
  have sz: "qn_size ?e = sum_list (map qe_size (qn_entries ?e))" unfolding en(1,3) sum_map_mk_entry [OF en(2)] ..
  have ab: "map qe_abs (qn_entries ?e) = [qn_insert_count ?e - length (qn_entries ?e)..<qn_insert_count ?e]"
    using en(2) by (simp add: en(1) core_okD(1) [OF core] comp_def mk_entry_def)
  have rf: "map qe_refs (qn_entries ?e) = map (\<lambda>x. card {sid. \<exists>s. ?m sid = Some s \<and> qe_abs x \<in> set (qs_refs s)}) (qn_entries ?e)"
    by (simp add: en(1) mk_entry_def refs_of_def sec_refs_def [abs_def] map_weight_card [OF fin])
  have ss: "distinct (qs_refs s) \<and> list_all (q_held ?e) (qs_refs s)" if "?m sid = Some s" for sid s
  proof (cases "qs_pending s")
    case True
    then have "distinct (qs_refs s)" using so that by (fastforce simp: streams_ok_def section_inv_def sec_ok_def)
    then show ?thesis using pending_refs(5) [OF G that True] by (simp add: list_all_iff)
  next
    case False
    then have "qs_refs s = []" using so that by (fastforce simp: streams_ok_def section_inv_def)
    then show ?thesis by simp
  qed
  have bl: "qn_blocking ?e = card {sid. \<exists>s. ?m sid = Some s \<and> qs_blocking s}" "qn_blocking ?e \<le> qn_peer_blocked ?e"
    using G map_weight_card [OF fin, of qs_blocking] by (simp_all add: session_inv_def blocking_of_def of_bool_def)
  show ?thesis
    unfolding Let_def using sz ab rf ss bl core_okD(1,2,4,6) [OF core] by (simp add: q_max_capacity_def)
qed

lemma h3_table_within_bounds_witness:
  "let e = hq_encoder (fst (demo_turn 1 demo_peer))
   in h3_reach demo_date (fst (demo_turn 1 demo_peer)) [4 \<mapsto> ([1, 4, 2, 128, 217, 16], [(n_status, bytes_of ''200''), (n_date, demo_date 1)])]
      \<and> qn_size e = 65 \<and> qn_capacity e = 70 \<and> qn_blocking e = 1 \<and> map qe_refs (qn_entries e) = [1]
      \<and> map qe_abs (qn_entries e) = [qn_insert_count e - length (qn_entries e)..<qn_insert_count e]
      \<and> qn_blocking e = card {sid. \<exists>s. hq_streams (fst (demo_turn 1 demo_peer)) sid = Some s \<and> qs_blocking s}"
proof -
  let ?c = "fst (demo_turn 1 demo_peer)"
  have r: "h3_reach demo_date ?c [4 \<mapsto> ([1, 4, 2, 128, 217, 16], [(n_status, bytes_of ''200''), (n_date, demo_date 1)])]"
    using demo_turn_reach [OF demo_settings, of 1] by (simp add: demo_first(2) demo_fields)
  have "qn_size (hq_encoder ?c) = 65" "qn_capacity (hq_encoder ?c) = 70" "qn_blocking (hq_encoder ?c) = 1"
    "map qe_refs (qn_entries (hq_encoder ?c)) = [1]" by code_simp+
  then show ?thesis using r h3_table_within_bounds [OF r] unfolding Let_def by blast
qed


subsection \<open>Answers that are lost\<close>

text \<open>What a decoder makes of the block \<open>:status: 200\<close>, the entry with absolute index zero.\<close>

lemma demo_block_read:
  assumes "dt_ok (qd_table d)" and "q_required d 2 = Some 1" and "1 \<le> qd_insert_count d"
  shows "q_field d 0 = None \<Longrightarrow> fst (q_decode collect d [2, 128, 217, 16] [] 1000 []) = qr_malformed"
    and "q_field d 0 = Some (n_date, demo_date t) \<Longrightarrow>
      \<exists>d' arena'. q_decode collect d [2, 128, 217, 16] [] 1000 [] = (qr_ok, 1, d', arena', [(n_status, bytes_of ''200''), (n_date, demo_date t)])"
proof -
  have "read_integer 8 [2, 128, 217, 16] = Some (2, [128, 217, 16])" "read_integer 7 [128, 217, 16] = Some (0, [217, 16])" by code_simp+
  then have p: "q_decode_prefix d [2, 128, 217, 16] = Some (1, 0, [217, 16])" using assms(2) by (simp add: q_decode_prefix_def)
  have r: "read_integer 6 [217, 16] = Some (25, [16])" "read_integer 4 [16] = Some (0, [])" by code_simp+
  have row: "q_static_table ! 25 = (n_status, bytes_of ''200'')" by code_simp
  have len: "length (q_static_table) = 99" by code_simp
  have l1: "q_line d 0 1 217 [217, 16] [] 0 1000
      = ([], Inr ([16], n_status, bytes_of ''200'', \<lparr>or_static = True, or_checked = None\<rparr>))"
    by (simp add: q_line_def q_line_indexed_def r row len)
  have n: "length n_status = 7" by (simp add: n_status_def bytes_of_def)
  let ?tl = "q_decode_lines collect d 0 1 [] 1000 42 [(n_status, bytes_of ''200'')] [16]"
  have "q_decode_lines collect d 0 1 [] 1000 0 [] [217, 16] = ?tl"
    by (subst q_decode_lines.simps(2)) (simp add: l1 [unfolded One_nat_def] collect_def n put_mark_def)
  then have dec: "q_decode collect d [2, 128, 217, 16] [] 1000 [] = (case ?tl of (r, d, arena, ctx) \<Rightarrow> (r, 1, d, arena, ctx))"
    using assms(3) by (cases ?tl) (simp add: q_decode_def p)
  show "fst (q_decode collect d [2, 128, 217, 16] [] 1000 []) = qr_malformed" if "q_field d 0 = None"
    using that by (simp add: dec q_decode_lines.simps(2) q_line_def q_line_post_base_def r q_dynamic_def q_field_def)
  show "\<exists>d' arena'. q_decode collect d [2, 128, 217, 16] [] 1000 [] = (qr_ok, 1, d', arena', [(n_status, bytes_of ''200''), (n_date, demo_date t)])"
    if "q_field d 0 = Some (n_date, demo_date t)"
    using that by (auto simp: dec q_decode_lines.simps(2) q_line_def q_line_post_base_def r q_dynamic_def q_field_def budget_def
        n_date_def demo_date_def bytes_of_def collect_def)
qed

lemma demo_second:
  "hq_streams (demo_closed 1 demo_peer) 8 = None"
  "hq_sent (fst (demo_turn 2 (demo_closed 1 demo_peer))) = stream_bytes 70 (map (\<lambda>t. (6, demo_date t)) [1, 2])"
  "qn_known (hq_encoder (fst (demo_turn 2 (demo_closed 1 demo_peer)))) = 0"
  "qn_peer_capacity (hq_encoder (fst (demo_turn 2 (demo_closed 1 demo_peer)))) = 70"
  "hq_sent (fst (demo_turn 2 (fst (demo_turn 1 demo_peer)))) = stream_bytes 70 (map (\<lambda>t. (6, demo_date t)) [1])"
  "qn_peer_capacity (hq_encoder (fst (demo_turn 2 (fst (demo_turn 1 demo_peer))))) = 70"
  "headers_payload [1, 4, 2, 128, 217, 16] = Some [2, 128, 217, 16]"
  by code_simp+

lemma demo_one_fits: "fit 70 [(n_date, demo_date t)] = [(n_date, demo_date t)]"
  by (rule fit_unique [where q = "[]"]) (simp_all add: n_date_def bytes_of_def demo_date_def)

text \<open>A client that has received just the first insert reads the block as the first answer.\<close>

lemma demo_first_read:
  assumes "bs = stream_bytes 70 (map (\<lambda>t. (6, demo_date t)) [1])"
  shows "\<exists>d r d' arena'. q_encoder_stream (q_decoder_new 70) bs = (True, d, r) \<and> qd_insert_count d = 1
    \<and> q_decode collect d [2, 128, 217, 16] [] 1000 [] = (qr_ok, 1, d', arena', [(n_status, bytes_of ''200''), (n_date, demo_date 1)])"
proof -
  obtain d r where d: "q_encoder_stream (q_decoder_new 70) bs = (True, d, r)" "qd_insert_count d = 1" "qd_max_capacity d = 70"
    "dt_ok (qd_table d)" "dt_list (qd_table d) = fit 70 [(n_date, demo_date 1)]" by (rule demo_received [OF assms]) auto
  have "q_field d 0 = Some (n_date, demo_date 1)" using d by (simp add: q_field_list demo_one_fits)
  moreover have "q_required d 2 = Some 1" using d(2,3) by (simp add: q_required_def)
  ultimately show ?thesis using demo_block_read(2) [OF d(4)] d(1,2) by fastforce
qed

text \<open>
  C38. The end of a stream releases the references of its section although the client has not acknowledged it. A client allows
  a table for one date; the answer on stream 4 refers to the date it inserts and is sent whole, the stream ends and is closed, and
  the answer on stream 8 one second later evicts the entry. The client has sent nothing on its decoder stream: the section was pending
  when the stream was closed and no insert is known to be received. Reading the encoder stream before stream 4, it
  has both inserts, but the section of stream 4 refers to an entry that is gone: it is malformed, a connection error.
  Had the stream not been closed, the same second answer would have kept the entry, and the section
  reads as it was written.
\<close>

theorem closed_section_unreadable:
  "let c1 = fst (demo_turn 1 demo_peer); out = snd (demo_turn 1 demo_peer); fs = head_fields demo_date (demo_answer 1);
       c = fst (demo_turn 2 (close_qpack 4 c1)); c' = fst (demo_turn 2 c1) in
     (\<exists>A. h3_reach demo_date c A \<and> A 4 = Some (out, fs))
     \<and> (\<exists>s. hq_streams c1 4 = Some s \<and> qs_pending s) \<and> qn_known (hq_encoder c) = 0
     \<and> (\<exists>blk. headers_payload out = Some blk
         \<and> (\<exists>d r. peer_decoder c (hq_sent c) = (True, d, r) \<and> qd_insert_count d = 2 \<and> fst (q_decode collect d blk [] 1000 []) = qr_malformed)
         \<and> (\<exists>d r d' arena'. peer_decoder c' (hq_sent c') = (True, d, r) \<and> q_decode collect d blk [] 1000 [] = (qr_ok, 1, d', arena', fs)))"
proof -
  let ?c1 = "fst (demo_turn 1 demo_peer)" and ?f = "\<lambda>t. (n_date, demo_date t)"
  let ?c = "fst (demo_turn 2 (close_qpack 4 ?c1))" and ?c' = "fst (demo_turn 2 ?c1)"
  let ?out = "[1, 4, 2, 128, 217, 16] :: bytes" and ?fs = "head_fields demo_date (demo_answer 1)"
  have cl: "close_qpack 4 ?c1 = demo_closed 1 demo_peer" by (simp add: demo_closed_def)
  note second = demo_second [folded cl]
  have "h3_reach demo_date (close_qpack 4 ?c1) [4 \<mapsto> (?out, ?fs)]"
    using h3_reach.closed [OF demo_turn_reach [OF demo_settings, of 1], of 4] by (simp add: demo_first(2))
  from demo_turn_reach [OF this, of 2] have
    "h3_reach demo_date ?c [4 \<mapsto> (?out, ?fs), 8 \<mapsto> (snd (demo_turn 2 (close_qpack 4 ?c1)), head_fields demo_date (demo_answer 2))]"
    using second(1) by simp
  then have r: "\<exists>A. h3_reach demo_date ?c A \<and> A 4 = Some (?out, ?fs)"
    by (intro exI [of _ "[4 \<mapsto> (?out, ?fs), 8 \<mapsto> (snd (demo_turn 2 (close_qpack 4 ?c1)), head_fields demo_date (demo_answer 2))]"]) simp
  obtain d r where d: "q_encoder_stream (q_decoder_new 70) (hq_sent ?c) = (True, d, r)" "qd_insert_count d = 2" "qd_max_capacity d = 70"
    "dt_ok (qd_table d)" "dt_list (qd_table d) = fit 70 [?f 2, ?f 1]" by (rule demo_received [OF second(2)]) auto
  have "fit 70 [?f 2, ?f 1] = [?f 2]"
    by (rule fit_unique [where q = "[?f 1]"]) (simp_all add: n_date_def bytes_of_def demo_date_def)
  then have "q_field d 0 = None" using d by (simp add: q_field_list)
  moreover have "q_required d 2 = Some 1" using d(2,3) by (simp add: q_required_def)
  ultimately have "fst (q_decode collect d [2, 128, 217, 16] [] 1000 []) = qr_malformed" using demo_block_read(1) d(2,4) by simp
  then have bad: "\<exists>d r. peer_decoder ?c (hq_sent ?c) = (True, d, r) \<and> qd_insert_count d = 2 \<and> fst (q_decode collect d [2, 128, 217, 16] [] 1000 []) = qr_malformed"
    using d(1,2) second(4) by (auto simp: peer_decoder_def)
  have good: "\<exists>d r d' arena'. peer_decoder ?c' (hq_sent ?c') = (True, d, r) \<and> q_decode collect d [2, 128, 217, 16] [] 1000 [] = (qr_ok, 1, d', arena', ?fs)"
    using demo_first_read [OF second(5)] by (auto simp: peer_decoder_def second(6) demo_fields)
  show ?thesis unfolding Let_def demo_first(2) using r bad good demo_first(3) second(3,7) by simp
qed

text \<open>Answers second after second on the streams 4, 8, 12, \<open>\<dots>\<close>, each sent whole and closed before the next.\<close>

lemma demo_closed_reach:
  assumes "h3_reach demo_date c A" and "hq_streams c = Map.empty" and "A (nat (4 * t)) = None"
  shows "h3_reach demo_date (demo_closed t c) (A(nat (4 * t) \<mapsto> (snd (demo_turn t c), head_fields demo_date (demo_answer t))))"
    and "hq_streams (demo_closed t c) = Map.empty"
  using h3_reach.closed [OF demo_turn_reach [OF assms(1) _ assms(3)], of "nat (4 * t)"] assms(2)
  by (simp_all add: demo_closed_def demo_turn_def build_head_def close_qpack_def Let_def split: prod.splits)

definition demo_free :: "H3Qpack \<Rightarrow> int \<Rightarrow> bool" where
  "demo_free c t \<longleftrightarrow> (\<exists>A. h3_reach demo_date c A \<and> hq_streams c = Map.empty \<and> (\<forall>i \<ge> t. A (nat (4 * i)) = None))"

lemma demo_free_peer: "demo_free demo_peer 1"
  using demo_settings by (auto simp: demo_free_def)

lemma demo_free_closed:
  assumes "demo_free c t" and "0 \<le> t"
  shows "demo_free (demo_closed t c) (t + 1)"
proof -
  obtain A where "h3_reach demo_date c A" "hq_streams c = Map.empty" "\<forall>i \<ge> t. A (nat (4 * i)) = None"
    using assms(1) by (auto simp: demo_free_def)
  then show ?thesis unfolding demo_free_def using demo_closed_reach [of c A t] assms(2)
    by (intro exI conjI) (assumption | simp add: nat_eq_iff)+
qed

lemma demo_fifth:
  "let c = fst (demo_turn 5 (demo_closed 4 (demo_closed 3 (demo_closed 2 (demo_closed 1 demo_peer)))))
   in snd (demo_turn 5 (demo_closed 4 (demo_closed 3 (demo_closed 2 (demo_closed 1 demo_peer))))) = [1, 4, 2, 128, 217, 16]
      \<and> hq_streams c 20 = Some \<lparr>qs_ric = 5, qs_refs = [4], qs_pending = True, qs_blocking = True\<rparr>
      \<and> qn_known (hq_encoder c) = 0 \<and> qn_insert_count (hq_encoder c) = 5 \<and> map qe_abs (qn_entries (hq_encoder c)) = [4]
      \<and> take 33 (hq_sent c) = stream_bytes 70 (map (\<lambda>t. (6, demo_date t)) [1]) \<and> qn_peer_capacity (hq_encoder c) = 70"
  by code_simp

text \<open>
  C39. The Required Insert Count of an answer can be read as another one. It is sent modulo twice the entries the client's
  table can have, which identifies it only while no insert beyond those entries is unacknowledged; the encoder evicts
  unreferenced entries without waiting for the client to acknowledge their insertion. Five answers, each closed before the next, make five
  inserts of which the client has acknowledged none; four of them are evicted, unacknowledged. The fifth answer requires five
  inserts; the client has received the first insert of the encoder
  stream. Instead of waiting it takes the count for one, and reads the fifth answer with the date of the first.
\<close>

theorem wrapped_count_misread:
  "let c4 = demo_closed 4 (demo_closed 3 (demo_closed 2 (demo_closed 1 demo_peer)));
       c = fst (demo_turn 5 c4); out = snd (demo_turn 5 c4); e = hq_encoder c in
     (\<exists>A. h3_reach demo_date c A \<and> A 20 = Some (out, [(n_status, bytes_of ''200''), (n_date, demo_date 5)]))
     \<and> qn_known e = 0 \<and> qn_insert_count e = 5 \<and> map qe_abs (qn_entries e) = [4]
     \<and> (\<exists>s blk d r d' arena'. hq_streams c 20 = Some s \<and> qs_pending s \<and> qs_ric s = 5 \<and> headers_payload out = Some blk
         \<and> peer_decoder c (take 33 (hq_sent c)) = (True, d, r) \<and> qd_insert_count d = 1
         \<and> q_decode collect d blk [] 1000 [] = (qr_ok, 1, d', arena', [(n_status, bytes_of ''200''), (n_date, demo_date 1)]))"
proof -
  let ?c4 = "demo_closed 4 (demo_closed 3 (demo_closed 2 (demo_closed 1 demo_peer)))"
  let ?c = "fst (demo_turn 5 ?c4)" and ?out = "[1, 4, 2, 128, 217, 16] :: bytes"
  let ?fs = "[(n_status, bytes_of ''200''), (n_date, demo_date 5)]"
  note fifth = demo_fifth [unfolded Let_def]
  have "demo_free ?c4 5" using demo_free_closed [OF demo_free_closed [OF demo_free_closed [OF demo_free_closed [OF demo_free_peer]]]] by simp
  then obtain A where A: "h3_reach demo_date ?c4 A" "hq_streams ?c4 = Map.empty" "A 20 = None" by (fastforce simp: demo_free_def)
  have "h3_reach demo_date ?c (A(20 \<mapsto> (?out, ?fs)))"
    using demo_turn_reach [of ?c4 A 5] A fifth by (simp add: demo_fields)
  then have r: "\<exists>A. h3_reach demo_date ?c A \<and> A 20 = Some (?out, ?fs)" by (intro exI [of _ "A(20 \<mapsto> (?out, ?fs))"]) simp
  have p: "peer_decoder ?c bs = q_encoder_stream (q_decoder_new 70) bs" for bs using fifth by (simp add: peer_decoder_def)
  have first: "take 33 (hq_sent ?c) = stream_bytes 70 (map (\<lambda>t. (6, demo_date t)) [1])" using fifth by blast
  obtain d r d' arena' where d: "peer_decoder ?c (take 33 (hq_sent ?c)) = (True, d, r)" "qd_insert_count d = 1"
    "q_decode collect d [2, 128, 217, 16] [] 1000 [] = (qr_ok, 1, d', arena', [(n_status, bytes_of ''200''), (n_date, demo_date 1)])"
    using demo_first_read [OF first] unfolding p by blast
  have out: "snd (demo_turn 5 ?c4) = ?out" using fifth by blast
  show ?thesis unfolding Let_def out using r fifth d demo_second(7) by simp
qed

end
