(* ===== verification/Net_Cidr.thy ===== *)
theory Net_Cidr
  imports Http_Text
begin

text \<open>
  Address ranges (\<^verbatim>\<open>src/net/cidr.hpp\<close>): parsing \<open>10.0.0.0/8\<close> and \<open>fd00::/8\<close>, the masked words an entry keeps, and
  matching a client as two word compares. Addresses are the ip library's; what the file uses of it is
  the record \<open>AsioIp\<close>, a parameter of the definitions, and \<open>asio_ok\<close> states the documented behaviour the
  theorems rely on. Theorems: an entry contains exactly the clients of its family whose first \<open>prefix\<close>
  bits are its own, and \<open>within\<close> is sound.
\<close>

unbundle bit_operations_syntax

record 'a AsioIp =
  is_v6 :: "'a \<Rightarrow> bool"
  is_v4_mapped :: "'a \<Rightarrow> bool"
  v6_bytes :: "'a \<Rightarrow> bytes"
  v4_bytes :: "'a \<Rightarrow> bytes"
  make_v4_mapped :: "'a \<Rightarrow> 'a"
  make_address :: "bytes \<Rightarrow> 'a option"
  text_v6 :: "bytes \<Rightarrow> bytes"
  text_v4 :: "bytes \<Rightarrow> bytes"

definition unmapped :: "'a AsioIp \<Rightarrow> 'a \<Rightarrow> 'a" where
  "unmapped io a = (if is_v6 io a \<and> is_v4_mapped io a then make_v4_mapped io a else a)"

record Cidr =
  cd_bytes :: bytes
  cd_prefix :: nat
  cd_v6 :: bool
  net_hi :: u64
  net_lo :: u64
  mask_hi :: u64
  mask_lo :: u64

definition cidr_new :: Cidr where
  "cidr_new = \<lparr>cd_bytes = replicate 16 0, cd_prefix = 0, cd_v6 = False, net_hi = 0, net_lo = 0, mask_hi = 0, mask_lo = 0\<rparr>"

definition cidr_word :: "bytes \<Rightarrow> nat \<Rightarrow> u64" where
  "cidr_word b from = foldl (\<lambda>w i. push_bit 8 w OR ucast (b ! (from + i))) 0 [0..<8]"

definition finish :: "Cidr \<Rightarrow> Cidr" where
  "finish c =
     (let p = cd_prefix c;
          mh = if p = 0 then 0 else if p \<ge> 64 then NOT 0 else push_bit (64 - p) (NOT 0);
          ml = if p \<le> 64 then 0 else if p \<ge> 128 then NOT 0 else push_bit (128 - p) (NOT 0) in
      c\<lparr>mask_hi := mh, mask_lo := ml, net_hi := cidr_word (cd_bytes c) 0 AND mh, net_lo := cidr_word (cd_bytes c) 8 AND ml\<rparr>)"

record Key =
  key_hi :: u64
  key_lo :: u64
  key_v6 :: bool

text \<open>The 16 bytes of a client: its IPv6 bytes, or its IPv4 bytes in the first four.\<close>

definition addr_bytes :: "'a AsioIp \<Rightarrow> 'a \<Rightarrow> bytes" where
  "addr_bytes io a =
     (if is_v6 io a then v6_bytes io a
      else let v4 = v4_bytes io a in foldl (\<lambda>b i. b[i := v4 ! i]) (replicate 16 0) [0..<4])"

definition key_of :: "'a AsioIp \<Rightarrow> 'a \<Rightarrow> Key" where
  "key_of io given =
     (let a = unmapped io given; b = addr_bytes io a in
      \<lparr>key_hi = cidr_word b 0, key_lo = cidr_word b 8, key_v6 = is_v6 io a\<rparr>)"

definition cidr_matches :: "Cidr \<Rightarrow> Key \<Rightarrow> bool" where
  "cidr_matches c k \<longleftrightarrow> key_v6 k = cd_v6 c \<and> key_hi k AND mask_hi c = net_hi c \<and> key_lo k AND mask_lo c = net_lo c"

definition cidr_contains :: "'a AsioIp \<Rightarrow> Cidr \<Rightarrow> 'a \<Rightarrow> bool" where
  "cidr_contains io c given = cidr_matches c (key_of io given)"

definition within :: "Cidr \<Rightarrow> Cidr \<Rightarrow> bool" where
  "within c outer \<longleftrightarrow> cd_v6 c = cd_v6 outer \<and> cd_prefix c \<ge> cd_prefix outer
     \<and> net_hi c AND mask_hi outer = net_hi outer \<and> net_lo c AND mask_lo outer = net_lo outer"

definition cidr_text :: "'a AsioIp \<Rightarrow> Cidr \<Rightarrow> bytes" where
  "cidr_text io c = (if cd_v6 c then text_v6 io (take 16 (cd_bytes c)) else text_v4 io (take 4 (cd_bytes c)))
     @ [c_slash] @ decimal (cd_prefix c)"

text \<open>Each error is the message of its branch, without the text it quotes.\<close>

datatype CidrError = bad_prefix_length | zone_id | not_an_address | prefix_out_of_range | mapped_range_prefix

fun prefix_loop :: "nat \<Rightarrow> bytes \<Rightarrow> nat option" where
  "prefix_loop prefix [] = Some prefix"
| "prefix_loop prefix (c # p) =
     (if c < 0x30 \<or> c > 0x39 then None else prefix_loop (prefix * 10 + unat (c - 0x30)) p)"

text \<open>The address and, when there is a slash, the prefix length after it.\<close>

definition split_prefix :: "bytes \<Rightarrow> CidrError + bytes \<times> nat option" where
  "split_prefix text =
     (case find_byte c_slash text of
        None \<Rightarrow> Inr (text, None)
      | Some slash \<Rightarrow>
          let p = drop (slash + 1) text in
          if p = [] \<or> length p > 3 then Inl bad_prefix_length
          else (case prefix_loop 0 p of
                  None \<Rightarrow> Inl bad_prefix_length
                | Some prefix \<Rightarrow> Inr (take slash text, Some prefix)))"

definition parse_cidr :: "'a AsioIp \<Rightarrow> bytes \<Rightarrow> CidrError + Cidr" where
  "parse_cidr io text =
     (case split_prefix text of
        Inl e \<Rightarrow> Inl e
      | Inr (ip, prefix) \<Rightarrow>
          if c_percent \<in> set ip then Inl zone_id
          else (case make_address io ip of
            None \<Rightarrow> Inl not_an_address
          | Some a \<Rightarrow>
              let given_max = if is_v6 io a then 128 else 32 in
              if (case prefix of Some n \<Rightarrow> n > given_max | None \<Rightarrow> False) then Inl prefix_out_of_range
              else let mapped = is_v6 io a \<and> is_v4_mapped io a in
                if mapped \<and> (case prefix of Some n \<Rightarrow> n < 96 | None \<Rightarrow> False) then Inl mapped_range_prefix
                else let a = if mapped then unmapped io a else a;
                         prefix = if mapped then map_option (\<lambda>n. n - 96) prefix else prefix;
                         v6 = is_v6 io a;
                         prefix = (case prefix of None \<Rightarrow> if v6 then 128 else 32 | Some n \<Rightarrow> n) in
                  Inr (finish (cidr_new\<lparr>cd_v6 := v6, cd_prefix := prefix, cd_bytes := addr_bytes io a\<rparr>))))"

fun in_any_loop :: "Cidr list \<Rightarrow> Key \<Rightarrow> bool" where
  "in_any_loop [] k = False"
| "in_any_loop (c # cs) k = (if cidr_matches c k then True else in_any_loop cs k)"

definition in_any :: "'a AsioIp \<Rightarrow> Cidr list \<Rightarrow> 'a \<Rightarrow> bool" where
  "in_any io ranges a = (if ranges = [] then False else in_any_loop ranges (key_of io a))"


subsection \<open>Masked words are prefixes\<close>

text \<open>
  The documented behaviour of the ip library: an address is four or sixteen bytes, and the IPv4 address
  a mapped one stands for is not an IPv6 address.
\<close>

definition asio_ok :: "'a AsioIp \<Rightarrow> bool" where
  "asio_ok io \<longleftrightarrow> (\<forall>a. is_v6 io a \<longrightarrow> length (v6_bytes io a) = 16) \<and> (\<forall>a. \<not> is_v6 io a \<longrightarrow> length (v4_bytes io a) = 4)
     \<and> (\<forall>a. is_v6 io a \<longrightarrow> is_v4_mapped io a \<longrightarrow> \<not> is_v6 io (make_v4_mapped io a))"

text \<open>Bit \<open>i\<close> of an address, the most significant first.\<close>

definition addr_bit :: "bytes \<Rightarrow> nat \<Rightarrow> bool" where
  "addr_bit b i = bit (b ! (i div 8)) (7 - i mod 8)"

lemma bit_be_word:
  fixes a :: "'a::len word"
  shows "n < LENGTH('a) \<Longrightarrow> bit (be_word a bs) n =
     (if n < 8 * length bs then bit (bs ! (length bs - 1 - n div 8)) (n mod 8) else bit a (n - 8 * length bs))"
proof (induction bs arbitrary: n rule: rev_induct)
  case (snoc b bs)
  show ?case
  proof (cases "n < 8")
    case True
    then show ?thesis using snoc.prems by (simp add: bit_simps nth_append)
  next
    case False
    define m where "m = n - 8"
    have n: "n = m + 8" using False by (simp add: m_def)
    have "bit (be_word a (bs @ [b])) n = bit (be_word a bs) m"
      using snoc.prems by (auto simp: bit_simps n dest: bit_imp_le_length)
    moreover have "(m + 8) div 8 = Suc (m div 8)" by simp
    ultimately show ?thesis using snoc.IH [of m] snoc.prems by (auto simp: n nth_append)
  qed
qed simp

lemma cidr_word_eq: "from + 8 \<le> length b \<Longrightarrow> cidr_word b from = be_word 0 (take 8 (drop from b))"
proof -
  assume a: "from + 8 \<le> length b"
  have "take 8 (drop from b) = map (\<lambda>i. b ! (from + i)) [0..<8]"
    using a by (intro nth_equalityI) auto
  then show ?thesis by (simp add: cidr_word_def be_word_def foldl_map)
qed

lemma bit_cidr_word:
  assumes "from + 8 \<le> length b" "j < 64"
  shows "bit (cidr_word b from) (63 - j) = addr_bit b (8 * from + j)"
proof -
  let ?bs = "take 8 (drop from b)"
  have l: "length ?bs = 8" using assms by simp
  define q r where "q = j div 8" and "r = j mod 8"
  have qr: "j = 8 * q + r" "q < 8" "r < 8" using assms(2) by (auto simp: q_def r_def)
  have "63 - j = (7 - r) + 8 * (7 - q)" using qr by linarith
  then have "(63 - j) div 8 = 7 - j div 8" "(63 - j) mod 8 = 7 - j mod 8"
    unfolding q_def [symmetric] r_def [symmetric] by simp_all
  moreover have "?bs ! (j div 8) = b ! (from + j div 8)" using assms by (simp add: less_mult_imp_div_less)
  moreover have "7 - (7 - j div 8) = j div 8" using assms(2) by (simp add: less_mult_imp_div_less)
  moreover have "bit (be_word (0 :: u64) ?bs) (63 - j) = bit (?bs ! (7 - (63 - j) div 8)) ((63 - j) mod 8)"
    using bit_be_word [of "63 - j" "0 :: u64" ?bs] assms(2) l by simp
  moreover have "(8 * from + j) div 8 = from + j div 8" "(8 * from + j) mod 8 = j mod 8" by simp_all
  ultimately show ?thesis by (simp only: cidr_word_eq [OF assms(1)] addr_bit_def)
qed

lemma masked_eq_iff: "a AND m = b AND m \<longleftrightarrow> (\<forall>j<64. bit m (63 - j) \<longrightarrow> bit a (63 - j) = bit b (63 - j))" for a b m :: u64
proof -
  have "a AND m = b AND m \<longleftrightarrow> (\<forall>n<64. bit m n \<longrightarrow> bit a n = bit b n)"
    by (auto simp: bit_eq_iff bit_and_iff)
  also have "\<dots> \<longleftrightarrow> (\<forall>j<64. bit m (63 - j) \<longrightarrow> bit a (63 - j) = bit b (63 - j))"
  proof
    assume *: "\<forall>j<64. bit m (63 - j) \<longrightarrow> bit a (63 - j) = bit b (63 - j)"
    show "\<forall>n<64. bit m n \<longrightarrow> bit a n = bit b n"
    proof (intro allI impI)
      fix n :: nat assume "n < 64" "bit m n"
      then show "bit a n = bit b n" using * [rule_format, of "63 - n"] by simp
    qed
  qed auto
  finally show ?thesis .
qed

text \<open>An entry as \<open>finish\<close> leaves it, its prefix within its family.\<close>

definition cidr_ok :: "Cidr \<Rightarrow> bool" where
  "cidr_ok c \<longleftrightarrow> length (cd_bytes c) = 16 \<and> cd_prefix c \<le> (if cd_v6 c then 128 else 32) \<and> finish c = c"

lemma mask_bits:
  assumes "finish c = c" "j < 64"
  shows "bit (mask_hi c) (63 - j) \<longleftrightarrow> j < cd_prefix c" and "bit (mask_lo c) (63 - j) \<longleftrightarrow> 64 + j < cd_prefix c"
proof -
  have h: "mask_hi c = (if cd_prefix c = 0 then 0 else if cd_prefix c \<ge> 64 then NOT 0 else push_bit (64 - cd_prefix c) (NOT 0))"
    and l: "mask_lo c = (if cd_prefix c \<le> 64 then 0 else if cd_prefix c \<ge> 128 then NOT 0 else push_bit (128 - cd_prefix c) (NOT 0))"
    by (subst assms(1) [symmetric], simp add: finish_def Let_def)+
  show "bit (mask_hi c) (63 - j) \<longleftrightarrow> j < cd_prefix c" "bit (mask_lo c) (63 - j) \<longleftrightarrow> 64 + j < cd_prefix c"
    unfolding h l using assms(2) by (auto simp: bit_simps)
qed

lemma net_words: "finish c = c \<Longrightarrow> net_hi c = cidr_word (cd_bytes c) 0 AND mask_hi c \<and> net_lo c = cidr_word (cd_bytes c) 8 AND mask_lo c"
proof -
  assume a: "finish c = c"
  have "net_hi (finish c) = cidr_word (cd_bytes c) 0 AND mask_hi (finish c) \<and> net_lo (finish c) = cidr_word (cd_bytes c) 8 AND mask_lo (finish c)"
    by (simp add: finish_def Let_def)
  then show ?thesis using a by simp
qed

lemma words_prefix:
  assumes ok: "cidr_ok c" and b: "length b = 16"
  shows "cidr_word b 0 AND mask_hi c = net_hi c \<and> cidr_word b 8 AND mask_lo c = net_lo c
    \<longleftrightarrow> (\<forall>i < cd_prefix c. addr_bit b i = addr_bit (cd_bytes c) i)"
proof -
  have f: "finish c = c" and c: "length (cd_bytes c) = 16" and p: "cd_prefix c \<le> 128"
    using ok by (auto simp: cidr_ok_def split: if_splits)
  have hi: "cidr_word b 0 AND mask_hi c = net_hi c \<longleftrightarrow> (\<forall>j<64. j < cd_prefix c \<longrightarrow> addr_bit b j = addr_bit (cd_bytes c) j)"
    using net_words [OF f] by (simp add: masked_eq_iff mask_bits [OF f] bit_cidr_word b c)
  have lo: "cidr_word b 8 AND mask_lo c = net_lo c
      \<longleftrightarrow> (\<forall>j<64. 64 + j < cd_prefix c \<longrightarrow> addr_bit b (64 + j) = addr_bit (cd_bytes c) (64 + j))"
    using net_words [OF f] by (simp add: masked_eq_iff mask_bits [OF f] bit_cidr_word b c)
  show ?thesis
  proof
    assume "\<forall>i<cd_prefix c. addr_bit b i = addr_bit (cd_bytes c) i"
    then show "cidr_word b 0 AND mask_hi c = net_hi c \<and> cidr_word b 8 AND mask_lo c = net_lo c" unfolding hi lo by simp
  next
    assume a: "cidr_word b 0 AND mask_hi c = net_hi c \<and> cidr_word b 8 AND mask_lo c = net_lo c"
    show "\<forall>i<cd_prefix c. addr_bit b i = addr_bit (cd_bytes c) i"
    proof (intro allI impI)
      fix i assume i: "i < cd_prefix c"
      show "addr_bit b i = addr_bit (cd_bytes c) i"
      proof (cases "i < 64")
        case True
        then show ?thesis using a i unfolding hi by blast
      next
        case False
        then have "i = 64 + (i - 64)" "i - 64 < 64" using i p by simp_all
        then show ?thesis using a i unfolding lo by metis
      qed
    qed
  qed
qed

lemma addr_bytes_v4: "length (v4_bytes io a) = 4 \<Longrightarrow> \<not> is_v6 io a \<Longrightarrow> addr_bytes io a = v4_bytes io a @ replicate 12 0"
proof -
  assume "length (v4_bytes io a) = 4" "\<not> is_v6 io a"
  then obtain w x y z where "v4_bytes io a = [w, x, y, z]" by (auto simp: length_Suc_conv numeral_eq_Suc)
  then show ?thesis using \<open>\<not> is_v6 io a\<close> by (simp add: addr_bytes_def Let_def upt_rec numeral_eq_Suc)
qed

lemma length_addr_bytes: "asio_ok io \<Longrightarrow> length (addr_bytes io a) = 16"
  by (cases "is_v6 io a") (simp_all add: addr_bytes_v4 asio_ok_def, simp add: addr_bytes_def)

lemma contains_prefix:
  assumes "asio_ok io" "cidr_ok c"
  shows "cidr_contains io c a \<longleftrightarrow> is_v6 io (unmapped io a) = cd_v6 c
    \<and> (\<forall>i < cd_prefix c. addr_bit (addr_bytes io (unmapped io a)) i = addr_bit (cd_bytes c) i)"
  using words_prefix [OF assms(2) length_addr_bytes [OF assms(1), of "unmapped io a"]]
  by (auto simp: cidr_contains_def cidr_matches_def key_of_def Let_def)

lemma parse_cidr_ok:
  assumes io: "asio_ok io" and p: "parse_cidr io text = Inr c"
  shows "cidr_ok c"
proof -
  obtain ip prefix a where s: "split_prefix text = Inr (ip, prefix)" "make_address io ip = Some a"
    using p by (auto simp: parse_cidr_def Let_def split: sum.splits prod.splits option.splits if_splits)
  define mapped where "mapped = (is_v6 io a \<and> is_v4_mapped io a)"
  define a' where "a' = (if mapped then unmapped io a else a)"
  define prefix' where "prefix' = (if mapped then map_option (\<lambda>n. n - 96) prefix else prefix)"
  define n where "n = (case prefix' of None \<Rightarrow> if is_v6 io a' then 128 else 32 | Some n \<Rightarrow> n)"
  have c: "c = finish (cidr_new\<lparr>cd_v6 := is_v6 io a', cd_prefix := n, cd_bytes := addr_bytes io a'\<rparr>)"
    and r: "\<not> (case prefix of Some n \<Rightarrow> n > (if is_v6 io a then 128 else 32) | None \<Rightarrow> False)"
    using p by (auto simp: parse_cidr_def s mapped_def a'_def prefix'_def n_def Let_def split: if_splits)
  have "mapped \<Longrightarrow> \<not> is_v6 io a'" using io by (simp add: mapped_def a'_def unmapped_def asio_ok_def)
  then have "n \<le> (if is_v6 io a' then 128 else 32)"
    using r by (auto simp: n_def prefix'_def a'_def mapped_def split: option.splits if_splits)
  moreover have "finish (finish x) = finish x" for x by (simp add: finish_def Let_def)
  moreover have "cd_v6 (finish x) = cd_v6 x" "cd_prefix (finish x) = cd_prefix x" "cd_bytes (finish x) = cd_bytes x" for x
    by (simp_all add: finish_def Let_def)
  ultimately show ?thesis using length_addr_bytes [OF io] by (simp add: cidr_ok_def c)
qed

lemma within_contains:
  assumes io: "asio_ok io" and ok: "cidr_ok c" "cidr_ok outer" and w: "within c outer" and "cidr_contains io c a"
  shows "cidr_contains io outer a"
proof -
  have f: "finish c = c" "finish outer = outer" and l: "length (cd_bytes c) = 16" using ok by (auto simp: cidr_ok_def)
  have sub: "mask_hi c AND mask_hi outer = mask_hi outer" "mask_lo c AND mask_lo outer = mask_lo outer"
  proof -
    have m: "x AND m = m" if "\<And>j. j < 64 \<Longrightarrow> bit m (63 - j) \<Longrightarrow> bit x (63 - j)" for x m :: u64
      using masked_eq_iff [of x m m] that by simp
    show "mask_hi c AND mask_hi outer = mask_hi outer" "mask_lo c AND mask_lo outer = mask_lo outer"
      by (rule m; use w mask_bits [OF f(1)] mask_bits [OF f(2)] in \<open>auto simp: within_def\<close>)+
  qed
  have n: "net_hi c = cidr_word (cd_bytes c) 0 AND mask_hi c" "net_lo c = cidr_word (cd_bytes c) 8 AND mask_lo c"
    using net_words [OF f(1)] by simp_all
  have "cidr_word (cd_bytes c) 0 AND mask_hi outer = net_hi outer \<and> cidr_word (cd_bytes c) 8 AND mask_lo outer = net_lo outer"
    using w unfolding within_def n by (simp add: and.assoc sub)
  then have "\<forall>i < cd_prefix outer. addr_bit (cd_bytes c) i = addr_bit (cd_bytes outer) i"
    using words_prefix [OF ok(2) l] by simp
  then show ?thesis
    using assms(5) w unfolding contains_prefix [OF io ok(1)] contains_prefix [OF io ok(2)] by (auto simp: within_def)
qed

lemma in_any_iff: "in_any io cs a \<longleftrightarrow> (\<exists>c\<in>set cs. cidr_contains io c a)"
proof -
  have "in_any_loop cs k \<longleftrightarrow> (\<exists>c\<in>set cs. cidr_matches c k)" for k by (induction cs) auto
  then show ?thesis by (auto simp: in_any_def cidr_contains_def)
qed

text \<open>
  C35. An address range means its prefix. Whatever text the loader accepts, the entry contains exactly
  the clients of its family (a mapped client being the IPv4 one it maps) whose first \<open>prefix\<close> bits are
  the bits written, the prefix being at most 32 or 128: the two masked word compares neither admit a
  client outside the range nor refuse one inside. And an entry that passes \<open>within\<close> another contains no
  client the other does not.
\<close>

theorem cidr_prefix_match:
  assumes "asio_ok io" and "parse_cidr io text = Inr c"
  shows "(cidr_contains io c a \<longleftrightarrow> is_v6 io (unmapped io a) = cd_v6 c
      \<and> (\<forall>i < cd_prefix c. addr_bit (addr_bytes io (unmapped io a)) i = addr_bit (cd_bytes c) i))
    \<and> cd_prefix c \<le> (if cd_v6 c then 128 else 32)
    \<and> (\<forall>text' outer. parse_cidr io text' = Inr outer \<longrightarrow> within c outer \<longrightarrow> cidr_contains io c a \<longrightarrow> cidr_contains io outer a)"
proof -
  have ok: "cidr_ok c" by (rule parse_cidr_ok [OF assms])
  moreover have "cd_prefix c \<le> (if cd_v6 c then 128 else 32)" using ok by (simp add: cidr_ok_def)
  ultimately show ?thesis
    using contains_prefix [OF assms(1)] within_contains [OF assms(1)] parse_cidr_ok [OF assms(1)] by blast
qed

text \<open>An ip library that reads and writes addresses as raw bytes.\<close>

definition raw_ip :: "bytes AsioIp" where
  "raw_ip = \<lparr>is_v6 = (\<lambda>a. length a = 16), is_v4_mapped = (\<lambda>a. take 12 a = replicate 10 0 @ [255, 255]), v6_bytes = (\<lambda>a. a),
     v4_bytes = (\<lambda>a. take 4 (a @ replicate 4 0)), make_v4_mapped = (\<lambda>a. drop 12 a),
     make_address = (\<lambda>s. if length s = 4 \<or> length s = 16 then Some s else None), text_v6 = (\<lambda>b. b), text_v4 = (\<lambda>b. b)\<rparr>"

lemma cidr_prefix_match_witness:
  "\<exists>c. parse_cidr raw_ip [10, 0, 0, 0, c_slash, 0x38] = Inr c \<and> cidr_contains raw_ip c [10, 1, 2, 3] \<and> \<not> cidr_contains raw_ip c [11, 1, 2, 3]"
proof -
  have io: "asio_ok raw_ip" by (auto simp: asio_ok_def raw_ip_def min_def)
  define c where "c = (case parse_cidr raw_ip [10, 0, 0, 0, c_slash, 0x38] of Inr c \<Rightarrow> c | Inl _ \<Rightarrow> cidr_new)"
  have p: "parse_cidr raw_ip [10, 0, 0, 0, c_slash, 0x38] = Inr c" and f: "cd_prefix c = 8" "cd_v6 c = False" "cd_bytes c = 10 # replicate 15 0"
    unfolding c_def by code_simp+
  have b: "addr_bytes raw_ip (unmapped raw_ip [10, 1, 2, 3]) = [10, 1, 2, 3] @ replicate 12 0" "\<not> is_v6 raw_ip (unmapped raw_ip [10, 1, 2, 3])"
    "addr_bytes raw_ip (unmapped raw_ip [11, 1, 2, 3]) = [11, 1, 2, 3] @ replicate 12 0"
    by code_simp+
  have "addr_bit ([10, 1, 2, 3] @ replicate 12 0) i = addr_bit (10 # replicate 15 0) i" if "i < 8" for i
    using that by (simp add: addr_bit_def)
  then have "cidr_contains raw_ip c [10, 1, 2, 3]" using cidr_prefix_match [OF io p, of "[10, 1, 2, 3]"] b f by auto
  moreover have "addr_bit ([11, 1, 2, 3] @ replicate 12 0) 7 \<noteq> addr_bit (10 # replicate 15 0) 7" by (simp add: addr_bit_def)
  then have "\<not> cidr_contains raw_ip c [11, 1, 2, 3]" using cidr_prefix_match [OF io p, of "[11, 1, 2, 3]"] b f by auto
  ultimately show ?thesis using p by blast
qed

end
