(* ===== verification/Forwarded.thy ===== *)
theory Forwarded
  imports Net_Cidr
begin

text \<open>
  The client behind a trusted proxy (\<^verbatim>\<open>src/core/forwarded.hpp\<close>): the walk over the X-Forwarded-For entries from
  the right, and the scheme of X-Forwarded-Proto. \<open>ConnectionInfo\<close> keeps the fields the walk sets.
  Theorem: the client is the entry left of the longest run of trusted hops at the end of the list,
  read over all the lines as one.
\<close>

record 'a ConnectionInfo =
  client_address :: bytes
  client_ip :: 'a
  forwarded_https :: bool

definition valid_port :: "bytes \<Rightarrow> bool" where
  "valid_port s =
     (if s = [] \<or> length s > 5 then False
      else if \<not> list_all is_digit s then False
      else let v = foldl (\<lambda>v c. v * 10 + unat (c - 0x30)) 0 s in v \<ge> 1 \<and> v \<le> 65535)"

text \<open>An entry without its port and brackets; \<open>None\<close> when it is garbage, which stops the walk.\<close>

definition strip_entry :: "bytes \<Rightarrow> bytes option" where
  "strip_entry entry =
     (if hd entry = 0x5b then
        (case find_byte 0x5d entry of
           None \<Rightarrow> None
         | Some close \<Rightarrow>
             let port = drop (close + 1) entry in
             if \<not> (port = [] \<or> length port > 1 \<and> port ! 0 = c_colon \<and> valid_port (drop 1 port)) then None
             else Some (take (close - 1) (drop 1 entry)))
      else
        (case find_byte c_colon entry of
           Some colon \<Rightarrow>
             if find_from c_colon entry (colon + 1) = None then
               (if \<not> valid_port (drop (colon + 1) entry) then None else Some (take colon entry))
             else Some entry
         | None \<Rightarrow> Some entry))"

text \<open>One entry: \<open>done\<close> and what the connection then knows.\<close>

definition fwd_entry :: "'a AsioIp \<Rightarrow> Cidr list \<Rightarrow> bytes \<Rightarrow> 'a ConnectionInfo \<Rightarrow> bool \<times> 'a ConnectionInfo" where
  "fwd_entry io trusted entry conn =
     (case strip_entry entry of
        None \<Rightarrow> (True, conn)
      | Some entry \<Rightarrow>
          (case make_address io entry of
             None \<Rightarrow> (True, conn)
           | Some given \<Rightarrow>
               if c_percent \<in> set entry then (True, conn)
               else let a = unmapped io given;
                        storage = if a = given then entry else text_v4 io (v4_bytes io a);
                        conn = conn\<lparr>client_address := storage, client_ip := a\<rparr> in
                 (\<not> in_any io trusted a, conn)))"

lemma rfind_split:
  assumes "rfind_byte c s = Some i"
  shows "i < length s" "s = take i s @ c # drop (Suc i) s" "c \<notin> set (drop (Suc i) s)"
proof -
  obtain j where j: "find_byte c (rev s) = Some j" "i = length s - 1 - j" using assms by (auto simp: rfind_byte_def)
  note f = find_byte_SomeD [OF j(1)]
  show i: "i < length s" using f j(2) by auto
  have "s ! i = c" using f j(2) rev_nth [of j s] by simp
  then show "s = take i s @ c # drop (Suc i) s" using i by (metis id_take_nth_drop)
  have "rev (take j (rev s)) = drop (length s - j) s" by (simp add: take_rev)
  then have "set (drop (length s - j) s) = set (take j (rev s))" by (metis set_rev)
  moreover have "Suc i = length s - j" using f j(2) by auto
  ultimately show "c \<notin> set (drop (Suc i) s)" using f by metis
qed

function fwd_line :: "'a AsioIp \<Rightarrow> Cidr list \<Rightarrow> bytes \<Rightarrow> 'a ConnectionInfo \<Rightarrow> bool \<times> 'a ConnectionInfo" where
  "fwd_line io trusted xff conn =
     (if xff = [] then (False, conn)
      else let entry = (case rfind_byte c_comma xff of None \<Rightarrow> xff | Some comma \<Rightarrow> drop (comma + 1) xff);
               rest = (case rfind_byte c_comma xff of None \<Rightarrow> [] | Some comma \<Rightarrow> take comma xff);
               entry = trim entry in
        if entry = [] then fwd_line io trusted rest conn
        else (case fwd_entry io trusted entry conn of
                (True, conn) \<Rightarrow> (True, conn)
              | (False, conn) \<Rightarrow> fwd_line io trusted rest conn))"
  by pat_completeness auto
termination
  by (relation "measure (\<lambda>(io, trusted, xff, conn). length xff)") (auto split: option.splits dest: rfind_split(1))

declare fwd_line.simps [simp del]

text \<open>The lines from the last to the first.\<close>

fun fwd_lines :: "'a AsioIp \<Rightarrow> Cidr list \<Rightarrow> Headers \<Rightarrow> 'a ConnectionInfo \<Rightarrow> bool \<times> 'a ConnectionInfo" where
  "fwd_lines io trusted [] conn = (False, conn)"
| "fwd_lines io trusted (f # fs) conn =
     (if \<not> iequals (fst f) (bytes_of ''x-forwarded-for'') then fwd_lines io trusted fs conn
      else case fwd_line io trusted (snd f) conn of
             (True, conn) \<Rightarrow> (True, conn)
           | (False, conn) \<Rightarrow> fwd_lines io trusted fs conn)"

fun fwd_proto :: "Headers \<Rightarrow> bool" where
  "fwd_proto [] = False"
| "fwd_proto (f # fs) =
     (if \<not> iequals (fst f) (bytes_of ''x-forwarded-proto'') then fwd_proto fs
      else let proto = (case rfind_byte c_comma (snd f) of None \<Rightarrow> snd f | Some comma \<Rightarrow> drop (comma + 1) (snd f)) in
        iequals (trim proto) (bytes_of ''https''))"

definition resolve_forwarded :: "'a AsioIp \<Rightarrow> Headers \<Rightarrow> Cidr list \<Rightarrow> 'a ConnectionInfo \<Rightarrow> 'a ConnectionInfo" where
  "resolve_forwarded io h trusted conn =
     (let conn = snd (fwd_lines io trusted (rev h) conn) in conn\<lparr>forwarded_https := fwd_proto (rev h)\<rparr>)"


subsection \<open>The rightmost hop that is not ours\<close>

text \<open>All the lines as one list, and the address an entry names.\<close>

definition line_entries :: "bytes \<Rightarrow> bytes list" where
  "line_entries xff = filter (\<lambda>e. e \<noteq> []) (map trim (split_on c_comma xff))"

definition xff_entries :: "Headers \<Rightarrow> bytes list" where
  "xff_entries h = concat (map (line_entries \<circ> snd) (filter (\<lambda>f. iequals (fst f) (bytes_of ''x-forwarded-for'')) h))"

definition entry_address :: "'a AsioIp \<Rightarrow> bytes \<Rightarrow> (bytes \<times> 'a) option" where
  "entry_address io entry =
     (case Option.bind (strip_entry entry) (\<lambda>e. map_option (Pair e) (make_address io e)) of
        Some (e, given) \<Rightarrow>
          if c_percent \<in> set e then None
          else Some ((if unmapped io given = given then e else text_v4 io (v4_bytes io (unmapped io given))), unmapped io given)
      | None \<Rightarrow> None)"

definition trusted_hop :: "'a AsioIp \<Rightarrow> Cidr list \<Rightarrow> bytes \<Rightarrow> bool" where
  "trusted_hop io trusted e = (case entry_address io e of Some (t, a) \<Rightarrow> in_any io trusted a | None \<Rightarrow> False)"

fun hop_walk :: "'a AsioIp \<Rightarrow> Cidr list \<Rightarrow> bytes list \<Rightarrow> 'a ConnectionInfo \<Rightarrow> bool \<times> 'a ConnectionInfo" where
  "hop_walk io trusted [] conn = (False, conn)"
| "hop_walk io trusted (e # es) conn =
     (case fwd_entry io trusted e conn of (True, conn) \<Rightarrow> (True, conn) | (False, conn) \<Rightarrow> hop_walk io trusted es conn)"

lemma fwd_entry_address:
  "fwd_entry io trusted e conn =
     (case entry_address io e of
        None \<Rightarrow> (True, conn)
      | Some (t, a) \<Rightarrow> (\<not> in_any io trusted a, conn\<lparr>client_address := t, client_ip := a\<rparr>))"
  by (auto simp: fwd_entry_def entry_address_def Let_def split: option.splits)

lemma hop_walk_append:
  "hop_walk io trusted (xs @ ys) conn = (case hop_walk io trusted xs conn of (True, c) \<Rightarrow> (True, c) | (False, c) \<Rightarrow> hop_walk io trusted ys c)"
  by (induction xs arbitrary: conn) (auto split: prod.splits bool.splits)

lemma split_on_snoc: "c \<notin> set t \<Longrightarrow> split_on c (s @ c # t) = split_on c s @ [t]"
proof (induction s)
  case Nil
  then show ?case by (simp add: split_on_none)
next
  case (Cons x s)
  then show ?case by (cases "split_on c s") auto
qed

lemma line_entries_rfind:
  "line_entries xff = (case rfind_byte c_comma xff of None \<Rightarrow> [] | Some i \<Rightarrow> line_entries (take i xff))
     @ (let e = trim (case rfind_byte c_comma xff of None \<Rightarrow> xff | Some i \<Rightarrow> drop (i + 1) xff) in if e = [] then [] else [e])"
proof (cases "rfind_byte c_comma xff")
  case None
  then have "c_comma \<notin> set xff" by (simp add: rfind_byte_def)
  then show ?thesis using None by (simp add: line_entries_def split_on_none Let_def)
next
  case (Some i)
  note r = rfind_split [OF Some]
  have "split_on c_comma xff = split_on c_comma (take i xff) @ [drop (Suc i) xff]"
    by (subst r(2)) (rule split_on_snoc [OF r(3)])
  then show ?thesis using Some by (simp add: line_entries_def Let_def)
qed

lemma fwd_line_walk: "fwd_line io trusted xff conn = hop_walk io trusted (rev (line_entries xff)) conn"
proof (induction io trusted xff conn rule: fwd_line.induct)
  case (1 io trusted xff conn)
  let ?e = "trim (case rfind_byte c_comma xff of None \<Rightarrow> xff | Some comma \<Rightarrow> drop (comma + 1) xff)"
  let ?r = "case rfind_byte c_comma xff of None \<Rightarrow> [] | Some comma \<Rightarrow> take comma xff"
  have n: "line_entries [] = []" by (simp add: line_entries_def trim_def)
  have l: "line_entries xff = line_entries ?r @ (if ?e = [] then [] else [?e])"
    by (subst line_entries_rfind) (simp add: Let_def n split: option.split)
  show ?case
  proof (cases "xff = []")
    case True
    then show ?thesis by (simp add: fwd_line.simps n)
  next
    case False
    have unf: "fwd_line io trusted xff conn = (if ?e = [] then fwd_line io trusted ?r conn
        else (case fwd_entry io trusted ?e conn of (True, conn) \<Rightarrow> (True, conn) | (False, conn) \<Rightarrow> fwd_line io trusted ?r conn))"
      using False by (subst fwd_line.simps) (simp only: Let_def if_False)
    show ?thesis
      unfolding unf l using 1(1) [OF False refl refl refl] 1(2) [OF False refl refl refl]
      by (auto split: prod.splits bool.splits)
  qed
qed

lemma fwd_lines_walk: "fwd_lines io trusted fs conn = hop_walk io trusted (rev (xff_entries (rev fs))) conn"
proof (induction fs arbitrary: conn)
  case (Cons f fs)
  then show ?case by (auto simp: xff_entries_def fwd_line_walk hop_walk_append split: prod.splits bool.splits)
qed (simp add: xff_entries_def)

text \<open>The client the entries name: the last address among the trusted hops and the entry left of them.\<close>

primrec last_some :: "'b option list \<Rightarrow> 'b option" where
  "last_some [] = None"
| "last_some (x # xs) = (case last_some xs of None \<Rightarrow> x | Some y \<Rightarrow> Some y)"

lemma last_some_snoc: "last_some (xs @ [x]) = (case x of None \<Rightarrow> last_some xs | Some y \<Rightarrow> Some y)"
  by (induction xs) (auto split: option.splits)

lemma last_some_all: "None \<notin> set xs \<Longrightarrow> last_some xs = (if xs = [] then None else last xs)"
  by (induction xs rule: rev_induct) (auto simp: last_some_snoc split: option.split)

definition named_client :: "'a AsioIp \<Rightarrow> Cidr list \<Rightarrow> bytes list \<Rightarrow> (bytes \<times> 'a) option" where
  "named_client io trusted es =
     (let hops = takeWhile (trusted_hop io trusted) es in
      last_some (map (entry_address io) (hops @ take 1 (drop (length hops) es))))"

lemma named_client_simps:
  "named_client io trusted [] = None"
  "named_client io trusted (e # es) =
     (case entry_address io e of
        None \<Rightarrow> None
      | Some (t, a) \<Rightarrow> if in_any io trusted a then (case named_client io trusted es of None \<Rightarrow> Some (t, a) | Some x \<Rightarrow> Some x) else Some (t, a))"
  by (auto simp: named_client_def trusted_hop_def split: option.split)

lemma hop_walk_client:
  "snd (hop_walk io trusted es conn) =
     (case named_client io trusted es of None \<Rightarrow> conn | Some (t, a) \<Rightarrow> conn\<lparr>client_address := t, client_ip := a\<rparr>)"
  by (induction es arbitrary: conn) (auto simp: named_client_simps fwd_entry_address split: option.split)

text \<open>The proxy nearest to us says the scheme: the last value of the last line.\<close>

definition nearest_proto :: "Headers \<Rightarrow> bytes" where
  "nearest_proto h =
     (let ls = filter (\<lambda>f. iequals (fst f) (bytes_of ''x-forwarded-proto'')) h in
      if ls = [] then [] else trim (last (split_on c_comma (snd (last ls)))))"

lemma last_split_on:
  "last (split_on c s) = (case rfind_byte c s of None \<Rightarrow> s | Some i \<Rightarrow> drop (i + 1) s)"
proof (cases "rfind_byte c s")
  case None
  then have "c \<notin> set s" by (simp add: rfind_byte_def)
  then show ?thesis using None by (simp add: split_on_none)
next
  case (Some i)
  note r = rfind_split [OF Some]
  have "split_on c s = split_on c (take i s) @ [drop (Suc i) s]" by (subst r(2)) (rule split_on_snoc [OF r(3)])
  then show ?thesis using Some by simp
qed

lemma fwd_proto_nearest: "fwd_proto (rev h) = iequals (nearest_proto h) (bytes_of ''https'')"
proof (induction h rule: rev_induct)
  case (snoc f h)
  then show ?case by (auto simp: nearest_proto_def last_split_on Let_def)
qed (simp add: nearest_proto_def iequals_def)

text \<open>
  C18. A client behind trusted proxies is the rightmost hop that is not one of ours. All the
  X-Forwarded-For lines read as one list of entries from the right: over the longest run of trusted hops,
  the client is the entry left of it; when that one names no address, or there is none, it is the last
  trusted hop, and the peer itself when there is no trusted hop. So what a client writes to the left of a
  hop that is not trusted is never read. The scheme is the last value of the last X-Forwarded-Proto line.
\<close>

theorem forwarded_client:
  "resolve_forwarded io h trusted conn =
     (let es = rev (xff_entries h); hops = takeWhile (trusted_hop io trusted) es; left = drop (length hops) es;
          hop = (if left \<noteq> [] \<and> entry_address io (hd left) \<noteq> None then entry_address io (hd left)
                 else if hops \<noteq> [] then entry_address io (last hops) else None);
          https = iequals (nearest_proto h) (bytes_of ''https'') in
      case hop of None \<Rightarrow> conn\<lparr>forwarded_https := https\<rparr>
      | Some (t, a) \<Rightarrow> conn\<lparr>client_address := t, client_ip := a, forwarded_https := https\<rparr>)"
proof -
  define es where "es = rev (xff_entries h)"
  define hops where "hops = takeWhile (trusted_hop io trusted) es"
  have all: "entry_address io e \<noteq> None" if "e \<in> set hops" for e
    using set_takeWhileD [OF that [unfolded hops_def]] by (auto simp: trusted_hop_def split: option.splits)
  then have f: "None \<notin> set (map (entry_address io) hops)" by force
  have "named_client io trusted es =
      (let left = drop (length hops) es in
       if left \<noteq> [] \<and> entry_address io (hd left) \<noteq> None then entry_address io (hd left)
       else if hops \<noteq> [] then entry_address io (last hops) else None)"
    unfolding named_client_def hops_def [symmetric] Let_def using last_some_all [OF f]
    by (cases "drop (length hops) es") (auto simp: last_map last_some_snoc split: option.split)
  then show ?thesis
    unfolding resolve_forwarded_def Let_def fwd_lines_walk rev_rev_ident hop_walk_client fwd_proto_nearest es_def [symmetric] hops_def [symmetric]
    by (auto split: option.split)
qed

end
