(* ===== verification/Site_Router.thy ===== *)
theory Site_Router
  imports Http_Text "HOL-Library.Product_Lexorder"
begin

text \<open>
  Routing (\<^verbatim>\<open>src/core/router.hpp\<close>, \<^verbatim>\<open>router.cpp\<close>): which site answers a Host and which of a site's locations
  serves a path, with the host names of \<^verbatim>\<open>src/core/host.hpp\<close> and the script a path runs
  (\<^verbatim>\<open>src/core/script_split.hpp\<close>). Of the configuration's structures the records keep the fields these
  read. A site is known by its number, as the code knows it by its address; whether a file exists is
  a parameter.
\<close>

text \<open>\<open>s.starts_with(p)\<close>, \<open>s.find(p)\<close> and \<open>s.find(p, pos)\<close> on views.\<close>

definition starts_with :: "bytes \<Rightarrow> bytes \<Rightarrow> bool" where
  "starts_with s p \<longleftrightarrow> take (length p) s = p"

fun find_str :: "bytes \<Rightarrow> bytes \<Rightarrow> nat option" where
  "find_str p [] = (if p = [] then Some 0 else None)"
| "find_str p (x # xs) = (if starts_with (x # xs) p then Some 0 else map_option Suc (find_str p xs))"

definition find_str_from :: "bytes \<Rightarrow> bytes \<Rightarrow> nat \<Rightarrow> nat option" where
  "find_str_from p s pos = (if pos > length s then None else map_option (\<lambda>i. pos + i) (find_str p (drop pos s)))"

lemma find_str_Some: "find_str p s = Some i \<Longrightarrow> i + length p \<le> length s \<and> take (length p) (drop i s) = p"
proof (induction s arbitrary: i)
  case (Cons x xs)
  show ?case
  proof (cases "starts_with (x # xs) p")
    case True
    then have "length p \<le> length (x # xs)" unfolding starts_with_def by (metis length_take min.cobounded1)
    then show ?thesis using Cons.prems True by (auto simp: starts_with_def)
  next
    case False
    then obtain j where "find_str p xs = Some j" "i = Suc j" using Cons.prems by auto
    then show ?thesis using Cons.IH by auto
  qed
qed (auto split: if_splits)

lemma find_str_from_Some: "find_str_from p s pos = Some i \<Longrightarrow> pos \<le> i \<and> i + length p \<le> length s \<and> take (length p) (drop i s) = p"
  by (auto simp: find_str_from_def add.commute split: if_splits dest!: find_str_Some)

datatype HandlerKind = hk_static | hk_fastcgi | hk_proxy | hk_cgi | hk_control | hk_httparena | hk_auth

record LocationConfig =
  lc_path :: bytes
  lc_exact :: bool
  lc_script_exact :: bool
  lc_suffix :: bool
  lc_final :: bool
  lc_script_dir :: bytes
  lc_root :: bytes
  lc_alias :: bytes
  lc_index :: "bytes list"
  lc_kind :: HandlerKind
  lc_path_info :: bool

function script_in_from :: "bytes \<Rightarrow> bytes \<Rightarrow> bytes \<Rightarrow> nat \<Rightarrow> bool" where
  "script_in_from path suffix dir pos =
     (case find_str_from suffix path pos of
        None \<Rightarrow> False
      | Some p \<Rightarrow>
          let e = p + length suffix in
          if e \<noteq> length path \<and> path ! e \<noteq> c_slash then script_in_from path suffix dir (p + 1)
          else let script = take e path in
            starts_with script dir \<and> c_slash \<notin> set (drop (length dir) script))"
  by pat_completeness auto
termination by (relation "measure (\<lambda>(path, suffix, dir, pos). Suc (length path) - pos)") (auto dest!: find_str_from_Some)

declare script_in_from.simps [simp del]

definition script_in :: "bytes \<Rightarrow> bytes \<Rightarrow> bytes \<Rightarrow> bool" where
  "script_in path suffix dir = script_in_from path suffix dir 0"

function suffix_hit_from :: "bytes \<Rightarrow> bytes \<Rightarrow> nat \<Rightarrow> bool" where
  "suffix_hit_from path suffix pos =
     (case find_str_from suffix path pos of
        None \<Rightarrow> False
      | Some p \<Rightarrow>
          let e = p + length suffix in
          if e = length path \<or> path ! e = c_slash then True else suffix_hit_from path suffix (p + 1))"
  by pat_completeness auto
termination by (relation "measure (\<lambda>(path, suffix, pos). Suc (length path) - pos)") (auto dest!: find_str_from_Some)

declare suffix_hit_from.simps [simp del]

definition suffix_hit :: "bytes \<Rightarrow> bytes \<Rightarrow> bool" where
  "suffix_hit path suffix = suffix_hit_from path suffix 0"

text \<open>One pass over the locations; \<open>suffix\<close> is the first suffix location that fits so far.\<close>

fun location_loop :: "bytes \<Rightarrow> LocationConfig option \<Rightarrow> LocationConfig list \<Rightarrow> LocationConfig option" where
  "location_loop path suffix [] = suffix"
| "location_loop path suffix (loc # locs) =
     (if lc_exact loc then
        (if path = lc_path loc then Some loc
         else if lc_script_exact loc \<and> length path > length (lc_path loc) \<and> path ! length (lc_path loc) = c_slash
                 \<and> starts_with path (lc_path loc) then Some loc
         else location_loop path suffix locs)
      else if lc_suffix loc then
        location_loop path
          (if suffix = None \<and> suffix_hit path (lc_path loc)
              \<and> (lc_script_dir loc = [] \<or> script_in path (lc_path loc) (lc_script_dir loc)) then Some loc else suffix) locs
      else if starts_with path (lc_path loc) then
        (if lc_final loc \<or> suffix = None then Some loc else suffix)
      else location_loop path suffix locs)"

definition location :: "LocationConfig list \<Rightarrow> bytes \<Rightarrow> LocationConfig" where
  "location locations path =
     (case location_loop path None locations of Some loc \<Rightarrow> loc | None \<Rightarrow> last locations)"

text \<open>The script a path runs (\<^verbatim>\<open>script_split.hpp\<close>).\<close>

definition php_end :: "bytes \<Rightarrow> nat option" where
  "php_end path = (case find_str (bytes_of ''.php/'') path of None \<Rightarrow> None | Some p \<Rightarrow> Some (p + 4))"

definition file_of :: "LocationConfig \<Rightarrow> bytes \<Rightarrow> bytes" where
  "file_of loc path =
     (if lc_alias loc = [] then lc_root loc @ path
      else lc_alias loc @ drop (min (length path) (length (lc_path loc) - 1)) path)"

lemma rfind_byte_less: "rfind_byte c s = Some i \<Longrightarrow> i < length s"
  by (auto simp: rfind_byte_def dest: find_byte_SomeD)

function cgi_end_loop :: "(bytes \<Rightarrow> bool) \<Rightarrow> LocationConfig \<Rightarrow> bytes \<Rightarrow> nat \<Rightarrow> nat" where
  "cgi_end_loop is_file loc path ct =
     (if ct = 0 then 0
      else if is_file (file_of loc (take ct path)) then ct
      else case rfind_byte c_slash (take ct path) of
          None \<Rightarrow> 0
        | Some slash \<Rightarrow> if slash = 0 then 0 else cgi_end_loop is_file loc path slash)"
  by pat_completeness auto
termination by (relation "measure (\<lambda>(f, l, p, ct). ct)") (auto dest!: rfind_byte_less)

declare cgi_end_loop.simps [simp del]

definition cgi_end :: "(bytes \<Rightarrow> bool) \<Rightarrow> LocationConfig \<Rightarrow> bytes \<Rightarrow> nat" where
  "cgi_end is_file loc path = cgi_end_loop is_file loc path (length path)"

text \<open>Host names (\<^verbatim>\<open>host.hpp\<close>): without port, brackets and the trailing dot, in lower case.\<close>

definition strip_port :: "bytes \<Rightarrow> bytes" where
  "strip_port host =
     (if hd host = 0x5b then (case find_byte 0x5d host of Some close \<Rightarrow> slice host 1 (close - 1) | None \<Rightarrow> host)
      else (case rfind_byte c_colon host of Some colon \<Rightarrow> slice host 0 colon | None \<Rightarrow> host))"

definition strip_dot :: "bytes \<Rightarrow> bytes" where
  "strip_dot host = (if host \<noteq> [] \<and> last host = c_dot then butlast host else host)"

definition normalize_host :: "bytes \<Rightarrow> bytes" where
  "normalize_host host =
     (if host = [] then []
      else let host = strip_dot (strip_port host) in if length host > 253 then [] else map lower host)"

record CertNames =
  cn_exact :: "bytes list"
  cn_wildcard :: "bytes list"

definition cert_add :: "CertNames \<Rightarrow> bytes \<Rightarrow> CertNames" where
  "cert_add c name =
     (let n = normalize_host name in
      if n = [] then c
      else if length n > 2 \<and> n ! 0 = c_star \<and> n ! 1 = c_dot \<and> c_star \<notin> set (drop 1 n)
        then c\<lparr>cn_wildcard := cn_wildcard c @ [drop 1 n]\<rparr>
      else if c_star \<notin> set n then c\<lparr>cn_exact := cn_exact c @ [n]\<rparr> else c)"

definition cert_wild :: "bytes \<Rightarrow> bytes \<Rightarrow> bool" where
  "cert_wild h w =
     (if length h \<le> length w \<or> drop (length h - length w) h \<noteq> w then False
      else let label = take (length h - length w) h in label \<noteq> [] \<and> c_dot \<notin> set label)"

definition cert_covers :: "CertNames \<Rightarrow> bytes \<Rightarrow> bool" where
  "cert_covers c host =
     (let h = normalize_host host in
      if h = [] then False
      else if h \<in> set (cn_exact c) then True else list_ex (cert_wild h) (cn_wildcard c))"

definition cert_empty :: "CertNames \<Rightarrow> bool" where
  "cert_empty c \<longleftrightarrow> cn_exact c = [] \<and> cn_wildcard c = []"

text \<open>The table of names of a listener (\<^verbatim>\<open>router.cpp\<close>).\<close>

record Router =
  by_name :: "(bytes \<times> nat) list"
  default_site :: "nat option"
  single :: bool

definition router_new :: Router where
  "router_new = \<lparr>by_name = [], default_site = None, single = False\<rparr>"

fun add_names :: "nat \<Rightarrow> bytes list \<Rightarrow> Router \<Rightarrow> Router" where
  "add_names site [] r = r"
| "add_names site (name # names) r =
     add_names site names
       (if name = [c_star] then (if default_site r = None then r\<lparr>default_site := Some site\<rparr> else r)
        else if map_of (by_name r) name = None then r\<lparr>by_name := by_name r @ [(name, site)]\<rparr> else r)"

definition add_site :: "nat \<Rightarrow> bytes list \<Rightarrow> bool \<Rightarrow> Router \<Rightarrow> Router" where
  "add_site site server_names is_default r =
     (let r = add_names site server_names r;
          r = if is_default \<and> default_site r = None then r\<lparr>default_site := Some site\<rparr> else r in
      r\<lparr>single := (default_site r \<noteq> None \<and> list_all (\<lambda>e. Some (snd e) = default_site r) (by_name r))\<rparr>)"

definition router_site :: "Router \<Rightarrow> bytes \<Rightarrow> nat option" where
  "router_site r host =
     (if single r \<or> host = [] then default_site r
      else let host = strip_dot (strip_port host) in
        if length host > 253 then default_site r
        else case map_of (by_name r) (map lower host) of None \<Rightarrow> default_site r | Some s \<Rightarrow> Some s)"

text \<open>The order the loader gives the locations (\<^verbatim>\<open>config.cpp\<close>, \<open>finalize_site\<close>).\<close>

definition loc_rank :: "LocationConfig \<Rightarrow> nat" where
  "loc_rank l = (if lc_exact l then 0 else if lc_suffix l then 1 else 2)"

definition ends_with :: "bytes \<Rightarrow> bytes \<Rightarrow> bool" where
  "ends_with s t \<longleftrightarrow> length t \<le> length s \<and> drop (length s - length t) s = t"

definition mark_script :: "LocationConfig \<Rightarrow> LocationConfig" where
  "mark_script l = l\<lparr>lc_script_exact :=
     (lc_exact l \<and> ends_with (lc_path l) (bytes_of ''.php'') \<and> find_str (bytes_of ''.php/'') (lc_path l) = None)\<rparr>"

definition finalize_locations :: "LocationConfig list \<Rightarrow> LocationConfig list" where
  "finalize_locations locs = sort_key (\<lambda>l. (loc_rank l, - int (length (lc_path l)))) (map mark_script locs)"


subsection \<open>The name table\<close>

text \<open>
  The site of a Host, without the table: the first site that lists the name, or else the listener's
  catch-all, the first site that says so.
\<close>

definition add_sites :: "(bytes list \<times> bool) list \<Rightarrow> Router" where
  "add_sites sites = fold (\<lambda>(i, names, dflt). add_site i names dflt) (enumerate 0 sites) router_new"

definition first_site :: "(bytes list \<times> bool \<Rightarrow> bool) \<Rightarrow> (bytes list \<times> bool) list \<Rightarrow> nat option" where
  "first_site P sites = map_option fst (find (\<lambda>(i, s). P s) (enumerate 0 sites))"

definition catch_all :: "bytes list \<times> bool \<Rightarrow> bool" where
  "catch_all s \<longleftrightarrow> [c_star] \<in> set (fst s) \<or> snd s"

definition lists_name :: "bytes \<Rightarrow> bytes list \<times> bool \<Rightarrow> bool" where
  "lists_name name s \<longleftrightarrow> name \<noteq> [c_star] \<and> name \<in> set (fst s)"

lemma find_append: "find P (xs @ ys) = (case find P xs of None \<Rightarrow> find P ys | Some x \<Rightarrow> Some x)"
  by (induction xs) auto

lemma first_site_snoc: "first_site P (sites @ [s]) =
    (case first_site P sites of None \<Rightarrow> if P s then Some (length sites) else None | Some i \<Rightarrow> Some i)"
  by (auto simp: first_site_def enumerate_append_eq find_append split: option.splits)

lemma add_names_fields:
  "map_of (by_name (add_names i names r)) n =
     (case map_of (by_name r) n of Some s \<Rightarrow> Some s | None \<Rightarrow> if n \<noteq> [c_star] \<and> n \<in> set names then Some i else None)"
  "default_site (add_names i names r) =
     (case default_site r of Some s \<Rightarrow> Some s | None \<Rightarrow> if [c_star] \<in> set names then Some i else None)"
  by (induction names arbitrary: r) (auto simp: map_add_def split: option.splits)

lemma add_names_entries:
  "distinct (map fst (by_name r)) \<Longrightarrow> distinct (map fst (by_name (add_names i names r)))"
proof (induction names arbitrary: r)
  case (Cons a names)
  then show ?case by (simp add: map_of_eq_None_iff)
qed simp

lemma add_sites_fields:
  "map_of (by_name (add_sites sites)) n = first_site (lists_name n) sites
   \<and> default_site (add_sites sites) = first_site catch_all sites
   \<and> distinct (map fst (by_name (add_sites sites)))
   \<and> (single (add_sites sites) \<longrightarrow> list_all (\<lambda>e. Some (snd e) = default_site (add_sites sites)) (by_name (add_sites sites)))"
proof (induction sites rule: rev_induct)
  case Nil
  then show ?case by (simp add: add_sites_def router_new_def first_site_def)
next
  case (snoc s sites)
  obtain names dflt where s: "s = (names, dflt)" by (cases s)
  let ?r = "add_sites sites" and ?n = "add_names (length sites) names (add_sites sites)"
  have a: "add_sites (sites @ [s]) = add_site (length sites) names dflt ?r"
    by (simp add: add_sites_def enumerate_append_eq s)
  have b: "by_name (add_sites (sites @ [s])) = by_name ?n" by (simp add: a add_site_def Let_def)
  have d: "default_site (add_sites (sites @ [s])) = (if dflt \<and> default_site ?n = None then Some (length sites) else default_site ?n)"
    by (simp add: a add_site_def Let_def)
  have ih: "map_of (by_name ?r) n = first_site (lists_name n) sites" "default_site ?r = first_site catch_all sites"
    using snoc.IH by blast+
  have m: "map_of (by_name (add_sites (sites @ [s]))) n = first_site (lists_name n) (sites @ [s])"
    unfolding b add_names_fields first_site_snoc ih by (simp add: lists_name_def s split: option.split)
  have c: "default_site (add_sites (sites @ [s])) = first_site catch_all (sites @ [s])"
    unfolding d add_names_fields first_site_snoc ih by (simp add: catch_all_def s split: option.split)
  have "distinct (map fst (by_name (add_sites (sites @ [s]))))" unfolding b using snoc.IH add_names_entries by blast
  moreover have "single (add_sites (sites @ [s])) \<longrightarrow>
      list_all (\<lambda>e. Some (snd e) = default_site (add_sites (sites @ [s]))) (by_name (add_sites (sites @ [s])))"
    unfolding b d by (simp add: a add_site_def Let_def)
  ultimately show ?case using m c by blast
qed

text \<open>
  C36. A Host reaches the site that lists it. Whatever sites a listener has, a request is answered by the first
  site listing its host name (port, brackets, trailing dot and case aside), else by the first site that
  says it takes every host, and by none when no site says so: the shortcut for a listener whose names all
  lead to one site changes no answer, and a host name too long to exist reaches only the catch-all.
\<close>

theorem router_site_first:
  "router_site (add_sites sites) host =
     (let h = map lower (strip_dot (strip_port host)) in
      case (if host = [] \<or> length h > 253 then None else first_site (lists_name h) sites) of
        Some i \<Rightarrow> Some i
      | None \<Rightarrow> first_site catch_all sites)"
proof -
  let ?r = "add_sites sites"
  let ?h = "map lower (strip_dot (strip_port host))"
  have nm: "map_of (by_name ?r) n = first_site (lists_name n) sites" for n using add_sites_fields [of sites n] by blast
  have df: "default_site ?r = first_site catch_all sites" using add_sites_fields [of sites "[]"] by blast
  have sg: "first_site catch_all sites = Some i" if "single ?r" "first_site (lists_name n) sites = Some i" for n i
  proof -
    have "(n, i) \<in> set (by_name ?r)" using that(2) by (intro map_of_SomeD) (simp add: nm)
    then have "Some i = default_site ?r" using add_sites_fields [of sites n] that(1) by (auto simp: list_all_iff)
    then show ?thesis by (simp add: df)
  qed
  show ?thesis
  proof (cases "single ?r")
    case True
    then show ?thesis using sg [OF True] by (auto simp: router_site_def df Let_def split: option.splits)
  next
    case False
    then show ?thesis by (auto simp: router_site_def df nm Let_def split: option.split)
  qed
qed


subsection \<open>The location of a path\<close>

definition exact_hit :: "bytes \<Rightarrow> LocationConfig \<Rightarrow> bool" where
  "exact_hit path l \<longleftrightarrow> lc_exact l \<and> (path = lc_path l
     \<or> lc_script_exact l \<and> length path > length (lc_path l) \<and> path ! length (lc_path l) = c_slash \<and> starts_with path (lc_path l))"

definition suffix_fits :: "bytes \<Rightarrow> LocationConfig \<Rightarrow> bool" where
  "suffix_fits path l \<longleftrightarrow> \<not> lc_exact l \<and> lc_suffix l \<and> suffix_hit path (lc_path l)
     \<and> (lc_script_dir l = [] \<or> script_in path (lc_path l) (lc_script_dir l))"

definition prefix_hit :: "bytes \<Rightarrow> LocationConfig \<Rightarrow> bool" where
  "prefix_hit path l \<longleftrightarrow> \<not> lc_exact l \<and> \<not> lc_suffix l \<and> starts_with path (lc_path l)"

lemma location_loop_exact:
  "list_all lc_exact xs \<Longrightarrow>
   location_loop path s (xs @ ys) = (case find (exact_hit path) xs of Some l \<Rightarrow> Some l | None \<Rightarrow> location_loop path s ys)"
  by (induction xs) (auto simp: exact_hit_def)

lemma location_loop_suffix:
  "list_all (\<lambda>l. \<not> lc_exact l \<and> lc_suffix l) xs \<Longrightarrow>
   location_loop path s (xs @ ys) = location_loop path (case s of Some l \<Rightarrow> Some l | None \<Rightarrow> find (suffix_fits path) xs) ys"
  by (induction xs arbitrary: s) (auto simp: suffix_fits_def split: option.split)

lemma location_loop_prefix:
  "list_all (\<lambda>l. \<not> lc_exact l \<and> \<not> lc_suffix l) xs \<Longrightarrow>
   location_loop path s xs =
     (case find (prefix_hit path) xs of Some l \<Rightarrow> if lc_final l \<or> s = None then Some l else s | None \<Rightarrow> s)"
  by (induction xs) (auto simp: prefix_hit_def)

lemma find_filter: "(\<And>x. P x \<Longrightarrow> Q x) \<Longrightarrow> find P (filter Q xs) = find P xs"
  by (induction xs) auto

lemma rank_split:
  "sorted (map loc_rank xs) \<Longrightarrow>
   xs = filter lc_exact xs @ filter (\<lambda>l. \<not> lc_exact l \<and> lc_suffix l) xs @ filter (\<lambda>l. \<not> lc_exact l \<and> \<not> lc_suffix l) xs"
proof (induction xs)
  case (Cons x xs)
  have r: "\<forall>y\<in>set xs. loc_rank x \<le> loc_rank y" using Cons.prems by simp
  have none: "filter P xs = []" if "\<And>y. P y \<Longrightarrow> loc_rank y < loc_rank x" for P
    using r that by (force simp: filter_empty_conv)
  consider "lc_exact x" | "\<not> lc_exact x" "lc_suffix x" | "\<not> lc_exact x" "\<not> lc_suffix x" by blast
  then show ?case
  proof cases
    case 2
    then have "filter lc_exact xs = []" by (intro none) (simp add: loc_rank_def)
    then show ?thesis using Cons 2 by simp
  next
    case 3
    then have "filter lc_exact xs = []" "filter (\<lambda>l. \<not> lc_exact l \<and> lc_suffix l) xs = []" by (intro none; simp add: loc_rank_def)+
    then show ?thesis using Cons 3 by simp
  qed (use Cons in simp)
qed simp

lemma location_cases:
  assumes "sorted (map loc_rank locs)"
  shows "location locs path =
     (case find (exact_hit path) locs of
        Some l \<Rightarrow> l
      | None \<Rightarrow>
          (case find (prefix_hit path) locs of
             Some l \<Rightarrow> if lc_final l then l else (case find (suffix_fits path) locs of Some s \<Rightarrow> s | None \<Rightarrow> l)
           | None \<Rightarrow> (case find (suffix_fits path) locs of Some s \<Rightarrow> s | None \<Rightarrow> last locs)))"
proof -
  let ?E = "filter lc_exact locs" and ?S = "filter (\<lambda>l. \<not> lc_exact l \<and> lc_suffix l) locs"
    and ?P = "filter (\<lambda>l. \<not> lc_exact l \<and> \<not> lc_suffix l) locs"
  have "location_loop path None locs = location_loop path None (?E @ ?S @ ?P)" using rank_split [OF assms] by simp
  also have "\<dots> = (case find (exact_hit path) ?E of Some l \<Rightarrow> Some l
      | None \<Rightarrow> (case find (prefix_hit path) ?P of
            Some l \<Rightarrow> if lc_final l \<or> find (suffix_fits path) ?S = None then Some l else find (suffix_fits path) ?S
          | None \<Rightarrow> find (suffix_fits path) ?S))"
    by (simp add: location_loop_exact location_loop_suffix location_loop_prefix list_all_iff split: option.split)
  also have "find (exact_hit path) ?E = find (exact_hit path) locs" by (rule find_filter) (simp add: exact_hit_def)
  also have "find (suffix_fits path) ?S = find (suffix_fits path) locs" by (rule find_filter) (simp add: suffix_fits_def)
  also have "find (prefix_hit path) ?P = find (prefix_hit path) locs" by (rule find_filter) (simp add: prefix_hit_def)
  finally show ?thesis by (auto simp: location_def split: option.splits)
qed

text \<open>The first hit in a list ordered longest first is a longest one.\<close>

lemma find_longest:
  assumes "sorted (map k xs)" "\<And>x y. P x \<Longrightarrow> P y \<Longrightarrow> k x \<le> k y \<Longrightarrow> length (lc_path y) \<le> length (lc_path x)"
    and "find P xs = Some l" "P x" "x \<in> set xs"
  shows "length (lc_path x) \<le> length (lc_path l)"
  using assms
proof (induction xs)
  case (Cons a xs)
  then show ?case by (cases "P a") auto
qed simp

lemma finalize_sorted:
  "sorted (map (\<lambda>l. (loc_rank l, - int (length (lc_path l)))) (finalize_locations locs))"
  "sorted (map loc_rank (finalize_locations locs))"
proof -
  show s: "sorted (map (\<lambda>l. (loc_rank l, - int (length (lc_path l)))) (finalize_locations locs))"
    by (simp add: finalize_locations_def)
  have "sorted (map fst xs)" if "sorted xs" for xs :: "(nat \<times> int) list"
    using that by (induction xs) (auto simp: less_eq_prod_def)
  from this [OF s] show "sorted (map loc_rank (finalize_locations locs))" by (simp add: comp_def)
qed

lemma find_SomeD: "find P xs = Some l \<Longrightarrow> P l \<and> l \<in> set xs"
  by (induction xs) (auto split: if_splits)

lemma find_first_longest:
  assumes "find P (finalize_locations locs) = Some l" "\<And>x y. P x \<Longrightarrow> P y \<Longrightarrow> loc_rank x = loc_rank y"
  shows "P l \<and> l \<in> mark_script ` set locs \<and> (\<forall>x\<in>mark_script ` set locs. P x \<longrightarrow> length (lc_path x) \<le> length (lc_path l))"
proof -
  have set: "set (finalize_locations locs) = mark_script ` set locs" by (simp add: finalize_locations_def)
  have "length (lc_path y) \<le> length (lc_path x)"
    if "P x" "P y" "(loc_rank x, - int (length (lc_path x))) \<le> (loc_rank y, - int (length (lc_path y)))" for x y
    using that(3) assms(2) [OF that(1,2)] by (simp add: less_eq_prod_def)
  then have "length (lc_path x) \<le> length (lc_path l)" if "x \<in> set (finalize_locations locs)" "P x" for x
    by (rule find_longest [OF finalize_sorted(1) _ assms(1) that(2,1)])
  moreover note find_SomeD [OF assms(1)]
  ultimately show ?thesis unfolding set by blast
qed

text \<open>
  A path reaches the location meant for it. Over the locations of a site as the loader orders them, with
  the implicit prefix location that every path matches: an exact location that names the path, or names
  the script a path-info form of it runs, always wins; otherwise the longest prefix location decides when it is
  \<open>final\<close>, a suffix location (the longest that fits) when there is one, and the longest prefix when not.
  So neither a suffix nor a prefix location ever runs a script an exact location claims, and
  nothing below a \<open>final\<close> prefix is ever taken by a suffix location.
\<close>

theorem location_longest:
  assumes "l0 \<in> set locs" and "prefix_hit path (mark_script l0)"
  defines "ls \<equiv> mark_script ` set locs" and "r \<equiv> location (finalize_locations locs) path"
  defines "best P l \<equiv> P l \<and> l \<in> ls \<and> (\<forall>x\<in>ls. P x \<longrightarrow> length (lc_path x) \<le> length (lc_path l))"
  shows "if \<exists>l\<in>ls. exact_hit path l then best (exact_hit path) r
    else \<exists>p. best (prefix_hit path) p
      \<and> (if lc_final p \<or> \<not> (\<exists>l\<in>ls. suffix_fits path l) then r = p else best (suffix_fits path) r)"
proof -
  let ?L = "finalize_locations locs"
  have set: "set ?L = ls" by (simp add: ls_def finalize_locations_def)
  have none: "find P ?L = None \<longleftrightarrow> \<not> (\<exists>l\<in>ls. P l)" for P by (auto simp: find_None_iff set)
  have ranks: "exact_hit path x \<Longrightarrow> exact_hit path y \<Longrightarrow> loc_rank x = loc_rank y"
    "suffix_fits path x \<Longrightarrow> suffix_fits path y \<Longrightarrow> loc_rank x = loc_rank y"
    "prefix_hit path x \<Longrightarrow> prefix_hit path y \<Longrightarrow> loc_rank x = loc_rank y" for x y
    by (simp_all add: exact_hit_def suffix_fits_def prefix_hit_def loc_rank_def)
  have b: "find (exact_hit path) ?L = Some l \<Longrightarrow> best (exact_hit path) l"
    "find (suffix_fits path) ?L = Some l \<Longrightarrow> best (suffix_fits path) l"
    "find (prefix_hit path) ?L = Some l \<Longrightarrow> best (prefix_hit path) l" for l
    unfolding best_def ls_def by (rule find_first_longest, assumption, rule ranks; assumption)+
  obtain p where p: "find (prefix_hit path) ?L = Some p"
    using assms(1,2) none [of "prefix_hit path"] by (cases "find (prefix_hit path) ?L") (auto simp: ls_def)
  show ?thesis
  proof (cases "find (exact_hit path) ?L")
    case (Some l)
    then have "r = l" by (simp add: r_def location_cases [OF finalize_sorted(2)])
    then show ?thesis using b(1) [OF Some] by (auto simp: best_def)
  next
    case None
    have r: "r = (if lc_final p then p else case find (suffix_fits path) ?L of Some s \<Rightarrow> s | None \<Rightarrow> p)"
      by (simp add: r_def location_cases [OF finalize_sorted(2)] None p)
    show ?thesis
      using b(3) [OF p] b(2) None [unfolded none] none [of "suffix_fits path"]
      by (cases "find (suffix_fits path) ?L") (auto simp: r)
  qed
qed

definition plain_loc :: "bytes \<Rightarrow> LocationConfig" where
  "plain_loc path = \<lparr>lc_path = path, lc_exact = False, lc_script_exact = False, lc_suffix = False, lc_final = False, lc_script_dir = [],
     lc_root = [], lc_alias = [], lc_index = [], lc_kind = hk_static, lc_path_info = False\<rparr>"

lemma location_longest_witness:
  "let locs = [plain_loc (bytes_of ''/''), (plain_loc (bytes_of ''.php''))\<lparr>lc_suffix := True\<rparr>,
       (plain_loc (bytes_of ''/install.php''))\<lparr>lc_exact := True\<rparr>] in
   lc_exact (location (finalize_locations locs) (bytes_of ''/install.php/x''))"
proof -
  define locs where "locs = [plain_loc (bytes_of ''/''), (plain_loc (bytes_of ''.php''))\<lparr>lc_suffix := True\<rparr>,
       (plain_loc (bytes_of ''/install.php''))\<lparr>lc_exact := True\<rparr>]"
  let ?p = "bytes_of ''/install.php/x''" and ?e = "(plain_loc (bytes_of ''/install.php''))\<lparr>lc_exact := True\<rparr>"
  have p: "plain_loc (bytes_of ''/'') \<in> set locs" "prefix_hit ?p (mark_script (plain_loc (bytes_of ''/'')))"
    and e: "?e \<in> set locs" "exact_hit ?p (mark_script ?e)"
    unfolding locs_def by (simp, code_simp, simp, code_simp)
  have "\<exists>l\<in>mark_script ` set locs. exact_hit ?p l" using e by blast
  then have "lc_exact (location (finalize_locations locs) ?p)"
    using location_longest [OF p] by (simp add: exact_hit_def)
  then show ?thesis by (simp add: locs_def Let_def)
qed

end
