(* ===== verification/Site_Access.thy ===== *)
theory Site_Access
  imports Site_Router Net_Cidr Paths
begin

text \<open>
  Access by client address and password (\<^verbatim>\<open>src/core/access.hpp\<close>), and the paths a site keeps out of its logs
  (\<^verbatim>\<open>src/core/log_exclude.hpp\<close>): which rule decides a path, the index that skips the scan, the other ways
  an origin may read the path, the script a path runs, and the decision over all of them. \<open>finalize_rules\<close> is the
  part of the loader (\<^verbatim>\<open>src/config.cpp\<close>, \<open>finalize_site\<close>) that orders the rules and builds what the request
  path reads. The file system (\<open>is_file\<close>) and the ip library are parameters. Theorem: a client is refused
  exactly when some reading of its path, or the script that reading runs, is decided by a rule that
  refuses it.
\<close>

unbundle bit_operations_syntax

record AccessRule =
  ar_path :: bytes
  ar_exact :: bool
  ar_any :: bool
  ar_report :: bool
  ar_allow :: "Cidr list"

record AuthRule =
  au_path :: bytes
  au_exact :: bool
  au_open :: bool

record SiteConfig =
  sc_locations :: "LocationConfig list"
  sc_access :: "AccessRule list"
  sc_access_first :: "u64 list"
  sc_auth :: "AuthRule list"
  sc_auth_first :: "u64 list"
  sc_exact_rules :: bool
  sc_cgi_locations :: bool
  sc_log_exclude :: "bytes list"

definition iequal_prefix :: "bytes \<Rightarrow> bytes \<Rightarrow> bool" where
  "iequal_prefix path prefix =
     (if length path < length prefix then False else list_all (\<lambda>i. lower (path ! i) = lower (prefix ! i)) [0..<length prefix])"

text \<open>A rule by the two fields the matcher reads: whether it is exact, and its path.\<close>

definition covers :: "bool \<Rightarrow> bytes \<Rightarrow> bytes \<Rightarrow> bool" where
  "covers exact rpath path =
     (if exact then length path = length rpath \<and> iequal_prefix path rpath
      else if length rpath = 1 then True
      else iequal_prefix path rpath \<and> (length path = length rpath \<or> path ! length rpath = c_slash))"

definition first_byte :: "bytes \<Rightarrow> byte" where
  "first_byte path = (if length path < 2 then 0 else lower (path ! 1))"

definition mark_first :: "u64 list \<Rightarrow> byte \<Rightarrow> u64 list" where
  "mark_first bits c = (let w = unat (drop_bit 6 c) in bits[w := bits ! w OR push_bit (unat (c AND 63)) 1])"

definition first_marked :: "u64 list \<Rightarrow> byte \<Rightarrow> bool" where
  "first_marked bits c \<longleftrightarrow> drop_bit (unat (c AND 63)) (bits ! unat (drop_bit 6 c)) AND 1 \<noteq> 0"

definition rule_for :: "SiteConfig \<Rightarrow> bytes \<Rightarrow> AccessRule option" where
  "rule_for site path =
     (let c = first_byte path in
      if \<not> first_marked (sc_access_first site) c then None
      else find (\<lambda>r. covers (ar_exact r) (ar_path r) path) (sc_access site))"

definition auth_rule_for :: "SiteConfig \<Rightarrow> bytes \<Rightarrow> AuthRule option" where
  "auth_rule_for site path =
     (let c = first_byte path in
      if \<not> first_marked (sc_auth_first site) c then None
      else find (\<lambda>r. covers (au_exact r) (au_path r) path) (sc_auth site))"

definition admits :: "'a AsioIp \<Rightarrow> AccessRule \<Rightarrow> 'a \<Rightarrow> bool" where
  "admits io r a \<longleftrightarrow> ar_any r \<or> in_any io (ar_allow r) a"

fun strip_params :: "bool \<Rightarrow> bytes \<Rightarrow> bytes" where
  "strip_params skip [] = []"
| "strip_params skip (c # path) =
     (let skip = if c = c_slash then False else if c = c_semi then True else skip in
      if skip then strip_params skip path else c # strip_params skip path)"

definition other_readings :: "bytes \<Rightarrow> bytes list" where
  "other_readings path =
     (if c_semi \<in> set path then (case normalize_target (strip_params False path) of Some (p, _) \<Rightarrow> [p] | None \<Rightarrow> []) else [])
     @ (if c_percent \<in> set path then (case normalize_target path of Some (p, _) \<Rightarrow> [p] | None \<Rightarrow> []) else [])
     @ (case php_end path of Some e \<Rightarrow> [drop e path] | None \<Rightarrow> [])"

definition script_of :: "(bytes \<Rightarrow> bool) \<Rightarrow> SiteConfig \<Rightarrow> bytes \<Rightarrow> bytes option" where
  "script_of is_file site path =
     (if \<not> sc_exact_rules site \<or> path = [] then None
      else let php = php_end path; dir = last path = c_slash in
        if php = None \<and> \<not> dir \<and> \<not> sc_cgi_locations site then None
        else let loc = location (sc_locations site) path in
          if lc_kind loc = hk_fastcgi then
            (case php of
               Some e \<Rightarrow>
                 if lc_path_info loc then Some (take e path)
                 else if \<not> dir then None
                 else Some (path @ (if lc_index loc = [] then bytes_of ''index.php'' else hd (lc_index loc)))
             | None \<Rightarrow>
                 if \<not> dir then None
                 else Some (path @ (if lc_index loc = [] then bytes_of ''index.php'' else hd (lc_index loc))))
          else if lc_kind loc = hk_cgi then
            let out = path @ (if dir then (if lc_index loc = [] then bytes_of ''index.cgi'' else hd (lc_index loc)) else []);
                n = cgi_end is_file loc out in
            if n = 0 then None else if take n out \<noteq> path then Some (take n out) else None
          else None)"

record Decision =
  d_rule :: "AccessRule option"
  d_admitted :: bool

definition refuse :: "Decision \<Rightarrow> bool" where
  "refuse d = (case d_rule d of Some r \<Rightarrow> \<not> ar_report r | None \<Rightarrow> False)"

definition judge :: "'a AsioIp \<Rightarrow> SiteConfig \<Rightarrow> 'a \<Rightarrow> bytes \<Rightarrow> Decision \<Rightarrow> Decision" where
  "judge io site address p d =
     (if refuse d then d
      else case rule_for site p of
        None \<Rightarrow> d
      | Some r \<Rightarrow>
          if ar_any r then d
          else if admits io r address then (if \<not> ar_report r then d\<lparr>d_admitted := True\<rparr> else d)
          else if d_rule d = None \<or> \<not> ar_report r then d\<lparr>d_rule := Some r\<rparr>
          else d)"

definition judge_all :: "'a AsioIp \<Rightarrow> (bytes \<Rightarrow> bool) \<Rightarrow> SiteConfig \<Rightarrow> 'a \<Rightarrow> bytes \<Rightarrow> Decision \<Rightarrow> Decision" where
  "judge_all io is_file site address p d =
     (let d = judge io site address p d in
      if \<not> refuse d then (case script_of is_file site p of Some script \<Rightarrow> judge io site address script d | None \<Rightarrow> d) else d)"

definition decide :: "'a AsioIp \<Rightarrow> (bytes \<Rightarrow> bool) \<Rightarrow> SiteConfig \<Rightarrow> bytes \<Rightarrow> 'a \<Rightarrow> Decision" where
  "decide io is_file site path address =
     (let d = judge_all io is_file site address path \<lparr>d_rule = None, d_admitted = False\<rparr> in
      fold (judge_all io is_file site address) (other_readings path) d)"

definition auth_judge :: "SiteConfig \<Rightarrow> bytes \<Rightarrow> AuthRule option \<Rightarrow> AuthRule option" where
  "auth_judge site p found =
     (if found \<noteq> None then found
      else case auth_rule_for site p of None \<Rightarrow> None | Some r \<Rightarrow> if \<not> au_open r then Some r else None)"

definition auth_judge_all :: "(bytes \<Rightarrow> bool) \<Rightarrow> SiteConfig \<Rightarrow> bytes \<Rightarrow> AuthRule option \<Rightarrow> AuthRule option" where
  "auth_judge_all is_file site p found =
     (let found = auth_judge site p found in
      if found = None then (case script_of is_file site p of Some script \<Rightarrow> auth_judge site script found | None \<Rightarrow> found) else found)"

definition auth_protecting_rule :: "(bytes \<Rightarrow> bool) \<Rightarrow> SiteConfig \<Rightarrow> bytes \<Rightarrow> AuthRule option" where
  "auth_protecting_rule is_file site path =
     (let found = auth_judge_all is_file site path None in
      if found = None then fold (auth_judge_all is_file site) (other_readings path) found else found)"

text \<open>What the loader prepares: the rules longest first, exact first among equals, and their index.\<close>

definition rule_index :: "(bool \<times> bytes) list \<Rightarrow> u64 list" where
  "rule_index rules =
     fold (\<lambda>(exact, path) bits. if \<not> exact \<and> path = [c_slash] then replicate 4 (NOT 0) else mark_first bits (first_byte path))
       rules (replicate 4 0)"

definition sort_access :: "AccessRule list \<Rightarrow> AccessRule list" where
  "sort_access rules = sort_key (\<lambda>r. (- int (length (ar_path r)), \<not> ar_exact r)) rules"

definition sort_auth :: "AuthRule list \<Rightarrow> AuthRule list" where
  "sort_auth rules = sort_key (\<lambda>r. (- int (length (au_path r)), \<not> au_exact r)) rules"

definition finalize_rules :: "SiteConfig \<Rightarrow> SiteConfig" where
  "finalize_rules site =
     (let access = sort_access (sc_access site); auth = sort_auth (sc_auth site) in
      site\<lparr>sc_access := access, sc_access_first := rule_index (map (\<lambda>r. (ar_exact r, ar_path r)) access),
           sc_auth := auth, sc_auth_first := rule_index (map (\<lambda>r. (au_exact r, au_path r)) auth),
           sc_exact_rules := (list_ex (\<lambda>r. ar_exact r \<and> \<not> ar_any r) access \<or> list_ex (\<lambda>r. au_exact r \<and> \<not> au_open r) auth),
           sc_cgi_locations := list_ex (\<lambda>l. lc_kind l = hk_cgi) (sc_locations site),
           sc_locations := finalize_locations (sc_locations site)\<rparr>)"

text \<open>Paths kept out of the logs.\<close>

definition log_covers :: "bytes \<Rightarrow> bytes \<Rightarrow> bool" where
  "log_covers prefix path =
     (if length path < length prefix \<or> take (length prefix) path \<noteq> prefix then False
      else length path = length prefix \<or> last prefix = c_slash \<or> path ! length prefix = c_slash)"

definition log_covered :: "bytes list \<Rightarrow> bytes \<Rightarrow> bool" where
  "log_covered prefixes path = list_ex (\<lambda>p. log_covers p path) prefixes"

definition excluded :: "SiteConfig option \<Rightarrow> bytes \<Rightarrow> bool" where
  "excluded site target =
     (case site of
        None \<Rightarrow> False
      | Some s \<Rightarrow>
          if sc_log_exclude s = [] then False
          else case normalize_target target of None \<Rightarrow> False | Some (p, _) \<Rightarrow> log_covered (sc_log_exclude s) p)"


subsection \<open>The index hides no rule\<close>

lemma marked_bit: "first_marked bits c \<longleftrightarrow> bit (bits ! unat (drop_bit 6 c)) (unat (c AND 63))"
  by (simp add: first_marked_def and_one_eq odd_iff_mod_2_eq_one bit_iff_odd_drop_bit)

lemma byte_slot: "unat (drop_bit 6 c) < 4" "unat (c AND 63) < 64" for c :: byte
proof -
  have "unat c < 256" using unsigned_less [of c] by simp
  then show "unat (drop_bit 6 c) < 4" by (simp add: unat_drop_bit)
  have "c AND 63 = take_bit 6 c" by (simp add: take_bit_eq_mask mask_eq_exp_minus_1)
  then show "unat (c AND 63) < 64" by (simp add: unat_take_bit)
qed

lemma mark_first_marked:
  assumes "length bits = 4"
  shows "first_marked (mark_first bits c) c" and "first_marked bits d \<Longrightarrow> first_marked (mark_first bits c) d"
    and "length (mark_first bits c) = 4"
  using assms byte_slot [of c] byte_slot [of d]
  by (auto simp: marked_bit mark_first_def Let_def nth_list_update bit_simps)

lemma all_marked: "first_marked (replicate 4 (NOT 0)) c"
  using byte_slot [of c] by (simp add: marked_bit bit_simps)

lemma rule_index_snoc:
  "rule_index (rules @ [(e, p)]) =
     (if \<not> e \<and> p = [c_slash] then replicate 4 (NOT 0) else mark_first (rule_index rules) (first_byte p))"
  by (simp add: rule_index_def)

lemma rule_index_length: "length (rule_index rules) = 4"
proof (induction rules rule: rev_induct)
  case (snoc x rules)
  then show ?case by (cases x) (simp add: rule_index_snoc mark_first_marked(3))
qed (simp add: rule_index_def)

lemma rule_index_complete:
  "(e, p) \<in> set rules \<Longrightarrow> \<not> e \<and> p = [c_slash] \<or> c = first_byte p \<Longrightarrow> first_marked (rule_index rules) c"
proof (induction rules rule: rev_induct)
  case (snoc x rules)
  obtain e' p' where x: "x = (e', p')" by (cases x)
  note l = rule_index_length [of rules]
  show ?case
  proof (cases "\<not> e' \<and> p' = [c_slash]")
    case True
    then show ?thesis using all_marked [of c] by (simp add: x rule_index_snoc)
  next
    case False
    then show ?thesis
      using snoc mark_first_marked [OF l] by (auto simp: x rule_index_snoc)
  qed
qed simp

lemma iequal_prefix_nth: "iequal_prefix path p \<Longrightarrow> i < length p \<Longrightarrow> i < length path \<and> lower (path ! i) = lower (p ! i)"
  by (auto simp: iequal_prefix_def list_all_iff split: if_splits)

lemma covers_first:
  assumes "covers e p path" "p \<noteq> []" "hd p = c_slash"
  shows "\<not> e \<and> p = [c_slash] \<or> first_byte path = first_byte p"
proof (cases "length p < 2")
  case True
  then have p: "p = [c_slash]" using assms(2,3) by (cases p) auto
  then show ?thesis using assms(1) by (auto simp: covers_def first_byte_def split: if_splits)
next
  case False
  then have "iequal_prefix path p" using assms(1) by (auto simp: covers_def split: if_splits)
  from iequal_prefix_nth [OF this, of 1] False show ?thesis by (simp add: first_byte_def)
qed

text \<open>Every rule's path begins with a slash, as the loader requires.\<close>

definition rooted :: "bytes \<Rightarrow> bool" where
  "rooted p \<longleftrightarrow> p \<noteq> [] \<and> hd p = c_slash"

lemma indexed_find:
  assumes "\<forall>r\<in>set rules. rooted (path_of r)"
    and "bits = rule_index (map (\<lambda>r. (exact_of r, path_of r)) rules)"
  shows "(if \<not> first_marked bits (first_byte p) then None else find (\<lambda>r. covers (exact_of r) (path_of r) p) rules)
    = find (\<lambda>r. covers (exact_of r) (path_of r) p) rules"
proof (cases "find (\<lambda>r. covers (exact_of r) (path_of r) p) rules")
  case (Some r)
  from find_SomeD [OF Some] have r: "covers (exact_of r) (path_of r) p" "r \<in> set rules" by auto
  have "(exact_of r, path_of r) \<in> set (map (\<lambda>r. (exact_of r, path_of r)) rules)" using r by auto
  then have "first_marked bits (first_byte p)"
    unfolding assms(2) by (rule rule_index_complete) (use covers_first [OF r(1)] assms(1) r(2) in \<open>auto simp: rooted_def\<close>)
  then show ?thesis by simp
qed simp

definition deciding :: "AccessRule list \<Rightarrow> bytes \<Rightarrow> AccessRule option" where
  "deciding rules p = find (\<lambda>r. covers (ar_exact r) (ar_path r) p) (sort_access rules)"

definition auth_deciding :: "AuthRule list \<Rightarrow> bytes \<Rightarrow> AuthRule option" where
  "auth_deciding rules p = find (\<lambda>r. covers (au_exact r) (au_path r) p) (sort_auth rules)"

lemma rule_for_finalized:
  "\<forall>r\<in>set (sc_access site). rooted (ar_path r) \<Longrightarrow> rule_for (finalize_rules site) p = deciding (sc_access site) p"
proof -
  assume "\<forall>r\<in>set (sc_access site). rooted (ar_path r)"
  then have "\<forall>r\<in>set (sort_access (sc_access site)). rooted (ar_path r)" by (simp add: sort_access_def)
  from indexed_find [OF this refl, of ar_exact p] show ?thesis
    by (simp add: rule_for_def finalize_rules_def deciding_def Let_def split: if_splits)
qed

lemma auth_rule_for_finalized:
  "\<forall>r\<in>set (sc_auth site). rooted (au_path r) \<Longrightarrow> auth_rule_for (finalize_rules site) p = auth_deciding (sc_auth site) p"
proof -
  assume "\<forall>r\<in>set (sc_auth site). rooted (au_path r)"
  then have "\<forall>r\<in>set (sort_auth (sc_auth site)). rooted (au_path r)" by (simp add: sort_auth_def)
  from indexed_find [OF this refl, of au_exact p] show ?thesis
    by (simp add: auth_rule_for_def finalize_rules_def auth_deciding_def Let_def split: if_splits)
qed

text \<open>The deciding rule is a longest one that covers the path.\<close>

lemma find_sorted_least:
  "sorted (map k xs) \<Longrightarrow> find P xs = Some l \<Longrightarrow> x \<in> set xs \<Longrightarrow> P x \<Longrightarrow> k l \<le> k x"
proof (induction xs)
  case (Cons a xs)
  then show ?case by (cases "P a") auto
qed simp

lemma deciding_longest:
  assumes "deciding rules p = Some r" "x \<in> set rules" "covers (ar_exact x) (ar_path x) p"
  shows "length (ar_path x) \<le> length (ar_path r)"
proof -
  let ?k = "\<lambda>r. (- int (length (ar_path r)), \<not> ar_exact r)"
  have "?k r \<le> ?k x"
    by (rule find_sorted_least [OF _ assms(1) [unfolded deciding_def]])
      (simp_all add: sort_access_def assms(2,3))
  then show ?thesis by (auto simp: less_eq_prod_def)
qed


subsection \<open>Every reading is judged\<close>

text \<open>
  What both decisions share: a verdict, once given, stays, and a reading gives one exactly when it is
  bad, whatever was judged before.
\<close>

locale reading_judge =
  fixes given :: "'d \<Rightarrow> bool"
    and judge_one :: "bytes \<Rightarrow> 'd \<Rightarrow> 'd"
    and bad :: "bytes \<Rightarrow> bool"
  assumes judge_given: "given (judge_one p d) \<longleftrightarrow> given d \<or> bad p"
begin

lemma given_fold: "given (fold judge_one ps d) \<longleftrightarrow> given d \<or> (\<exists>p\<in>set ps. bad p)"
  by (induction ps arbitrary: d) (auto simp: judge_given)

end

definition bad_reading :: "'a AsioIp \<Rightarrow> SiteConfig \<Rightarrow> 'a \<Rightarrow> bytes \<Rightarrow> bool" where
  "bad_reading io site a p \<longleftrightarrow> (\<exists>r. rule_for site p = Some r \<and> \<not> ar_any r \<and> \<not> ar_report r \<and> \<not> in_any io (ar_allow r) a)"

definition locked_reading :: "SiteConfig \<Rightarrow> bytes \<Rightarrow> bool" where
  "locked_reading site p \<longleftrightarrow> (\<exists>r. auth_rule_for site p = Some r \<and> \<not> au_open r)"

definition or_script :: "(bytes \<Rightarrow> bool) \<Rightarrow> SiteConfig \<Rightarrow> (bytes \<Rightarrow> bool) \<Rightarrow> bytes \<Rightarrow> bool" where
  "or_script is_file site P p \<longleftrightarrow> P p \<or> (\<exists>s. script_of is_file site p = Some s \<and> P s)"

lemma judge_refuse: "refuse (judge io site a p d) \<longleftrightarrow> refuse d \<or> bad_reading io site a p"
  by (cases "rule_for site p") (auto simp: judge_def bad_reading_def refuse_def admits_def split: option.splits)

lemma auth_judge_found: "auth_judge site p found \<noteq> None \<longleftrightarrow> found \<noteq> None \<or> locked_reading site p"
  by (cases "auth_rule_for site p"; cases found) (auto simp: auth_judge_def locked_reading_def)

interpretation acc: reading_judge refuse "judge_all io is_file site a" "or_script is_file site (bad_reading io site a)"
  for io is_file site a
  by unfold_locales (auto simp: judge_all_def judge_refuse or_script_def Let_def split: option.split)

interpretation pwd: reading_judge "\<lambda>found. found \<noteq> None" "auth_judge_all is_file site" "or_script is_file site (locked_reading site)"
  for is_file site
proof
  fix p found
  show "auth_judge_all is_file site p found \<noteq> None \<longleftrightarrow> found \<noteq> None \<or> or_script is_file site (locked_reading site) p"
    using auth_judge_found [of site p found] auth_judge_found [of site _ None]
    by (auto simp: auth_judge_all_def or_script_def Let_def split: option.split)
qed

text \<open>The paths a request is judged on: its readings and the scripts they run.\<close>

definition judged :: "(bytes \<Rightarrow> bool) \<Rightarrow> SiteConfig \<Rightarrow> bytes \<Rightarrow> bytes set" where
  "judged is_file site path =
     (let ps = set (path # other_readings path) in ps \<union> {s. \<exists>p\<in>ps. script_of is_file site p = Some s})"

lemma judged_ex: "(\<exists>p\<in>judged is_file site path. P p) \<longleftrightarrow> (\<exists>p\<in>set (path # other_readings path). or_script is_file site P p)"
  by (auto simp: judged_def or_script_def Let_def)

lemma decide_refuse: "refuse (decide io is_file site path a) \<longleftrightarrow> (\<exists>p\<in>judged is_file site path. bad_reading io site a p)"
proof -
  have "decide io is_file site path a = fold (judge_all io is_file site a) (path # other_readings path) \<lparr>d_rule = None, d_admitted = False\<rparr>"
    by (simp add: decide_def Let_def)
  then show ?thesis using acc.given_fold [where ps = "path # other_readings path" and d = "\<lparr>d_rule = None, d_admitted = False\<rparr>"]
    by (simp only: judged_ex) (simp add: refuse_def)
qed

lemma auth_protecting: "auth_protecting_rule is_file site path \<noteq> None \<longleftrightarrow> (\<exists>p\<in>judged is_file site path. locked_reading site p)"
proof -
  have "auth_protecting_rule is_file site path \<noteq> None \<longleftrightarrow> fold (auth_judge_all is_file site) (path # other_readings path) None \<noteq> None"
    using pwd.given_fold [where is_file = is_file and site = site and ps = "other_readings path"]
    by (auto simp: auth_protecting_rule_def Let_def)
  then show ?thesis using pwd.given_fold [where ps = "path # other_readings path" and d = None] by (simp only: judged_ex) simp
qed

text \<open>
  C7. No reading of a path slips past the rules. For a site as the loader prepares it, a client is refused
  exactly when the path, one of its other readings (parameters stripped, decoded again, the part after
  a script) or the script one of these runs is decided by a rule that is not open to all, not
  in report mode, and lists no range the client is in; and a password is asked exactly when one of them is
  decided by a password rule that is not open. The deciding rule is the longest that covers the path:
  neither the index of first bytes nor the order of judging ever loses a refusal.
\<close>

theorem access_judges_every_reading:
  assumes "\<forall>r\<in>set (sc_access conf). rooted (ar_path r)" and "\<forall>r\<in>set (sc_auth conf). rooted (au_path r)"
  defines "site \<equiv> finalize_rules conf"
  shows "(refuse (decide io is_file site path a) \<longleftrightarrow>
      (\<exists>p\<in>judged is_file site path. \<exists>r. deciding (sc_access conf) p = Some r
         \<and> \<not> ar_any r \<and> \<not> ar_report r \<and> \<not> (\<exists>c\<in>set (ar_allow r). cidr_contains io c a)))
    \<and> (auth_protecting_rule is_file site path \<noteq> None \<longleftrightarrow>
      (\<exists>p\<in>judged is_file site path. \<exists>r. auth_deciding (sc_auth conf) p = Some r \<and> \<not> au_open r))
    \<and> (\<forall>p r x. deciding (sc_access conf) p = Some r \<longrightarrow> x \<in> set (sc_access conf) \<longrightarrow> covers (ar_exact x) (ar_path x) p
         \<longrightarrow> length (ar_path x) \<le> length (ar_path r))"
  unfolding decide_refuse auth_protecting bad_reading_def locked_reading_def in_any_iff site_def
    rule_for_finalized [OF assms(1)] auth_rule_for_finalized [OF assms(2)]
  using deciding_longest by blast

lemma access_judges_every_reading_witness:
  "let conf = \<lparr>sc_locations = [plain_loc (bytes_of ''/'')],
       sc_access = [\<lparr>ar_path = bytes_of ''/admin'', ar_exact = False, ar_any = False, ar_report = False, ar_allow = []\<rparr>],
       sc_access_first = [], sc_auth = [], sc_auth_first = [], sc_exact_rules = False, sc_cgi_locations = False, sc_log_exclude = []\<rparr> in
   refuse (decide raw_ip (\<lambda>f. False) (finalize_rules conf) (bytes_of ''/x/..;a/ADMIN'') [10, 0, 0, 1])"
proof -
  define r where "r = \<lparr>ar_path = bytes_of ''/admin'', ar_exact = False, ar_any = False, ar_report = False, ar_allow = []\<rparr>"
  define conf where "conf = \<lparr>sc_locations = [plain_loc (bytes_of ''/'')], sc_access = [r],
       sc_access_first = [], sc_auth = [], sc_auth_first = [], sc_exact_rules = False, sc_cgi_locations = False, sc_log_exclude = []\<rparr>"
  have rooted: "\<forall>r\<in>set (sc_access conf). rooted (ar_path r)" "\<forall>r\<in>set (sc_auth conf). rooted (au_path r)"
    by (simp_all add: conf_def r_def rooted_def)
  have "bytes_of ''/ADMIN'' \<in> set (other_readings (bytes_of ''/x/..;a/ADMIN''))" by code_simp
  then have j: "bytes_of ''/ADMIN'' \<in> judged (\<lambda>f. False) (finalize_rules conf) (bytes_of ''/x/..;a/ADMIN'')"
    by (simp add: judged_def Let_def)
  have "deciding (sc_access conf) (bytes_of ''/ADMIN'') = Some r" unfolding conf_def r_def by code_simp
  moreover have "\<not> ar_any r" "\<not> ar_report r" "ar_allow r = []" by (simp_all add: r_def)
  ultimately have "refuse (decide raw_ip (\<lambda>f. False) (finalize_rules conf) (bytes_of ''/x/..;a/ADMIN'') [10, 0, 0, 1])"
    using access_judges_every_reading [OF rooted, of raw_ip "\<lambda>f. False" "bytes_of ''/x/..;a/ADMIN''" "[10, 0, 0, 1]"] j
    by (metis empty_iff list.set(1))
  then show ?thesis by (simp add: conf_def r_def Let_def)
qed

end
