(* ===== verification/Spec2Isabelle.thy ===== *)
theory Spec2Isabelle
  imports Prelude Wire_Codec Paths Varint Chunked Range_Set H2_Frame Dynamic_Table Huffman Field_Int Hpack_Proof
    Quic_Frames Timer_Heap Http1_Parser Http_Range Recovery_Accounts Transport_Params Quic_Stream Send_Accounts H3_Answers Net_Cidr Forwarded
    Site_Router Site_Access
begin

text \<open>
  Agensio is a web server in C++: an event loop per core over Asio, its own HTTP/1.1, HTTP/2 and
  HTTP/3 (QUIC) layers, and in front of the handlers a router and per-site rules. This development models
  the code between the sockets and the handlers, which reads what a client sends and decides what it
  may reach: the parsers, codecs and tables of the three protocols, QUIC's loss recovery and timers, and the
  routing and access decisions. Every definition translates the code named with it; a byte is an
  8 bit word, a fixed-width integer a word of its width where it may wrap, a view or a string the list of its bytes,
  an in/out parameter an argument and a result, an error a value.

  \<^bold>\<open>How a request meets the parts.\<close> HTTP/1 bytes go through \<^verbatim>\<open>Http1_Parser\<close>, which frames the body for
  \<^verbatim>\<open>Chunked\<close>; HTTP/2 bytes are cut into frames (\<^verbatim>\<open>H2_Frame\<close>) whose header blocks HPACK decodes
  (\<^verbatim>\<open>Hpack\<close> over \<^verbatim>\<open>Huffman\<close>, \<^verbatim>\<open>Field_Int\<close> and \<^verbatim>\<open>Dynamic_Table\<close>); QUIC datagrams are parsed as packets
  (\<^verbatim>\<open>Quic_Packet\<close>) and frames (\<^verbatim>\<open>Quic_Frames\<close>, over \<^verbatim>\<open>Varint\<close>), acknowledgements go to \<^verbatim>\<open>Quic_Recovery\<close>
  (which keeps received numbers in \<^verbatim>\<open>Range_Set\<close>), stream data to \<^verbatim>\<open>Quic_Stream\<close> and
  deadlines to \<^verbatim>\<open>Timer_Heap\<close>; an HTTP/3 answer's head is written by \<^verbatim>\<open>Qpack\<close> and leaves through \<^verbatim>\<open>Quic_Send\<close>. \<^verbatim>\<open>Forwarded\<close> finds the
  client behind trusted proxies. The target is cleaned by \<^verbatim>\<open>Paths\<close>, the Host and the cleaned path are routed by \<^verbatim>\<open>Site_Router\<close>, and \<^verbatim>\<open>Site_Access\<close> decides
  over the path's readings with the ranges of \<^verbatim>\<open>Net_Cidr\<close>; a file answer's range is \<^verbatim>\<open>Http_Range\<close>.

  \<^bold>\<open>The theories.\<close>
  \<^item> \<^verbatim>\<open>Prelude\<close>: bytes, searches in views, splitting, big-endian words, facts on words, sums over a finite map.
  \<^item> \<^verbatim>\<open>Wire_Codec\<close>: the locale \<open>wire_codec\<close>, the contract of a self-delimiting format; interpreted for varints,
    HPACK integers and HTTP/2 frames, whose streams then read back by one lemma.
  \<^item> \<^verbatim>\<open>Paths\<close> (\<^verbatim>\<open>src/path.cpp\<close>): \<open>normalize_target\<close> works in place in one buffer; it equals the
    resolution of the segments on a stack, its result never leaves the root and is a fixed point.
  \<^item> \<^verbatim>\<open>Http_Text\<close>, \<^verbatim>\<open>Http1_Parser\<close>, \<^verbatim>\<open>Http_Range\<close> (\<^verbatim>\<open>src/core/strings.hpp\<close>, \<^verbatim>\<open>headers.hpp\<close>, \<^verbatim>\<open>request.hpp\<close>,
    \<^verbatim>\<open>src/http1/parser.cpp\<close>, \<^verbatim>\<open>range.hpp\<close>): an accepted head has one unambiguous body length, the verdict on
    a prefix is final, and a range lies inside the file.
  \<^item> \<^verbatim>\<open>Chunked\<close> (\<^verbatim>\<open>src/http1/chunked.hpp\<close>): decoding in pieces equals decoding at once, whatever
    the pieces; every limit holds; encoded chunks are read back.
  \<^item> \<^verbatim>\<open>H2_Frame\<close> (\<^verbatim>\<open>src/http2/frame.hpp\<close>, \<^verbatim>\<open>settings.hpp\<close>): frames and control frames read back, and
    settings stay in their legal ranges.
  \<^item> \<^verbatim>\<open>Huffman_Tables\<close>, \<^verbatim>\<open>Huffman\<close>, \<^verbatim>\<open>Field_Int\<close>, \<^verbatim>\<open>Dynamic_Table\<close>, \<^verbatim>\<open>Hpack_Static\<close>, \<^verbatim>\<open>Hpack\<close>, \<^verbatim>\<open>Hpack_Proof\<close>
    (\<^verbatim>\<open>src/http/field_codec.*\<close>, \<^verbatim>\<open>codec_tables.hpp\<close>, \<^verbatim>\<open>src/http2/hpack.*\<close>): the table-driven decoder is the prefix code,
    the byte ring is the list of entries (locale \<open>field_table\<close>), and a session of header blocks is decoded as it was
    encoded, whatever size updates the peers exchange.
  \<^item> \<^verbatim>\<open>Varint\<close>, \<^verbatim>\<open>Quic_Packet\<close>, \<^verbatim>\<open>Quic_Frames\<close>, \<^verbatim>\<open>Transport_Params\<close> (the files of the same names under
    \<^verbatim>\<open>src/quic/\<close>): round trips, and what a hostile peer's bytes can produce.
  \<^item> \<^verbatim>\<open>Range_Set\<close> (\<^verbatim>\<open>src/quic/range_set.hpp\<close>): the locale \<open>interval_set\<close>; the vector of ranges is the canonical
    form of the set it stands for.
  \<^item> \<^verbatim>\<open>Timer_Heap\<close> (\<^verbatim>\<open>src/quic/timer_heap.hpp\<close>, \<open>schedule\<close> and the timer callback of \<^verbatim>\<open>udp.hpp\<close>): the heap with
    the indices it keeps in the connections is a finite map of deadlines (locale \<open>deadline_queue\<close>); the
    worker, an inductive set of reachable states, never sleeps past one.
  \<^item> \<^verbatim>\<open>Quic_Recovery\<close>, \<^verbatim>\<open>Recovery_Accounts\<close> (\<^verbatim>\<open>src/quic/recovery.hpp\<close>): the growing ring is a finite map from packet
    numbers (locale \<open>sent_store\<close>); over all reachable states the flight accounts are exact, and an ACK
    frame removes exactly what it covers and what it shows lost.
  \<^item> \<^verbatim>\<open>Quic_Stream\<close> (\<^verbatim>\<open>src/quic/stream.hpp\<close> and its handlers in \<^verbatim>\<open>connection.hpp\<close>): what arrives on a stream is read
    exactly and in order, over all reachable receive states; a closed stream stays closed; and how a window that
    shrinks takes back credit.
  \<^item> \<^verbatim>\<open>Quic_Ready\<close>, \<^verbatim>\<open>Quic_Send\<close>, \<^verbatim>\<open>Send_Accounts\<close> (the sending half of \<^verbatim>\<open>stream.hpp\<close>, and of \<^verbatim>\<open>connection.hpp\<close> the ready
    list, \<open>copy_stream_bytes\<close>, the stream part of \<open>build_packet\<close>, \<open>apply_acked\<close>, \<open>apply_lost\<close>, credit, reset and close): the
    list linked through pooled objects is a queue (locale \<open>ready_queue\<close>), frames carry the answer's bytes,
    and over all states of a connection that has not reset a stream of the ready list, nor failed to seal a packet, no byte is
    forgotten and no limit exceeded; such a reset is shown to break the list.
  \<^item> \<^verbatim>\<open>Qpack_Static\<close>, \<^verbatim>\<open>Qpack\<close>, \<^verbatim>\<open>Qpack_Proof\<close>, \<^verbatim>\<open>Qpack_Encoder\<close> (\<^verbatim>\<open>src/http3/qpack_tables.hpp\<close>, \<^verbatim>\<open>qpack.*\<close>): the field lines, the
    decoder with its table and instruction streams, and the encoder; each line the encoder writes is read as the field meant, the
    encoder stream is the same in any pieces, and the encoder's table mirrors what its inserts make of the client's.
  \<^item> \<^verbatim>\<open>H3_Frame\<close>, \<^verbatim>\<open>H3_Qpack\<close>, \<^verbatim>\<open>H3_Session\<close>, \<^verbatim>\<open>H3_Answers\<close> (\<^verbatim>\<open>src/http3/frame.hpp\<close>, and of \<^verbatim>\<open>http3/connection.hpp\<close> \<open>apply_settings\<close>,
    \<open>build_head\<close>, the decoder stream and \<open>close_stream\<close>): settings, answers, acknowledgements, cancellations and closed streams in any order, as an
    inductive predicate; every pending answer can be read by a client with any beginning of the encoder stream, the table and the references stay
    within their bounds, and two runs in which the encoder loses an answer of a client that acknowledges nothing.
  \<^item> \<^verbatim>\<open>Forwarded\<close> (\<^verbatim>\<open>src/core/forwarded.hpp\<close>): the client is the rightmost hop that is not trusted.
  \<^item> \<^verbatim>\<open>Net_Cidr\<close>, \<^verbatim>\<open>Site_Router\<close>, \<^verbatim>\<open>Site_Access\<close> (\<^verbatim>\<open>src/net/cidr.hpp\<close>, \<^verbatim>\<open>src/core/router.*\<close>, \<^verbatim>\<open>host.hpp\<close>,
    \<^verbatim>\<open>script_split.hpp\<close>, \<^verbatim>\<open>access.hpp\<close>, \<^verbatim>\<open>log_exclude.hpp\<close>, part of \<open>finalize_site\<close> in \<^verbatim>\<open>config.cpp\<close>): a range is its
    prefix, a Host and a path reach the site and location meant, and no reading of a path slips past the access
    and password rules (locale \<open>reading_judge\<close>, interpreted for both decisions).

  \<^bold>\<open>Loops and bounds.\<close> Every loop is a total function, by structural recursion or with a measure: the bytes left, the distance
  to an end, the numbers between the oldest and the next packet. The Huffman decoder, the timer callback and the
  frame readers return \<open>None\<close> or an error value only where the code does; that the timer callback's loop ends is
  part of its theorem. Packet numbers, byte counters, insert counts and sequence numbers that count what one connection ever sent are natural
  numbers; every other integer keeps its width.

  \<^bold>\<open>Parameters.\<close> The sink of the HPACK and QPACK decoders, the text of a date, what \<open>pread\<close> answers (\<open>reads_ok\<close>: bytes of the file, when it succeeds), the ip library's addresses (\<open>AsioIp\<close>, with \<open>asio_ok\<close> its documented
  behaviour) and the existence of files are arguments of the definitions that use them.

  \<^bold>\<open>Not modelled.\<close> The connections that drive these parts from socket callbacks (\<^verbatim>\<open>http1/connection.hpp\<close>,
  \<^verbatim>\<open>http2/connection.hpp\<close>, most of \<^verbatim>\<open>http3/connection.hpp\<close>, \<^verbatim>\<open>quic/connection.hpp\<close> and \<^verbatim>\<open>quic/udp.hpp\<close>); TLS and cryptography, which are OpenSSL's; the handlers, upstream
  clients, file cache and compression, which are I/O; the configuration reader; and the control plane and
  services, which administer files and other processes.
\<close>

end
